(* ===== verification/Prelude.thy ===== *)
theory Prelude
  imports Main "HOL-Library.Word"
begin

text \<open>
  Shared ground of the development: the machine integers the engine's C code uses, the bit
  macros of \<open>js/src/jstypes.h\<close>, and generic facts about words and lists that several
  components need.  A C computation that has no defined result (undefined behaviour, a read
  outside an allocation, a loop that does not end) is the value \<open>None\<close> of an outer
  \<open>option\<close>; an error the code reports is a value of the component's own result type.
\<close>

unbundle bit_operations_syntax

named_theorems word_facts \<open>facts that move word arithmetic to \<open>nat\<close>\<close>
named_theorems step_simps \<open>unfolding rules of the small C macros\<close>

type_synonym u8 = "8 word"
type_synonym jschar = "16 word"
type_synonym u32 = "32 word"
type_synonym u64 = "64 word"

subsection \<open>Bit macros\<close>

text \<open>
  \<open>JS_BIT(n)\<close> is \<open>(JSUint32)1 << n\<close> and \<open>JS_BITMASK(n)\<close> is \<open>JS_BIT(n) - 1\<close>.  Shifting by the
  width or more is undefined in C; the callers below guard against it.
\<close>

definition JS_BIT :: "nat \<Rightarrow> u32" where
  "JS_BIT n = push_bit n 1"

definition JS_BITMASK :: "nat \<Rightarrow> u32" where
  "JS_BITMASK n = JS_BIT n - 1"

lemma unat_push_bit_1: "n < LENGTH('a) \<Longrightarrow> unat (push_bit n (1 :: 'a::len word)) = 2 ^ n"
  by (simp add: unsigned_push_bit_eq take_bit_push_bit push_bit_eq_mult [of n "1::nat"] del: push_bit_of_1)

lemma unat_JS_BIT [word_facts]: "n < 32 \<Longrightarrow> unat (JS_BIT n) = 2 ^ n"
  by (simp add: JS_BIT_def unat_push_bit_1 del: push_bit_of_1)

lemma JS_BITMASK_mask: "JS_BITMASK n = mask n"
  by (simp add: JS_BITMASK_def JS_BIT_def mask_eq_decr_exp push_bit_eq_mult)

lemma and_JS_BITMASK: "w AND JS_BITMASK n = take_bit n w"
  by (simp add: JS_BITMASK_mask take_bit_eq_mask)

subsection \<open>Words\<close>

lemma unat_drop_bit [word_facts]: "unat (drop_bit n w) = unat w div 2 ^ n"
  by (simp only: unat_drop_bit_eq) (simp add: drop_bit_eq_div)

lemma unat_take_bit [word_facts]: "unat (take_bit n w) = unat w mod 2 ^ n"
  by (simp only: unsigned_take_bit_eq) (simp add: take_bit_eq_mod)

lemma unat_and_mask [word_facts]: "unat (w AND mask n) = unat w mod 2 ^ n"
  by (simp only: unat_take_bit [symmetric] take_bit_eq_mask)

lemma unat_push_bit [word_facts]:
  "unat w * 2 ^ n < 2 ^ LENGTH('a) \<Longrightarrow> unat (push_bit n (w :: 'a::len word)) = unat w * 2 ^ n"
  by (simp only: unsigned_push_bit_eq) (simp add: push_bit_eq_mult take_bit_eq_mod)

lemma unat_of_nat_small [word_facts]:
  "n < 2 ^ LENGTH('a) \<Longrightarrow> unat (word_of_nat n :: 'a::len word) = n"
  by (simp add: unsigned_of_nat take_bit_nat_eq_self)

lemma unat_add_small:
  "unat a + unat b < 2 ^ LENGTH('a) \<Longrightarrow> unat (a + b :: 'a::len word) = unat a + unat b"
  by (simp add: unat_word_ariths)

lemma unat_sub_small: "b \<le> a \<Longrightarrow> unat (a - b) = unat a - unat b"
  by (rule unat_sub)

lemma unat_mult_small:
  "unat a * unat b < 2 ^ LENGTH('a) \<Longrightarrow> unat (a * b :: 'a::len word) = unat a * unat b"
  by (simp add: unat_word_ariths)

lemma unat_dec: "w \<noteq> 0 \<Longrightarrow> unat (w - 1) = unat w - 1"
  by (simp add: unat_minus_one)

lemma unat_inc: "unat w + 1 < 2 ^ LENGTH('a) \<Longrightarrow> unat (w + 1 :: 'a::len word) = unat w + 1"
  by (simp add: unat_word_ariths)

lemma or_1_cases: "(w OR 1 :: 'a::len word) = (if even w then w + 1 else w)"
  by (simp add: or_one_eq of_bool_def)

lemma odd_and_1: "(w AND 1 = (1 :: 'a::len word)) = odd w"
  by (simp add: and_one_eq odd_iff_mod_2_eq_one)

lemma even_unat [simp]: "even (unat w) = even (w :: 'a::len word)"
  using bit_unsigned_iff [of w 0, where ?'a = nat] by (simp add: bit_0)

lemma word_eq_nat_iff: "(a = b) = (unat a = unat b)"
  by (simp add: word_unat_eq_iff)

lemma word_ne_nat_iff: "(a \<noteq> b) = (unat a \<noteq> unat b)"
  by (simp add: word_unat_eq_iff)

lemma u32_less: "unat (x :: u32) < 4294967296"
  using unsigned_less [of x, where ?'a = nat] by simp

lemma ucast_nat: "(ucast (x :: u32) :: u64) = word_of_nat (unat x)"
  by (simp add: word_eq_nat_iff unsigned_ucast_eq take_bit_nat_eq_self unat_of_nat_small
      order.strict_trans [OF u32_less])

lemma unat_ucast64: "unat (ucast (x :: u32) :: u64) = unat x"
  unfolding ucast_nat by (rule unat_of_nat_small) (use u32_less [of x] in simp)

lemma bit_below:
  assumes "unat (l :: u32) < 2 ^ k" "k \<le> n" shows "\<not> bit l n"
proof
  have "take_bit k l = l" by (rule word_unat_eq_iff [THEN iffD2]) (simp add: unsigned_take_bit_eq take_bit_nat_eq_self assms(1))
  moreover assume "bit l n"
  ultimately have "bit (take_bit k l) n" by simp
  then show False using assms(2) by (simp add: bit_take_bit_iff)
qed

lemma unat_push: "unat (push_bit k (a :: u32)) = unat a * 2 ^ k mod 2 ^ 32"
  by (subst unsigned_push_bit_eq) (simp add: take_bit_eq_mod push_bit_eq_mult)

lemma unat_glue:
  assumes "unat (l :: u32) < 2 ^ k" "k \<le> 32"
  shows "unat (push_bit k a OR l) = unat a * 2 ^ k mod 2 ^ 32 + unat l"
proof -
  have "push_bit k a AND l = 0"
    by (rule bit_word_eqI) (auto simp: bit_simps dest: bit_below [OF assms(1)])
  then have or: "push_bit k a OR l = push_bit k a + l" by (rule disjunctive_add_eq_or [symmetric])
  have p: "(2 :: nat) ^ 32 = 2 ^ (32 - k) * 2 ^ k" using assms(2) by (simp flip: power_add)
  define x where "x = unat a mod 2 ^ (32 - k)"
  have x: "unat a * 2 ^ k mod 2 ^ 32 = x * 2 ^ k" unfolding p x_def by (simp only: mod_mult_mult2)
  have "x < 2 ^ (32 - k)" by (simp add: x_def)
  then have "(x + 1) * 2 ^ k \<le> 2 ^ (32 - k) * 2 ^ k" by (intro mult_le_mono1) simp
  then have "unat a * 2 ^ k mod 2 ^ 32 + unat l < 2 ^ 32" unfolding p [symmetric] x using assms(1) by simp
  then show ?thesis unfolding or by (subst unat_add_small) (simp_all add: unat_push)
qed

subsection \<open>Options\<close>

lemma option_eqI: "(\<And>b. x = Some b \<longleftrightarrow> y = Some b) \<Longrightarrow> x = y"
  by (cases x; cases y) auto

end
