(* ===== verification/Bits.thy ===== *)
theory Bits
  imports Prelude
begin

text \<open>
  The base-two logarithms of \<open>js/src/jsbit.h\<close> and \<open>js/src/jslog2.c\<close>: the shift cascades that the
  portable (non-\<open>__builtin_clz\<close>) definitions of \<open>JS_CEILING_LOG2\<close>, \<open>JS_FLOOR_LOG2\<close> and
  \<open>js_FloorLog2wImpl\<close> expand to, and the leading-zero count of \<open>js/src/jslong.c\<close>, which is the same
  cascade run downwards.  The hash tables size their storage with them.
\<close>

subsection \<open>The cascades\<close>

text \<open>One line \<open>if ((j_) >> k) (_log2) += k, (j_) >>= k\<close> of the macros.\<close>

definition log2_step :: "nat \<Rightarrow> nat \<times> 'a::len word \<Rightarrow> nat \<times> 'a word" where
  "log2_step k p = (case p of (l, j) \<Rightarrow>
     if drop_bit k j \<noteq> 0 then (l + k, drop_bit k j) else (l, j))"

definition log2_cascade :: "nat \<Rightarrow> u32 \<Rightarrow> nat" where
  "log2_cascade l n =
     (case log2_step 2 (log2_step 4 (log2_step 8 (log2_step 16 (l, n)))) of (l', j) \<Rightarrow>
        if drop_bit 1 j \<noteq> 0 then l' + 1 else l')"

definition JS_FLOOR_LOG2 :: "u32 \<Rightarrow> nat" where
  "JS_FLOOR_LOG2 n = log2_cascade 0 n"

definition JS_CEILING_LOG2 :: "u32 \<Rightarrow> nat" where
  "JS_CEILING_LOG2 n = log2_cascade (if n AND (n - 1) \<noteq> 0 then 1 else 0) n"

definition JS_FloorLog2 :: "u32 \<Rightarrow> nat" where
  "JS_FloorLog2 n = JS_FLOOR_LOG2 n"

definition JS_CeilingLog2 :: "u32 \<Rightarrow> nat" where
  "JS_CeilingLog2 n = JS_CEILING_LOG2 n"

text \<open>One line \<open>m = n >> k; if (m != 0) { n = m; log2 |= k; }\<close> of \<open>js_FloorLog2wImpl\<close>.\<close>

definition log2w_step :: "nat \<Rightarrow> u64 \<times> u64 \<Rightarrow> u64 \<times> u64" where
  "log2w_step k p = (case p of (l, n) \<Rightarrow>
     let m = drop_bit k n in if m \<noteq> 0 then (l OR word_of_nat k, m) else (l, n))"

definition js_FloorLog2wImpl :: "u64 \<Rightarrow> u64" where
  "js_FloorLog2wImpl n =
     (case log2w_step 2 (log2w_step 4 (log2w_step 8 (log2w_step 16 (log2w_step 32 (0, n))))) of
        (l, j) \<Rightarrow> l OR drop_bit 1 j)"

text \<open>One line \<open>if ((t = a >> k) != 0) r -= k, a = t\<close> of \<open>CountLeadingZeros\<close>.\<close>

definition clz_step :: "nat \<Rightarrow> u32 \<times> u32 \<Rightarrow> u32 \<times> u32" where
  "clz_step k p = (case p of (r, a) \<Rightarrow>
     let t = drop_bit k a in if t \<noteq> 0 then (r - word_of_nat k, t) else (r, a))"

definition CountLeadingZeros :: "u32 \<Rightarrow> u32" where
  "CountLeadingZeros a =
     (case clz_step 1 (clz_step 2 (clz_step 4 (clz_step 8 (clz_step 16 (32, a))))) of
        (r, a') \<Rightarrow> if a' AND 1 \<noteq> 0 then r - 1 else r)"

subsection \<open>What a cascade computes\<close>

text \<open>The cascade keeps \<open>j = N div 2 ^ (l - l0)\<close> and halves the number of bits \<open>j\<close> can have.\<close>

definition log2_inv :: "nat \<Rightarrow> nat \<Rightarrow> nat \<Rightarrow> nat \<times> 'a::len word \<Rightarrow> bool" where
  "log2_inv N l0 w p \<longleftrightarrow>
     l0 \<le> fst p \<and> snd p \<noteq> 0 \<and> unat (snd p) < 2 ^ w \<and> unat (snd p) = N div 2 ^ (fst p - l0)"

lemma div_pow_add: "(N::nat) div 2 ^ a div 2 ^ b = N div 2 ^ (a + b)"
  by (simp add: power_add div_mult2_eq)

lemma div_eq_1_bounds: "(N::nat) div d = 1 \<Longrightarrow> d \<le> N \<and> N < 2 * d"
proof -
  assume q: "N div d = 1"
  then have "0 < d" by (cases d) auto
  then have "N mod d < d" by simp
  moreover have "N = d + N mod d" using q div_mult_mod_eq [of N d] by simp
  ultimately show ?thesis by linarith
qed

lemma small_log2: "0 < (J::nat) \<Longrightarrow> J < 4 \<Longrightarrow> J div 2 ^ (J div 2) = 1"
proof -
  assume "0 < J" "J < 4"
  then have "J = 1 \<or> J = 2 \<or> J = 3" by arith
  then show ?thesis by auto
qed

lemma drop_bit_zero_iff: "(drop_bit k j = 0) = (unat j < 2 ^ k)"
  by (simp add: word_eq_nat_iff unat_drop_bit div_eq_0_iff)

lemma log2_step_inv:
  assumes "log2_inv N l0 (k + k) p"
  shows "log2_inv N l0 k (log2_step k p)"
proof -
  obtain l j where p: "p = (l, j)" by (cases p)
  have "unat j div 2 ^ k < 2 ^ k"
    using assms by (simp add: log2_inv_def p power_add less_mult_imp_div_less)
  then show ?thesis
    using assms by (auto simp: log2_inv_def log2_step_def p drop_bit_zero_iff unat_drop_bit div_pow_add
        not_less Nat.add_diff_assoc2)
qed

lemma log2_four_steps:
  assumes "n \<noteq> (0 :: u32)"
  shows "log2_inv (unat n) l 2 (log2_step 2 (log2_step 4 (log2_step 8 (log2_step 16 (l, n)))))"
proof -
  have "log2_inv (unat n) l (16 + 16) (l, n)"
    using assms unsigned_less [of n, where ?'a = nat] by (simp add: log2_inv_def)
  then have "log2_inv (unat n) l (8 + 8) (log2_step 16 (l, n))"
    using log2_step_inv [of "unat n" l 16] by simp
  then have "log2_inv (unat n) l (4 + 4) (log2_step 8 (log2_step 16 (l, n)))"
    using log2_step_inv [of "unat n" l 8] by simp
  then have "log2_inv (unat n) l (2 + 2) (log2_step 4 (log2_step 8 (log2_step 16 (l, n))))"
    using log2_step_inv [of "unat n" l 4] by simp
  then show ?thesis using log2_step_inv [of "unat n" l 2] by simp
qed

lemma log2_invD:
  assumes "log2_inv N l0 2 (l, j)"
  shows "l0 \<le> l" "0 < unat j" "unat j < 4" "unat j = N div 2 ^ (l - l0)"
proof -
  from assms show "l0 \<le> l" "unat j < 4" "unat j = N div 2 ^ (l - l0)"
    by (simp_all add: log2_inv_def)
  from assms have "j \<noteq> 0" by (simp add: log2_inv_def)
  then show "0 < unat j" by (simp add: unat_gt_0)
qed

text \<open>The last test leaves the exact logarithm.\<close>

lemma log2_last:
  assumes "log2_inv N l0 2 (l, j)"
  defines "r \<equiv> l - l0 + unat j div 2"
  shows "2 ^ r \<le> N" "N < 2 ^ (r + 1)" "(if drop_bit 1 j \<noteq> 0 then l + 1 else l) = l0 + r"
proof -
  note j = log2_invD [OF assms(1)]
  have "N div 2 ^ r = unat j div 2 ^ (unat j div 2)"
    unfolding r_def j(4) [symmetric] by (simp add: j(4) flip: div_pow_add)
  also from j(2,3) have "\<dots> = 1" by (rule small_log2)
  finally have "2 ^ r \<le> N \<and> N < 2 * 2 ^ r" by (rule div_eq_1_bounds)
  then show "2 ^ r \<le> N" "N < 2 ^ (r + 1)" by simp_all
  show "(if drop_bit 1 j \<noteq> 0 then l + 1 else l) = l0 + r"
    using j by (auto simp: r_def drop_bit_zero_iff not_less div_nat_eqI)
qed

lemma log2_cascade_bounds:
  assumes "n \<noteq> 0"
  obtains r where "log2_cascade l n = l + r" "2 ^ r \<le> unat n" "unat n < 2 ^ (r + 1)"
proof -
  let ?p = "log2_step 2 (log2_step 4 (log2_step 8 (log2_step 16 (l, n))))"
  obtain l' j where p: "?p = (l', j)" by (cases ?p)
  with log2_four_steps [OF assms, of l] have i: "log2_inv (unat n) l 2 (l', j)" by simp
  show thesis
    by (rule that [OF _ log2_last(1,2) [OF i]]) (simp only: log2_cascade_def p prod.case log2_last(3) [OF i])
qed

text \<open>On zero no shift is taken.\<close>

lemma log2_cascade_0: "log2_cascade l 0 = l"
  by (simp add: log2_cascade_def log2_step_def)

subsection \<open>The logarithms\<close>

lemma JS_FLOOR_LOG2_bounds:
  assumes "n \<noteq> 0"
  shows "2 ^ JS_FLOOR_LOG2 n \<le> unat n" "unat n < 2 ^ (JS_FLOOR_LOG2 n + 1)"
  using log2_cascade_bounds [OF assms, of 0] by (auto simp: JS_FLOOR_LOG2_def)

text \<open>The two's-complement test \<open>n & (n - 1)\<close> of the ceiling: it is zero exactly on powers of two.\<close>

lemma bit_top: "2 ^ r \<le> unat (n::u32) \<Longrightarrow> unat n < 2 ^ (r + 1) \<Longrightarrow> bit n r"
proof -
  assume "2 ^ r \<le> unat n" "unat n < 2 ^ (r + 1)"
  then have "unat n div 2 ^ r = 1" by (simp add: div_nat_eqI)
  then have "bit (unat n) r" by (simp add: bit_iff_odd)
  then show ?thesis by (simp add: bit_unsigned_iff)
qed

lemma and_dec_pow2: "n \<noteq> 0 \<Longrightarrow> (n AND (n - 1) = (0::u32)) = (\<exists>r. unat n = 2 ^ r)"
proof
  assume n: "n \<noteq> 0" and z: "n AND (n - 1) = 0"
  obtain r where r: "2 ^ r \<le> unat n" "unat n < 2 ^ (r + 1)"
    using log2_cascade_bounds [OF n, of 0] by auto
  show "\<exists>r. unat n = 2 ^ r"
  proof (rule ccontr)
    assume "\<not> ?thesis"
    then have "unat n \<noteq> 2 ^ r" by blast
    with r(1) have "2 ^ r < unat n" by linarith
    then have "2 ^ r \<le> unat (n - 1)" "unat (n - 1) < 2 ^ (r + 1)"
      using r unat_dec [OF n] by linarith+
    then have "bit (n - 1) r" by (rule bit_top)
    moreover have "bit n r" using r by (rule bit_top)
    ultimately have "bit (n AND (n - 1)) r" by (simp add: bit_and_iff)
    with z show False by simp
  qed
next
  assume n: "n \<noteq> 0" and "\<exists>r. unat n = 2 ^ r"
  then obtain r where r: "unat n = 2 ^ r" by blast
  then have "(2::nat) ^ r < 2 ^ 32" using unsigned_less [of n, where ?'a = nat] by simp
  then have "r < 32" by (rule power_less_imp_less_exp [rotated]) simp
  then have "n = push_bit r 1"
    using r by (simp add: word_eq_nat_iff unat_push_bit_1 del: push_bit_of_1)
  moreover from this have "n - 1 = mask r" by (simp add: mask_eq_decr_exp)
  ultimately have "n AND (n - 1) = take_bit r (push_bit r 1)"
    by (simp only: take_bit_eq_mask)
  then show "n AND (n - 1) = 0" by (simp only: take_bit_push_bit) simp
qed

lemma JS_CEILING_LOG2_bounds:
  assumes "n \<noteq> 0"
  shows "unat n \<le> 2 ^ JS_CEILING_LOG2 n" "1 < unat n \<Longrightarrow> 2 ^ (JS_CEILING_LOG2 n - 1) < unat n"
proof -
  obtain r where r: "log2_cascade (if n AND (n - 1) \<noteq> 0 then 1 else 0) n
        = (if n AND (n - 1) \<noteq> 0 then 1 else 0) + r" "2 ^ r \<le> unat n" "unat n < 2 ^ (r + 1)"
    using log2_cascade_bounds [OF assms] by metis
  have p: "unat n = 2 ^ r" if "n AND (n - 1) = 0"
  proof -
    from that have "\<exists>q. unat n = 2 ^ q" using and_dec_pow2 [OF assms] by simp
    then obtain q where "unat n = 2 ^ q" by blast
    then have "(2::nat) ^ r \<le> 2 ^ q" "(2::nat) ^ q < 2 ^ (r + 1)" using r(2,3) by simp_all
    then have "r \<le> q" "q < r + 1"
      by (simp_all only: power_increasing_iff power_strict_increasing_iff one_less_numeral_iff
          semiring_norm)
    with \<open>unat n = 2 ^ q\<close> show ?thesis by simp
  qed
  have np: "unat n \<noteq> 2 ^ r" if "n AND (n - 1) \<noteq> 0"
    using that and_dec_pow2 [OF assms] by blast
  show "unat n \<le> 2 ^ JS_CEILING_LOG2 n"
    using r p by (auto simp: JS_CEILING_LOG2_def split: if_splits)
  show "2 ^ (JS_CEILING_LOG2 n - 1) < unat n" if "1 < unat n"
    using r p np that by (cases r) (auto simp: JS_CEILING_LOG2_def split: if_splits)
qed

subsection \<open>The word-sized logarithm and the leading-zero count\<close>

text \<open>Both mirror the cascade: one keeps the sum with \<open>|=\<close>, the other counts down from 32.\<close>

lemma clz_step_sim:
  "clz_step k (32 - word_of_nat l, j) =
     (case log2_step k (l, j) of (l', j') \<Rightarrow> (32 - word_of_nat l', j'))"
  by (simp add: clz_step_def log2_step_def Let_def)

lemma one_bit_left: "0 < unat j \<Longrightarrow> unat j < 4 \<Longrightarrow>
    (if drop_bit 1 j \<noteq> 0 then drop_bit 1 j else j) = (1 :: u32)"
  by (auto simp: word_eq_nat_iff unat_drop_bit)

lemma CountLeadingZeros_floor:
  assumes "a \<noteq> 0"
  shows "CountLeadingZeros a = 31 - word_of_nat (JS_FLOOR_LOG2 a)"
proof -
  let ?p = "log2_step 2 (log2_step 4 (log2_step 8 (log2_step 16 (0, a))))"
  obtain l j where p: "?p = (l, j)" by (cases ?p)
  with log2_four_steps [OF assms, of 0] have i: "log2_inv (unat a) 0 2 (l, j)" by simp
  have "clz_step 2 (clz_step 4 (clz_step 8 (clz_step 16 (32, a)))) = (32 - word_of_nat l, j)"
    using p clz_step_sim [of 16 0 a] by (auto simp: clz_step_sim split: prod.splits)
  then show ?thesis
    using p one_bit_left [OF log2_invD(2,3) [OF i]]
    by (auto simp: CountLeadingZeros_def JS_FLOOR_LOG2_def log2_cascade_def clz_step_def Let_def
        split: if_splits)
qed

lemma JS_FLOOR_LOG2_lt: "n \<noteq> 0 \<Longrightarrow> JS_FLOOR_LOG2 n < 32"
proof -
  assume "n \<noteq> 0"
  then have "(2::nat) ^ JS_FLOOR_LOG2 n < 2 ^ 32"
    using JS_FLOOR_LOG2_bounds(1) [of n] unsigned_less [of n, where ?'a = nat] by simp
  then show ?thesis by (rule power_less_imp_less_exp [rotated]) simp
qed

lemma unat_CountLeadingZeros:
  assumes "a \<noteq> 0"
  shows "unat (CountLeadingZeros a) = 31 - JS_FLOOR_LOG2 a"
proof -
  have "(word_of_nat (JS_FLOOR_LOG2 a) :: u32) \<le> 31" "unat (word_of_nat (JS_FLOOR_LOG2 a) :: u32) = JS_FLOOR_LOG2 a"
    using JS_FLOOR_LOG2_lt [OF assms] by (simp_all add: word_le_nat_alt unat_of_nat_small)
  then show ?thesis by (simp add: CountLeadingZeros_floor [OF assms] unat_sub)
qed

lemma CountLeadingZeros_bounds:
  assumes "a \<noteq> 0"
  shows "unat (CountLeadingZeros a) < 32"
    "2 ^ 31 \<le> unat a * 2 ^ unat (CountLeadingZeros a)"
    "unat a * 2 ^ unat (CountLeadingZeros a) < 2 ^ 32"
proof -
  let ?f = "JS_FLOOR_LOG2 a"
  note f = JS_FLOOR_LOG2_lt [OF assms] and b = JS_FLOOR_LOG2_bounds [OF assms]
  from unat_CountLeadingZeros [OF assms] have z: "unat (CountLeadingZeros a) = 31 - ?f" .
  then show "unat (CountLeadingZeros a) < 32" by simp
  have "(2::nat) ^ 31 = 2 ^ ?f * 2 ^ (31 - ?f)" using f by (simp flip: power_add)
  then show "2 ^ 31 \<le> unat a * 2 ^ unat (CountLeadingZeros a)"
    unfolding z using mult_le_mono1 [OF b(1), of "2 ^ (31 - ?f)"] by linarith
  have "(2::nat) ^ 32 = 2 ^ (?f + 1) * 2 ^ (31 - ?f)" using f by (simp flip: power_add)
  moreover have "unat a * 2 ^ (31 - ?f) < 2 ^ (?f + 1) * 2 ^ (31 - ?f)"
    using b(2) by (rule mult_less_mono1) simp
  ultimately show "unat a * 2 ^ unat (CountLeadingZeros a) < 2 ^ 32"
    unfolding z by linarith
qed

lemma or_disjoint:
  assumes "2 ^ (m + 1) dvd l" "l < 64" "m < 6"
  shows "word_of_nat l OR word_of_nat (2 ^ m) = (word_of_nat (l + 2 ^ m) :: u64)"
proof -
  have "l div 2 ^ (m + 1) * 2 ^ (m + 1) = l" using assms(1) by simp
  have "\<not> bit l m" using assms(1) by (auto simp: bit_iff_odd elim!: dvdE)
  have "word_of_nat l AND (word_of_nat (2 ^ m) :: u64) = 0"
  proof (rule bit_eqI)
    fix n
    show "bit (word_of_nat l AND word_of_nat (2 ^ m) :: u64) n = bit (0 :: u64) n"
      using \<open>\<not> bit l m\<close> by (auto simp: bit_simps)
  qed
  then show ?thesis by (simp add: disjunctive_add_eq_or [symmetric])
qed

text \<open>What the sum of the shifts taken so far can be: a multiple of the last one, with room left.\<close>

definition room :: "nat \<Rightarrow> nat \<times> u64 \<Rightarrow> bool" where
  "room k p \<longleftrightarrow> k dvd fst p \<and> fst p + k \<le> 64"

lemma log2_step_room: "room (2 * k) p \<Longrightarrow> room k (log2_step k p)"
  by (auto simp: room_def log2_step_def split: prod.splits dest: dvd_mult_right)

lemma log2w_step_sim:
  assumes "room (2 * 2 ^ m) p" "m < 6"
  shows "log2w_step (2 ^ m) (map_prod word_of_nat id p) = map_prod word_of_nat id (log2_step (2 ^ m) p)"
proof -
  obtain l j where p: "p = (l, j)" by (cases p)
  have "2 ^ (m + 1) dvd l" "l < 64"
    using assms(1) by (auto simp: room_def p intro: le_less_trans [of l "64 - 2 * 2 ^ m"])
  from or_disjoint [OF this assms(2)] show ?thesis
    by (simp add: p log2w_step_def log2_step_def Let_def)
qed

lemma log2w_five_steps:
  fixes n :: u64
  defines "q \<equiv> log2_step 2 (log2_step 4 (log2_step 8 (log2_step 16 (log2_step 32 (0, n)))))"
  shows "log2w_step 2 (log2w_step 4 (log2w_step 8 (log2w_step 16 (log2w_step 32 (0, n)))))
      = map_prod word_of_nat id q" "room 2 q" "n \<noteq> 0 \<Longrightarrow> log2_inv (unat n) 0 2 q"
proof -
  define p5 where "p5 = log2_step 32 (0, n)"
  define p4 where "p4 = log2_step 16 p5"
  define p3 where "p3 = log2_step 8 p4"
  define p2 where "p2 = log2_step 4 p3"
  note ps = p5_def p4_def p3_def p2_def q_def
  have r6: "room 64 (0, n)" by (simp add: room_def)
  have r5: "room 32 p5" using log2_step_room [of 32] r6 by (simp add: p5_def)
  have r4: "room 16 p4" using log2_step_room [of 16] r5 by (simp add: p4_def)
  have r3: "room 8 p3" using log2_step_room [of 8] r4 by (simp add: p3_def)
  have r2: "room 4 p2" using log2_step_room [of 4] r3 by (simp add: p2_def)
  show "room 2 q" using log2_step_room [of 2] r2 by (simp add: ps)
  show "log2w_step 2 (log2w_step 4 (log2w_step 8 (log2w_step 16 (log2w_step 32 (0, n)))))
      = map_prod word_of_nat id q"
    using log2w_step_sim [of 5 "(0, n)"] log2w_step_sim [of 4 p5] log2w_step_sim [of 3 p4]
      log2w_step_sim [of 2 p3] log2w_step_sim [of 1 p2] r6 r5 r4 r3 r2
    by (simp add: ps)
  assume "n \<noteq> 0"
  then have "log2_inv (unat n) 0 (32 + 32) (0, n)"
    using unsigned_less [of n, where ?'a = nat] by (simp add: log2_inv_def)
  then have "log2_inv (unat n) 0 (16 + 16) p5"
    using log2_step_inv [of "unat n" 0 32] by (simp add: p5_def)
  then have "log2_inv (unat n) 0 (8 + 8) p4"
    using log2_step_inv [of "unat n" 0 16] by (simp add: p4_def)
  then have "log2_inv (unat n) 0 (4 + 4) p3"
    using log2_step_inv [of "unat n" 0 8] by (simp add: p3_def)
  then have "log2_inv (unat n) 0 (2 + 2) p2"
    using log2_step_inv [of "unat n" 0 4] by (simp add: p2_def)
  then show "log2_inv (unat n) 0 2 q"
    using log2_step_inv [of "unat n" 0 2] by (simp add: ps)
qed

lemma js_FloorLog2wImpl_bounds:
  assumes "n \<noteq> 0"
  shows "2 ^ unat (js_FloorLog2wImpl n) \<le> unat n" "unat n < 2 ^ (unat (js_FloorLog2wImpl n) + 1)"
proof -
  let ?q = "log2_step 2 (log2_step 4 (log2_step 8 (log2_step 16 (log2_step 32 (0, n)))))"
  obtain l j where q: "?q = (l, j)" by (cases ?q)
  note five = log2w_five_steps [of n, unfolded q]
  note i = five(3) [OF assms] and room = five(2)
  note j = log2_invD [OF i]
  have "unat (drop_bit 1 j) = unat j div 2" by (simp add: unat_drop_bit)
  then have "drop_bit 1 j = 0 \<or> drop_bit 1 j = 1" using j(3) by (auto simp: word_eq_nat_iff)
  moreover have "word_of_nat l OR 1 = (word_of_nat (l + 1) :: u64)"
    using or_disjoint [of 0 l] room by (auto simp: room_def)
  ultimately have "js_FloorLog2wImpl n
      = word_of_nat (if drop_bit 1 j \<noteq> 0 then l + 1 else l)"
    using five(1) by (auto simp: js_FloorLog2wImpl_def)
  also have "\<dots> = word_of_nat (l + unat j div 2)" using log2_last(3) [OF i] by simp
  finally have "unat (js_FloorLog2wImpl n) = l + unat j div 2"
    using room j by (simp only:) (rule unat_of_nat_small, auto simp: room_def)
  then show "2 ^ unat (js_FloorLog2wImpl n) \<le> unat n" "unat n < 2 ^ (unat (js_FloorLog2wImpl n) + 1)"
    using log2_last(1,2) [OF i] by simp_all
qed

subsection \<open>The logarithms are exact\<close>

lemma JS_CEILING_LOG2_least:
  assumes "n \<noteq> 0" "unat n \<le> 2 ^ m"
  shows "JS_CEILING_LOG2 n \<le> m"
proof (cases "1 < unat n")
  case True
  then have "2 ^ (JS_CEILING_LOG2 n - 1) < unat n" by (rule JS_CEILING_LOG2_bounds(2) [OF assms(1)])
  then have "(2::nat) ^ (JS_CEILING_LOG2 n - 1) < 2 ^ m" using assms(2) by linarith
  then have "JS_CEILING_LOG2 n - 1 < m" by (rule power_less_imp_less_exp [rotated]) simp
  then show ?thesis by linarith
next
  case False
  then have "n = 1" using assms(1) by (simp add: word_eq_nat_iff not_less le_Suc_eq)
  then show ?thesis by (simp add: JS_CEILING_LOG2_def log2_cascade_def log2_step_def)
qed

text \<open>C25. For every nonzero argument the shift cascades compute the exact logarithms:
  \<open>JS_CeilingLog2\<close> is the least exponent whose power of two is not below the argument,
  \<open>JS_FloorLog2\<close> and the 64-bit \<open>js_FloorLog2wImpl\<close> the index of the highest set bit.\<close>

theorem log2_exact:
  assumes "n \<noteq> 0" "w \<noteq> 0"
  shows "unat n \<le> 2 ^ JS_CeilingLog2 n \<and> (\<forall>m. unat n \<le> 2 ^ m \<longrightarrow> JS_CeilingLog2 n \<le> m)
    \<and> 2 ^ JS_FloorLog2 n \<le> unat n \<and> unat n < 2 ^ (JS_FloorLog2 n + 1)
    \<and> 2 ^ unat (js_FloorLog2wImpl w) \<le> unat w \<and> unat w < 2 ^ (unat (js_FloorLog2wImpl w) + 1)"
  using JS_CEILING_LOG2_bounds(1) [OF assms(1)] JS_CEILING_LOG2_least [OF assms(1)]
    JS_FLOOR_LOG2_bounds [OF assms(1)] js_FloorLog2wImpl_bounds [OF assms(2)]
  by (simp add: JS_CeilingLog2_def JS_FloorLog2_def)

theorem log2_exact_witness:
  "JS_CeilingLog2 1000 = 10 \<and> JS_FloorLog2 1000 = 9 \<and> js_FloorLog2wImpl 1000000000000 = 39
    \<and> unat (1000 :: u32) \<le> 2 ^ JS_CeilingLog2 1000"
proof -
  have "JS_CeilingLog2 1000 = 10" "JS_FloorLog2 1000 = 9" "js_FloorLog2wImpl 1000000000000 = 39"
    by code_simp+
  then show ?thesis using log2_exact [of 1000 1000000000000] by simp
qed

end
