(* ===== verification/DHash.thy ===== *)
theory DHash
  imports Bits
begin

text \<open>
  The double-hashing table of \<open>js/src/jsdhash.c\<close> and \<open>js/src/jsdhash.h\<close>: entry headers, the table
  record, \<open>SearchTable\<close>, \<open>ChangeTable\<close>, \<open>JS_DHashTableOperate\<close>, \<open>JS_DHashTableRawRemove\<close>,
  \<open>JS_DHashTableEnumerate\<close> and the stub hooks.  This theory holds the definitions; the theory
  DHash_Correct proves them to implement a finite map.

  The entry store is a list; an entry pointer is an index into it.  A store access outside the
  allocation and a probe sequence that never meets a free or matching entry have no result in C and
  are \<open>None\<close>.  Whether a call of \<open>ops->allocTable\<close> succeeds is an argument \<open>alloc\<close> of the operation
  (each operation allocates at most once), so every theorem holds for every allocator behaviour.
  The metering counters and the DEBUG recursion level are not part of the model.
\<close>

subsection \<open>Entries\<close>

text \<open>\<open>JSDHashEntryHdr\<close> with the client part of the entry that follows it in memory.\<close>

record 'e slot =
  keyHash :: u32
  body :: 'e

definition COLLISION_FLAG :: u32 where
  "COLLISION_FLAG = 1"

definition ENTRY_IS_FREE :: "('e, 'z) slot_scheme \<Rightarrow> bool" where
  "ENTRY_IS_FREE s \<longleftrightarrow> keyHash s = 0"

definition ENTRY_IS_REMOVED :: "('e, 'z) slot_scheme \<Rightarrow> bool" where
  "ENTRY_IS_REMOVED s \<longleftrightarrow> keyHash s = 1"

definition ENTRY_IS_LIVE :: "('e, 'z) slot_scheme \<Rightarrow> bool" where
  "ENTRY_IS_LIVE s \<longleftrightarrow> 2 \<le> keyHash s"

definition MATCH_ENTRY_KEYHASH :: "('e, 'z) slot_scheme \<Rightarrow> u32 \<Rightarrow> bool" where
  "MATCH_ENTRY_KEYHASH s hash0 \<longleftrightarrow> keyHash s AND NOT COLLISION_FLAG = hash0"

definition ENSURE_LIVE_KEYHASH :: "u32 \<Rightarrow> u32" where
  "ENSURE_LIVE_KEYHASH hash0 = (if hash0 < 2 then hash0 - 2 else hash0)"

definition HASH1 :: "u32 \<Rightarrow> nat \<Rightarrow> u32" where
  "HASH1 hash0 shift = drop_bit shift hash0"

definition HASH2 :: "u32 \<Rightarrow> nat \<Rightarrow> nat \<Rightarrow> u32" where
  "HASH2 hash0 log2 shift = drop_bit shift (push_bit log2 hash0) OR 1"

subsection \<open>The table\<close>

text \<open>
  \<open>JSDHashTableOps\<close>.  \<open>zeroEntry\<close> is what \<open>memset(entry, 0, entrySize)\<close> leaves in the client part;
  \<open>moveEntry\<close> and \<open>clearEntry\<close> give the contents they leave behind; a null \<open>initEntry\<close> is \<open>None\<close>, and
  an \<open>initEntry\<close> that returns \<open>JS_FALSE\<close> gives \<open>None\<close> for its entry.
\<close>

record ('k, 'e) JSDHashTableOps =
  getKey :: "'e \<Rightarrow> 'k"
  hashKey :: "'k \<Rightarrow> u32"
  matchEntry :: "'e \<Rightarrow> 'k \<Rightarrow> bool"
  moveEntry :: "'e \<Rightarrow> 'e"
  clearEntry :: "'e \<Rightarrow> 'e"
  initEntry :: "('e \<Rightarrow> 'k \<Rightarrow> 'e option) option"
  zeroEntry :: 'e

record ('k, 'e) JSDHashTable =
  ops :: "('k, 'e) JSDHashTableOps"
  hashShift :: nat
  maxAlphaFrac :: u8
  minAlphaFrac :: u8
  entrySize :: u32
  entryCount :: u32
  removedCount :: u32
  generation :: u32
  entryStore :: "'e slot list"

datatype JSDHashOperator = JS_DHASH_LOOKUP | JS_DHASH_ADD | JS_DHASH_REMOVE

text \<open>The answers of an enumerator are flag bits: remove this entry, stop after it.\<close>

record JSDHashAnswer =
  answerRemove :: bool
  answerStop :: bool

definition JS_DHASH_BITS :: nat where
  "JS_DHASH_BITS = 32"

definition JS_DHASH_GOLDEN_RATIO :: u32 where
  "JS_DHASH_GOLDEN_RATIO = 0x9E3779B9"

definition JS_DHASH_MIN_SIZE :: u32 where
  "JS_DHASH_MIN_SIZE = 16"

definition JS_DHASH_SIZE_LIMIT :: u32 where
  "JS_DHASH_SIZE_LIMIT = JS_BIT 24"

definition JS_DHASH_TABLE_SIZE :: "('k, 'e) JSDHashTable \<Rightarrow> u32" where
  "JS_DHASH_TABLE_SIZE table = JS_BIT (JS_DHASH_BITS - hashShift table)"

definition MAX_LOAD :: "('k, 'e) JSDHashTable \<Rightarrow> u32 \<Rightarrow> u32" where
  "MAX_LOAD table sz = drop_bit 8 (ucast (maxAlphaFrac table) * sz)"

definition MIN_LOAD :: "('k, 'e) JSDHashTable \<Rightarrow> u32 \<Rightarrow> u32" where
  "MIN_LOAD table sz = drop_bit 8 (ucast (minAlphaFrac table) * sz)"

text \<open>\<open>allocTable(nbytes)\<close> followed by \<open>memset\<close>: as many zeroed entries as fit into the bytes.\<close>

definition zeroed_store :: "('k, 'e) JSDHashTableOps \<Rightarrow> u32 \<Rightarrow> u32 \<Rightarrow> 'e slot list" where
  "zeroed_store hops nbytes entry_size =
     replicate (unat nbytes div unat entry_size) \<lparr>keyHash = 0, body = zeroEntry hops\<rparr>"

text \<open>\<open>None\<close>: the shift \<open>JS_BIT(32)\<close> is undefined.  \<open>Some None\<close>: \<open>JS_FALSE\<close>.\<close>

definition JS_DHashTableInit ::
  "(u32 \<Rightarrow> bool) \<Rightarrow> ('k, 'e) JSDHashTableOps \<Rightarrow> u32 \<Rightarrow> u32 \<Rightarrow> ('k, 'e) JSDHashTable option option" where
  "JS_DHashTableInit alloc hops entry_size capacity =
     (let capacity = (if capacity < JS_DHASH_MIN_SIZE then JS_DHASH_MIN_SIZE else capacity);
          log2 = JS_CEILING_LOG2 capacity
      in if 32 \<le> log2 then None
         else
           let capacity = JS_BIT log2; nbytes = capacity * entry_size
           in if JS_DHASH_SIZE_LIMIT \<le> capacity then Some None
              else if \<not> alloc nbytes then Some None
              else Some (Some
                \<lparr>ops = hops, hashShift = JS_DHASH_BITS - log2, maxAlphaFrac = 0xC0, minAlphaFrac = 0x40,
                 entrySize = entry_size, entryCount = 0, removedCount = 0, generation = 0,
                 entryStore = zeroed_store hops nbytes entry_size\<rparr>))"

subsection \<open>Searching\<close>

text \<open>\<open>entry->keyHash |= COLLISION_FLAG\<close>\<close>

definition set_collision :: "'e slot list \<Rightarrow> nat \<Rightarrow> 'e slot list" where
  "set_collision store i = store[i := (store ! i)\<lparr>keyHash := keyHash (store ! i) OR COLLISION_FLAG\<rparr>]"

text \<open>The loop \<open>for (;;)\<close> of \<open>SearchTable\<close>; \<open>add\<close> is \<open>op == JS_DHASH_ADD\<close>.\<close>

partial_function (option) search_loop ::
  "('k, 'e) JSDHashTableOps \<Rightarrow> 'k \<Rightarrow> u32 \<Rightarrow> bool \<Rightarrow> u32 \<Rightarrow> u32 \<Rightarrow> 'e slot list \<Rightarrow> nat option \<Rightarrow> u32
    \<Rightarrow> ('e slot list \<times> nat) option" where
  "search_loop hops key key_hash add hash2 sizeMask store firstRemoved hash1 =
     (let hash1 = (hash1 - hash2) AND sizeMask; i = unat hash1; entry = store ! i
      in if length store \<le> i then None
         else if ENTRY_IS_FREE entry then
           Some (store, if add then (case firstRemoved of Some r \<Rightarrow> r | None \<Rightarrow> i) else i)
         else if MATCH_ENTRY_KEYHASH entry key_hash \<and> matchEntry hops (body entry) key then Some (store, i)
         else if ENTRY_IS_REMOVED entry then
           search_loop hops key key_hash add hash2 sizeMask store
             (case firstRemoved of Some r \<Rightarrow> Some r | None \<Rightarrow> Some i) hash1
         else
           search_loop hops key key_hash add hash2 sizeMask
             (if add then set_collision store i else store) firstRemoved hash1)"

definition SearchTable ::
  "('k, 'e) JSDHashTable \<Rightarrow> 'k \<Rightarrow> u32 \<Rightarrow> JSDHashOperator \<Rightarrow> (('k, 'e) JSDHashTable \<times> nat) option" where
  "SearchTable table key key_hash op =
     (let hash1 = HASH1 key_hash (hashShift table); i = unat hash1;
          store = entryStore table; entry = store ! i; add = (op = JS_DHASH_ADD)
      in if length store \<le> i then None
         else if ENTRY_IS_FREE entry then Some (table, i)
         else if MATCH_ENTRY_KEYHASH entry key_hash \<and> matchEntry (ops table) (body entry) key
           then Some (table, i)
         else
           let sizeLog2 = JS_DHASH_BITS - hashShift table;
               hash2 = HASH2 key_hash sizeLog2 (hashShift table);
               sizeMask = JS_BITMASK sizeLog2;
               firstRemoved = (if ENTRY_IS_REMOVED entry then Some i else None);
               store = (if ENTRY_IS_REMOVED entry \<or> \<not> add then store else set_collision store i)
           in map_option (\<lambda>(s, j). (table\<lparr>entryStore := s\<rparr>, j))
                (search_loop (ops table) key key_hash add hash2 sizeMask store firstRemoved hash1))"

subsection \<open>Growing, shrinking and compressing\<close>

text \<open>One iteration of the copy loop of \<open>ChangeTable\<close>.\<close>

definition rehash_entry ::
  "'e slot \<Rightarrow> ('k, 'e) JSDHashTable \<Rightarrow> ('k, 'e) JSDHashTable option" where
  "rehash_entry oldEntry table =
     (if ENTRY_IS_LIVE oldEntry then
        let h = keyHash oldEntry AND NOT COLLISION_FLAG
        in case SearchTable table (getKey (ops table) (body oldEntry)) h JS_DHASH_ADD of
             None \<Rightarrow> None
           | Some (table, i) \<Rightarrow>
               Some (table\<lparr>entryStore := (entryStore table)
                 [i := \<lparr>keyHash = h, body = moveEntry (ops table) (body oldEntry)\<rparr>]\<rparr>)
      else Some table)"

fun rehash :: "'e slot list \<Rightarrow> ('k, 'e) JSDHashTable \<Rightarrow> ('k, 'e) JSDHashTable option" where
  "rehash [] table = Some table"
| "rehash (oldEntry # oldEntries) table =
     (case rehash_entry oldEntry table of None \<Rightarrow> None | Some table \<Rightarrow> rehash oldEntries table)"

text \<open>\<open>Some (table, ok)\<close>; the old store has \<open>oldCapacity\<close> entries to copy.\<close>

definition ChangeTable ::
  "(u32 \<Rightarrow> bool) \<Rightarrow> ('k, 'e) JSDHashTable \<Rightarrow> int \<Rightarrow> (('k, 'e) JSDHashTable \<times> bool) option" where
  "ChangeTable alloc table deltaLog2 =
     (let oldLog2 = JS_DHASH_BITS - hashShift table;
          newLog2 = nat (int oldLog2 + deltaLog2)
      in if int oldLog2 + deltaLog2 < 0 \<or> 32 \<le> newLog2 then None
         else
           let newCapacity = JS_BIT newLog2; nbytes = newCapacity * entrySize table
           in if JS_DHASH_SIZE_LIMIT \<le> newCapacity then Some (table, False)
              else if \<not> alloc nbytes then Some (table, False)
              else if length (entryStore table) < 2 ^ oldLog2 then None
              else
                map_option (\<lambda>t. (t, True))
                  (rehash (take (2 ^ oldLog2) (entryStore table))
                    (table\<lparr>hashShift := JS_DHASH_BITS - newLog2, removedCount := 0,
                       generation := generation table + 1,
                       entryStore := zeroed_store (ops table) nbytes (entrySize table)\<rparr>)))"

subsection \<open>The operations\<close>

definition prepared_hash :: "('k, 'e) JSDHashTableOps \<Rightarrow> 'k \<Rightarrow> u32" where
  "prepared_hash hops key =
     ENSURE_LIVE_KEYHASH (hashKey hops key * JS_DHASH_GOLDEN_RATIO) AND NOT COLLISION_FLAG"

definition JS_DHashTableRawRemove :: "('k, 'e) JSDHashTable \<Rightarrow> nat \<Rightarrow> ('k, 'e) JSDHashTable" where
  "JS_DHashTableRawRemove table i =
     (let entry = entryStore table ! i; cleared = clearEntry (ops table) (body entry)
      in if keyHash entry AND COLLISION_FLAG \<noteq> 0 then
           table\<lparr>entryStore := (entryStore table)[i := \<lparr>keyHash = 1, body = cleared\<rparr>],
             removedCount := removedCount table + 1, entryCount := entryCount table - 1\<rparr>
         else
           table\<lparr>entryStore := (entryStore table)[i := \<lparr>keyHash = 0, body = cleared\<rparr>],
             entryCount := entryCount table - 1\<rparr>)"

text \<open>The growth test of \<open>JS_DHASH_ADD\<close>: \<open>(table, may_add)\<close>.\<close>

definition grow_for_add ::
  "(u32 \<Rightarrow> bool) \<Rightarrow> ('k, 'e) JSDHashTable \<Rightarrow> (('k, 'e) JSDHashTable \<times> bool) option" where
  "grow_for_add alloc table =
     (let sz = JS_DHASH_TABLE_SIZE table
      in if MAX_LOAD table sz \<le> entryCount table + removedCount table then
           (case ChangeTable alloc table (if drop_bit 2 sz \<le> removedCount table then 0 else 1) of
              None \<Rightarrow> None
            | Some (table, ok) \<Rightarrow>
                Some (table, ok \<or> entryCount table + removedCount table \<noteq> sz - 1))
         else Some (table, True))"

text \<open>Claiming the entry that \<open>SearchTable\<close> returned to \<open>JS_DHASH_ADD\<close>.\<close>

definition claim_entry ::
  "('k, 'e) JSDHashTable \<Rightarrow> 'k \<Rightarrow> u32 \<Rightarrow> nat \<Rightarrow> ('k, 'e) JSDHashTable \<times> nat option" where
  "claim_entry table key key_hash i =
     (let entry = entryStore table ! i
      in if ENTRY_IS_LIVE entry then (table, Some i)
         else
           let table1 = (if ENTRY_IS_REMOVED entry
                         then table\<lparr>removedCount := removedCount table - 1\<rparr> else table);
               key_hash = (if ENTRY_IS_REMOVED entry then key_hash OR COLLISION_FLAG else key_hash);
               init = (case initEntry (ops table) of
                         None \<Rightarrow> Some (body entry) | Some f \<Rightarrow> f (body entry) key)
           in case init of
                None \<Rightarrow>
                  (table1\<lparr>entryStore := (entryStore table1)
                     [i := entry\<lparr>body := zeroEntry (ops table)\<rparr>]\<rparr>, None)
              | Some b \<Rightarrow>
                  (table1\<lparr>entryStore := (entryStore table1)[i := \<lparr>keyHash = key_hash, body = b\<rparr>],
                     entryCount := entryCount table1 + 1\<rparr>, Some i))"

definition JS_DHashTableOperate ::
  "(u32 \<Rightarrow> bool) \<Rightarrow> ('k, 'e) JSDHashTable \<Rightarrow> 'k \<Rightarrow> JSDHashOperator
    \<Rightarrow> (('k, 'e) JSDHashTable \<times> nat option) option" where
  "JS_DHashTableOperate alloc table key op =
     (let key_hash = prepared_hash (ops table) key
      in case op of
           JS_DHASH_LOOKUP \<Rightarrow> map_option (\<lambda>(t, i). (t, Some i)) (SearchTable table key key_hash op)
         | JS_DHASH_ADD \<Rightarrow>
             (case grow_for_add alloc table of
                None \<Rightarrow> None
              | Some (table, may_add) \<Rightarrow>
                  if \<not> may_add then Some (table, None)
                  else (case SearchTable table key key_hash op of
                          None \<Rightarrow> None
                        | Some (table, i) \<Rightarrow> Some (claim_entry table key key_hash i)))
         | JS_DHASH_REMOVE \<Rightarrow>
             (case SearchTable table key key_hash op of
                None \<Rightarrow> None
              | Some (table, i) \<Rightarrow>
                  if ENTRY_IS_LIVE (entryStore table ! i) then
                    let table = JS_DHashTableRawRemove table i; sz = JS_DHASH_TABLE_SIZE table
                    in if JS_DHASH_MIN_SIZE < sz \<and> entryCount table \<le> MIN_LOAD table sz
                       then map_option (\<lambda>(t, ok). (t, None)) (ChangeTable alloc table (- 1))
                       else Some (table, None)
                  else Some (table, None)))"

text \<open>What a client does with an entry an operation returned: write its part of it.\<close>

definition set_body :: "('k, 'e) JSDHashTable \<Rightarrow> nat \<Rightarrow> 'e \<Rightarrow> ('k, 'e) JSDHashTable" where
  "set_body table i b =
     table\<lparr>entryStore := (entryStore table)[i := (entryStore table ! i)\<lparr>body := b\<rparr>]\<rparr>"

subsection \<open>Enumerating\<close>

text \<open>
  An enumerator sees an entry, its ordinal and its own argument, and returns its answer, the entry as
  it leaves it and its argument.  The loop walks the indices from \<open>n\<close> on.
\<close>

type_synonym ('e, 'a) enumerator = "'e \<Rightarrow> nat \<Rightarrow> 'a \<Rightarrow> JSDHashAnswer \<times> 'e \<times> 'a"

fun enumerate_loop ::
  "('e, 'a) enumerator \<Rightarrow> nat list \<Rightarrow> ('k, 'e) JSDHashTable \<Rightarrow> nat \<Rightarrow> bool \<Rightarrow> 'a
    \<Rightarrow> ('k, 'e) JSDHashTable \<times> nat \<times> bool \<times> 'a" where
  "enumerate_loop etor [] table i didRemove arg = (table, i, didRemove, arg)"
| "enumerate_loop etor (n # ns) table i didRemove arg =
     (if ENTRY_IS_LIVE (entryStore table ! n) then
        (case etor (body (entryStore table ! n)) i arg of (op, b, arg) \<Rightarrow>
           let table = set_body table n b;
               table = (if answerRemove op then JS_DHashTableRawRemove table n else table);
               didRemove = (didRemove \<or> answerRemove op)
           in if answerStop op then (table, i + 1, didRemove, arg)
              else enumerate_loop etor ns table (i + 1) didRemove arg)
      else enumerate_loop etor ns table i didRemove arg)"

definition JS_DHashTableEnumerate ::
  "(u32 \<Rightarrow> bool) \<Rightarrow> ('k, 'e) JSDHashTable \<Rightarrow> ('e, 'a) enumerator \<Rightarrow> 'a
    \<Rightarrow> (('k, 'e) JSDHashTable \<times> nat \<times> 'a) option" where
  "JS_DHashTableEnumerate alloc table etor arg =
     (let capacity = JS_DHASH_TABLE_SIZE table
      in if length (entryStore table) < unat capacity then None
         else case enumerate_loop etor [0..<unat capacity] table 0 False arg of
           (table, i, didRemove, arg) \<Rightarrow>
             if didRemove \<and>
               (drop_bit 2 capacity \<le> removedCount table \<or>
                (JS_DHASH_MIN_SIZE < capacity \<and> entryCount table \<le> MIN_LOAD table capacity))
             then
               let c = entryCount table + drop_bit 1 (entryCount table);
                   c = (if c < JS_DHASH_MIN_SIZE then JS_DHASH_MIN_SIZE else c);
                   ceiling = int (JS_CEILING_LOG2 c) - int (JS_DHASH_BITS - hashShift table)
               in map_option (\<lambda>(t, ok). (t, i, arg)) (ChangeTable alloc table ceiling)
             else Some (table, i, arg))"

text \<open>\<open>JS_DHashTableFinish\<close> clears the live entries before it frees the store: the store it frees.\<close>

definition JS_DHashTableFinish :: "('k, 'e) JSDHashTable \<Rightarrow> 'e slot list" where
  "JS_DHashTableFinish table =
     map (\<lambda>s. if ENTRY_IS_LIVE s then s\<lparr>body := clearEntry (ops table) (body s)\<rparr> else s)
       (entryStore table)"

subsection \<open>The stub hooks\<close>

text \<open>Pointers are 64-bit words here; the stub truncates to 32 bits before it shifts.\<close>

definition JS_DHashVoidPtrKeyStub :: "u64 \<Rightarrow> u32" where
  "JS_DHashVoidPtrKeyStub key = drop_bit 2 (ucast key)"

definition JS_DHashStringKey :: "u8 list \<Rightarrow> u32" where
  "JS_DHashStringKey s =
     foldl (\<lambda>h c. drop_bit (JS_DHASH_BITS - 4) h XOR push_bit 4 h XOR ucast c) 0 s"

definition stub_ops :: "(u64, u64) JSDHashTableOps" where
  "stub_ops = \<lparr>getKey = (\<lambda>e. e), hashKey = JS_DHashVoidPtrKeyStub, matchEntry = (\<lambda>e k. e = k),
     moveEntry = (\<lambda>e. e), clearEntry = (\<lambda>e. 0), initEntry = None, zeroEntry = 0\<rparr>"

text \<open>The string-keyed stub (\<open>JS_DHashStringKey\<close>, \<open>JS_DHashMatchStringKey\<close>), null keys excluded.\<close>

definition string_ops :: "(u8 list, u8 list) JSDHashTableOps" where
  "string_ops = \<lparr>getKey = (\<lambda>e. e), hashKey = JS_DHashStringKey, matchEntry = (\<lambda>e k. e = k),
     moveEntry = (\<lambda>e. e), clearEntry = (\<lambda>e. []), initEntry = None, zeroEntry = []\<rparr>"

end
