(* ===== verification/DHash_Correct.thy ===== *)
theory DHash_Correct
  imports DHash
begin

text \<open>
  Correctness of the double-hashing table: the probe sequence of a key visits every entry, the
  store invariant \<open>store_ok\<close> (a live entry is reachable from its hash through entries whose collision
  flag is set, keys are distinct, stored hashes are those of the keys), and the finite map
  \<open>store_map\<close> that a store represents.  The client of the table is the locale \<open>dhash_keys\<close>: the laws
  its hooks obey.
\<close>

subsection \<open>Probe sequences\<close>

definition probew :: "nat \<Rightarrow> u32 \<Rightarrow> nat \<Rightarrow> u32" where
  "probew L h n = take_bit L (HASH1 h (32 - L) - word_of_nat n * HASH2 h L (32 - L))"

definition probe :: "nat \<Rightarrow> u32 \<Rightarrow> nat \<Rightarrow> nat" where
  "probe L h n = unat (probew L h n)"

lemma probe_less: "probe L h n < 2 ^ L"
  by (simp add: probe_def probew_def unat_take_bit)

lemma take_bit_minus_left: "take_bit L (take_bit L a - b) = take_bit L (a - b :: u32)"
proof -
  have *: "take_bit n (take_bit n a - b) = take_bit n (a - b)" for n and a b :: int
  proof -
    have "take_bit n (take_bit n a - b) = take_bit n (take_bit n (take_bit n a) - take_bit n b)"
      by (simp only: take_bit_diff)
    also have "\<dots> = take_bit n (a - b)" by (simp only: take_bit_take_bit min.idem take_bit_diff)
    finally show ?thesis .
  qed
  have "take_bit m (take_bit L (take_bit L a - b)) = take_bit m (take_bit L (a - b))" for m and a b :: int
    by (simp only: *)
  then show ?thesis by transfer (metis (no_types) "*" min.commute take_bit_take_bit)
qed

lemma probew_Suc: "(probew L h n - HASH2 h L (32 - L)) AND JS_BITMASK L = probew L h (Suc n)"
  by (simp add: probew_def and_JS_BITMASK take_bit_minus_left algebra_simps)

lemma HASH1_probew: "L \<le> 32 \<Longrightarrow> HASH1 h (32 - L) = probew L h 0"
proof -
  assume "L \<le> 32"
  then have "(2::nat) ^ 32 = 2 ^ (32 - L) * 2 ^ L" by (simp flip: power_add)
  then have "unat h < 2 ^ (32 - L) * 2 ^ L" using unsigned_less [of h, where ?'a = nat] by simp
  then have "unat h div 2 ^ (32 - L) < 2 ^ L"
    by (simp add: less_mult_imp_div_less mult.commute)
  then show ?thesis
    by (simp add: probew_def HASH1_def word_eq_nat_iff unat_take_bit unat_drop_bit)
qed

lemma take_bit_minus_cancel:
  assumes "take_bit L (a - x) = take_bit L (a - y :: u32)"
  shows "take_bit L x = take_bit L y"
proof -
  have *: "take_bit n x = take_bit n y" if "take_bit n (a - x) = take_bit n (a - y)"
    for n and x y a :: int
  proof -
    have "take_bit n x = take_bit n (a - (a - x))" by simp
    also have "\<dots> = take_bit n (take_bit n a - take_bit n (a - x))" by (simp only: take_bit_diff)
    also have "\<dots> = take_bit n (take_bit n a - take_bit n (a - y))" using that by simp
    also have "\<dots> = take_bit n (a - (a - y))" by (simp only: take_bit_diff)
    finally show ?thesis by simp
  qed
  show ?thesis using assms by transfer (simp add: take_bit_take_bit, erule *)
qed

lemma odd_HASH2: "odd (HASH2 h L s)"
  by (simp add: HASH2_def even_or_iff)

lemma odd_multiple_inj:
  assumes "odd (d::u32)" "L \<le> 32" "m < n" "n < 2 ^ L"
    and "take_bit L (word_of_nat n * d) = take_bit L (word_of_nat m * d)"
  shows False
proof -
  have md: "(x mod 2 ^ 32) mod 2 ^ L = x mod (2::nat) ^ L" for x
    by (rule mod_mod_cancel [OF le_imp_power_dvd [OF assms(2)]])
  have "unat (word_of_nat k * d) mod 2 ^ L = (k * unat d) mod 2 ^ L" for k
  proof -
    have "unat (word_of_nat k * d) = (k * unat d) mod 2 ^ 32"
      by (simp add: unat_word_ariths unat_of_nat mod_mult_left_eq)
    then show ?thesis by (simp only: md)
  qed
  then have "(n * unat d) mod 2 ^ L = (m * unat d) mod 2 ^ L"
    using assms(5) by (simp add: word_eq_nat_iff unat_take_bit)
  then have "2 ^ L dvd n * unat d - m * unat d"
    using assms(3) by (simp add: mod_eq_dvd_iff_nat)
  then have "2 ^ L dvd (n - m) * unat d" by (simp add: diff_mult_distrib)
  moreover have "coprime (2 ^ L) (unat d)"
    using assms(1) by simp
  ultimately have "2 ^ L dvd n - m" by (simp add: coprime_dvd_mult_left_iff)
  then show False using assms(3,4) by (auto dest: dvd_imp_le)
qed

lemma probe_inj: "L \<le> 32 \<Longrightarrow> inj_on (probe L h) {..<2 ^ L}"
proof (rule linorder_inj_onI')
  fix m n
  assume L: "L \<le> 32" and n: "n \<in> {..<2 ^ L}" and mn: "m < (n::nat)"
  show "probe L h m \<noteq> probe L h n"
  proof
    assume "probe L h m = probe L h n"
    then have "probew L h n = probew L h m" by (simp add: probe_def word_eq_nat_iff)
    then have "take_bit L (word_of_nat n * HASH2 h L (32 - L))
        = take_bit L (word_of_nat m * HASH2 h L (32 - L))"
      unfolding probew_def by (rule take_bit_minus_cancel)
    with odd_multiple_inj [OF odd_HASH2 L mn] n show False by simp
  qed
qed

text \<open>Every entry is on the probe sequence: the second hash is odd and the size a power of two.\<close>

lemma probe_covers: "L \<le> 32 \<Longrightarrow> probe L h ` {..<2 ^ L} = {..<2 ^ L}"
  by (rule endo_inj_surj) (auto simp: probe_less probe_inj)

subsection \<open>What a search does\<close>

definition hit :: "('k, 'e) JSDHashTableOps \<Rightarrow> 'k \<Rightarrow> u32 \<Rightarrow> 'e slot \<Rightarrow> bool" where
  "hit hops key h s \<longleftrightarrow> MATCH_ENTRY_KEYHASH s h \<and> matchEntry hops (body s) key"

definition stops :: "('k, 'e) JSDHashTableOps \<Rightarrow> 'k \<Rightarrow> u32 \<Rightarrow> 'e slot \<Rightarrow> bool" where
  "stops hops key h s \<longleftrightarrow> ENTRY_IS_FREE s \<or> hit hops key h s"

text \<open>The collision flag set on the live entries at the positions \<open>A\<close>.\<close>

definition mark :: "nat set \<Rightarrow> 'e slot list \<Rightarrow> 'e slot list" where
  "mark A store =
     map (\<lambda>i. if i \<in> A \<and> \<not> ENTRY_IS_REMOVED (store ! i)
               then (store ! i)\<lparr>keyHash := keyHash (store ! i) OR COLLISION_FLAG\<rparr>
               else store ! i) [0..<length store]"

lemma length_mark [simp]: "length (mark A store) = length store"
  by (simp add: mark_def)

lemma mark_nth: "i < length store \<Longrightarrow> mark A store ! i =
    (if i \<in> A \<and> \<not> ENTRY_IS_REMOVED (store ! i)
     then (store ! i)\<lparr>keyHash := keyHash (store ! i) OR COLLISION_FLAG\<rparr> else store ! i)"
  by (simp add: mark_def)

lemma mark_empty [simp]: "mark {} store = store"
  by (simp add: mark_def map_nth)

lemma mark_insert_removed: "ENTRY_IS_REMOVED (store ! i) \<Longrightarrow> mark (insert i A) store = mark A store"
  by (rule nth_equalityI) (auto simp: mark_nth)

lemma mark_insert:
  "\<lbrakk>\<not> ENTRY_IS_REMOVED (store ! i); i \<notin> A; i < length store\<rbrakk>
    \<Longrightarrow> mark (insert i A) store = set_collision (mark A store) i"
  by (rule nth_equalityI) (auto simp: mark_nth set_collision_def nth_list_update)

definition first_removed :: "nat \<Rightarrow> u32 \<Rightarrow> 'e slot list \<Rightarrow> nat \<Rightarrow> nat option" where
  "first_removed L h store N = find (\<lambda>i. ENTRY_IS_REMOVED (store ! i)) (map (probe L h) [0..<N])"

lemma find_snoc: "find P (xs @ [x]) = (case find P xs of Some y \<Rightarrow> Some y | None \<Rightarrow> if P x then Some x else None)"
  by (induction xs) auto

lemma first_removed_Suc: "first_removed L h store (Suc N) =
    (case first_removed L h store N of Some r \<Rightarrow> Some r
     | None \<Rightarrow> if ENTRY_IS_REMOVED (store ! probe L h N) then Some (probe L h N) else None)"
  by (simp add: first_removed_def find_snoc)

definition target :: "bool \<Rightarrow> nat \<Rightarrow> u32 \<Rightarrow> 'e slot list \<Rightarrow> nat \<Rightarrow> nat" where
  "target add L h store N =
     (if add \<and> ENTRY_IS_FREE (store ! probe L h N)
      then (case first_removed L h store N of Some r \<Rightarrow> r | None \<Rightarrow> probe L h N)
      else probe L h N)"

definition visited :: "bool \<Rightarrow> nat \<Rightarrow> u32 \<Rightarrow> nat \<Rightarrow> nat set" where
  "visited add L h N = (if add then probe L h ` {..<N} else {})"

lemma visited_Suc: "visited add L h (Suc N) = (if add then insert (probe L h N) (visited add L h N) else {})"
  by (simp add: visited_def lessThan_Suc)

lemma probe_not_visited:
  "\<lbrakk>L \<le> 32; N \<le> M; M < 2 ^ L\<rbrakk> \<Longrightarrow> probe L h M \<notin> visited add L h N"
  by (auto simp: visited_def dest!: inj_onD [OF probe_inj [of L h], rotated])

text \<open>The loop from probe \<open>n\<close> on, when the sequence stops at probe \<open>N\<close>.\<close>

lemma search_loop_run:
  fixes store :: "'e slot list"
  assumes len: "length store = 2 ^ L" and L: "L \<le> 32" and N: "N < 2 ^ L"
    and pre: "\<forall>m<N. \<not> stops hops key h (store ! probe L h m)"
    and at: "stops hops key h (store ! probe L h N)" and n: "n < N"
  shows "search_loop hops key h add (HASH2 h L (32 - L)) (JS_BITMASK L)
      (mark (visited add L h (Suc n)) store) (first_removed L h store (Suc n)) (probew L h n)
    = Some (mark (visited add L h N) store, target add L h store N)"
  using n
proof (induction "N - n" arbitrary: n)
  case 0
  then show ?case by simp
next
  case (Suc x)
  let ?i = "probe L h (Suc n)"
  have i: "?i < length store" by (simp add: len probe_less)
  have nv: "?i \<notin> visited add L h (Suc n)" using probe_not_visited [OF L] Suc.prems N by simp
  have e: "mark (visited add L h (Suc n)) store ! ?i = store ! ?i"
    using i nv by (simp add: mark_nth)
  have hash: "(probew L h n - HASH2 h L (32 - L)) AND JS_BITMASK L = probew L h (Suc n)"
    by (rule probew_Suc)
  have u: "unat (probew L h (Suc n)) = ?i" by (simp add: probe_def)
  show ?case
  proof (cases "Suc n = N")
    case True
    then show ?thesis
      using at i e
      by (subst search_loop.simps)
        (auto simp: hash u Let_def stops_def hit_def target_def split: option.splits)
  next
    case False
    then have lt: "Suc n < N" using Suc.prems by simp
    then have go: "\<not> stops hops key h (store ! ?i)" using pre by simp
    have IH: "search_loop hops key h add (HASH2 h L (32 - L)) (JS_BITMASK L)
        (mark (visited add L h (Suc (Suc n))) store) (first_removed L h store (Suc (Suc n)))
        (probew L h (Suc n)) = Some (mark (visited add L h N) store, target add L h store N)"
      using Suc.hyps lt by simp
    have mk: "mark (visited add L h (Suc (Suc n))) store =
        (if add \<and> \<not> ENTRY_IS_REMOVED (store ! ?i)
         then set_collision (mark (visited add L h (Suc n)) store) ?i
         else mark (visited add L h (Suc n)) store)"
      using nv i mark_insert_removed [of store ?i] mark_insert [of store ?i]
      by (cases add) (simp_all add: visited_def lessThan_Suc [of "Suc n"])
    show ?thesis
      using go i e IH
      by (subst search_loop.simps)
        (auto simp: hash u Let_def stops_def hit_def mk first_removed_Suc [of L h store "Suc n"]
          split: option.splits if_splits)
  qed
qed

lemma SearchTable_run:
  assumes hs: "hashShift table = 32 - L" and len: "length (entryStore table) = 2 ^ L"
    and L: "L \<le> 32" and N: "N < 2 ^ L"
    and pre: "\<forall>m<N. \<not> stops (ops table) key h (entryStore table ! probe L h m)"
    and at: "stops (ops table) key h (entryStore table ! probe L h N)"
  shows "SearchTable table key h op =
    Some (table\<lparr>entryStore := mark (visited (op = JS_DHASH_ADD) L h N) (entryStore table)\<rparr>,
      target (op = JS_DHASH_ADD) L h (entryStore table) N)"
proof -
  let ?s = "entryStore table" and ?i = "probe L h 0"
  have h1: "HASH1 h (32 - L) = probew L h 0" by (rule HASH1_probew [OF L])
  have u: "unat (probew L h 0) = ?i" by (simp add: probe_def)
  have i: "?i < length ?s" by (simp add: len probe_less)
  have L': "32 - (32 - L) = L" using L by simp
  show ?thesis
  proof (cases N)
    case 0
    then show ?thesis using at i
      by (auto simp: SearchTable_def Let_def hs h1 u stops_def hit_def target_def first_removed_def
          visited_def)
  next
    case (Suc M)
    have go: "\<not> stops (ops table) key h (?s ! ?i)" using pre Suc by simp
    have run: "search_loop (ops table) key h add (HASH2 h L (32 - L)) (JS_BITMASK L)
        (mark (visited add L h 1) ?s) (first_removed L h ?s 1) (probew L h 0)
      = Some (mark (visited add L h N) ?s, target add L h ?s N)" for add
      using search_loop_run [OF len L N pre at, of 0] Suc by simp
    have fr: "first_removed L h ?s 1 = (if ENTRY_IS_REMOVED (?s ! ?i) then Some ?i else None)"
      by (simp add: first_removed_def)
    have mk: "mark (visited add L h 1) ?s =
        (if ENTRY_IS_REMOVED (?s ! ?i) \<or> \<not> add then ?s else set_collision ?s ?i)" for add
      using i mark_insert_removed [of ?s ?i "{}"] mark_insert [of ?s ?i "{}"]
      by (simp add: visited_def lessThan_Suc)
    show ?thesis
      using go i run [of "op = JS_DHASH_ADD", unfolded fr mk]
      by (cases "op = JS_DHASH_ADD"; cases "ENTRY_IS_REMOVED (?s ! ?i)") (auto simp: SearchTable_def Let_def h1 u hs L' stops_def hit_def JS_DHASH_BITS_def)
  qed
qed

text \<open>With a free entry left, every search ends, for every key.\<close>

lemma stop_exists:
  assumes L: "L \<le> 32" and j: "j < 2 ^ L" "ENTRY_IS_FREE (store ! j)"
  obtains N where "N < 2 ^ L" "stops hops key h (store ! probe L h N)"
    "\<forall>m<N. \<not> stops hops key h (store ! probe L h m)"
proof -
  let ?P = "\<lambda>N. stops hops key h (store ! probe L h N)"
  have "j \<in> probe L h ` {..<2 ^ L}" using probe_covers [OF L, of h] j(1) by simp
  then obtain n where n: "n < 2 ^ L" "probe L h n = j" by blast
  then have P: "?P n" using j(2) by (simp add: stops_def)
  have "(LEAST N. ?P N) < 2 ^ L" using Least_le [of ?P n, OF P] n(1) by simp
  moreover have "?P (LEAST N. ?P N)" by (rule LeastI [of ?P, OF P])
  moreover have "\<forall>m<(LEAST N. ?P N). \<not> ?P m" using not_less_Least by blast
  ultimately show ?thesis by (rule that)
qed

subsection \<open>Keys and stored hashes\<close>

text \<open>
  What the table needs of its hooks: \<open>matchEntry\<close> decides equality of keys up to a canonical form,
  equal keys have equal hashes, and moving an entry to another store keeps its contents.
\<close>

locale dhash_keys =
  fixes hops :: "('k, 'e) JSDHashTableOps" and canon :: "'k \<Rightarrow> 'c"
  assumes match_canon: "matchEntry hops e k \<longleftrightarrow> canon (getKey hops e) = canon k"
    and hash_canon: "canon k = canon k' \<Longrightarrow> hashKey hops k = hashKey hops k'"
    and move_keeps: "moveEntry hops e = e"

lemma masked_even: "even (w AND NOT COLLISION_FLAG)"
  by (simp add: COLLISION_FLAG_def even_and_iff)

lemma masked_unflag: "(w OR 1) AND NOT COLLISION_FLAG = w AND NOT COLLISION_FLAG"
  unfolding COLLISION_FLAG_def by (rule bit_word_eqI) (auto simp: bit_simps)

lemma masked_id: "even w \<Longrightarrow> w AND NOT COLLISION_FLAG = (w :: u32)"
  unfolding COLLISION_FLAG_def
  by (rule bit_word_eqI) (auto simp: bit_simps bit_0 intro!: gr0I)

lemma unat_masked: "unat (w AND NOT COLLISION_FLAG :: u32) = 2 * (unat w div 2)"
proof -
  have "w AND NOT COLLISION_FLAG = push_bit 1 (drop_bit 1 w)"
    unfolding COLLISION_FLAG_def by (rule bit_word_eqI) (auto simp: bit_simps simp del: push_bit_Suc)
  moreover have "2 * (unat w div 2) < 2 ^ 32" using unsigned_less [of w, where ?'a = nat] by simp
  ultimately show ?thesis
    using unat_push_bit [of "drop_bit 1 w" 1] by (simp add: unat_drop_bit mult.commute)
qed

lemma masked_live: "2 \<le> (w :: u32) \<longleftrightarrow> 2 \<le> w AND NOT COLLISION_FLAG"
proof -
  have "2 \<le> unat w \<longleftrightarrow> 2 \<le> 2 * (unat w div 2)" by presburger
  then show ?thesis by (simp add: word_le_nat_alt unat_masked)
qed

lemma prepared_hash_even: "even (prepared_hash hops k)"
  by (simp add: prepared_hash_def masked_even)

lemma prepared_hash_live: "2 \<le> prepared_hash hops k"
proof -
  have "2 \<le> ENSURE_LIVE_KEYHASH w" for w
  proof (cases "w < 2")
    case True
    then have "unat w < 2" by (simp add: word_less_nat_alt)
    then have "unat w = 0 \<or> unat w = 1" by auto
    then have "w = 0 \<or> w = 1" by (simp add: word_eq_nat_iff)
    then show ?thesis by (auto simp: ENSURE_LIVE_KEYHASH_def)
  next
    case False
    then show ?thesis by (simp add: ENSURE_LIVE_KEYHASH_def)
  qed
  then show ?thesis unfolding prepared_hash_def by (simp flip: masked_live)
qed

subsection \<open>Store invariant and the map of a store\<close>

definition chained :: "nat \<Rightarrow> 'e slot list \<Rightarrow> u32 \<Rightarrow> nat \<Rightarrow> bool" where
  "chained L s h n \<longleftrightarrow> (\<forall>m<n. odd (keyHash (s ! probe L h m)))"

definition reach :: "nat \<Rightarrow> 'e slot list \<Rightarrow> u32 \<Rightarrow> nat \<Rightarrow> bool" where
  "reach L s h i \<longleftrightarrow> (\<exists>n<2 ^ L. probe L h n = i \<and> chained L s h n)"

definition slot_ok :: "('k, 'e) JSDHashTableOps \<Rightarrow> nat \<Rightarrow> 'e slot list \<Rightarrow> nat \<Rightarrow> bool" where
  "slot_ok hops L s i \<longleftrightarrow>
     (let h = prepared_hash hops (getKey hops (body (s ! i)))
      in keyHash (s ! i) AND NOT COLLISION_FLAG = h \<and> reach L s h i)"

definition store_ok :: "('k, 'e) JSDHashTableOps \<Rightarrow> nat \<Rightarrow> 'e slot list \<Rightarrow> bool" where
  "store_ok hops L s \<longleftrightarrow> length s = 2 ^ L \<and>
     (\<forall>i<2 ^ L. ENTRY_IS_LIVE (s ! i) \<longrightarrow> slot_ok hops L s i) \<and>
     (\<forall>i<2 ^ L. \<forall>j<2 ^ L. ENTRY_IS_LIVE (s ! i) \<and> ENTRY_IS_LIVE (s ! j) \<and>
        matchEntry hops (body (s ! i)) (getKey hops (body (s ! j))) \<longrightarrow> i = j)"

definition store_map :: "('k, 'e) JSDHashTableOps \<Rightarrow> 'e slot list \<Rightarrow> 'k \<Rightarrow> 'e option" where
  "store_map hops s k =
     map_option body (find (\<lambda>x. ENTRY_IS_LIVE x \<and> matchEntry hops (body x) k) s)"

abbreviation live_count :: "'e slot list \<Rightarrow> nat" where
  "live_count s \<equiv> length (filter ENTRY_IS_LIVE s)"

abbreviation removed_count :: "'e slot list \<Rightarrow> nat" where
  "removed_count s \<equiv> length (filter ENTRY_IS_REMOVED s)"

lemma keyHash_cases:
  obtains "ENTRY_IS_FREE s" "keyHash s = 0" "\<not> ENTRY_IS_REMOVED s" "\<not> ENTRY_IS_LIVE s"
  | "ENTRY_IS_REMOVED s" "keyHash s = 1" "\<not> ENTRY_IS_FREE s" "\<not> ENTRY_IS_LIVE s"
  | "ENTRY_IS_LIVE s" "2 \<le> keyHash s" "\<not> ENTRY_IS_FREE s" "\<not> ENTRY_IS_REMOVED s"
proof -
  have "keyHash s = 0 \<or> keyHash s = 1 \<or> 2 \<le> keyHash s"
  proof -
    have "unat (keyHash s) = 0 \<or> unat (keyHash s) = 1 \<or> 2 \<le> unat (keyHash s)" by arith
    then show ?thesis by (simp add: word_eq_nat_iff word_le_nat_alt)
  qed
  moreover have "\<not> (2::u32) \<le> 0" "\<not> (2::u32) \<le> 1" by (simp_all add: word_le_nat_alt)
  ultimately show ?thesis using that
    by (auto simp: ENTRY_IS_FREE_def ENTRY_IS_REMOVED_def ENTRY_IS_LIVE_def)
qed

lemma live_not: "ENTRY_IS_LIVE s \<Longrightarrow> \<not> ENTRY_IS_FREE s \<and> \<not> ENTRY_IS_REMOVED s"
  by (cases s rule: keyHash_cases) auto

lemma odd_not_free: "odd (keyHash s) \<Longrightarrow> \<not> ENTRY_IS_FREE s"
  by (auto simp: ENTRY_IS_FREE_def)

lemma counts_free: "live_count s + removed_count s + length (filter ENTRY_IS_FREE s) = length s"
proof (induction s)
  case (Cons x s)
  then show ?case by (cases x rule: keyHash_cases) auto
qed simp

lemma free_exists: "live_count s + removed_count s < length s \<Longrightarrow> \<exists>i<length s. ENTRY_IS_FREE (s ! i)"
  using counts_free [of s] by (metis add.right_neutral filter_False in_set_conv_nth less_irrefl list.size(3))

lemma store_okD:
  assumes "store_ok hops L s"
  shows "length s = 2 ^ L"
    and "\<lbrakk>i < 2 ^ L; ENTRY_IS_LIVE (s ! i)\<rbrakk> \<Longrightarrow>
      keyHash (s ! i) AND NOT COLLISION_FLAG = prepared_hash hops (getKey hops (body (s ! i)))"
    and "\<lbrakk>i < 2 ^ L; ENTRY_IS_LIVE (s ! i)\<rbrakk> \<Longrightarrow>
      reach L s (prepared_hash hops (getKey hops (body (s ! i)))) i"
    and "\<lbrakk>i < 2 ^ L; j < 2 ^ L; ENTRY_IS_LIVE (s ! i); ENTRY_IS_LIVE (s ! j);
      matchEntry hops (body (s ! i)) (getKey hops (body (s ! j)))\<rbrakk> \<Longrightarrow> i = j"
  using assms by (auto simp: store_ok_def slot_ok_def Let_def)

text \<open>\<open>same_entries s s'\<close>: only collision flags differ, and none is lost.\<close>

definition same_entries :: "'e slot list \<Rightarrow> 'e slot list \<Rightarrow> bool" where
  "same_entries s s' \<longleftrightarrow> length s' = length s \<and>
     (\<forall>i<length s. body (s' ! i) = body (s ! i) \<and>
        keyHash (s' ! i) AND NOT COLLISION_FLAG = keyHash (s ! i) AND NOT COLLISION_FLAG \<and>
        ENTRY_IS_LIVE (s' ! i) = ENTRY_IS_LIVE (s ! i) \<and>
        ENTRY_IS_FREE (s' ! i) = ENTRY_IS_FREE (s ! i) \<and>
        ENTRY_IS_REMOVED (s' ! i) = ENTRY_IS_REMOVED (s ! i) \<and>
        (odd (keyHash (s ! i)) \<longrightarrow> odd (keyHash (s' ! i))))"

lemma flag_live: "ENTRY_IS_LIVE s \<Longrightarrow> ENTRY_IS_LIVE (s\<lparr>keyHash := keyHash s OR COLLISION_FLAG\<rparr>)"
  unfolding ENTRY_IS_LIVE_def
  by (subst masked_live) (simp add: masked_unflag COLLISION_FLAG_def [symmetric] masked_live [symmetric]
      masked_unflag [folded COLLISION_FLAG_def])

lemma mark_same:
  assumes "\<And>i. \<lbrakk>i \<in> A; i < length s\<rbrakk> \<Longrightarrow> \<not> ENTRY_IS_FREE (s ! i)"
  shows "same_entries s (mark A s)"
  unfolding same_entries_def
proof (intro conjI allI impI)
  fix i assume i: "i < length s"
  let ?x = "s ! i" and ?y = "mark A s ! i"
  consider "?y = ?x"
    | "ENTRY_IS_LIVE ?x" "ENTRY_IS_LIVE ?y" "?y = ?x\<lparr>keyHash := keyHash ?x OR COLLISION_FLAG\<rparr>"
    using assms [of i] i flag_live [of ?x] by (cases "i \<in> A"; cases ?x rule: keyHash_cases) (auto simp: mark_nth)
  note cases = this
  show "body ?y = body ?x" by (cases rule: cases) auto
  show "keyHash ?y AND NOT COLLISION_FLAG = keyHash ?x AND NOT COLLISION_FLAG"
    by (cases rule: cases) (auto simp: masked_unflag [folded COLLISION_FLAG_def])
  show "ENTRY_IS_LIVE ?y = ENTRY_IS_LIVE ?x" by (cases rule: cases) auto
  show "ENTRY_IS_FREE ?y = ENTRY_IS_FREE ?x"
    by (cases rule: cases) (auto dest: live_not)
  show "ENTRY_IS_REMOVED ?y = ENTRY_IS_REMOVED ?x"
    by (cases rule: cases) (auto dest: live_not)
  show "odd (keyHash ?y)" if "odd (keyHash ?x)"
    using that by (cases rule: cases) (auto simp: COLLISION_FLAG_def even_or_iff)
qed simp

lemma same_entries_filter:
  assumes "same_entries s s'" and "\<And>i. i < length s \<Longrightarrow> P (s' ! i) = P (s ! i)"
  shows "length (filter P s') = length (filter P s)"
  using assms by (simp add: same_entries_def length_filter_conv_card cong: conj_cong)

lemma same_entries_live: "same_entries s s' \<Longrightarrow> live_count s' = live_count s"
  by (rule same_entries_filter) (auto simp: same_entries_def)

lemma same_entries_removed: "same_entries s s' \<Longrightarrow> removed_count s' = removed_count s"
  by (rule same_entries_filter) (auto simp: same_entries_def)

lemma chained_mono:
  assumes "chained L s h n" and "\<And>m. m < n \<Longrightarrow> odd (keyHash (s ! probe L h m)) \<Longrightarrow> odd (keyHash (s' ! probe L h m))"
  shows "chained L s' h n"
  using assms by (auto simp: chained_def)

lemma reach_mono:
  assumes "reach L s h i" and "\<And>j. j < 2 ^ L \<Longrightarrow> odd (keyHash (s ! j)) \<Longrightarrow> odd (keyHash (s' ! j))"
  shows "reach L s' h i"
proof -
  obtain n where n: "n < 2 ^ L" "probe L h n = i" "chained L s h n" using assms(1) by (auto simp: reach_def)
  have "chained L s' h n" using n(3) by (rule chained_mono) (rule assms(2) [OF probe_less])
  with n show ?thesis by (auto simp: reach_def)
qed

lemma same_entries_ok:
  assumes "same_entries s s'" "store_ok hops L s"
  shows "store_ok hops L s'"
proof -
  note ok = store_okD [OF assms(2)]
  have eq: "body (s' ! i) = body (s ! i)" "ENTRY_IS_LIVE (s' ! i) = ENTRY_IS_LIVE (s ! i)"
    "keyHash (s' ! i) AND NOT COLLISION_FLAG = keyHash (s ! i) AND NOT COLLISION_FLAG"
    "odd (keyHash (s ! i)) \<Longrightarrow> odd (keyHash (s' ! i))"
    if "i < 2 ^ L" for i
    using assms(1) that ok(1) by (auto simp: same_entries_def)
  have "slot_ok hops L s' i" if "i < 2 ^ L" "ENTRY_IS_LIVE (s' ! i)" for i
    using that ok(2,3) [of i] reach_mono [of L s _ i s'] by (simp add: slot_ok_def eq)
  then show ?thesis
    using assms(1) ok(1,4) by (simp add: store_ok_def same_entries_def eq)
qed

subsection \<open>Searching, inserting, removing and updating\<close>

lemma length_filter_update:
  "i < length xs \<Longrightarrow> length (filter P (xs[i := y])) + of_bool (P (xs ! i)) = length (filter P xs) + of_bool (P y)"
proof (induction xs arbitrary: i)
  case (Cons x xs)
  then show ?case by (cases i) auto
qed simp

context dhash_keys begin

lemma prepared_canon: "canon k = canon k' \<Longrightarrow> prepared_hash hops k = prepared_hash hops k'"
  using hash_canon [of k k'] by (simp add: prepared_hash_def)

lemma match_trans: "\<lbrakk>matchEntry hops e k; matchEntry hops e' k\<rbrakk> \<Longrightarrow> matchEntry hops e (getKey hops e')"
  by (simp add: match_canon)

lemma hit_iff:
  assumes "store_ok hops L s" "i < 2 ^ L"
  shows "hit hops k (prepared_hash hops k) (s ! i) \<longleftrightarrow> ENTRY_IS_LIVE (s ! i) \<and> matchEntry hops (body (s ! i)) k"
proof
  assume h: "hit hops k (prepared_hash hops k) (s ! i)"
  then have "2 \<le> keyHash (s ! i)"
    using prepared_hash_live [of hops k] by (subst masked_live) (simp add: hit_def MATCH_ENTRY_KEYHASH_def)
  then show "ENTRY_IS_LIVE (s ! i) \<and> matchEntry hops (body (s ! i)) k"
    using h by (simp add: hit_def ENTRY_IS_LIVE_def)
next
  assume a: "ENTRY_IS_LIVE (s ! i) \<and> matchEntry hops (body (s ! i)) k"
  then have "prepared_hash hops (getKey hops (body (s ! i))) = prepared_hash hops k"
    by (intro prepared_canon) (simp add: match_canon)
  then show "hit hops k (prepared_hash hops k) (s ! i)"
    using a store_okD(2) [OF assms] by (simp add: hit_def MATCH_ENTRY_KEYHASH_def)
qed

lemma store_map_None:
  assumes "length s = 2 ^ L"
  shows "store_map hops s k = None \<longleftrightarrow>
    (\<forall>i<2 ^ L. ENTRY_IS_LIVE (s ! i) \<longrightarrow> \<not> matchEntry hops (body (s ! i)) k)"
  using assms by (auto simp: store_map_def find_None_iff in_set_conv_nth)

lemma store_map_Some:
  assumes "store_ok hops L s"
  shows "store_map hops s k = Some b \<longleftrightarrow>
    (\<exists>i<2 ^ L. ENTRY_IS_LIVE (s ! i) \<and> body (s ! i) = b \<and> matchEntry hops b k)"
proof
  assume "store_map hops s k = Some b"
  then show "\<exists>i<2 ^ L. ENTRY_IS_LIVE (s ! i) \<and> body (s ! i) = b \<and> matchEntry hops b k"
    using store_okD(1) [OF assms] by (auto simp: store_map_def find_Some_iff)
next
  assume "\<exists>i<2 ^ L. ENTRY_IS_LIVE (s ! i) \<and> body (s ! i) = b \<and> matchEntry hops b k"
  then obtain i where i: "i < 2 ^ L" "ENTRY_IS_LIVE (s ! i)" "body (s ! i) = b" "matchEntry hops b k"
    by blast
  then have "store_map hops s k \<noteq> None" using store_map_None [OF store_okD(1) [OF assms]] by blast
  then obtain x where x: "find (\<lambda>x. ENTRY_IS_LIVE x \<and> matchEntry hops (body x) k) s = Some x"
    "store_map hops s k = Some (body x)" by (auto simp: store_map_def)
  then obtain j where j: "j < 2 ^ L" "ENTRY_IS_LIVE (s ! j)" "x = s ! j" "matchEntry hops (body (s ! j)) k"
    using store_okD(1) [OF assms] by (auto simp: find_Some_iff)
  have "i = j" using store_okD(4) [OF assms i(1) j(1) i(2) j(2)] match_trans i(3,4) j(4) by simp
  then show "store_map hops s k = Some b" using x j i by simp
qed

lemma same_entries_map:
  assumes "same_entries s s'" "store_ok hops L s"
  shows "store_map hops s' = store_map hops s"
proof -
  have "store_map hops s' k = Some b \<longleftrightarrow> store_map hops s k = Some b" for k b
    using assms store_okD(1) [OF assms(2)]
    by (simp add: store_map_Some [OF assms(2)] store_map_Some [OF same_entries_ok [OF assms]])
      (auto simp: same_entries_def)
  then show ?thesis by (intro ext option_eqI)
qed

text \<open>Where a search for \<open>k\<close> stops: at the entry of \<open>k\<close>, or at a free entry if there is none.\<close>

lemma search_result:
  assumes ok: "store_ok hops L s" and L: "L \<le> 32" and free: "j < 2 ^ L" "ENTRY_IS_FREE (s ! j)"
  obtains N where "N < 2 ^ L" "stops hops k (prepared_hash hops k) (s ! probe L (prepared_hash hops k) N)"
    "\<forall>m<N. \<not> stops hops k (prepared_hash hops k) (s ! probe L (prepared_hash hops k) m)"
    "case store_map hops s k of
       None \<Rightarrow> ENTRY_IS_FREE (s ! probe L (prepared_hash hops k) N)
     | Some b \<Rightarrow> ENTRY_IS_LIVE (s ! probe L (prepared_hash hops k) N) \<and>
         body (s ! probe L (prepared_hash hops k) N) = b \<and> matchEntry hops b k"
proof -
  let ?h = "prepared_hash hops k"
  obtain N where N: "N < 2 ^ L" "stops hops k ?h (s ! probe L ?h N)"
    "\<forall>m<N. \<not> stops hops k ?h (s ! probe L ?h m)" using stop_exists [OF L free] .
  have hit: "hit hops k ?h (s ! probe L ?h n) \<longleftrightarrow>
      ENTRY_IS_LIVE (s ! probe L ?h n) \<and> matchEntry hops (body (s ! probe L ?h n)) k" for n
    by (rule hit_iff [OF ok probe_less])
  have "case store_map hops s k of None \<Rightarrow> ENTRY_IS_FREE (s ! probe L ?h N)
     | Some b \<Rightarrow> ENTRY_IS_LIVE (s ! probe L ?h N) \<and> body (s ! probe L ?h N) = b \<and> matchEntry hops b k"
  proof (cases "store_map hops s k")
    case None
    then have "\<not> hit hops k ?h (s ! probe L ?h N)"
      using store_map_None [OF store_okD(1) [OF ok]] by (simp add: hit probe_less)
    then show ?thesis using None N(2) by (simp add: stops_def)
  next
    case (Some b)
    then obtain i where i: "i < 2 ^ L" "ENTRY_IS_LIVE (s ! i)" "body (s ! i) = b" "matchEntry hops b k"
      using store_map_Some [OF ok] by blast
    then have "prepared_hash hops (getKey hops b) = ?h" by (intro prepared_canon) (simp add: match_canon)
    then have "reach L s ?h i" using store_okD(3) [OF ok i(1,2)] i(3) by simp
    then obtain n where n: "n < 2 ^ L" "probe L ?h n = i" "chained L s ?h n" by (auto simp: reach_def)
    then have "stops hops k ?h (s ! probe L ?h n)" using i hit [of n] by (simp add: stops_def)
    then have "N \<le> n" using N(3) by (auto simp: not_less [symmetric])
    then have "N = n \<or> odd (keyHash (s ! probe L ?h N))" using n(3) by (auto simp: chained_def)
    then have "N = n \<or> hit hops k ?h (s ! probe L ?h N)"
      using N(2) odd_not_free by (auto simp: stops_def)
    then have "probe L ?h N = i"
    proof
      assume "hit hops k ?h (s ! probe L ?h N)"
      then show "probe L ?h N = i"
        using store_okD(4) [OF ok probe_less i(1) _ i(2)] match_trans i(3,4) by (auto simp: hit)
    qed (use n in simp)
    then show ?thesis using Some i by simp
  qed
  with N show ?thesis by (rule that)
qed

end

text \<open>The one-entry changes of a store: claim a vacant entry, vacate a live one, rewrite its contents.\<close>

lemma ex_nth_update:
  assumes "p < length xs" "length xs = n"
  shows "(\<exists>i<n. P (xs[p := x] ! i)) \<longleftrightarrow> P x \<or> (\<exists>i<n. i \<noteq> p \<and> P (xs ! i))"
  using assms by (metis nth_list_update)

lemma prepared_hash_hk:
  assumes "hk AND NOT COLLISION_FLAG = prepared_hash hops k"
  shows "2 \<le> hk"
  using prepared_hash_live [of hops k] assms by (subst masked_live) simp

context dhash_keys begin

lemma put_ok:
  assumes ok: "store_ok hops L s" and p: "p < 2 ^ L" "\<not> ENTRY_IS_LIVE (s ! p)"
    and new: "store_map hops s k = None" and key: "canon (getKey hops b) = canon k"
    and r: "reach L s (prepared_hash hops k) p"
    and hk: "hk AND NOT COLLISION_FLAG = prepared_hash hops k"
    and flag: "odd (keyHash (s ! p)) \<Longrightarrow> odd hk"
  shows "store_ok hops L (s[p := \<lparr>keyHash = hk, body = b\<rparr>])"
    and "store_map hops (s[p := \<lparr>keyHash = hk, body = b\<rparr>]) k' =
      (if canon k' = canon k then Some b else store_map hops s k')"
proof -
  let ?x = "\<lparr>keyHash = hk, body = b\<rparr>" let ?s = "s[p := ?x]"
  have len: "length s = 2 ^ L" by (rule store_okD(1) [OF ok])
  have nth: "?s ! i = (if i = p then ?x else s ! i)" if "i < 2 ^ L" for i using that len by simp
  have lp: "ENTRY_IS_LIVE ?x" using prepared_hash_hk [OF hk] by (simp add: ENTRY_IS_LIVE_def)
  have kb: "prepared_hash hops (getKey hops b) = prepared_hash hops k" by (rule prepared_canon [OF key])
  have mono: "reach L ?s h i" if "reach L s h i" for h i
    using that by (rule reach_mono) (auto simp: nth flag)
  have fresh: "\<not> matchEntry hops (body (s ! i)) k" if "i < 2 ^ L" "ENTRY_IS_LIVE (s ! i)" for i
    using new that store_map_None [OF len] by blast
  have "slot_ok hops L ?s i" if i: "i < 2 ^ L" "ENTRY_IS_LIVE (?s ! i)" for i
    using i kb hk mono [OF r] mono store_okD(2,3) [OF ok, of i]
    by (cases "i = p") (auto simp: slot_ok_def nth)
  moreover have "i = j" if i: "i < 2 ^ L" "j < 2 ^ L" "ENTRY_IS_LIVE (?s ! i)" "ENTRY_IS_LIVE (?s ! j)"
    and m: "matchEntry hops (body (?s ! i)) (getKey hops (body (?s ! j)))" for i j
    using i m store_okD(4) [OF ok i(1,2)] fresh [of i] fresh [of j] key
    by (cases "i = p"; cases "j = p") (auto simp: nth match_canon)
  ultimately show ok': "store_ok hops L ?s" using len by (simp add: store_ok_def)
  show "store_map hops ?s k' = (if canon k' = canon k then Some b else store_map hops s k')"
  proof (rule option_eqI)
    fix c
    have "store_map hops ?s k' = Some c \<longleftrightarrow>
        (canon k' = canon k \<and> c = b) \<or> (\<exists>i<2 ^ L. i \<noteq> p \<and> ENTRY_IS_LIVE (s ! i) \<and> body (s ! i) = c \<and> matchEntry hops c k')"
      using p len lp key ex_nth_update [of p s,
        where P = "\<lambda>y. ENTRY_IS_LIVE y \<and> body y = c \<and> matchEntry hops c k'" and n = "2 ^ L" and x = ?x]
      by (auto simp: store_map_Some [OF ok'] match_canon)
    also have "\<dots> \<longleftrightarrow> (if canon k' = canon k then Some b else store_map hops s k') = Some c"
      using p(2) fresh by (auto simp: store_map_Some [OF ok] match_canon)
    finally show "store_map hops ?s k' = Some c \<longleftrightarrow>
      (if canon k' = canon k then Some b else store_map hops s k') = Some c" .
  qed
qed

lemma vacate_ok:
  assumes ok: "store_ok hops L s" and p: "p < 2 ^ L" "ENTRY_IS_LIVE (s ! p)"
    and flag: "keyHash x = (if odd (keyHash (s ! p)) then 1 else 0)"
  shows "store_ok hops L (s[p := x])"
    and "store_map hops (s[p := x]) k' =
      (if canon k' = canon (getKey hops (body (s ! p))) then None else store_map hops s k')"
proof -
  have len: "length s = 2 ^ L" by (rule store_okD(1) [OF ok])
  have nth: "s[p := x] ! i = (if i = p then x else s ! i)" if "i < 2 ^ L" for i using that len by simp
  have nl: "\<not> ENTRY_IS_LIVE x" using flag by (auto simp: ENTRY_IS_LIVE_def word_le_nat_alt)
  have mono: "reach L (s[p := x]) h i" if "reach L s h i" for h i
    using that by (rule reach_mono) (auto simp: nth flag)
  have "slot_ok hops L (s[p := x]) i" if i: "i < 2 ^ L" "ENTRY_IS_LIVE (s[p := x] ! i)" for i
    using i nl mono store_okD(2,3) [OF ok, of i] by (cases "i = p") (auto simp: slot_ok_def nth)
  moreover have "i = j" if i: "i < 2 ^ L" "j < 2 ^ L" "ENTRY_IS_LIVE (s[p := x] ! i)" "ENTRY_IS_LIVE (s[p := x] ! j)"
    and m: "matchEntry hops (body (s[p := x] ! i)) (getKey hops (body (s[p := x] ! j)))" for i j
    using i m nl store_okD(4) [OF ok i(1,2)] by (cases "i = p"; cases "j = p") (auto simp: nth)
  ultimately show ok': "store_ok hops L (s[p := x])" using len by (simp add: store_ok_def)
  have uniq: "i = p" if "i < 2 ^ L" "ENTRY_IS_LIVE (s ! i)"
    "canon (getKey hops (body (s ! i))) = canon (getKey hops (body (s ! p)))" for i
    using store_okD(4) [OF ok that(1) p(1) that(2) p(2)] that(3) by (simp add: match_canon)
  show "store_map hops (s[p := x]) k' =
      (if canon k' = canon (getKey hops (body (s ! p))) then None else store_map hops s k')"
  proof (rule option_eqI)
    fix c
    have "store_map hops (s[p := x]) k' = Some c \<longleftrightarrow>
        (\<exists>i<2 ^ L. i \<noteq> p \<and> ENTRY_IS_LIVE (s ! i) \<and> body (s ! i) = c \<and> matchEntry hops c k')"
      using p len nl ex_nth_update [of p s,
        where P = "\<lambda>y. ENTRY_IS_LIVE y \<and> body y = c \<and> matchEntry hops c k'" and n = "2 ^ L" and x = x]
      by (auto simp: store_map_Some [OF ok'])
    also have "\<dots> \<longleftrightarrow> (if canon k' = canon (getKey hops (body (s ! p))) then None else store_map hops s k') = Some c"
      by (cases "canon k' = canon (getKey hops (body (s ! p)))")
        (auto simp: store_map_Some [OF ok] match_canon dest: uniq)
    finally show "store_map hops (s[p := x]) k' = Some c \<longleftrightarrow>
      (if canon k' = canon (getKey hops (body (s ! p))) then None else store_map hops s k') = Some c" .
  qed
qed

lemma rewrite_ok:
  assumes ok: "store_ok hops L s" and p: "p < 2 ^ L" "ENTRY_IS_LIVE (s ! p)"
    and key: "canon (getKey hops b) = canon (getKey hops (body (s ! p)))"
  shows "store_ok hops L (s[p := (s ! p)\<lparr>body := b\<rparr>])"
    and "store_map hops (s[p := (s ! p)\<lparr>body := b\<rparr>]) k' =
      (if canon k' = canon (getKey hops b) then Some b else store_map hops s k')"
proof -
  let ?x = "(s ! p)\<lparr>body := b\<rparr>" let ?s = "s[p := ?x]"
  have len: "length s = 2 ^ L" by (rule store_okD(1) [OF ok])
  have nth: "?s ! i = (if i = p then ?x else s ! i)" if "i < 2 ^ L" for i using that len by simp
  have lp: "ENTRY_IS_LIVE ?x" using p(2) by (simp add: ENTRY_IS_LIVE_def)
  have kb: "prepared_hash hops (getKey hops b) = prepared_hash hops (getKey hops (body (s ! p)))"
    by (rule prepared_canon [OF key])
  have mono: "reach L ?s h i" if "reach L s h i" for h i
    using that by (rule reach_mono) (auto simp: nth)
  have "slot_ok hops L ?s i" if i: "i < 2 ^ L" "ENTRY_IS_LIVE (?s ! i)" for i
    using i p kb mono store_okD(2,3) [OF ok, of i] by (cases "i = p") (auto simp: slot_ok_def nth)
  moreover have "i = j" if i: "i < 2 ^ L" "j < 2 ^ L" "ENTRY_IS_LIVE (?s ! i)" "ENTRY_IS_LIVE (?s ! j)"
    and m: "matchEntry hops (body (?s ! i)) (getKey hops (body (?s ! j)))" for i j
    using i m store_okD(4) [OF ok i(1,2)] key p(2)
    by (cases "i = p"; cases "j = p") (auto simp: nth match_canon)
  ultimately show ok': "store_ok hops L ?s" using len by (simp add: store_ok_def)
  have uniq: "i = p" if "i < 2 ^ L" "ENTRY_IS_LIVE (s ! i)"
    "canon (getKey hops (body (s ! i))) = canon (getKey hops (body (s ! p)))" for i
    using store_okD(4) [OF ok that(1) p(1) that(2) p(2)] that(3) by (simp add: match_canon)
  show "store_map hops ?s k' = (if canon k' = canon (getKey hops b) then Some b else store_map hops s k')"
  proof (rule option_eqI)
    fix c
    have "store_map hops ?s k' = Some c \<longleftrightarrow>
        (canon k' = canon (getKey hops b) \<and> c = b) \<or> (\<exists>i<2 ^ L. i \<noteq> p \<and> ENTRY_IS_LIVE (s ! i) \<and> body (s ! i) = c \<and> matchEntry hops c k')"
      using p len lp ex_nth_update [of p s,
        where P = "\<lambda>y. ENTRY_IS_LIVE y \<and> body y = c \<and> matchEntry hops c k'" and n = "2 ^ L" and x = ?x]
      by (auto simp: store_map_Some [OF ok'] match_canon)
    also have "\<dots> \<longleftrightarrow> (if canon k' = canon (getKey hops b) then Some b else store_map hops s k') = Some c"
      by (cases "canon k' = canon (getKey hops (body (s ! p)))")
        (auto simp: store_map_Some [OF ok] match_canon key dest: uniq)
    finally show "store_map hops ?s k' = Some c \<longleftrightarrow>
      (if canon k' = canon (getKey hops b) then Some b else store_map hops s k') = Some c" .
  qed
qed

end

lemma marked_chained:
  assumes L: "length s = 2 ^ L" and pre: "\<forall>m<N. \<not> ENTRY_IS_FREE (s ! probe L h m)"
  shows "chained L (mark (visited True L h N) s) h N"
  unfolding chained_def
proof (intro allI impI)
  fix m assume m: "m < N"
  let ?x = "s ! probe L h m"
  have "\<not> ENTRY_IS_FREE ?x" using pre m by blast
  then show "odd (keyHash (mark (visited True L h N) s ! probe L h m))"
    using m L by (cases ?x rule: keyHash_cases)
      (auto simp: mark_nth probe_less visited_def COLLISION_FLAG_def even_or_iff)
qed

lemma target_probe:
  obtains m where "m \<le> N" "target add L h s N = probe L h m"
    "m = N \<or> add \<and> ENTRY_IS_FREE (s ! probe L h N) \<and> ENTRY_IS_REMOVED (s ! probe L h m)"
proof (cases "add \<and> ENTRY_IS_FREE (s ! probe L h N)")
  case True
  then show ?thesis
  proof (cases "first_removed L h s N")
    case None
    then show ?thesis using True that [of N] by (simp add: target_def)
  next
    case (Some r)
    then obtain m where "m < N" "r = probe L h m" "ENTRY_IS_REMOVED (s ! probe L h m)"
      by (auto simp: first_removed_def find_Some_iff)
    then show ?thesis using Some True that [of m] by (simp add: target_def)
  qed
next
  case False
  then show ?thesis using that [of N] by (auto simp: target_def)
qed

context dhash_keys begin

lemma SearchTable_result:
  assumes t: "ops t = hops" "hashShift t = 32 - L" and L: "L \<le> 32"
    and ok: "store_ok hops L (entryStore t)"
    and room: "live_count (entryStore t) + removed_count (entryStore t) < 2 ^ L"
  obtains s p where
    "SearchTable t k (prepared_hash hops k) op = Some (t\<lparr>entryStore := s\<rparr>, p)"
    "p < 2 ^ L" "same_entries (entryStore t) s" "op \<noteq> JS_DHASH_ADD \<Longrightarrow> s = entryStore t"
    "case store_map hops (entryStore t) k of
       None \<Rightarrow> \<not> ENTRY_IS_LIVE (s ! p) \<and>
         (if op = JS_DHASH_ADD then reach L s (prepared_hash hops k) p else ENTRY_IS_FREE (s ! p))
     | Some b \<Rightarrow> ENTRY_IS_LIVE (s ! p) \<and> body (s ! p) = b \<and> matchEntry hops b k"
proof -
  let ?h = "prepared_hash hops k" and ?s = "entryStore t" and ?add = "op = JS_DHASH_ADD"
  have len: "length ?s = 2 ^ L" by (rule store_okD(1) [OF ok])
  obtain j where "j < 2 ^ L" "ENTRY_IS_FREE (?s ! j)" using free_exists [of ?s] room len by auto
  then obtain N where N: "N < 2 ^ L" "stops hops k ?h (?s ! probe L ?h N)"
    "\<forall>m<N. \<not> stops hops k ?h (?s ! probe L ?h m)"
    and res: "case store_map hops ?s k of
       None \<Rightarrow> ENTRY_IS_FREE (?s ! probe L ?h N)
     | Some b \<Rightarrow> ENTRY_IS_LIVE (?s ! probe L ?h N) \<and> body (?s ! probe L ?h N) = b \<and> matchEntry hops b k"
    by (rule search_result [OF ok L])
  let ?s' = "mark (visited ?add L ?h N) ?s" and ?p = "target ?add L ?h ?s N"
  have run: "SearchTable t k ?h op = Some (t\<lparr>entryStore := ?s'\<rparr>, ?p)"
    using SearchTable_run [OF t(2) len L N(1)] N(2,3) by (simp add: t)
  have nf: "\<forall>m<N. \<not> ENTRY_IS_FREE (?s ! probe L ?h m)" using N(3) by (auto simp: stops_def)
  then have same: "same_entries ?s ?s'" by (intro mark_same) (auto simp: visited_def split: if_splits)
  obtain m where m: "m \<le> N" "?p = probe L ?h m"
    "m = N \<or> ?add \<and> ENTRY_IS_FREE (?s ! probe L ?h N) \<and> ENTRY_IS_REMOVED (?s ! probe L ?h m)"
    by (rule target_probe)
  have p: "?p < 2 ^ L" by (simp add: m(2) probe_less)
  have eq: "body (?s' ! i) = body (?s ! i)" "ENTRY_IS_LIVE (?s' ! i) = ENTRY_IS_LIVE (?s ! i)"
    "ENTRY_IS_FREE (?s' ! i) = ENTRY_IS_FREE (?s ! i)" if "i < 2 ^ L" for i
    using same that len by (auto simp: same_entries_def)
  have r: "reach L ?s' ?h ?p" if ?add
    unfolding reach_def
    using marked_chained [OF len nf] that m(1,2) N(1) by (intro exI [of _ m]) (auto simp: chained_def)
  have "case store_map hops ?s k of
       None \<Rightarrow> \<not> ENTRY_IS_LIVE (?s' ! ?p) \<and>
         (if ?add then reach L ?s' ?h ?p else ENTRY_IS_FREE (?s' ! ?p))
     | Some b \<Rightarrow> ENTRY_IS_LIVE (?s' ! ?p) \<and> body (?s' ! ?p) = b \<and> matchEntry hops b k"
  proof (cases "store_map hops ?s k")
    case None
    then have "ENTRY_IS_FREE (?s ! probe L ?h N)" using res by simp
    then have "\<not> ENTRY_IS_LIVE (?s ! ?p)" "\<not> ?add \<Longrightarrow> ENTRY_IS_FREE (?s ! ?p)"
      using m(2,3) by (auto dest: live_not)
    then show ?thesis using None r eq [OF p] by auto
  next
    case (Some b)
    then have "\<not> ENTRY_IS_FREE (?s ! probe L ?h N)" using res by (auto dest: live_not)
    then have "m = N" using m(3) by blast
    then have "?s ! ?p = ?s ! probe L ?h N" using m(2) by simp
    then show ?thesis using Some res by (simp add: eq [OF p])
  qed
  with run p same show ?thesis by (intro that) (auto simp: visited_def)
qed

text \<open>\<open>entry_added t k s p\<close>: \<open>s\<close> is ready to receive a new entry for \<open>k\<close> at \<open>p\<close>.\<close>

lemma rehash_entry_ok:
  assumes t: "ops t = hops" "hashShift t = 32 - L" and L: "L \<le> 32"
    and ok: "store_ok hops L (entryStore t)" and rc: "removed_count (entryStore t) = 0"
    and room: "live_count (entryStore t) < 2 ^ L"
    and e: "ENTRY_IS_LIVE e" "keyHash e AND NOT COLLISION_FLAG = prepared_hash hops (getKey hops (body e))"
    and new: "store_map hops (entryStore t) (getKey hops (body e)) = None"
  obtains s where "rehash_entry e t = Some (t\<lparr>entryStore := s\<rparr>)" "store_ok hops L s"
    "removed_count s = 0" "live_count s = live_count (entryStore t) + 1"
    "store_map hops s = (\<lambda>k. if canon k = canon (getKey hops (body e)) then Some (body e)
       else store_map hops (entryStore t) k)"
proof -
  let ?k = "getKey hops (body e)" and ?s = "entryStore t"
  let ?h = "prepared_hash hops ?k" let ?x = "\<lparr>keyHash = ?h, body = body e\<rparr>"
  obtain s p where sp: "SearchTable t ?k ?h JS_DHASH_ADD = Some (t\<lparr>entryStore := s\<rparr>, p)"
    "p < 2 ^ L" "same_entries ?s s" "\<not> ENTRY_IS_LIVE (s ! p)" "reach L s ?h p"
    by (rule SearchTable_result [OF t L ok, of ?k JS_DHASH_ADD]) (use room rc new in auto)
  have ok': "store_ok hops L s" by (rule same_entries_ok [OF sp(3) ok])
  have new': "store_map hops s ?k = None" using same_entries_map [OF sp(3) ok] new by simp
  have len: "length s = 2 ^ L" by (rule store_okD(1) [OF ok'])
  have free: "ENTRY_IS_FREE (s ! p)"
  proof -
    have "removed_count s = 0" using same_entries_removed [OF sp(3)] rc by simp
    then have "\<not> ENTRY_IS_REMOVED (s ! p)" using sp(2) len by (auto simp: filter_empty_conv)
    then show ?thesis using sp(4) by (cases "s ! p" rule: keyHash_cases) auto
  qed
  have h: "?h AND NOT COLLISION_FLAG = ?h" by (rule masked_id [OF prepared_hash_even])
  have fl: "odd (keyHash (s ! p)) \<Longrightarrow> odd ?h" using free odd_not_free by blast
  note put = put_ok [OF ok' sp(2,4) new' refl sp(5) h fl]
  have lx: "ENTRY_IS_LIVE ?x" by (simp add: ENTRY_IS_LIVE_def prepared_hash_live)
  have "rehash_entry e t = Some (t\<lparr>entryStore := s[p := ?x]\<rparr>)"
    using e by (simp add: rehash_entry_def t sp(1) move_keeps)
  moreover have "removed_count (s[p := ?x]) = 0"
    using length_filter_update [of p s ENTRY_IS_REMOVED ?x] sp(2,4) len free
      same_entries_removed [OF sp(3)] rc live_not [OF lx] by (cases "s ! p" rule: keyHash_cases) auto
  moreover have "live_count (s[p := ?x]) = live_count ?s + 1"
    using length_filter_update [of p s ENTRY_IS_LIVE ?x] sp(2,4) len same_entries_live [OF sp(3)] lx by simp
  ultimately show ?thesis
    using put same_entries_map [OF sp(3) ok] by (intro that) (auto intro!: ext)
qed

end

subsection \<open>Copying a store\<close>

lemma store_map_Cons: "store_map hops (e # es) k =
    (if ENTRY_IS_LIVE e \<and> matchEntry hops (body e) k then Some (body e) else store_map hops es k)"
  by (simp add: store_map_def)

lemma store_map_Nil [simp]: "store_map hops [] k = None"
  by (simp add: store_map_def)

context dhash_keys begin

definition hash_kept :: "'e slot \<Rightarrow> bool" where
  "hash_kept e \<longleftrightarrow> (ENTRY_IS_LIVE e \<longrightarrow>
     keyHash e AND NOT COLLISION_FLAG = prepared_hash hops (getKey hops (body e)))"

definition keys_differ :: "'e slot \<Rightarrow> 'e slot \<Rightarrow> bool" where
  "keys_differ x y \<longleftrightarrow> (ENTRY_IS_LIVE x \<and> ENTRY_IS_LIVE y \<longrightarrow>
     canon (getKey hops (body x)) \<noteq> canon (getKey hops (body y)))"

lemma store_ok_keys:
  assumes "store_ok hops L s"
  shows "list_all hash_kept s" and "sorted_wrt keys_differ s"
proof -
  have len: "length s = 2 ^ L" by (rule store_okD(1) [OF assms])
  show "list_all hash_kept s"
    unfolding list_all_length hash_kept_def len using store_okD(2) [OF assms] by blast
  have "keys_differ (s ! i) (s ! j)" if "i < j" "j < 2 ^ L" for i j
    unfolding keys_differ_def
    using store_okD(4) [OF assms, of i j] that less_irrefl [of i] by (auto simp: match_canon)
  then show "sorted_wrt keys_differ s" by (simp add: sorted_wrt_iff_nth_less len)
qed

lemma rehash_ok:
  assumes "list_all hash_kept es" "sorted_wrt keys_differ es"
    and "\<And>e. \<lbrakk>e \<in> set es; ENTRY_IS_LIVE e\<rbrakk> \<Longrightarrow> store_map hops (entryStore t) (getKey hops (body e)) = None"
    and "ops t = hops" "hashShift t = 32 - L" "L \<le> 32" "store_ok hops L (entryStore t)"
    and "removed_count (entryStore t) = 0" "live_count (entryStore t) + live_count es \<le> 2 ^ L"
  shows "\<exists>s. rehash es t = Some (t\<lparr>entryStore := s\<rparr>) \<and> store_ok hops L s \<and> removed_count s = 0 \<and>
    live_count s = live_count (entryStore t) + live_count es \<and>
    (\<forall>k. store_map hops s k = (case store_map hops (entryStore t) k of
       Some b \<Rightarrow> Some b | None \<Rightarrow> store_map hops es k))"
  using assms
proof (induction es arbitrary: t)
  case Nil
  show ?case using Nil.prems(5,7,8) by (intro exI [of _ "entryStore t"]) (simp split: option.split)
next
  case (Cons e es)
  show ?case
  proof (cases "ENTRY_IS_LIVE e")
    case False
    have "rehash (e # es) t = rehash es t" "live_count (e # es) = live_count es"
      "store_map hops (e # es) = store_map hops es"
      using False by (auto simp: rehash_entry_def store_map_Cons)
    moreover have "list_all hash_kept es" "sorted_wrt keys_differ es" using Cons.prems(1,2) by simp_all
    ultimately show ?thesis
      using Cons.IH [OF _ _ Cons.prems(3-8)] Cons.prems(9) by (simp only: list.set_intros)
  next
    case True
    obtain s where s: "rehash_entry e t = Some (t\<lparr>entryStore := s\<rparr>)" "store_ok hops L s"
      "removed_count s = 0" "live_count s = live_count (entryStore t) + 1"
      "store_map hops s = (\<lambda>k. if canon k = canon (getKey hops (body e)) then Some (body e)
         else store_map hops (entryStore t) k)"
      by (rule rehash_entry_ok [OF Cons.prems(4-8) _ True])
        (use Cons.prems(1,3,9) True in \<open>auto simp: hash_kept_def\<close>)
    have new: "store_map hops s (getKey hops (body x)) = None"
      if "x \<in> set es" "ENTRY_IS_LIVE x" for x
      using that True Cons.prems(2) Cons.prems(3) [of x] by (auto simp: s(5) keys_differ_def)
    have room: "live_count s + live_count es \<le> 2 ^ L" using Cons.prems(9) True s(4) by simp
    obtain s' where s': "rehash es (t\<lparr>entryStore := s\<rparr>) = Some (t\<lparr>entryStore := s'\<rparr>)"
      "store_ok hops L s'" "removed_count s' = 0" "live_count s' = live_count s + live_count es"
      "\<forall>k. store_map hops s' k = (case store_map hops s k of
         Some b \<Rightarrow> Some b | None \<Rightarrow> store_map hops es k)"
      using Cons.IH [of "t\<lparr>entryStore := s\<rparr>"] Cons.prems new room s(2,3) by auto
    have "store_map hops s' k = (case store_map hops (entryStore t) k of
         Some b \<Rightarrow> Some b | None \<Rightarrow> store_map hops (e # es) k)" for k
    proof (cases "canon k = canon (getKey hops (body e))")
      case eq: True
      have "store_map hops (entryStore t) k = None"
      proof -
        have "store_map hops (entryStore t) (getKey hops (body e)) = None" using Cons.prems(3) True by simp
        then show ?thesis using eq by (simp add: store_map_def find_None_iff match_canon)
      qed
      then show ?thesis using eq True s'(5) by (simp add: s(5) store_map_Cons match_canon)
    next
      case False
      then show ?thesis
        using s'(5) by (auto simp: s(5) store_map_Cons match_canon split: option.split)
    qed
    then show ?thesis using s(1,4) s'(1-4) True by (intro exI [of _ s']) simp
  qed
qed

end

end
