(* ===== verification/DHash_Table.thy ===== *)
theory DHash_Table
  imports DHash_Correct
begin

text \<open>
  The double-hashing table as a finite map: the table invariant \<open>table_ok\<close>, the map \<open>table_map\<close>
  a table represents, and what \<open>JS_DHashTableInit\<close>, \<open>ChangeTable\<close>, \<open>JS_DHashTableOperate\<close>,
  \<open>JS_DHashTableRawRemove\<close> and \<open>JS_DHashTableEnumerate\<close> do to them, for every client whose hooks obey
  \<open>dhash_keys\<close> and every behaviour of the allocator.
\<close>

subsection \<open>The invariant\<close>

text \<open>
  Entries are smaller than 512 bytes: \<open>newCapacity * entrySize\<close> then fits into 32 bits for every
  capacity below \<open>JS_DHASH_SIZE_LIMIT\<close>.  \<open>minAlphaFrac\<close> below 128 is what
  \<open>JS_DHashTableSetAlphaBounds\<close> keeps (less than half of \<open>maxAlpha\<close>).
\<close>

definition table_ok :: "('k, 'e) JSDHashTableOps \<Rightarrow> ('k, 'e) JSDHashTable \<Rightarrow> bool" where
  "table_ok hops t \<longleftrightarrow> ops t = hops \<and> 9 \<le> hashShift t \<and> hashShift t \<le> 28 \<and>
     0 < unat (entrySize t) \<and> unat (entrySize t) < 512 \<and> unat (minAlphaFrac t) < 128 \<and>
     store_ok hops (32 - hashShift t) (entryStore t) \<and>
     unat (entryCount t) = live_count (entryStore t) \<and>
     unat (removedCount t) = removed_count (entryStore t) \<and>
     live_count (entryStore t) + removed_count (entryStore t) < 2 ^ (32 - hashShift t)"

definition table_map :: "('k, 'e) JSDHashTable \<Rightarrow> 'k \<Rightarrow> 'e option" where
  "table_map t = store_map (ops t) (entryStore t)"

lemma table_okD:
  assumes "table_ok hops t"
  shows "ops t = hops" "9 \<le> hashShift t" "hashShift t \<le> 28" "0 < unat (entrySize t)"
    "unat (entrySize t) < 512" "unat (minAlphaFrac t) < 128"
    "store_ok hops (32 - hashShift t) (entryStore t)"
    "unat (entryCount t) = live_count (entryStore t)"
    "unat (removedCount t) = removed_count (entryStore t)"
    "live_count (entryStore t) + removed_count (entryStore t) < 2 ^ (32 - hashShift t)"
    "length (entryStore t) = 2 ^ (32 - hashShift t)"
  using assms store_okD(1) [of hops "32 - hashShift t" "entryStore t"] by (simp_all add: table_ok_def)

subsection \<open>The empty store\<close>

lemma zeroed_store_eq:
  assumes "n \<le> 23" "0 < unat es" "unat es < 512"
  shows "zeroed_store hops (JS_BIT n * es) es = replicate (2 ^ n) \<lparr>keyHash = 0, body = zeroEntry hops\<rparr>"
proof -
  have "(2::nat) ^ n \<le> 2 ^ 23" using assms(1) by (intro power_increasing) auto
  then have "2 ^ n * unat es \<le> 2 ^ 23 * 511" using assms(3) by (intro mult_le_mono) auto
  then have "2 ^ n * unat es < 2 ^ 32" by simp
  then have "unat (JS_BIT n * es) = 2 ^ n * unat es"
    using assms(1) by (simp add: unat_mult_small unat_JS_BIT)
  then show ?thesis using assms(2) by (simp add: zeroed_store_def)
qed

lemma empty_store:
  fixes z :: 'e and L :: nat
  defines "s \<equiv> replicate (2 ^ L) \<lparr>keyHash = 0, body = z\<rparr>"
  shows "store_ok hops L s" "live_count s = 0" "removed_count s = 0" "store_map hops s k = None"
proof -
  have nl: "\<not> ENTRY_IS_LIVE \<lparr>keyHash = 0, body = z\<rparr>" "\<not> ENTRY_IS_REMOVED \<lparr>keyHash = 0, body = z\<rparr>"
    by (simp_all add: ENTRY_IS_LIVE_def ENTRY_IS_REMOVED_def)
  show "store_ok hops L s" by (simp add: store_ok_def s_def nl)
  show "live_count s = 0" "removed_count s = 0" by (simp_all add: s_def nl)
  show "store_map hops s k = None" by (auto simp: store_map_def find_None_iff s_def nl)
qed

lemma size_limit: "n < 32 \<Longrightarrow> JS_DHASH_SIZE_LIMIT \<le> JS_BIT n \<longleftrightarrow> 24 \<le> n"
  using power_increasing_iff [of "2::nat" 24 n]
  by (simp add: JS_DHASH_SIZE_LIMIT_def word_le_nat_alt unat_JS_BIT)

lemma table_size:
  assumes "table_ok hops t"
  shows "unat (JS_DHASH_TABLE_SIZE t) = 2 ^ (32 - hashShift t)"
  using table_okD(2,3) [OF assms] by (simp add: JS_DHASH_TABLE_SIZE_def JS_DHASH_BITS_def unat_JS_BIT)

text \<open>\<open>JS_DHashTableInit\<close> makes an empty table for every capacity the shift is defined for.\<close>

lemma ceiling_min: "4 \<le> JS_CEILING_LOG2 (if c < JS_DHASH_MIN_SIZE then JS_DHASH_MIN_SIZE else c)"
proof -
  let ?c = "if c < JS_DHASH_MIN_SIZE then JS_DHASH_MIN_SIZE else c"
  have c: "16 \<le> unat ?c" by (auto simp: JS_DHASH_MIN_SIZE_def word_less_nat_alt)
  then have "?c \<noteq> 0" by (intro notI) simp
  then have "unat ?c \<le> 2 ^ JS_CEILING_LOG2 ?c" by (rule JS_CEILING_LOG2_bounds(1))
  then have "(2::nat) ^ 4 \<le> 2 ^ JS_CEILING_LOG2 ?c" using c by simp
  then show ?thesis by (rule power_le_imp_le_exp [rotated]) simp
qed

lemma Init_ok:
  assumes "JS_DHashTableInit alloc hops es c = Some (Some t)" "0 < unat es" "unat es < 512"
  shows "table_ok hops t" "table_map t k = None"
proof -
  define n where "n = JS_CEILING_LOG2 (if c < JS_DHASH_MIN_SIZE then JS_DHASH_MIN_SIZE else c)"
  have t: "t = \<lparr>ops = hops, hashShift = 32 - n, maxAlphaFrac = 0xC0, minAlphaFrac = 0x40,
      entrySize = es, entryCount = 0, removedCount = 0, generation = 0,
      entryStore = zeroed_store hops (JS_BIT n * es) es\<rparr>" and n: "n < 32" "\<not> 24 \<le> n"
    using assms(1) size_limit [of n]
    by (auto simp: JS_DHashTableInit_def Let_def JS_DHASH_BITS_def n_def [symmetric] split: if_splits)
  have z: "zeroed_store hops (JS_BIT n * es) es = replicate (2 ^ n) \<lparr>keyHash = 0, body = zeroEntry hops\<rparr>"
    using zeroed_store_eq [of n es] assms(2,3) n by simp
  show "table_ok hops t"
    using n ceiling_min [of c, folded n_def] assms(2,3) empty_store(1) [of hops n "zeroEntry hops"]
      empty_store(2,3) [of n "zeroEntry hops"]
    by (auto simp: table_ok_def t z)
  show "table_map t k = None" using empty_store(4) by (simp add: table_map_def t z)
qed

subsection \<open>Changing the size\<close>

context dhash_keys begin

text \<open>
  \<open>ChangeTable\<close> with a target size that has room for the live entries either fails and leaves the
  table alone, or keeps its map and drops every removed entry.
\<close>

lemma ChangeTable_ok:
  assumes t: "table_ok hops t" and n: "int (32 - hashShift t) + d = int n" "4 \<le> n" "n < 32"
    and room: "live_count (entryStore t) < 2 ^ n"
  obtains t' ok where "ChangeTable alloc t d = Some (t', ok)"
    "ok \<Longrightarrow> table_ok hops t' \<and> table_map t' = table_map t \<and> entryCount t' = entryCount t \<and>
       removedCount t' = 0 \<and> hashShift t' = 32 - n"
    "\<not> ok \<Longrightarrow> t' = t" "ok \<longleftrightarrow> n < 24 \<and> alloc (JS_BIT n * entrySize t)"
proof (cases "n < 24 \<and> alloc (JS_BIT n * entrySize t)")
  case False
  then have "ChangeTable alloc t d = Some (t, False)"
    using n size_limit [of n] by (simp add: ChangeTable_def Let_def JS_DHASH_BITS_def)
  then show ?thesis by (rule that) (use False in auto)
next
  case True
  note ok = table_okD [OF t]
  let ?s = "entryStore t"
  let ?z = "replicate (2 ^ n) \<lparr>keyHash = 0, body = zeroEntry hops\<rparr>"
  let ?t = "t\<lparr>hashShift := 32 - n, removedCount := 0, generation := generation t + 1, entryStore := ?z\<rparr>"
  have z: "zeroed_store hops (JS_BIT n * entrySize t) (entrySize t) = ?z"
    by (rule zeroed_store_eq) (use True ok(4,5) in simp_all)
  have e: "entryStore ?t = ?z" "ops ?t = hops" "hashShift ?t = 32 - n" "n \<le> 32"
    using n(3) ok(1) by simp_all
  have "\<exists>s. rehash ?s ?t = Some (?t\<lparr>entryStore := s\<rparr>) \<and> store_ok hops n s \<and> removed_count s = 0 \<and>
    live_count s = live_count (entryStore ?t) + live_count ?s \<and>
    (\<forall>k. store_map hops s k = (case store_map hops (entryStore ?t) k of
       Some b \<Rightarrow> Some b | None \<Rightarrow> store_map hops ?s k))"
    by (rule rehash_ok [OF store_ok_keys [OF ok(7)] _ e(2,3,4)])
      (use room in \<open>simp_all only: e(1) empty_store\<close>)
  then obtain s' where s': "rehash ?s ?t = Some (?t\<lparr>entryStore := s'\<rparr>)" "store_ok hops n s'"
    "removed_count s' = 0" "live_count s' = live_count ?s" "store_map hops s' = store_map hops ?s"
    unfolding e(1) empty_store by (auto intro!: ext)
  let ?t' = "?t\<lparr>entryStore := s'\<rparr>"
  have run: "ChangeTable alloc t d = Some (?t', True)"
    using n size_limit [of n] True ok(1,2,3,11) z s'(1) by (simp add: ChangeTable_def Let_def JS_DHASH_BITS_def)
  have "table_ok hops ?t' \<and> table_map ?t' = table_map t \<and> entryCount ?t' = entryCount t \<and>
       removedCount ?t' = 0 \<and> hashShift ?t' = 32 - n"
    using True n(2) s' ok empty_store [where L = n and z = "zeroEntry hops"] room
    by (auto simp: table_ok_def table_map_def)
  with run show ?thesis by (rule that) (use True in auto)
qed

end

subsection \<open>Loads\<close>

lemma size_bounds:
  assumes "table_ok hops t"
  shows "16 \<le> (2::nat) ^ (32 - hashShift t)" "(2::nat) ^ (32 - hashShift t) \<le> 2 ^ 23"
proof -
  have "4 \<le> 32 - hashShift t" "32 - hashShift t \<le> 23" using table_okD(2,3) [OF assms] by simp_all
  then have "(2::nat) ^ 4 \<le> 2 ^ (32 - hashShift t)" "(2::nat) ^ (32 - hashShift t) \<le> 2 ^ 23"
    by (intro power_increasing; simp)+
  then show "16 \<le> (2::nat) ^ (32 - hashShift t)" "(2::nat) ^ (32 - hashShift t) \<le> 2 ^ 23" by simp_all
qed

lemma load_eq:
  fixes f :: u8
  assumes "table_ok hops t"
  shows "unat (drop_bit 8 (ucast f * JS_DHASH_TABLE_SIZE t)) = unat f * 2 ^ (32 - hashShift t) div 256"
proof -
  have f: "unat (ucast f :: u32) = unat f" "unat f \<le> 255"
    using unsigned_less [of f, where ?'a = nat] by (simp_all add: unsigned_ucast_eq take_bit_nat_eq_self)
  have "unat f * 2 ^ (32 - hashShift t) \<le> 255 * 2 ^ 23"
    using f(2) size_bounds(2) [OF assms] by (rule mult_le_mono)
  then have "unat (ucast f :: u32) * unat (JS_DHASH_TABLE_SIZE t) < 2 ^ 32"
    by (simp add: f table_size [OF assms])
  then show ?thesis
    by (simp add: unat_drop_bit unat_mult_small f table_size [OF assms])
qed

lemma max_load:
  assumes "table_ok hops t"
  shows "unat (MAX_LOAD t (JS_DHASH_TABLE_SIZE t)) < 2 ^ (32 - hashShift t)"
proof -
  have "unat (maxAlphaFrac t) \<le> 255" using unsigned_less [of "maxAlphaFrac t", where ?'a = nat] by simp
  then have "unat (maxAlphaFrac t) * 2 ^ (32 - hashShift t) \<le> 255 * 2 ^ (32 - hashShift t)" by simp
  then show ?thesis
    using size_bounds(1) [OF assms] by (simp add: MAX_LOAD_def load_eq [OF assms] div_less_iff_less_mult)
qed

lemma min_load:
  assumes "table_ok hops t"
  shows "unat (MIN_LOAD t (JS_DHASH_TABLE_SIZE t)) < 2 ^ (32 - hashShift t - 1)"
proof -
  have "(2::nat) ^ (32 - hashShift t) = 2 * 2 ^ (32 - hashShift t - 1)"
    using table_okD(3) [OF assms] by (simp flip: power_Suc)
  moreover have "unat (minAlphaFrac t) * 2 ^ (32 - hashShift t) \<le> 127 * 2 ^ (32 - hashShift t)"
    using table_okD(6) [OF assms] by simp
  ultimately show ?thesis
    using size_bounds(1) [OF assms] by (simp add: MIN_LOAD_def load_eq [OF assms] div_less_iff_less_mult)
qed

lemma busy_sum:
  assumes "table_ok hops t"
  shows "unat (entryCount t + removedCount t) = live_count (entryStore t) + removed_count (entryStore t)"
  using table_okD(8,9,10) [OF assms] size_bounds(2) [OF assms] by (subst unat_add_small) simp_all

context dhash_keys begin

subsection \<open>Growing before an insertion\<close>

lemma grow_for_add_ok:
  assumes t: "table_ok hops t"
  obtains t' may where "grow_for_add alloc t = Some (t', may)" "table_ok hops t'"
    "table_map t' = table_map t"
    "may \<Longrightarrow> live_count (entryStore t') + removed_count (entryStore t') + 1 < 2 ^ (32 - hashShift t')"
    "\<not> may \<Longrightarrow> t' = t \<and> live_count (entryStore t) + removed_count (entryStore t) + 1 = 2 ^ (32 - hashShift t)
      \<and> (\<exists>n \<in> {32 - hashShift t, 32 - hashShift t + 1}. \<not> (n < 24 \<and> alloc (JS_BIT n * entrySize t)))"
proof (cases "MAX_LOAD t (JS_DHASH_TABLE_SIZE t) \<le> entryCount t + removedCount t")
  case False
  then have "live_count (entryStore t) + removed_count (entryStore t) + 1 < 2 ^ (32 - hashShift t)"
    using max_load [OF t] busy_sum [OF t] by (simp add: word_le_nat_alt)
  moreover have "grow_for_add alloc t = Some (t, True)" using False by (simp add: grow_for_add_def Let_def)
  ultimately show ?thesis using t that by blast
next
  case True
  note ok = table_okD [OF t] and sz = size_bounds [OF t]
  let ?L = "32 - hashShift t" and ?compress = "drop_bit 2 (JS_DHASH_TABLE_SIZE t) \<le> removedCount t"
  let ?d = "if ?compress then 0 else 1 :: int" let ?n = "if ?compress then ?L else ?L + 1"
  have n: "int ?L + ?d = int ?n" "4 \<le> ?n" "?n < 32" using ok(2,3) by auto
  have "live_count (entryStore t) < 2 ^ ?n" using ok(10) by auto
  then obtain t' c where c: "ChangeTable alloc t ?d = Some (t', c)"
    "c \<Longrightarrow> table_ok hops t' \<and> table_map t' = table_map t \<and> entryCount t' = entryCount t \<and>
       removedCount t' = 0 \<and> hashShift t' = 32 - ?n"
    "\<not> c \<Longrightarrow> t' = t" "c \<longleftrightarrow> ?n < 24 \<and> alloc (JS_BIT ?n * entrySize t)"
    using ChangeTable_ok [OF t n, of alloc] by metis
  have run: "grow_for_add alloc t =
      Some (t', c \<or> entryCount t' + removedCount t' \<noteq> JS_DHASH_TABLE_SIZE t - 1)"
    using True c(1) by (simp add: grow_for_add_def Let_def)
  show ?thesis
  proof (cases c)
    case True
    then have t': "table_ok hops t'" "table_map t' = table_map t" "unat (entryCount t') = unat (entryCount t)"
      "removedCount t' = 0" "hashShift t' = 32 - ?n" using c(2) by auto
    have s: "2 ^ ?L div 4 \<le> removed_count (entryStore t)" if ?compress
      using that ok(9) by (simp add: word_le_nat_alt unat_drop_bit table_size [OF t])
    have "live_count (entryStore t) + 1 < 2 ^ ?n" using s sz(1) ok(10) by auto
    moreover have "32 - hashShift t' = ?n" using t'(5) n by auto
    ultimately have "live_count (entryStore t') + removed_count (entryStore t') + 1 < 2 ^ (32 - hashShift t')"
      using table_okD(8,9) [OF t'(1)] t'(3,4) ok(8) by simp
    then show ?thesis by (intro that [OF run]) (use True t'(1,2) in simp_all)
  next
    case False
    have eq: "entryCount t + removedCount t = JS_DHASH_TABLE_SIZE t - 1 \<longleftrightarrow>
        live_count (entryStore t) + removed_count (entryStore t) + 1 = 2 ^ ?L"
    proof -
      have "unat (JS_DHASH_TABLE_SIZE t - 1) = 2 ^ ?L - 1"
        using sz(1) table_size [OF t] by (subst unat_dec) (auto simp: word_eq_nat_iff)
      then show ?thesis using busy_sum [OF t] sz(1) by (auto simp: word_eq_nat_iff)
    qed
    show ?thesis
      by (rule that [OF run]) (use False c(3,4) t eq ok(10) in \<open>auto split: if_splits\<close>)
  qed
qed

end

subsection \<open>The operations\<close>

context dhash_keys begin

lemma search_ok:
  assumes t: "table_ok hops t" and op: "op \<noteq> JS_DHASH_ADD"
  obtains p where "SearchTable t k (prepared_hash hops k) op = Some (t, p)" "p < length (entryStore t)"
    "case table_map t k of None \<Rightarrow> ENTRY_IS_FREE (entryStore t ! p)
     | Some b \<Rightarrow> ENTRY_IS_LIVE (entryStore t ! p) \<and> body (entryStore t ! p) = b \<and> matchEntry hops b k"
proof -
  note ok = table_okD [OF t]
  have hs: "hashShift t = 32 - (32 - hashShift t)" using ok(3) by simp
  show ?thesis
  proof (rule SearchTable_result [OF ok(1) hs _ ok(7,10), of k op])
    fix s p
    assume "SearchTable t k (prepared_hash hops k) op = Some (t\<lparr>entryStore := s\<rparr>, p)"
      "p < 2 ^ (32 - hashShift t)" "op \<noteq> JS_DHASH_ADD \<Longrightarrow> s = entryStore t"
      "case store_map hops (entryStore t) k of
         None \<Rightarrow> \<not> ENTRY_IS_LIVE (s ! p) \<and>
           (if op = JS_DHASH_ADD then reach (32 - hashShift t) s (prepared_hash hops k) p
            else ENTRY_IS_FREE (s ! p))
       | Some b \<Rightarrow> ENTRY_IS_LIVE (s ! p) \<and> body (s ! p) = b \<and> matchEntry hops b k"
    then show thesis
      using op ok(1,11) by (intro that) (auto simp: table_map_def split: option.splits)
  qed simp
qed

lemma Lookup_ok:
  assumes t: "table_ok hops t"
  obtains i where "JS_DHashTableOperate alloc t k JS_DHASH_LOOKUP = Some (t, Some i)"
    "i < length (entryStore t)"
    "case table_map t k of None \<Rightarrow> ENTRY_IS_FREE (entryStore t ! i)
     | Some b \<Rightarrow> ENTRY_IS_LIVE (entryStore t ! i) \<and> body (entryStore t ! i) = b \<and> matchEntry hops b k"
  by (rule search_ok [OF t, of JS_DHASH_LOOKUP k])
    (use table_okD(1) [OF t] that in \<open>auto simp: JS_DHashTableOperate_def\<close>)

lemma RawRemove_ok:
  assumes t: "table_ok hops t" and i: "i < length (entryStore t)" "ENTRY_IS_LIVE (entryStore t ! i)"
  shows "table_ok hops (JS_DHashTableRawRemove t i)"
    and "table_map (JS_DHashTableRawRemove t i) k =
      (if canon k = canon (getKey hops (body (entryStore t ! i))) then None else table_map t k)"
proof -
  note ok = table_okD [OF t]
  let ?e = "entryStore t ! i" let ?L = "32 - hashShift t"
  define x where "x = \<lparr>keyHash = if odd (keyHash ?e) then 1 else 0, body = clearEntry hops (body ?e)\<rparr>"
  have fl: "keyHash ?e AND COLLISION_FLAG \<noteq> 0 \<longleftrightarrow> odd (keyHash ?e)"
    by (simp add: COLLISION_FLAG_def and_one_eq odd_iff_mod_2_eq_one)
  have t': "JS_DHashTableRawRemove t i = t\<lparr>entryStore := (entryStore t)[i := x],
      removedCount := (if odd (keyHash ?e) then removedCount t + 1 else removedCount t),
      entryCount := entryCount t - 1\<rparr>"
    by (simp add: JS_DHashTableRawRemove_def Let_def fl ok(1) x_def)
  have i': "i < 2 ^ ?L" using i(1) ok(11) by simp
  have v: "store_ok hops ?L ((entryStore t)[i := x])" "store_map hops ((entryStore t)[i := x]) k =
      (if canon k = canon (getKey hops (body ?e)) then None else store_map hops (entryStore t) k)"
    using vacate_ok [OF ok(7) i' i(2), of x] by (simp_all add: x_def)
  have x_state: "\<not> ENTRY_IS_LIVE x" "ENTRY_IS_REMOVED x \<longleftrightarrow> odd (keyHash ?e)"
    by (auto simp: x_def ENTRY_IS_LIVE_def ENTRY_IS_REMOVED_def word_le_nat_alt)
  have live: "live_count ((entryStore t)[i := x]) + 1 = live_count (entryStore t)"
    using length_filter_update [OF i(1), of ENTRY_IS_LIVE x] i(2) x_state(1) by simp
  have rem: "removed_count ((entryStore t)[i := x]) =
      removed_count (entryStore t) + of_bool (odd (keyHash ?e))"
    using length_filter_update [OF i(1), of ENTRY_IS_REMOVED x] live_not [OF i(2)] x_state(2) by simp
  have ec: "unat (entryCount t - 1) = live_count ((entryStore t)[i := x])"
    using live ok(8) by (subst unat_dec) (auto simp: word_eq_nat_iff)
  have rc: "unat (if odd (keyHash ?e) then removedCount t + 1 else removedCount t) =
      removed_count ((entryStore t)[i := x])"
    using rem ok(9,10) size_bounds(2) [OF t] live by (auto simp: unat_inc)
  have total: "live_count ((entryStore t)[i := x]) + removed_count ((entryStore t)[i := x]) < 2 ^ ?L"
    using live rem ok(10) by (cases "odd (keyHash ?e)") simp_all
  show "table_ok hops (JS_DHashTableRawRemove t i)"
    using ok v(1) total ec rc unfolding t' table_ok_def by simp
  show "table_map (JS_DHashTableRawRemove t i) k =
      (if canon k = canon (getKey hops (body (entryStore t ! i))) then None else table_map t k)"
    using v(2) by (simp add: t' table_map_def ok(1))
qed

lemma Remove_ok:
  assumes t: "table_ok hops t"
  obtains t' where "JS_DHashTableOperate alloc t k JS_DHASH_REMOVE = Some (t', None)" "table_ok hops t'"
    "table_map t' = (\<lambda>k'. if canon k' = canon k then None else table_map t k')"
proof -
  note ok = table_okD [OF t]
  let ?h = "prepared_hash hops k"
  obtain p where srch: "SearchTable t k ?h JS_DHASH_REMOVE = Some (t, p)"
    and p: "p < length (entryStore t)" and res: "case table_map t k of None \<Rightarrow> ENTRY_IS_FREE (entryStore t ! p)
     | Some b \<Rightarrow> ENTRY_IS_LIVE (entryStore t ! p) \<and> body (entryStore t ! p) = b \<and> matchEntry hops b k"
    by (rule search_ok [OF t, of JS_DHASH_REMOVE k]) auto
  show ?thesis
  proof (cases "ENTRY_IS_LIVE (entryStore t ! p)")
    case False
    then have "JS_DHashTableOperate alloc t k JS_DHASH_REMOVE = Some (t, None)"
      by (simp add: JS_DHashTableOperate_def ok(1) srch)
    moreover have "table_map t k = None"
      using False res by (auto split: option.splits)
    then have "table_map t = (\<lambda>k'. if canon k' = canon k then None else table_map t k')"
      by (auto simp: table_map_def store_map_def find_None_iff ok(1) match_canon)
    ultimately show ?thesis by (rule that [OF _ t])
  next
    case True
    let ?r = "JS_DHashTableRawRemove t p"
    have key: "canon (getKey hops (body (entryStore t ! p))) = canon k"
      using True res by (auto simp: match_canon split: option.splits dest: live_not)
    have r: "table_ok hops ?r" and map: "table_map ?r = (\<lambda>k'. if canon k' = canon k then None else table_map t k')"
      using RawRemove_ok [OF t p True] by (auto simp: key)
    let ?sz = "JS_DHASH_TABLE_SIZE ?r"
    show ?thesis
    proof (cases "JS_DHASH_MIN_SIZE < ?sz \<and> entryCount ?r \<le> MIN_LOAD ?r ?sz")
      case False
      then have "JS_DHashTableOperate alloc t k JS_DHASH_REMOVE = Some (?r, None)"
        using True by (auto simp: JS_DHashTableOperate_def ok(1) srch Let_def)
      then show ?thesis by (rule that [OF _ r map])
    next
      case shrink: True
      note rok = table_okD [OF r]
      have "(2::nat) ^ 4 < 2 ^ (32 - hashShift ?r)"
        using shrink table_size [OF r] by (simp add: word_less_nat_alt JS_DHASH_MIN_SIZE_def)
      then have "4 < 32 - hashShift ?r" by (rule power_less_imp_less_exp [rotated]) simp
      then have n: "int (32 - hashShift ?r) + (- 1) = int (32 - hashShift ?r - 1)"
        "4 \<le> 32 - hashShift ?r - 1" "32 - hashShift ?r - 1 < 32" by auto
      have "live_count (entryStore ?r) < 2 ^ (32 - hashShift ?r - 1)"
        using shrink min_load [OF r] rok(8) by (simp add: word_le_nat_alt)
      then obtain t' c where c: "ChangeTable alloc ?r (- 1) = Some (t', c)"
        "c \<Longrightarrow> table_ok hops t' \<and> table_map t' = table_map ?r \<and> entryCount t' = entryCount ?r \<and>
           removedCount t' = 0 \<and> hashShift t' = 32 - (32 - hashShift ?r - 1)"
        "\<not> c \<Longrightarrow> t' = ?r" using ChangeTable_ok [OF r n, of alloc] by metis
      have "JS_DHashTableOperate alloc t k JS_DHASH_REMOVE = Some (t', None)"
        using True shrink c(1) by (simp add: JS_DHashTableOperate_def ok(1) srch Let_def)
      moreover have "table_ok hops t' \<and> table_map t' = table_map ?r" using c(2,3) r by (cases c) auto
      ultimately show ?thesis using map that by simp
    qed
  qed
qed

end

text \<open>
  \<open>JS_DHASH_ADD\<close>.  A fresh entry belongs to the key from the moment the client writes contents with
  that key into it, which \<open>set_body\<close> models.
\<close>

context dhash_keys begin

definition added :: "('k, 'e) JSDHashTable \<Rightarrow> 'k \<Rightarrow> ('k, 'e) JSDHashTable \<Rightarrow> nat \<Rightarrow> bool" where
  "added t k t' i \<longleftrightarrow> i < length (entryStore t') \<and> ENTRY_IS_LIVE (entryStore t' ! i) \<and>
     (case table_map t k of
        Some b \<Rightarrow> table_ok hops t' \<and> table_map t' = table_map t \<and> body (entryStore t' ! i) = b
      | None \<Rightarrow> (\<forall>b. canon (getKey hops b) = canon k \<longrightarrow> table_ok hops (set_body t' i b) \<and>
          table_map (set_body t' i b) = (\<lambda>k'. if canon k' = canon k then Some b else table_map t k')))"

lemma claim_entry_ok:
  assumes t: "table_ok hops t" and room: "live_count (entryStore t) + removed_count (entryStore t) + 1 < 2 ^ (32 - hashShift t)"
    and init: "\<And>f b. initEntry hops = Some f \<Longrightarrow> f b k \<noteq> None"
  obtains t1 p t' where "SearchTable t k (prepared_hash hops k) JS_DHASH_ADD = Some (t1, p)"
    "claim_entry t1 k (prepared_hash hops k) p = (t', Some p)" "added t k t' p"
proof -
  note ok = table_okD [OF t]
  let ?h = "prepared_hash hops k" and ?L = "32 - hashShift t"
  have hs: "hashShift t = 32 - ?L" using ok(3) by simp
  obtain s p where sp: "SearchTable t k ?h JS_DHASH_ADD = Some (t\<lparr>entryStore := s\<rparr>, p)"
    "p < 2 ^ ?L" "same_entries (entryStore t) s"
    and res: "case store_map hops (entryStore t) k of
       None \<Rightarrow> \<not> ENTRY_IS_LIVE (s ! p) \<and> reach ?L s ?h p
     | Some b \<Rightarrow> ENTRY_IS_LIVE (s ! p) \<and> body (s ! p) = b \<and> matchEntry hops b k"
    by (rule SearchTable_result [OF ok(1) hs _ ok(7,10), of k JS_DHASH_ADD, unfolded simp_thms(6) if_True])
      auto
  let ?t1 = "t\<lparr>entryStore := s\<rparr>"
  have sok: "store_ok hops ?L s" by (rule same_entries_ok [OF sp(3) ok(7)])
  have len: "length s = 2 ^ ?L" by (rule store_okD(1) [OF sok])
  have map: "store_map hops s = store_map hops (entryStore t)" by (rule same_entries_map [OF sp(3) ok(7)])
  have cnt: "live_count s = live_count (entryStore t)" "removed_count s = removed_count (entryStore t)"
    by (rule same_entries_live [OF sp(3)], rule same_entries_removed [OF sp(3)])
  show ?thesis
  proof (cases "store_map hops (entryStore t) k")
    case (Some b)
    then have live: "ENTRY_IS_LIVE (s ! p)" "body (s ! p) = b" using res by simp_all
    have "table_ok hops ?t1" "table_map ?t1 = table_map t"
      using ok sok cnt map by (simp_all add: table_ok_def table_map_def)
    then have "added t k ?t1 p" using live len sp(2) Some by (simp add: added_def table_map_def ok(1))
    moreover have "claim_entry ?t1 k ?h p = (?t1, Some p)" using live by (simp add: claim_entry_def)
    ultimately show ?thesis using sp(1) that by blast
  next
    case None
    then have dead: "\<not> ENTRY_IS_LIVE (s ! p)" and r: "reach ?L s ?h p" using res by simp_all
    let ?rm = "ENTRY_IS_REMOVED (s ! p)"
    define hk where "hk = (if ?rm then ?h OR COLLISION_FLAG else ?h)"
    obtain b0 where b0: "(case initEntry hops of None \<Rightarrow> Some (body (s ! p)) | Some f \<Rightarrow> f (body (s ! p)) k) = Some b0"
      using init by (cases "initEntry hops") auto
    let ?t' = "t\<lparr>removedCount := (if ?rm then removedCount t - 1 else removedCount t),
      entryStore := s[p := \<lparr>keyHash = hk, body = b0\<rparr>], entryCount := entryCount t + 1\<rparr>"
    have claim: "claim_entry ?t1 k ?h p = (?t', Some p)"
      using dead b0 by (simp add: claim_entry_def Let_def ok(1) hk_def)
    have hk_mask: "hk AND NOT COLLISION_FLAG = ?h"
      using masked_unflag [of ?h] masked_id [OF prepared_hash_even, of hops k]
      by (simp add: hk_def COLLISION_FLAG_def)
    have fl: "odd (keyHash (s ! p)) \<Longrightarrow> odd hk"
      using dead by (cases "s ! p" rule: keyHash_cases) (auto simp: hk_def COLLISION_FLAG_def even_or_iff)
    have hk2: "ENTRY_IS_LIVE \<lparr>keyHash = hk, body = b\<rparr>" for b
      using prepared_hash_hk [OF hk_mask] by (simp add: ENTRY_IS_LIVE_def)
    have live: "live_count (s[p := \<lparr>keyHash = hk, body = b\<rparr>]) = live_count (entryStore t) + 1" for b
      using length_filter_update [of p s ENTRY_IS_LIVE "\<lparr>keyHash = hk, body = b\<rparr>"] sp(2) len dead hk2 cnt(1)
      by simp
    have rem: "removed_count (s[p := \<lparr>keyHash = hk, body = b\<rparr>]) + of_bool ?rm = removed_count (entryStore t)" for b
      using length_filter_update [of p s ENTRY_IS_REMOVED "\<lparr>keyHash = hk, body = b\<rparr>"] sp(2) len cnt(2)
        live_not [OF hk2 [of b]] by simp
    have ec: "unat (entryCount t + 1) = live_count (entryStore t) + 1"
      using ok(8) room size_bounds(2) [OF t] by (subst unat_inc) auto
    have rc: "unat (if ?rm then removedCount t - 1 else removedCount t) + of_bool ?rm = removed_count (entryStore t)"
    proof (cases ?rm)
      case True
      then have "unat (removedCount t) \<noteq> 0" using rem ok(9) by (metis add_is_0 of_bool_eq(2) zero_neq_one)
      then have "removedCount t \<noteq> 0" by auto
      then show ?thesis using True ok(9) \<open>unat (removedCount t) \<noteq> 0\<close> by (simp add: unat_dec)
    qed (simp add: ok(9))
    have new: "store_map hops s k = None" using None map by simp
    have "table_ok hops (set_body ?t' p b) \<and>
          table_map (set_body ?t' p b) = (\<lambda>k'. if canon k' = canon k then Some b else table_map t k')"
      if b: "canon (getKey hops b) = canon k" for b
    proof -
      have st: "entryStore (set_body ?t' p b) = s[p := \<lparr>keyHash = hk, body = b\<rparr>]"
        using sp(2) len by (simp add: set_body_def)
      note put = put_ok [OF sok sp(2) dead new b r hk_mask fl]
      show ?thesis
        using put ok(1-6) live [of b] rem [of b] rc ec room map
        by (auto simp: table_ok_def table_map_def st set_body_def sp(2) len)
    qed
    then have "added t k ?t' p" using None sp(2) len hk2 by (simp add: added_def table_map_def ok(1))
    then show ?thesis using sp(1) claim that by blast
  qed
qed

end

context dhash_keys begin

lemma Add_ok:
  assumes t: "table_ok hops t" and init: "\<And>f b. initEntry hops = Some f \<Longrightarrow> f b k \<noteq> None"
  obtains t' i where "JS_DHashTableOperate alloc t k JS_DHASH_ADD = Some (t', Some i)" "added t k t' i"
  | "JS_DHashTableOperate alloc t k JS_DHASH_ADD = Some (t, None)"
    "live_count (entryStore t) + removed_count (entryStore t) + 1 = 2 ^ (32 - hashShift t)"
    "\<exists>n \<in> {32 - hashShift t, 32 - hashShift t + 1}. \<not> (n < 24 \<and> alloc (JS_BIT n * entrySize t))"
proof -
  obtain t1 may where g: "grow_for_add alloc t = Some (t1, may)" "table_ok hops t1"
    "table_map t1 = table_map t"
    "may \<Longrightarrow> live_count (entryStore t1) + removed_count (entryStore t1) + 1 < 2 ^ (32 - hashShift t1)"
    "\<not> may \<Longrightarrow> t1 = t \<and> live_count (entryStore t) + removed_count (entryStore t) + 1 = 2 ^ (32 - hashShift t)
      \<and> (\<exists>n \<in> {32 - hashShift t, 32 - hashShift t + 1}. \<not> (n < 24 \<and> alloc (JS_BIT n * entrySize t)))"
    using grow_for_add_ok [OF t, of alloc] by metis
  show ?thesis
  proof (cases may)
    case True
    obtain t2 p t' where c: "SearchTable t1 k (prepared_hash hops k) JS_DHASH_ADD = Some (t2, p)"
      "claim_entry t2 k (prepared_hash hops k) p = (t', Some p)" "added t1 k t' p"
      by (rule claim_entry_ok [OF g(2) g(4) [OF True]]) (use init in auto)
    have "JS_DHashTableOperate alloc t k JS_DHASH_ADD = Some (t', Some p)"
      using True c(1,2) by (simp add: JS_DHashTableOperate_def table_okD(1) [OF t] g(1))
    moreover have "added t k t' p" using c(3) unfolding added_def g(3) .
    ultimately show ?thesis by (rule that(1))
  next
    case False
    then have "JS_DHashTableOperate alloc t k JS_DHASH_ADD = Some (t, None)"
      using g(5) by (simp add: JS_DHashTableOperate_def table_okD(1) [OF t] g(1))
    then show ?thesis using that(2) g(5) False by blast
  qed
qed

end

subsection \<open>Enumeration\<close>

definition bodies :: "'e slot list \<Rightarrow> 'e list" where
  "bodies s = map body (filter ENTRY_IS_LIVE s)"

text \<open>What an enumeration of the entries \<open>bs\<close> leaves: the survivors, the count and the argument.\<close>

fun enum_spec :: "('e, 'a) enumerator \<Rightarrow> 'e list \<Rightarrow> nat \<Rightarrow> 'a \<Rightarrow> 'e list \<times> nat \<times> 'a" where
  "enum_spec etor [] i arg = ([], i, arg)"
| "enum_spec etor (b # bs) i arg =
     (case etor b i arg of (op, b', arg') \<Rightarrow>
        let kept = (if answerRemove op then [] else [b'])
        in if answerStop op then (kept @ bs, i + 1, arg')
           else (case enum_spec etor bs (i + 1) arg' of (rest, n, a) \<Rightarrow> (kept @ rest, n, a)))"

lemma store_map_bodies: "store_map hops s k = find (\<lambda>b. matchEntry hops b k) (bodies s)"
  by (induction s) (auto simp: store_map_def bodies_def)

lemma bodies_append: "bodies (s @ s') = bodies s @ bodies s'"
  by (simp add: bodies_def)

lemma bodies_Cons: "bodies (e # s) = (if ENTRY_IS_LIVE e then body e # bodies s else bodies s)"
  by (simp add: bodies_def)

context dhash_keys begin

lemma set_body_ok:
  assumes t: "table_ok hops t" and i: "i < length (entryStore t)" "ENTRY_IS_LIVE (entryStore t ! i)"
    and key: "canon (getKey hops b) = canon (getKey hops (body (entryStore t ! i)))"
  shows "table_ok hops (set_body t i b)"
    and "table_map (set_body t i b) k = (if canon k = canon (getKey hops b) then Some b else table_map t k)"
proof -
  note ok = table_okD [OF t]
  let ?e = "entryStore t ! i"
  have i': "i < 2 ^ (32 - hashShift t)" using i(1) ok(11) by simp
  note rw = rewrite_ok [OF ok(7) i' i(2) key]
  have x: "ENTRY_IS_LIVE (?e\<lparr>body := b\<rparr>)" using i(2) by (simp add: ENTRY_IS_LIVE_def)
  have "live_count ((entryStore t)[i := ?e\<lparr>body := b\<rparr>]) = live_count (entryStore t)"
    "removed_count ((entryStore t)[i := ?e\<lparr>body := b\<rparr>]) = removed_count (entryStore t)"
    using length_filter_update [OF i(1), of ENTRY_IS_LIVE "?e\<lparr>body := b\<rparr>"]
      length_filter_update [OF i(1), of ENTRY_IS_REMOVED "?e\<lparr>body := b\<rparr>"] i(2) x live_not [OF i(2)] live_not [OF x]
    by simp_all
  then show "table_ok hops (set_body t i b)" using ok rw(1) by (simp add: table_ok_def set_body_def)
  show "table_map (set_body t i b) k = (if canon k = canon (getKey hops b) then Some b else table_map t k)"
    using rw(2) ok(1) by (simp add: table_map_def set_body_def)
qed

text \<open>Enumerators may rewrite an entry but not its key.\<close>

definition keeps_key :: "('e, 'a) enumerator \<Rightarrow> bool" where
  "keeps_key etor \<longleftrightarrow> (\<forall>b i arg. canon (getKey hops (fst (snd (etor b i arg)))) = canon (getKey hops b))"

lemma enumerate_loop_ok:
  assumes "table_ok hops t" "keeps_key etor" "n \<le> length (entryStore t)"
  shows "\<exists>t' d. enumerate_loop etor [n..<length (entryStore t)] t i did arg =
      (t', fst (snd (enum_spec etor (bodies (drop n (entryStore t))) i arg)), d,
       snd (snd (enum_spec etor (bodies (drop n (entryStore t))) i arg))) \<and>
    table_ok hops t' \<and> hashShift t' = hashShift t \<and> minAlphaFrac t' = minAlphaFrac t \<and>
    bodies (entryStore t') = bodies (take n (entryStore t)) @
      fst (enum_spec etor (bodies (drop n (entryStore t))) i arg)"
  using assms
proof (induction "length (entryStore t) - n" arbitrary: t n i did arg)
  case 0
  then show ?case by (simp add: bodies_def)
next
  case (Suc m)
  let ?s = "entryStore t"
  have n: "n < length ?s" using Suc.hyps(2) by simp
  have upt: "[n..<length ?s] = n # [Suc n..<length ?s]" using n by (simp add: upt_conv_Cons)
  have drop: "drop n ?s = ?s ! n # drop (Suc n) ?s" using n by (simp add: Cons_nth_drop_Suc)
  have take: "take (Suc n) ?s = take n ?s @ [?s ! n]" using n by (simp add: take_Suc_conv_app_nth)
  show ?case
  proof (cases "ENTRY_IS_LIVE (?s ! n)")
    case False
    then show ?thesis
      using Suc.hyps(1) [of t "Suc n" i did arg] Suc.hyps(2) Suc.prems n
      by (auto simp: upt drop take bodies_append bodies_Cons bodies_def [of "[]"])
  next
    case live: True
    obtain op b a where e: "etor (body (?s ! n)) i arg = (op, b, a)" by (metis prod_cases3)
    have key: "canon (getKey hops b) = canon (getKey hops (body (?s ! n)))"
      using Suc.prems(2) [unfolded keeps_key_def, rule_format, of "body (?s ! n)" i arg] e by simp
    let ?t1 = "set_body t n b"
    have t1: "table_ok hops ?t1" by (rule set_body_ok(1) [OF Suc.prems(1) n live key])
    have s1: "entryStore ?t1 = ?s[n := (?s ! n)\<lparr>body := b\<rparr>]" by (simp add: set_body_def)
    have l1: "ENTRY_IS_LIVE ((?s ! n)\<lparr>body := b\<rparr>)" using live by (simp add: ENTRY_IS_LIVE_def)
    let ?t2 = "if answerRemove op then JS_DHashTableRawRemove ?t1 n else ?t1"
    let ?kept = "if answerRemove op then [] else [b]"
    have t2: "table_ok hops ?t2"
      using t1 RawRemove_ok(1) [OF t1, of n] n l1 by (simp add: s1)
    have s2: "\<exists>x. entryStore ?t2 = ?s[n := x] \<and> bodies [x] = ?kept"
    proof (cases "answerRemove op")
      case True
      have "\<not> ENTRY_IS_LIVE \<lparr>keyHash = 1, body = c\<rparr>" "\<not> ENTRY_IS_LIVE \<lparr>keyHash = 0, body = c\<rparr>" for c :: 'e
        by (simp_all add: ENTRY_IS_LIVE_def word_le_nat_alt)
      then show ?thesis using True n
        by (auto simp: JS_DHashTableRawRemove_def Let_def s1 bodies_def)
    next
      case False
      then show ?thesis using l1 by (auto simp: s1 bodies_def)
    qed
    then obtain x where x: "entryStore ?t2 = ?s[n := x]" "bodies [x] = ?kept" by blast
    have hs: "hashShift ?t2 = hashShift t" "minAlphaFrac ?t2 = minAlphaFrac t"
      by (simp_all add: set_body_def JS_DHashTableRawRemove_def Let_def)
    have all: "bodies (entryStore ?t2) = bodies (take n ?s) @ ?kept @ bodies (drop (Suc n) ?s)"
    proof -
      have "entryStore ?t2 = take n ?s @ [x] @ drop (Suc n) ?s"
        using x(1) n by (simp add: upd_conv_take_nth_drop)
      then show ?thesis by (simp only: bodies_append x(2))
    qed
    show ?thesis
    proof (cases "answerStop op")
      case True
      then show ?thesis using e live t2 hs all
        by (auto simp: upt drop bodies_Cons Let_def)
    next
      case False
      have m: "m = length (entryStore ?t2) - Suc n" using Suc.hyps(2) x(1) by simp
      have dr: "drop (Suc n) (entryStore ?t2) = drop (Suc n) ?s" by (simp add: x(1))
      have tk: "bodies (take (Suc n) (entryStore ?t2)) = bodies (take n ?s) @ ?kept"
        using x n by (simp add: take_Suc_conv_app_nth bodies_append)
      have len: "length (entryStore ?t2) = length ?s" by (simp add: x(1))
      show ?thesis
        using Suc.hyps(1) [OF m t2 Suc.prems(2), of "i + 1" "did \<or> answerRemove op" a] n False e live hs
        unfolding dr tk len
        by (cases "answerRemove op") (auto simp: upt drop bodies_Cons Let_def split: prod.split)
    qed
  qed
qed

end

context dhash_keys begin

lemma bodies_count: "length (bodies s) = live_count s"
  by (simp add: bodies_def)

lemma ceiling_room:
  assumes t: "table_ok hops t"
  defines "c \<equiv> entryCount t + drop_bit 1 (entryCount t)"
  defines "n \<equiv> JS_CEILING_LOG2 (if c < JS_DHASH_MIN_SIZE then JS_DHASH_MIN_SIZE else c)"
  shows "4 \<le> n" "n < 32" "live_count (entryStore t) < 2 ^ n"
proof -
  note ok = table_okD [OF t]
  let ?l = "live_count (entryStore t)"
  have l: "?l < 2 ^ 23" using ok(10) size_bounds(2) [OF t] by linarith
  have uc: "unat c = ?l + ?l div 2"
    unfolding c_def using l by (subst unat_add_small) (simp_all add: unat_drop_bit ok(8))
  define c' where "c' = (if c < JS_DHASH_MIN_SIZE then JS_DHASH_MIN_SIZE else c)"
  have uc': "unat c' = max 16 (?l + ?l div 2)"
    by (simp add: c'_def uc JS_DHASH_MIN_SIZE_def word_less_nat_alt)
  then have nz: "c' \<noteq> 0" by auto
  have n: "n = JS_CEILING_LOG2 c'" by (simp add: n_def c'_def)
  show "4 \<le> n" unfolding n_def by (rule ceiling_min)
  have "unat c' \<le> 2 ^ 24" using uc' l by simp
  then have "n \<le> 24" unfolding n by (rule JS_CEILING_LOG2_least [OF nz])
  then show "n < 32" by simp
  have "unat c' \<le> 2 ^ n" unfolding n by (rule JS_CEILING_LOG2_bounds(1) [OF nz])
  moreover have "?l < unat c'" using uc' by (cases "?l < 2") auto
  ultimately show "?l < 2 ^ n" by linarith
qed

lemma Enumerate_ok:
  assumes t: "table_ok hops t" and etor: "keeps_key etor"
  obtains t' where
    "JS_DHashTableEnumerate alloc t etor arg =
      Some (t', snd (enum_spec etor (bodies (entryStore t)) 0 arg))"
    "table_ok hops t'"
    "table_map t' = (\<lambda>k. find (\<lambda>b. matchEntry hops b k) (fst (enum_spec etor (bodies (entryStore t)) 0 arg)))"
    "live_count (entryStore t') = length (fst (enum_spec etor (bodies (entryStore t)) 0 arg))"
proof -
  let ?s = "entryStore t" let ?e = "enum_spec etor (bodies ?s) 0 arg"
  obtain t1 d where l: "enumerate_loop etor [0..<length ?s] t 0 False arg = (t1, fst (snd ?e), d, snd (snd ?e))"
    "table_ok hops t1" "hashShift t1 = hashShift t" "bodies (entryStore t1) = fst ?e"
    using enumerate_loop_ok [OF t etor, of 0 0 False arg] by (auto simp: bodies_def [of "[]"])
  have map: "table_map t1 = (\<lambda>k. find (\<lambda>b. matchEntry hops b k) (fst ?e))"
    using l(4) by (simp add: table_map_def store_map_bodies table_okD(1) [OF l(2)] fun_eq_iff)
  have cnt: "live_count (entryStore t1) = length (fst ?e)" using l(4) bodies_count by metis
  let ?cap = "JS_DHASH_TABLE_SIZE t"
  have cap: "unat ?cap = length ?s" using table_size [OF t] table_okD(11) [OF t] by simp
  let ?cond = "d \<and> (drop_bit 2 ?cap \<le> removedCount t1 \<or>
    (JS_DHASH_MIN_SIZE < ?cap \<and> entryCount t1 \<le> MIN_LOAD t1 ?cap))"
  show ?thesis
  proof (cases ?cond)
    case False
    then have "JS_DHashTableEnumerate alloc t etor arg = Some (t1, snd ?e)"
      using l(1) by (auto simp: JS_DHashTableEnumerate_def cap Let_def)
    then show ?thesis by (rule that [OF _ l(2) map cnt])
  next
    case True
    define c where "c = entryCount t1 + drop_bit 1 (entryCount t1)"
    define n where "n = JS_CEILING_LOG2 (if c < JS_DHASH_MIN_SIZE then JS_DHASH_MIN_SIZE else c)"
    note room = ceiling_room [OF l(2), folded c_def, folded n_def]
    let ?d = "int n - int (32 - hashShift t1)"
    have "int (32 - hashShift t1) + ?d = int n" by simp
    then obtain t' ok where c: "ChangeTable alloc t1 ?d = Some (t', ok)"
      "ok \<Longrightarrow> table_ok hops t' \<and> table_map t' = table_map t1 \<and> entryCount t' = entryCount t1 \<and>
         removedCount t' = 0 \<and> hashShift t' = 32 - n"
      "\<not> ok \<Longrightarrow> t' = t1" using ChangeTable_ok [OF l(2) _ room, of ?d alloc] by metis
    have t': "table_ok hops t' \<and> table_map t' = table_map t1 \<and> entryCount t' = entryCount t1"
      using c(2,3) l(2) by (cases ok) auto
    have "JS_DHashTableEnumerate alloc t etor arg = Some (t', snd ?e)"
      using l(1) True c(1) by (auto simp: JS_DHashTableEnumerate_def cap Let_def JS_DHASH_BITS_def c_def n_def)
    then show ?thesis
      by (rule that) (use t' map cnt table_okD(8) [of hops t'] table_okD(8) [OF l(2)] in auto)
  qed
qed

end

subsection \<open>The stub hooks obey the laws\<close>

interpretation stub: dhash_keys stub_ops "\<lambda>k. k"
  by unfold_locales (auto simp: stub_ops_def)

interpretation str: dhash_keys string_ops "\<lambda>k. k"
  by unfold_locales (auto simp: string_ops_def)

text \<open>A fresh table of the stub hooks: a key pointer after the 4-byte hash, padded to 16 bytes.\<close>

definition stub_table :: "(u64, u64) JSDHashTable" where
  "stub_table = \<lparr>ops = stub_ops, hashShift = 28, maxAlphaFrac = 0xC0, minAlphaFrac = 0x40,
     entrySize = 16, entryCount = 0, removedCount = 0, generation = 0,
     entryStore = replicate 16 \<lparr>keyHash = 0, body = 0\<rparr>\<rparr>"

lemma stub_table_init: "JS_DHashTableInit (\<lambda>_. True) stub_ops 16 8 = Some (Some stub_table)"
proof -
  have "JS_CEILING_LOG2 16 = 4" by code_simp
  moreover have "zeroed_store stub_ops (JS_BIT 4 * 16) 16 = replicate (2 ^ 4) \<lparr>keyHash = 0, body = zeroEntry stub_ops\<rparr>"
    by (rule zeroed_store_eq) simp_all
  moreover have "\<not> JS_DHASH_SIZE_LIMIT \<le> JS_BIT 4" by (simp add: size_limit)
  ultimately show ?thesis
    by (simp add: JS_DHashTableInit_def JS_DHASH_MIN_SIZE_def JS_DHASH_BITS_def stub_table_def
        stub_ops_def Let_def word_less_nat_alt)
qed

lemma stub_table_ok: "table_ok stub_ops stub_table" "table_map stub_table k = None"
  using Init_ok [OF stub_table_init] by simp_all

subsection \<open>Properties\<close>

text \<open>A table that \<open>JS_DHashTableInit\<close> returns is well formed and represents the empty map,
  whatever capacity was asked for.\<close>

theorem dhash_init_empty:
  assumes "JS_DHashTableInit alloc hops es capacity = Some (Some t)" "0 < unat es" "unat es < 512"
  shows "table_ok hops t \<and> (\<forall>k. table_map t k = None)"
  using Init_ok [OF assms] by blast

theorem dhash_init_empty_witness:
  "table_ok stub_ops stub_table \<and> (\<forall>k. table_map stub_table k = None)"
  by (rule dhash_init_empty [OF stub_table_init]) simp_all

text \<open>C26. On every well-formed table a search ends, and \<open>JS_DHASH_LOOKUP\<close> returns the entry of the key
  in the table's map, or a free entry when the map has none; the table is unchanged.\<close>

theorem dhash_lookup_correct:
  assumes "dhash_keys hops canon" "table_ok hops t"
  shows "\<exists>i. JS_DHashTableOperate alloc t k JS_DHASH_LOOKUP = Some (t, Some i) \<and>
    i < length (entryStore t) \<and>
    (case table_map t k of
       None \<Rightarrow> ENTRY_IS_FREE (entryStore t ! i)
     | Some b \<Rightarrow> ENTRY_IS_LIVE (entryStore t ! i) \<and> body (entryStore t ! i) = b)"
  by (rule dhash_keys.Lookup_ok [OF assms, of alloc k]) (auto split: option.splits)

theorem dhash_lookup_correct_witness:
  "\<exists>i. JS_DHashTableOperate (\<lambda>_. False) stub_table 7 JS_DHASH_LOOKUP = Some (stub_table, Some i) \<and>
    i < length (entryStore stub_table) \<and> ENTRY_IS_FREE (entryStore stub_table ! i)"
  using dhash_lookup_correct [OF stub.dhash_keys_axioms stub_table_ok(1), of "\<lambda>_. False" 7]
  by (simp add: stub_table_ok(2))

text \<open>C7. \<open>JS_DHASH_ADD\<close> returns the key's entry when the map has one, leaving the map alone (it may
  grow the table); otherwise it claims a live entry such that writing contents with that key into it
  gives a well-formed table for the updated map.  It fails only when a single entry is left free and
  the store could not be reallocated.\<close>

theorem dhash_add_correct:
  assumes "dhash_keys hops canon" "table_ok hops t"
    and "\<forall>f b. initEntry hops = Some f \<longrightarrow> f b k \<noteq> None"
  shows "(\<exists>t' i. JS_DHashTableOperate alloc t k JS_DHASH_ADD = Some (t', Some i) \<and>
      i < length (entryStore t') \<and> ENTRY_IS_LIVE (entryStore t' ! i) \<and>
      (case table_map t k of
         Some b \<Rightarrow> table_ok hops t' \<and> table_map t' = table_map t \<and> body (entryStore t' ! i) = b
       | None \<Rightarrow> (\<forall>b. canon (getKey hops b) = canon k \<longrightarrow> table_ok hops (set_body t' i b) \<and>
           table_map (set_body t' i b) = (\<lambda>k'. if canon k' = canon k then Some b else table_map t k')))) \<or>
    (JS_DHashTableOperate alloc t k JS_DHASH_ADD = Some (t, None) \<and>
     unat (entryCount t) + unat (removedCount t) + 1 = 2 ^ (32 - hashShift t) \<and>
     (\<exists>n \<in> {32 - hashShift t, 32 - hashShift t + 1}. \<not> (n < 24 \<and> alloc (JS_BIT n * entrySize t))))"
proof -
  show ?thesis
  proof (rule dhash_keys.Add_ok [OF assms(1,2), where k = k and alloc = alloc])
    show "f b k \<noteq> None" if "initEntry hops = Some f" for f b using assms(3) that by blast
  qed (auto simp: dhash_keys.added_def [OF assms(1)] table_okD(8,9) [OF assms(2)])
qed

theorem dhash_add_correct_witness:
  "\<exists>t' i. JS_DHashTableOperate (\<lambda>_. False) stub_table 7 JS_DHASH_ADD = Some (t', Some i) \<and>
    table_map (set_body t' i 7) = (\<lambda>k'. if k' = 7 then Some 7 else None)"
proof -
  have "initEntry stub_ops = None" "getKey stub_ops b = b" for b by (simp_all add: stub_ops_def)
  moreover have "entryCount stub_table = 0" "removedCount stub_table = 0" "hashShift stub_table = 28"
    by (simp_all add: stub_table_def)
  ultimately show ?thesis
    using dhash_add_correct [OF stub.dhash_keys_axioms stub_table_ok(1), of 7 "\<lambda>_. False"]
    by (auto simp: stub_table_ok(2) fun_eq_iff)
qed

text \<open>C27. \<open>JS_DHASH_REMOVE\<close> ends, keeps the table well formed and deletes the key from the map, for
  every allocator behaviour (a failing reallocation only leaves the table larger).\<close>

theorem dhash_remove_correct:
  assumes "dhash_keys hops canon" "table_ok hops t"
  shows "\<exists>t'. JS_DHashTableOperate alloc t k JS_DHASH_REMOVE = Some (t', None) \<and> table_ok hops t' \<and>
    table_map t' = (\<lambda>k'. if canon k' = canon k then None else table_map t k')"
  by (rule dhash_keys.Remove_ok [OF assms, of alloc k]) blast

theorem dhash_remove_correct_witness:
  "\<exists>t'. JS_DHashTableOperate (\<lambda>_. True) stub_table 7 JS_DHASH_REMOVE = Some (t', None) \<and> table_ok stub_ops t'"
  using dhash_remove_correct [OF stub.dhash_keys_axioms stub_table_ok(1), of "\<lambda>_. True" 7] by blast

text \<open>Enumerating visits the live entries in store order, hands each its ordinal, applies the
  answers (remove, stop) and leaves a well-formed table whose map consists of the survivors, also
  when the enumeration ends by resizing the store.\<close>

theorem dhash_enumerate_correct:
  assumes "dhash_keys hops canon" "table_ok hops t"
    and "\<forall>b i arg. canon (getKey hops (fst (snd (etor b i arg)))) = canon (getKey hops b)"
  shows "\<exists>t'. JS_DHashTableEnumerate alloc t etor arg =
      Some (t', snd (enum_spec etor (bodies (entryStore t)) 0 arg)) \<and> table_ok hops t' \<and>
    table_map t' = (\<lambda>k. find (\<lambda>b. matchEntry hops b k) (fst (enum_spec etor (bodies (entryStore t)) 0 arg))) \<and>
    unat (entryCount t') = length (fst (enum_spec etor (bodies (entryStore t)) 0 arg))"
proof -
  have "dhash_keys.keeps_key hops canon etor"
    unfolding dhash_keys.keeps_key_def [OF assms(1)] by (rule assms(3))
  then show ?thesis
    by (rule dhash_keys.Enumerate_ok [OF assms(1,2), of etor alloc arg]) (auto simp: table_okD(8))
qed

theorem dhash_enumerate_correct_witness:
  "\<exists>t'. JS_DHashTableEnumerate (\<lambda>_. True) stub_table
      (\<lambda>b i n. (\<lparr>answerRemove = False, answerStop = False\<rparr>, b, Suc n)) 0 = Some (t', 0, 0) \<and>
    table_ok stub_ops t'"
proof -
  have "\<not> ENTRY_IS_LIVE \<lparr>keyHash = 0, body = 0 :: u64\<rparr>" by (simp add: ENTRY_IS_LIVE_def)
  then have "bodies (entryStore stub_table) = []" by (simp add: stub_table_def bodies_def)
  then show ?thesis
    using dhash_enumerate_correct [OF stub.dhash_keys_axioms stub_table_ok(1),
        of "\<lambda>b i n. (\<lparr>answerRemove = False, answerStop = False\<rparr>, b, Suc n)" "\<lambda>_. True" 0] by auto
qed

text \<open>C28. When \<open>initEntry\<close> fails on an entry that \<open>JS_DHASH_ADD\<close> recycles, the entry stays a removed
  sentinel but \<open>removedCount\<close> has already been decremented: the table is no longer well formed.\<close>

theorem dhash_init_failure_miscounts:
  assumes "table_ok hops t" "i < length (entryStore t)" "ENTRY_IS_REMOVED (entryStore t ! i)"
    and "initEntry hops = Some f" "f (body (entryStore t ! i)) k = None"
    and "claim_entry t k h i = (t', r)"
  shows "r = None \<and> ENTRY_IS_REMOVED (entryStore t' ! i) \<and>
    unat (removedCount t') + 1 = removed_count (entryStore t') \<and> \<not> table_ok hops t'"
proof -
  note ok = table_okD [OF assms(1)]
  let ?x = "(entryStore t ! i)\<lparr>body := zeroEntry hops\<rparr>"
  have nl: "\<not> ENTRY_IS_LIVE (entryStore t ! i)" using assms(3) live_not by blast
  have t': "r = None" "t' = t\<lparr>removedCount := removedCount t - 1, entryStore := (entryStore t)[i := ?x]\<rparr>"
    using assms(3-6) nl by (auto simp: claim_entry_def Let_def ok(1))
  have x: "ENTRY_IS_REMOVED ?x" using assms(3) by (simp add: ENTRY_IS_REMOVED_def)
  have rem: "removed_count ((entryStore t)[i := ?x]) = removed_count (entryStore t)"
    using length_filter_update [OF assms(2), of ENTRY_IS_REMOVED ?x] x assms(3) by simp
  have "removed_count (entryStore t) \<noteq> 0"
    using assms(2,3) by (auto simp: filter_empty_conv)
  then have "unat (removedCount t - 1) + 1 = removed_count (entryStore t)"
    using ok(9) by (subst unat_dec) auto
  then show ?thesis using t' rem x assms(2) table_okD(9) [of hops t'] by auto
qed

definition failing_table :: "(u64, u64) JSDHashTable" where
  "failing_table = stub_table\<lparr>ops := stub_ops\<lparr>initEntry := Some (\<lambda>_ _. None)\<rparr>, removedCount := 1,
     entryStore := (entryStore stub_table)[3 := \<lparr>keyHash = 1, body = 0\<rparr>]\<rparr>"

theorem dhash_init_failure_miscounts_witness:
  "\<exists>t'. claim_entry failing_table 7 14 3 = (t', None) \<and>
    unat (removedCount t') + 1 = removed_count (entryStore t') \<and>
    \<not> table_ok (stub_ops\<lparr>initEntry := Some (\<lambda>_ _. None)\<rparr>) t'"
proof -
  let ?hops = "stub_ops\<lparr>initEntry := Some (\<lambda>_ _. None)\<rparr>"
  let ?s = "(replicate 16 \<lparr>keyHash = 0, body = 0 :: u64\<rparr>)[3 := \<lparr>keyHash = 1, body = 0\<rparr>]"
  have len: "length ?s = 16" by simp
  have live: "\<not> ENTRY_IS_LIVE (?s ! i)" if "i < 16" for i
    using that by (simp add: nth_list_update ENTRY_IS_LIVE_def word_le_nat_alt)
  have nolive: "filter ENTRY_IS_LIVE ?s = []"
    unfolding filter_empty_conv all_set_conv_all_nth len using live by blast
  have s: "entryStore failing_table = ?s" by (simp add: failing_table_def stub_table_def)
  have ok: "store_ok ?hops 4 ?s" using live by (simp add: store_ok_def)
  have free: "\<not> ENTRY_IS_REMOVED \<lparr>keyHash = 0, body = 0 :: u64\<rparr>" "ENTRY_IS_REMOVED \<lparr>keyHash = 1, body = 0 :: u64\<rparr>"
    by (simp_all add: ENTRY_IS_REMOVED_def)
  have rem: "removed_count ?s = 1"
    using length_filter_update [of 3 "replicate 16 \<lparr>keyHash = 0, body = 0 :: u64\<rparr>" ENTRY_IS_REMOVED "\<lparr>keyHash = 1, body = 0\<rparr>"] free
    by simp
  have t: "table_ok ?hops failing_table"
    unfolding table_ok_def s using ok nolive rem by (simp add: failing_table_def stub_table_def)
  have i: "3 < length (entryStore failing_table)" by (simp add: s)
  have r: "ENTRY_IS_REMOVED (entryStore failing_table ! 3)" unfolding s by (simp add: ENTRY_IS_REMOVED_def)
  obtain t' r' where c: "claim_entry failing_table 7 14 3 = (t', r')" by (cases "claim_entry failing_table 7 14 3")
  show ?thesis using dhash_init_failure_miscounts [OF t i r _ _ c] c by simp
qed

end
