(* ===== verification/Jsval.thy ===== *)
theory Jsval
  imports Prelude
begin

text \<open>
  The engine's tagged values as far as the collections and the promise jobs look at them
  (\<open>js/src/jsapi.h\<close>, \<open>js/src/jsnum.h\<close>): integers, boxed doubles given by their IEEE bits, strings given
  by their characters, and every other word (objects, symbols, booleans, null, undefined) given by its
  64 bits.  Doubles are never computed with here, only classified and compared, so their bit patterns
  are all that matters.
\<close>

datatype jsval = JInt "32 word" | JDouble u64 | JString "jschar list" | JOther u64

text \<open>\<open>JSVAL_VOID\<close> is the word \<open>((0 - 2 ^ 30) << 1) | 1\<close>, \<open>JSVAL_NULL\<close> the null object pointer.\<close>

definition JSVAL_VOID :: jsval where
  "JSVAL_VOID = JOther (push_bit 1 (- (2 ^ 30)) OR 1)"

definition JSVAL_NULL :: jsval where
  "JSVAL_NULL = JOther 0"

definition JSVAL_ZERO :: jsval where
  "JSVAL_ZERO = JInt 0"

fun JSVAL_IS_NUMBER :: "jsval \<Rightarrow> bool" where
  "JSVAL_IS_NUMBER (JInt i) = True"
| "JSVAL_IS_NUMBER (JDouble d) = True"
| "JSVAL_IS_NUMBER v = False"

text \<open>\<open>!(v & JSVAL_INT) && !JSVAL_IS_BOOLEAN(v)\<close>; boxed doubles and strings are tagged pointers.\<close>

fun JSVAL_IS_GCTHING :: "jsval \<Rightarrow> bool" where
  "JSVAL_IS_GCTHING (JInt i) = False"
| "JSVAL_IS_GCTHING (JDouble d) = True"
| "JSVAL_IS_GCTHING (JString s) = True"
| "JSVAL_IS_GCTHING (JOther w) = (w AND 1 = 0 \<and> w AND 7 \<noteq> 6)"

definition JSVAL_IS_NULL :: "jsval \<Rightarrow> bool" where
  "JSVAL_IS_NULL v \<longleftrightarrow> v = JSVAL_NULL"

subsection \<open>Doubles\<close>

definition JSDOUBLE_HI32 :: "u64 \<Rightarrow> u32" where
  "JSDOUBLE_HI32 d = ucast (drop_bit 32 d)"

definition JSDOUBLE_LO32 :: "u64 \<Rightarrow> u32" where
  "JSDOUBLE_LO32 d = ucast d"

definition JSDOUBLE_IS_NaN :: "u64 \<Rightarrow> bool" where
  "JSDOUBLE_IS_NaN d \<longleftrightarrow> JSDOUBLE_HI32 d AND 0x7FF00000 = 0x7FF00000 \<and>
     (JSDOUBLE_LO32 d \<noteq> 0 \<or> JSDOUBLE_HI32 d AND 0x000FFFFF \<noteq> 0)"

text \<open>\<open>number == 0\<close>: both zeros, whatever the sign.\<close>

definition dbl_is_zero :: "u64 \<Rightarrow> bool" where
  "dbl_is_zero d \<longleftrightarrow> d = 0 \<or> d = 0x8000000000000000"

text \<open>The comparison \<open>x == y\<close> of two doubles.\<close>

definition dbl_eq :: "u64 \<Rightarrow> u64 \<Rightarrow> bool" where
  "dbl_eq x y \<longleftrightarrow> \<not> JSDOUBLE_IS_NaN x \<and> \<not> JSDOUBLE_IS_NaN y \<and> (x = y \<or> dbl_is_zero x \<and> dbl_is_zero y)"

text \<open>The conversion of an \<open>int32\<close> to \<open>double\<close>, which is exact: sign, exponent and mantissa.\<close>

fun exponent_of :: "nat \<Rightarrow> nat" where
  "exponent_of n = (if n < 2 then 0 else exponent_of (n div 2) + 1)"

declare exponent_of.simps [simp del]

definition int_to_double :: "32 word \<Rightarrow> u64" where
  "int_to_double i =
     (let n = nat \<bar>sint i\<bar>; e = exponent_of n
      in if n = 0 then 0
         else word_of_nat ((if sint i < 0 then 2 ^ 63 else 0) + (1023 + e) * 2 ^ 52 +
                (n * 2 ^ (52 - e)) mod 2 ^ 52))"

fun number_bits :: "jsval \<Rightarrow> u64" where
  "number_bits (JInt i) = int_to_double i"
| "number_bits (JDouble d) = d"
| "number_bits v = 0"

subsection \<open>Strings\<close>

text \<open>\<open>js_HashString\<close> of \<open>jsstr.c\<close>, with \<open>JS_HASH_BITS\<close> = 32.\<close>

definition js_HashString :: "jschar list \<Rightarrow> u32" where
  "js_HashString s = foldl (\<lambda>h c. drop_bit (32 - 4) h XOR push_bit 4 h XOR ucast c) 0 s"

text \<open>\<open>js_EqualStrings\<close>: lengths first, then the characters one by one.\<close>

fun chars_equal :: "jschar list \<Rightarrow> jschar list \<Rightarrow> bool" where
  "chars_equal (c # s) (d # t) = (if c \<noteq> d then False else chars_equal s t)"
| "chars_equal _ _ = True"

definition js_EqualStrings :: "jschar list \<Rightarrow> jschar list \<Rightarrow> bool" where
  "js_EqualStrings s t = (if length s \<noteq> length t then False else chars_equal s t)"

lemma js_EqualStrings_iff [simp]: "js_EqualStrings s t \<longleftrightarrow> s = t"
proof -
  have "length s = length t \<Longrightarrow> chars_equal s t \<longleftrightarrow> s = t"
    by (induction s t rule: list_induct2) auto
  then show ?thesis by (auto simp: js_EqualStrings_def)
qed

text \<open>\<open>js_CompareStrings\<close>: the difference of the first differing characters, else of the lengths.\<close>

fun js_CompareStrings :: "jschar list \<Rightarrow> jschar list \<Rightarrow> int" where
  "js_CompareStrings (c # s) (d # t) = (let cmp = uint c - uint d in if cmp \<noteq> 0 then cmp else js_CompareStrings s t)"
| "js_CompareStrings s t = int (length s) - int (length t)"

end
