(* ===== verification/Collection.thy ===== *)
theory Collection
  imports Jsval DHash_Table
begin

text \<open>
  The ordered storage of ES2015 \<open>Map\<close>, \<open>Set\<close> and their weak variants, \<open>js/src/jscollectiontable.c\<close>:
  a row array in insertion order with tombstones, and a double-hashing table from keys to rows.  This
  theory holds the definitions.  \<open>alloc\<close> is the allocator behaviour the index sees, \<open>ralloc\<close> says
  whether \<open>realloc\<close> of the row array to so many rows succeeds.  An operation that would dereference
  outside the rows is \<open>None\<close>; \<open>Some\<close> carries the data and what the function returns.
\<close>

subsection \<open>Rows, index entries and the data\<close>

record CollectionRow =
  rkey :: jsval
  rvalue :: jsval
  live :: bool

record CollectionIndex =
  ikey :: jsval
  rowPlusOne :: u32

record JSCollectionData =
  index :: "(jsval, CollectionIndex) JSDHashTable"
  rows :: "CollectionRow list"
  used :: u32
  size_of :: u32
  capacity :: u32
  active :: u32
  references :: u32

text \<open>What \<open>realloc\<close> leaves in rows that were never written; no operation reads it.\<close>

definition unwritten :: CollectionRow where
  "unwritten = \<lparr>rkey = JSVAL_VOID, rvalue = JSVAL_VOID, live = False\<rparr>"

definition SameValueZero :: "jsval \<Rightarrow> jsval \<Rightarrow> bool" where
  "SameValueZero a b =
     (if JSVAL_IS_NUMBER a \<and> JSVAL_IS_NUMBER b then
        dbl_eq (number_bits a) (number_bits b) \<or>
        (JSDOUBLE_IS_NaN (number_bits a) \<and> JSDOUBLE_IS_NaN (number_bits b))
      else (case (a, b) of
              (JString s, JString t) \<Rightarrow> js_EqualStrings s t
            | _ \<Rightarrow> a = b))"

fun CollectionHash :: "jsval \<Rightarrow> u32" where
  "CollectionHash (JString s) = js_HashString s XOR 0x70000000"
| "CollectionHash (JOther bits) =
     ucast bits XOR ucast (drop_bit 16 (drop_bit 16 bits)) XOR 0x50000000"
| "CollectionHash v =
     (let d = number_bits v
      in if dbl_is_zero d then 0x90123456
         else if JSDOUBLE_IS_NaN d then 0x90765432
         else JSDOUBLE_LO32 d XOR JSDOUBLE_HI32 d XOR 0x90000000)"

definition collectionOps :: "(jsval, CollectionIndex) JSDHashTableOps" where
  "collectionOps = \<lparr>getKey = ikey, hashKey = CollectionHash,
     matchEntry = (\<lambda>entry key. SameValueZero (ikey entry) key), moveEntry = (\<lambda>e. e),
     clearEntry = (\<lambda>e. \<lparr>ikey = JOther 0, rowPlusOne = 0\<rparr>), initEntry = None,
     zeroEntry = \<lparr>ikey = JOther 0, rowPlusOne = 0\<rparr>\<rparr>"

text \<open>\<open>sizeof(CollectionIndex)\<close> on a 64-bit host, and \<open>sizeof(CollectionRow)\<close>.\<close>

definition INDEX_BYTES :: u32 where
  "INDEX_BYTES = 24"

definition ROW_BYTES :: nat where
  "ROW_BYTES = 24"

subsection \<open>Life cycle\<close>

text \<open>\<open>None\<close>: \<open>NULL\<close>.\<close>

definition js_NewCollectionData :: "bool \<Rightarrow> (u32 \<Rightarrow> bool) \<Rightarrow> JSCollectionData option" where
  "js_NewCollectionData calloc alloc =
     (if \<not> calloc then None
      else case JS_DHashTableInit alloc collectionOps INDEX_BYTES 16 of
             Some (Some t) \<Rightarrow>
               Some \<lparr>index = t, rows = [], used = 0, size_of = 0, capacity = 0, active = 0, references = 1\<rparr>
           | _ \<Rightarrow> None)"

text \<open>The data that is left, or \<open>None\<close> once the last reference is gone and it has been freed.\<close>

definition js_ReleaseCollectionData :: "JSCollectionData \<Rightarrow> JSCollectionData option" where
  "js_ReleaseCollectionData data =
     (let data = data\<lparr>references := references data - 1\<rparr>
      in if references data = 0 then None else Some data)"

definition js_BeginCollectionIteration :: "JSCollectionData \<Rightarrow> JSCollectionData \<times> bool" where
  "js_BeginCollectionIteration data =
     (if references data = - 1 \<or> active data = - 1 then (data, False)
      else (data\<lparr>references := references data + 1, active := active data + 1\<rparr>, True))"

definition js_EndCollectionIteration :: "JSCollectionData \<Rightarrow> JSCollectionData option" where
  "js_EndCollectionIteration data =
     (let data = data\<lparr>active := active data - 1\<rparr>;
          data = (if active data = 0 \<and> size_of data = 0
                  then data\<lparr>rows := [], used := 0, capacity := 0\<rparr> else data)
      in js_ReleaseCollectionData data)"

definition js_CollectionSize :: "JSCollectionData \<Rightarrow> u32" where
  "js_CollectionSize data = size_of data"

subsection \<open>Compaction\<close>

text \<open>\<open>JS_DHashTableOperate(&data->index, &key, JS_DHASH_LOOKUP)\<close>.\<close>

definition index_lookup :: "JSCollectionData \<Rightarrow> jsval \<Rightarrow> nat option" where
  "index_lookup data key =
     (case JS_DHashTableOperate (\<lambda>_. True) (index data) key JS_DHASH_LOOKUP of
        Some (_, Some i) \<Rightarrow> Some i | _ \<Rightarrow> None)"

definition ENTRY_IS_BUSY :: "JSCollectionData \<Rightarrow> nat \<Rightarrow> bool" where
  "ENTRY_IS_BUSY data i = (\<not> ENTRY_IS_FREE (entryStore (index data) ! i))"

definition entry_at :: "JSCollectionData \<Rightarrow> nat \<Rightarrow> CollectionIndex" where
  "entry_at data i = body (entryStore (index data) ! i)"

text \<open>The loop of \<open>Compact\<close> over the source rows, with the target index.\<close>

fun compact_loop :: "nat list \<Rightarrow> JSCollectionData \<Rightarrow> nat \<Rightarrow> (JSCollectionData \<times> nat) option" where
  "compact_loop [] data dest = Some (data, dest)"
| "compact_loop (source # sources) data dest =
     (if \<not> live (rows data ! source) then compact_loop sources data dest
      else
        let data = (if source \<noteq> dest then data\<lparr>rows := (rows data)[dest := rows data ! source]\<rparr> else data)
        in case index_lookup data (rkey (rows data ! dest)) of
             None \<Rightarrow> None
           | Some i \<Rightarrow>
               compact_loop sources
                 (data\<lparr>index := set_body (index data) i
                    ((entry_at data i)\<lparr>rowPlusOne := word_of_nat dest + 1\<rparr>)\<rparr>) (dest + 1))"

definition Compact :: "JSCollectionData \<Rightarrow> JSCollectionData option" where
  "Compact data =
     (if active data \<noteq> 0 \<or> used data \<le> 64 \<or> used data div 2 \<le> size_of data then Some data
      else if length (rows data) < unat (used data) then None
      else case compact_loop [0..<unat (used data)] data 0 of
             None \<Rightarrow> None
           | Some (data, dest) \<Rightarrow> Some (data\<lparr>used := word_of_nat dest\<rparr>))"

subsection \<open>Access\<close>

text \<open>\<open>Some None\<close>: \<open>JS_FALSE\<close>; otherwise the value stored through the out parameter.\<close>

definition js_CollectionGet :: "JSCollectionData \<Rightarrow> jsval \<Rightarrow> jsval option option" where
  "js_CollectionGet data key =
     (case index_lookup data key of
        None \<Rightarrow> None
      | Some i \<Rightarrow>
          if \<not> ENTRY_IS_BUSY data i then Some None
          else let slot = unat (rowPlusOne (entry_at data i) - 1)
               in if length (rows data) \<le> slot then None else Some (Some (rvalue (rows data ! slot))))"

text \<open>The growth of the row array: \<open>None\<close> when \<open>js_CollectionPut\<close> returns \<open>JS_FALSE\<close> here.\<close>

definition grow_rows :: "(nat \<Rightarrow> bool) \<Rightarrow> JSCollectionData \<Rightarrow> JSCollectionData option" where
  "grow_rows ralloc data =
     (if used data = capacity data then
        if capacity data > (- 1) div 2 then None
        else
          let cap = (if capacity data \<noteq> 0 then capacity data * 2 else 16)
          in if unat cap > (2 ^ 64 - 1) div ROW_BYTES then None
             else if \<not> ralloc (unat cap) then None
             else Some (data\<lparr>rows := rows data @ replicate (unat cap - length (rows data)) unwritten,
                          capacity := cap\<rparr>)
      else Some data)"

definition normalize_zero :: "jsval \<Rightarrow> jsval" where
  "normalize_zero key = (if JSVAL_IS_NUMBER key \<and> dbl_is_zero (number_bits key) then JSVAL_ZERO else key)"

definition js_CollectionPut ::
  "(u32 \<Rightarrow> bool) \<Rightarrow> (nat \<Rightarrow> bool) \<Rightarrow> JSCollectionData \<Rightarrow> jsval \<Rightarrow> jsval \<Rightarrow> (JSCollectionData \<times> bool) option" where
  "js_CollectionPut alloc ralloc data key value =
     (let key = normalize_zero key
      in case Compact data of None \<Rightarrow> None | Some data \<Rightarrow>
        (case index_lookup data key of None \<Rightarrow> None | Some i \<Rightarrow>
           if ENTRY_IS_BUSY data i then
             let slot = unat (rowPlusOne (entry_at data i) - 1)
             in if length (rows data) \<le> slot then None
                else Some (data\<lparr>rows := (rows data)[slot := (rows data ! slot)\<lparr>rvalue := value\<rparr>]\<rparr>, True)
           else
             (case grow_rows ralloc data of None \<Rightarrow> Some (data, False) | Some data \<Rightarrow>
                (case JS_DHashTableOperate alloc (index data) key JS_DHASH_ADD of
                   None \<Rightarrow> None
                 | Some (t, None) \<Rightarrow> Some (data\<lparr>index := t\<rparr>, False)
                 | Some (t, Some i) \<Rightarrow>
                     let slot = used data
                     in if length (rows data) \<le> unat slot then None
                        else Some (data\<lparr>index := set_body t i \<lparr>ikey = key, rowPlusOne = slot + 1\<rparr>,
                               rows := (rows data)[unat slot := \<lparr>rkey = key, rvalue = value, live = True\<rparr>],
                               used := used data + 1, size_of := size_of data + 1\<rparr>, True)))))"

definition tombstone :: "CollectionRow \<Rightarrow> CollectionRow" where
  "tombstone row = row\<lparr>live := False, rkey := JSVAL_VOID, rvalue := JSVAL_VOID\<rparr>"

definition js_CollectionDelete :: "JSCollectionData \<Rightarrow> jsval \<Rightarrow> (JSCollectionData \<times> bool) option" where
  "js_CollectionDelete data key =
     (case index_lookup data key of
        None \<Rightarrow> None
      | Some i \<Rightarrow>
          if \<not> ENTRY_IS_BUSY data i then Some (data, False)
          else
            let slot = unat (rowPlusOne (entry_at data i) - 1)
            in if length (rows data) \<le> slot then None
               else map_option (\<lambda>d. (d, True))
                 (Compact (data\<lparr>index := JS_DHashTableRawRemove (index data) i,
                    rows := (rows data)[slot := tombstone (rows data ! slot)],
                    size_of := size_of data - 1\<rparr>)))"

definition ClearIndex :: "CollectionIndex \<Rightarrow> nat \<Rightarrow> unit \<Rightarrow> JSDHashAnswer \<times> CollectionIndex \<times> unit" where
  "ClearIndex entry number arg = (\<lparr>answerRemove = True, answerStop = False\<rparr>, entry, arg)"

definition js_CollectionClear :: "(u32 \<Rightarrow> bool) \<Rightarrow> JSCollectionData \<Rightarrow> JSCollectionData option" where
  "js_CollectionClear alloc data =
     (case JS_DHashTableEnumerate alloc (index data) ClearIndex () of
        None \<Rightarrow> None
      | Some (t, _) \<Rightarrow>
          if active data \<noteq> 0 then
            (if length (rows data) < unat (used data) then None
             else Some (data\<lparr>index := t,
                    rows := map tombstone (take (unat (used data)) (rows data)) @ drop (unat (used data)) (rows data),
                    size_of := 0\<rparr>))
          else Some (data\<lparr>index := t, rows := [], used := 0, capacity := 0, size_of := 0\<rparr>))"

text \<open>
  \<open>js_CollectionNext\<close>: the new cursor and the row it delivers, or \<open>None\<close> for \<open>JS_FALSE\<close>.
\<close>

function next_row :: "JSCollectionData \<Rightarrow> nat \<Rightarrow> nat \<times> (jsval \<times> jsval) option" where
  "next_row data cursor =
     (if cursor < unat (used data) then
        let row = rows data ! cursor
        in if \<not> live row then next_row data (cursor + 1)
           else (cursor + 1, Some (rkey row, rvalue row))
      else (cursor, None))"
  by auto
termination by (relation "measure (\<lambda>(data, cursor). unat (used data) - cursor)") auto

declare next_row.simps [simp del]

definition js_CollectionNext ::
  "JSCollectionData \<Rightarrow> u32 \<Rightarrow> (u32 \<times> (jsval \<times> jsval) option) option" where
  "js_CollectionNext data cursor =
     (if length (rows data) < unat (used data) then None
      else Some (case next_row data (unat cursor) of (c, r) \<Rightarrow> (word_of_nat c, r)))"

subsection \<open>Garbage collection\<close>

text \<open>The things \<open>GC_MARK\<close> is called on, in order.\<close>

definition marks_of :: "jsval \<Rightarrow> jsval list" where
  "marks_of v = (if JSVAL_IS_GCTHING v \<and> \<not> JSVAL_IS_NULL v then [v] else [])"

definition js_MarkCollectionData :: "JSCollectionData option \<Rightarrow> jsval list" where
  "js_MarkCollectionData data =
     (case data of None \<Rightarrow> []
      | Some data \<Rightarrow>
          concat (map (\<lambda>i. let row = rows data ! i
            in if \<not> live row then [] else marks_of (rkey row) @ marks_of (rvalue row))
            [0..<unat (used data)]))"

text \<open>
  The marking pass over a weak table.  The collector is a parameter: \<open>marked g v\<close> reads the mark bit
  of a thing in the collector state \<open>g\<close>, \<open>gc_mark v (g, data)\<close> is \<open>GC_MARK\<close>, whose hooks may change
  the collection.  The loop reads \<open>data->used\<close> anew at every turn.
\<close>

partial_function (option) weak_loop ::
  "('g \<Rightarrow> jsval \<Rightarrow> bool) \<Rightarrow> (jsval \<Rightarrow> 'g \<times> JSCollectionData \<Rightarrow> 'g \<times> JSCollectionData) \<Rightarrow> nat \<Rightarrow> 'g
    \<Rightarrow> JSCollectionData \<Rightarrow> bool \<Rightarrow> ('g \<times> JSCollectionData \<times> bool) option" where
  "weak_loop marked gc_mark i g data changed =
     (if unat (used data) \<le> i then Some (g, data, changed)
      else if length (rows data) \<le> i then None
      else
        let row = rows data ! i
        in if \<not> live row then weak_loop marked gc_mark (i + 1) g data changed
           else if marked g (rkey row) \<and> JSVAL_IS_GCTHING (rvalue row) \<and>
             \<not> JSVAL_IS_NULL (rvalue row) \<and> \<not> marked g (rvalue row)
           then
             (case gc_mark (rvalue row) (g, data) of
                (g, data) \<Rightarrow> weak_loop marked gc_mark (i + 1) g data True)
           else weak_loop marked gc_mark (i + 1) g data changed)"

definition js_MarkWeakCollectionValues ::
  "('g \<Rightarrow> jsval \<Rightarrow> bool) \<Rightarrow> (jsval \<Rightarrow> 'g \<times> JSCollectionData \<Rightarrow> 'g \<times> JSCollectionData) \<Rightarrow> 'g
    \<Rightarrow> JSCollectionData \<Rightarrow> ('g \<times> JSCollectionData \<times> bool) option" where
  "js_MarkWeakCollectionValues marked gc_mark g data =
     map_option (\<lambda>(g, data, changed). (g, data\<lparr>active := 0\<rparr>, changed))
       (weak_loop marked gc_mark 0 g (data\<lparr>active := 1\<rparr>) False)"

text \<open>\<open>data->used\<close> does not change while the sweep suppresses compaction.\<close>

fun sweep_loop :: "(jsval \<Rightarrow> bool) \<Rightarrow> nat list \<Rightarrow> JSCollectionData \<Rightarrow> JSCollectionData option" where
  "sweep_loop marked [] data = Some data"
| "sweep_loop marked (i # is) data =
     (if unat (used data) \<le> i then Some data
      else if length (rows data) \<le> i then None
      else if \<not> live (rows data ! i) \<or> marked (rkey (rows data ! i)) then sweep_loop marked is data
      else case js_CollectionDelete data (rkey (rows data ! i)) of
             None \<Rightarrow> None
           | Some (data, _) \<Rightarrow> sweep_loop marked is data)"

definition js_SweepWeakCollectionKeys :: "(jsval \<Rightarrow> bool) \<Rightarrow> JSCollectionData \<Rightarrow> JSCollectionData option" where
  "js_SweepWeakCollectionKeys marked data =
     (case sweep_loop marked [0..<unat (used data)] (data\<lparr>active := 1\<rparr>) of
        None \<Rightarrow> None
      | Some data \<Rightarrow> Compact (data\<lparr>active := 0\<rparr>))"

end
