(* ===== verification/Collection_Correct.thy ===== *)
theory Collection_Correct
  imports Collection
begin

text \<open>
  Correctness of the ordered storage: the invariant \<open>coll_ok\<close> that ties the index to the rows, the
  ordered list \<open>entries\<close> of live key-value pairs, and what every operation does to that list.  The
  storage is a client of the double-hashing table: its hooks are shown to obey \<open>dhash_keys\<close> and the
  table's lemmas are used through that interpretation.
\<close>

subsection \<open>Keys up to SameValueZero\<close>

definition norm_double :: "u64 \<Rightarrow> u64" where
  "norm_double d = (if JSDOUBLE_IS_NaN d then 0x7FF8000000000000 else if dbl_is_zero d then 0 else d)"

fun canon_key :: "jsval \<Rightarrow> jsval" where
  "canon_key (JInt i) = JDouble (norm_double (int_to_double i))"
| "canon_key (JDouble d) = JDouble (norm_double d)"
| "canon_key v = v"

lemma nan_consts: "JSDOUBLE_IS_NaN 0x7FF8000000000000" "\<not> JSDOUBLE_IS_NaN 0" "\<not> JSDOUBLE_IS_NaN 0x8000000000000000"
  by code_simp+

lemma zero_not_nan: "dbl_is_zero d \<Longrightarrow> \<not> JSDOUBLE_IS_NaN d"
  using nan_consts by (auto simp: dbl_is_zero_def)

lemma norm_double_eq:
  "norm_double x = norm_double y \<longleftrightarrow> dbl_eq x y \<or> (JSDOUBLE_IS_NaN x \<and> JSDOUBLE_IS_NaN y)"
  using nan_consts zero_not_nan [of x] zero_not_nan [of y]
  by (auto simp: norm_double_def dbl_eq_def dbl_is_zero_def)

lemma canon_number: "JSVAL_IS_NUMBER v \<Longrightarrow> canon_key v = JDouble (norm_double (number_bits v))"
  by (cases v) auto

lemma SameValueZero_canon: "SameValueZero a b \<longleftrightarrow> canon_key a = canon_key b"
proof (cases "JSVAL_IS_NUMBER a \<and> JSVAL_IS_NUMBER b")
  case True
  then show ?thesis by (simp add: SameValueZero_def canon_number norm_double_eq)
next
  case False
  then show ?thesis by (cases a; cases b) (auto simp: SameValueZero_def)
qed

lemma hash_number: "JSVAL_IS_NUMBER v \<Longrightarrow> CollectionHash v =
    (let d = number_bits v in if dbl_is_zero d then 0x90123456
     else if JSDOUBLE_IS_NaN d then 0x90765432 else JSDOUBLE_LO32 d XOR JSDOUBLE_HI32 d XOR 0x90000000)"
  by (cases v) auto

lemma hash_canon_key:
  assumes "canon_key a = canon_key b"
  shows "CollectionHash a = CollectionHash b"
proof (cases "JSVAL_IS_NUMBER a \<and> JSVAL_IS_NUMBER b")
  case True
  then have "norm_double (number_bits a) = norm_double (number_bits b)"
    using assms by (simp add: canon_number)
  then have "dbl_eq (number_bits a) (number_bits b) \<or> JSDOUBLE_IS_NaN (number_bits a) \<and> JSDOUBLE_IS_NaN (number_bits b)"
    by (simp only: norm_double_eq)
  then show ?thesis
    using True zero_not_nan by (auto simp: hash_number dbl_eq_def Let_def)
next
  case False
  then show ?thesis using assms by (cases a; cases b) auto
qed

interpretation coll: dhash_keys collectionOps canon_key
proof
  show "hashKey collectionOps k = hashKey collectionOps k'" if "canon_key k = canon_key k'" for k k'
    using hash_canon_key [OF that] by (simp add: collectionOps_def)
qed (simp_all add: collectionOps_def SameValueZero_canon)

lemma getKey_coll [simp]: "getKey collectionOps = ikey" "initEntry collectionOps = None"
  by (simp_all add: collectionOps_def)

lemma canon_normalize [simp]: "canon_key (normalize_zero k) = canon_key k"
proof (cases "JSVAL_IS_NUMBER k \<and> dbl_is_zero (number_bits k)")
  case True
  moreover have "int_to_double 0 = 0" by (simp add: int_to_double_def)
  ultimately show ?thesis
    using zero_not_nan [of "number_bits k"] nan_consts
    by (simp add: normalize_zero_def canon_number JSVAL_ZERO_def norm_double_def dbl_is_zero_def)
next
  case False
  then show ?thesis by (auto simp: normalize_zero_def)
qed

subsection \<open>The invariant and the ordered entries\<close>

definition index_of :: "JSCollectionData \<Rightarrow> nat \<Rightarrow> CollectionIndex" where
  "index_of d i = \<lparr>ikey = rkey (rows d ! i), rowPlusOne = word_of_nat (i + 1)\<rparr>"

text \<open>Compaction in progress: the rows below \<open>t\<close> are done, those from \<open>s\<close> on are still to do.\<close>

definition indexed :: "JSCollectionData \<Rightarrow> nat \<Rightarrow> nat \<Rightarrow> bool" where
  "indexed d t s \<longleftrightarrow> (\<forall>k e. table_map (index d) k = Some e \<longleftrightarrow>
     (\<exists>i. (i < t \<or> s \<le> i \<and> i < unat (used d)) \<and> live (rows d ! i) \<and>
        canon_key (rkey (rows d ! i)) = canon_key k \<and> e = index_of d i))"

definition live_rows :: "JSCollectionData \<Rightarrow> CollectionRow list" where
  "live_rows d = filter live (take (unat (used d)) (rows d))"

definition coll_ok :: "JSCollectionData \<Rightarrow> bool" where
  "coll_ok d \<longleftrightarrow> table_ok collectionOps (index d) \<and> indexed d 0 0 \<and>
     length (rows d) = unat (capacity d) \<and> unat (used d) \<le> unat (capacity d) \<and>
     unat (size_of d) = length (live_rows d)"

definition entries :: "JSCollectionData \<Rightarrow> (jsval \<times> jsval) list" where
  "entries d = map (\<lambda>r. (rkey r, rvalue r)) (live_rows d)"

text \<open>What an iteration whose cursor is \<open>c\<close> has still to deliver.\<close>

definition entries_from :: "JSCollectionData \<Rightarrow> nat \<Rightarrow> (jsval \<times> jsval) list" where
  "entries_from d c = map (\<lambda>r. (rkey r, rvalue r)) (filter live (drop c (take (unat (used d)) (rows d))))"

lemma entries_from_0: "entries_from d 0 = entries d"
  by (simp add: entries_from_def entries_def live_rows_def)

lemma coll_okD:
  assumes "coll_ok d"
  shows "table_ok collectionOps (index d)" "indexed d 0 0" "length (rows d) = unat (capacity d)"
    "unat (used d) \<le> unat (capacity d)" "unat (size_of d) = length (live_rows d)"
    "unat (used d) \<le> length (rows d)" "unat (used d) < 2 ^ 32"
  using assms unsigned_less [of "used d", where ?'a = nat] by (auto simp: coll_ok_def)

text \<open>A lookup in the index finds the row of the key, or a free entry.\<close>

lemma index_lookup_ok:
  assumes "table_ok collectionOps (index d)"
  obtains i where "index_lookup d k = Some i" "i < length (entryStore (index d))"
    "case table_map (index d) k of
       None \<Rightarrow> \<not> ENTRY_IS_BUSY d i
     | Some e \<Rightarrow> ENTRY_IS_BUSY d i \<and> ENTRY_IS_LIVE (entryStore (index d) ! i) \<and> entry_at d i = e"
  by (rule coll.Lookup_ok [OF assms, of "\<lambda>_. True" k])
    (use that in \<open>auto simp: index_lookup_def ENTRY_IS_BUSY_def entry_at_def split: option.splits dest: live_not\<close>)

lemma row_index:
  assumes "i < 2 ^ 32 - 1"
  shows "unat (word_of_nat (i + 1) - 1 :: u32) = i" "word_of_nat (i + 1) = (word_of_nat i + 1 :: u32)"
  using assms by (simp_all add: unat_of_nat_small)

lemma map_key:
  assumes "table_ok hops t" "dhash_keys hops canon" "table_map t k = Some e"
  shows "canon (getKey hops e) = canon k"
  using assms by (auto simp: table_map_def store_map_def find_Some_iff dhash_keys.match_canon table_okD(1))

subsection \<open>Compaction\<close>

lemma indexedD:
  assumes "indexed d t s" "i < t \<or> s \<le> i \<and> i < unat (used d)" "live (rows d ! i)"
    "canon_key (rkey (rows d ! i)) = canon_key k"
  shows "table_map (index d) k = Some (index_of d i)"
  using assms unfolding indexed_def by blast

lemma index_of_inj:
  assumes "index_of d i = index_of d j" "i < 2 ^ 32 - 1" "j < 2 ^ 32 - 1"
  shows "i = j"
proof -
  have "(word_of_nat (i + 1) :: u32) = word_of_nat (j + 1)" using assms(1) by (simp add: index_of_def)
  then have "unat (word_of_nat (i + 1) :: u32) = unat (word_of_nat (j + 1) :: u32)" by simp
  moreover have "unat (word_of_nat (i + 1) :: u32) = i + 1" "unat (word_of_nat (j + 1) :: u32) = j + 1"
    by (rule unat_of_nat_small, use assms(2,3) in simp)+
  ultimately show ?thesis by simp
qed

lemma indexed_inj:
  assumes "indexed d t s" "t \<le> unat (used d)"
    and i: "i < t \<or> s \<le> i \<and> i < unat (used d)" "live (rows d ! i)"
    and j: "j < t \<or> s \<le> j \<and> j < unat (used d)" "live (rows d ! j)"
    and eq: "canon_key (rkey (rows d ! i)) = canon_key (rkey (rows d ! j))"
  shows "i = j"
proof -
  have "index_of d i = index_of d j"
    using indexedD [OF assms(1) i eq] indexedD [OF assms(1) j refl] by simp
  moreover have "unat (used d) < 2 ^ 32" using unsigned_less [of "used d", where ?'a = nat] by simp
  ultimately show ?thesis using i(1) j(1) assms(2) index_of_inj by auto
qed

text \<open>One turn of the loop on a live row.\<close>

lemma compact_step:
  assumes t: "table_ok collectionOps (index d)" and ix: "indexed d t s" and ts: "t \<le> s" "s < unat (used d)"
    and len: "unat (used d) \<le> length (rows d)" and live: "live (rows d ! s)"
  defines "d1 \<equiv> d\<lparr>rows := (rows d)[t := rows d ! s]\<rparr>"
  obtains i where "index_lookup d1 (rkey (rows d ! s)) = Some i"
    "table_ok collectionOps (set_body (index d1) i ((entry_at d1 i)\<lparr>rowPlusOne := word_of_nat t + 1\<rparr>))"
    "indexed (d1\<lparr>index := set_body (index d1) i ((entry_at d1 i)\<lparr>rowPlusOne := word_of_nat t + 1\<rparr>)\<rparr>) (t + 1) (s + 1)"
proof -
  let ?key = "rkey (rows d ! s)"
  have u: "unat (used d) < 2 ^ 32" using unsigned_less [of "used d", where ?'a = nat] by simp
  have r1: "rows d1 ! i = (if i = t then rows d ! s else rows d ! i)" if "i < length (rows d)" for i
    using that by (simp add: d1_def)
  have "table_map (index d) ?key = Some (index_of d s)"
    by (rule indexedD [OF ix]) (use ts live in auto)
  then have m: "table_map (index d1) ?key = Some (index_of d s)" by (simp add: d1_def)
  have t1: "table_ok collectionOps (index d1)" using t by (simp add: d1_def)
  obtain i where i: "index_lookup d1 ?key = Some i" "i < length (entryStore (index d1))"
    "ENTRY_IS_LIVE (entryStore (index d1) ! i)" "entry_at d1 i = index_of d s"
    by (rule index_lookup_ok [OF t1, of ?key]) (use m in auto)
  let ?b = "(entry_at d1 i)\<lparr>rowPlusOne := word_of_nat t + 1\<rparr>"
  let ?d2 = "d1\<lparr>index := set_body (index d1) i ?b\<rparr>"
  have key: "canon_key (ikey ?b) = canon_key (ikey (body (entryStore (index d1) ! i)))"
    by (simp add: entry_at_def)
  note sb = coll.set_body_ok [OF t1 i(2,3), of ?b, simplified getKey_coll, OF key]
  have kb: "ikey ?b = ?key" by (simp add: i(4) index_of_def)
  have kb2: "ikey (body (entryStore (index d1) ! i)) = ?key"
    using i(4) by (simp add: entry_at_def index_of_def)
  have ix1: "index d1 = index d" by (simp add: d1_def)
  have b: "?b = index_of ?d2 t"
    using ts len by (simp add: i(4) index_of_def r1)
  have other: "index_of ?d2 j = index_of d j" "rows ?d2 ! j = rows d ! j" if "j \<noteq> t" "j < length (rows d)" for j
    using that r1 by (simp_all add: index_of_def)
  have "indexed ?d2 (t + 1) (s + 1)"
    unfolding indexed_def
  proof (intro allI)
    fix k e
    let ?R = "\<lambda>i. (i < t + 1 \<or> s + 1 \<le> i \<and> i < unat (used ?d2)) \<and> live (rows ?d2 ! i) \<and>
        canon_key (rkey (rows ?d2 ! i)) = canon_key k \<and> e = index_of ?d2 i"
    have tm: "table_map (index ?d2) k =
        (if canon_key k = canon_key ?key then Some ?b else table_map (index d) k)"
      using sb(2) [of k] kb2 ix1 by simp
    have used: "used ?d2 = used d" by (simp add: d1_def)
    have Rt: "?R t \<longleftrightarrow> canon_key k = canon_key ?key \<and> e = ?b"
      using ts len live b r1 [of t] by auto
    have Rj: "?R j \<longleftrightarrow> j \<noteq> s \<and> (j < t \<or> s \<le> j \<and> j < unat (used d)) \<and> live (rows d ! j) \<and>
        canon_key (rkey (rows d ! j)) = canon_key k \<and> e = index_of d j" if "j \<noteq> t" for j
    proof (cases "j < length (rows d)")
      case True
      then show ?thesis using other [OF that True] that ts used by auto
    next
      case False
      then show ?thesis using ts len used by auto
    qed
    have old: "table_map (index d) k = Some e \<longleftrightarrow> (\<exists>j. (j < t \<or> s \<le> j \<and> j < unat (used d)) \<and> live (rows d ! j) \<and>
        canon_key (rkey (rows d ! j)) = canon_key k \<and> e = index_of d j)"
      using ix unfolding indexed_def by blast
    have uniq: "j = s" if "j < t \<or> s \<le> j \<and> j < unat (used d)" "live (rows d ! j)"
      "canon_key (rkey (rows d ! j)) = canon_key ?key" for j
      by (rule indexed_inj [OF ix _ that(1,2) _ live that(3)]) (use ts in auto)
    show "table_map (index ?d2) k = Some e \<longleftrightarrow> (\<exists>i. ?R i)"
    proof (cases "canon_key k = canon_key ?key")
      case True
      have "(\<exists>i. ?R i) \<longleftrightarrow> e = ?b"
      proof
        assume "\<exists>i. ?R i"
        then obtain j where j: "?R j" by blast
        show "e = ?b"
        proof (cases "j = t")
          case False
          then show ?thesis using Rj [OF False] j uniq [of j] True by auto
        qed (use j Rt in blast)
      qed (use True Rt in blast)
      then show ?thesis using tm True by auto
    next
      case False
      have "(\<exists>i. ?R i) \<longleftrightarrow> (\<exists>j. (j < t \<or> s \<le> j \<and> j < unat (used d)) \<and> live (rows d ! j) \<and>
        canon_key (rkey (rows d ! j)) = canon_key k \<and> e = index_of d j)" (is "_ \<longleftrightarrow> (\<exists>j. ?O j)")
      proof
        assume "\<exists>i. ?R i"
        then obtain j where j: "?R j" by blast
        then have "j \<noteq> t" using Rt False by blast
        then show "\<exists>j. ?O j" using Rj j by blast
      next
        assume "\<exists>j. ?O j"
        then obtain j where j: "?O j" by blast
        then have "j \<noteq> s" using False by auto
        moreover have "j \<noteq> t" using j ts \<open>j \<noteq> s\<close> by auto
        ultimately show "\<exists>i. ?R i" using Rj [of j] j by blast
      qed
      then show ?thesis using tm False old by simp
    qed
  qed
  then show ?thesis by (rule that [OF i(1) sb(1)])
qed

lemma compact_loop_ok:
  assumes "table_ok collectionOps (index d)" "indexed d t s" "t \<le> s" "s \<le> unat (used d)"
    "unat (used d) \<le> length (rows d)"
  shows "\<exists>d' t'. compact_loop [s..<unat (used d)] d t = Some (d', t') \<and>
    table_ok collectionOps (index d') \<and> indexed d' t' (unat (used d)) \<and> t' \<le> unat (used d) \<and>
    take t' (rows d') = take t (rows d) @ filter live (drop s (take (unat (used d)) (rows d))) \<and>
    length (rows d') = length (rows d) \<and> used d' = used d \<and> size_of d' = size_of d \<and>
    capacity d' = capacity d \<and> active d' = active d \<and> references d' = references d"
  using assms
proof (induction "unat (used d) - s" arbitrary: d t s)
  case 0
  then show ?case by simp
next
  case (Suc m)
  let ?u = "unat (used d)"
  have s: "s < ?u" using Suc.hyps(2) by simp
  have upt: "[s..<?u] = s # [Suc s..<?u]" using s by (simp add: upt_conv_Cons)
  have drop: "drop s (take ?u (rows d)) = rows d ! s # drop (Suc s) (take ?u (rows d))"
    using s Suc.prems(5) by (subst Cons_nth_drop_Suc [symmetric]) auto
  show ?case
  proof (cases "live (rows d ! s)")
    case False
    have "indexed d t (Suc s)"
      using Suc.prems(2) False unfolding indexed_def by (metis Suc_leD le_eq_less_or_eq Suc_leI)
    then show ?thesis
      using Suc.hyps(1) [of d "Suc s" t] Suc.hyps(2) Suc.prems False s by (simp add: upt drop)
  next
    case live: True
    define d1 where "d1 = d\<lparr>rows := (rows d)[t := rows d ! s]\<rparr>"
    have d1: "(if s \<noteq> t then d\<lparr>rows := (rows d)[t := rows d ! s]\<rparr> else d) = d1" by (auto simp: d1_def)
    obtain i where i: "index_lookup d1 (rkey (rows d ! s)) = Some i"
      "table_ok collectionOps (set_body (index d1) i ((entry_at d1 i)\<lparr>rowPlusOne := word_of_nat t + 1\<rparr>))"
      "indexed (d1\<lparr>index := set_body (index d1) i ((entry_at d1 i)\<lparr>rowPlusOne := word_of_nat t + 1\<rparr>)\<rparr>) (t + 1) (s + 1)"
      using compact_step [OF Suc.prems(1,2,3) s Suc.prems(5) live] unfolding d1_def by metis
    define d2 where "d2 = d1\<lparr>index := set_body (index d1) i ((entry_at d1 i)\<lparr>rowPlusOne := word_of_nat t + 1\<rparr>)\<rparr>"
    have t: "t < length (rows d)" using Suc.prems(3,5) s by linarith
    have r: "rkey (rows d1 ! t) = rkey (rows d ! s)" using t by (simp add: d1_def)
    have step: "compact_loop [s..<?u] d t = compact_loop [Suc s..<?u] d2 (t + 1)"
      using live i(1) r by (simp add: upt d1 d2_def)
    have d2: "used d2 = used d" "size_of d2 = size_of d" "capacity d2 = capacity d" "active d2 = active d"
      "references d2 = references d" "rows d2 = (rows d)[t := rows d ! s]" by (simp_all add: d2_def d1_def)
    have tk: "take (t + 1) (rows d2) = take t (rows d) @ [rows d ! s]"
      using t by (simp add: d2(6) take_Suc_conv_app_nth)
    have dr: "drop (Suc s) (take ?u (rows d2)) = drop (Suc s) (take ?u (rows d))"
      using Suc.prems(3) by (simp add: d2(6) take_update_swap)
    have m: "m = unat (used d2) - Suc s" using Suc.hyps(2) by (simp add: d2)
    have IH: "\<exists>d' t'. compact_loop [Suc s..<?u] d2 (t + 1) = Some (d', t') \<and>
      table_ok collectionOps (index d') \<and> indexed d' t' ?u \<and> t' \<le> ?u \<and>
      take t' (rows d') = take (t + 1) (rows d2) @ filter live (drop (Suc s) (take ?u (rows d2))) \<and>
      length (rows d') = length (rows d2) \<and> used d' = used d2 \<and> size_of d' = size_of d2 \<and>
      capacity d' = capacity d2 \<and> active d' = active d2 \<and> references d' = references d2"
      using Suc.hyps(1) [OF m] i(2,3) Suc.prems(3,5) s by (simp add: d2 flip: d2_def) (simp add: d2_def)
    then show ?thesis unfolding step tk dr by (auto simp: drop live d2)
  qed
qed

lemma Compact_ok:
  assumes ok: "coll_ok d"
  obtains d' where "Compact d = Some d'" "coll_ok d'" "entries d' = entries d" "live_rows d' = live_rows d"
    "size_of d' = size_of d" "capacity d' = capacity d" "active d' = active d" "references d' = references d"
    "active d \<noteq> 0 \<Longrightarrow> d' = d"
proof (cases "active d \<noteq> 0 \<or> used d \<le> 64 \<or> used d div 2 \<le> size_of d")
  case True
  then show ?thesis by (intro that [of d]) (use ok in \<open>auto simp: Compact_def\<close>)
next
  case False
  note k = coll_okD [OF ok]
  let ?u = "unat (used d)"
  obtain d1 t where d1: "compact_loop [0..<?u] d 0 = Some (d1, t)" "table_ok collectionOps (index d1)"
    "indexed d1 t ?u" "t \<le> ?u" "take t (rows d1) = live_rows d" "length (rows d1) = length (rows d)"
    "used d1 = used d" "size_of d1 = size_of d" "capacity d1 = capacity d" "active d1 = active d"
    "references d1 = references d"
    using compact_loop_ok [OF k(1,2) le0 _ k(6)] by (auto simp: live_rows_def)
  let ?d = "d1\<lparr>used := word_of_nat t\<rparr>"
  have ut: "unat (word_of_nat t :: u32) = t" using d1(4) k(7) by (intro unat_of_nat_small) simp
  have run: "Compact d = Some ?d" using False d1(1) k(6) by (simp add: Compact_def)
  have rows: "live_rows ?d = live_rows d"
    using d1(5) ut by (simp add: live_rows_def)
  have ix: "indexed ?d 0 0"
    using d1(3,7) ut unfolding indexed_def by (simp add: index_of_def) auto
  have "coll_ok ?d"
    using d1 k ut ix rows by (simp add: coll_ok_def)
  then show ?thesis
    by (intro that [OF run]) (use False d1 rows in \<open>auto simp: entries_def\<close>)
qed

subsection \<open>Keys and rows\<close>

lemma row_of_key:
  assumes ok: "coll_ok d"
  shows "table_map (index d) k = Some e \<longleftrightarrow>
    (\<exists>i. i < unat (used d) \<and> live (rows d ! i) \<and> canon_key (rkey (rows d ! i)) = canon_key k \<and> e = index_of d i)"
  using coll_okD(2) [OF ok] unfolding indexed_def by simp

lemma row_unique:
  assumes ok: "coll_ok d" and "i < unat (used d)" "live (rows d ! i)" "j < unat (used d)" "live (rows d ! j)"
    "canon_key (rkey (rows d ! i)) = canon_key (rkey (rows d ! j))"
  shows "i = j"
  using indexed_inj [OF coll_okD(2) [OF ok]] assms by auto

lemma live_rows_iff:
  "unat (used d) \<le> length (rows d) \<Longrightarrow>
    r \<in> set (live_rows d) \<longleftrightarrow> (\<exists>i<unat (used d). live (rows d ! i) \<and> r = rows d ! i)"
  by (auto simp: live_rows_def in_set_conv_nth)

lemma no_row:
  assumes ok: "coll_ok d"
  shows "table_map (index d) k = None \<longleftrightarrow> (\<forall>r \<in> set (live_rows d). canon_key (rkey r) \<noteq> canon_key k)"
proof -
  have "table_map (index d) k = None \<longleftrightarrow>
      \<not> (\<exists>i<unat (used d). live (rows d ! i) \<and> canon_key (rkey (rows d ! i)) = canon_key k)"
    using row_of_key [OF ok, of k] by (cases "table_map (index d) k") auto
  then show ?thesis by (auto simp: Ball_def live_rows_iff [OF coll_okD(6) [OF ok]])
qed

lemma find_unique:
  assumes "x \<in> set xs" "P x" and u: "\<And>y. \<lbrakk>y \<in> set xs; P y\<rbrakk> \<Longrightarrow> y = x"
  shows "find P xs = Some x"
proof (cases "find P xs")
  case None
  then show ?thesis using assms(1,2) by (simp add: find_None_iff)
next
  case (Some y)
  then have "y \<in> set xs" "P y" by (auto simp: find_Some_iff)
  then show ?thesis using u Some by blast
qed

text \<open>The lookup that every operation starts with.\<close>

lemma lookup_row:
  assumes ok: "coll_ok d"
  obtains (absent) p where "index_lookup d k = Some p" "\<not> ENTRY_IS_BUSY d p" "table_map (index d) k = None"
    "\<forall>r \<in> set (live_rows d). canon_key (rkey r) \<noteq> canon_key k"
  | (present) p i where "index_lookup d k = Some p" "ENTRY_IS_BUSY d p" "p < length (entryStore (index d))"
    "ENTRY_IS_LIVE (entryStore (index d) ! p)" "entry_at d p = index_of d i"
    "i < unat (used d)" "i < length (rows d)" "live (rows d ! i)" "canon_key (rkey (rows d ! i)) = canon_key k"
    "unat (rowPlusOne (entry_at d p) - 1) = i"
proof -
  obtain p where p: "index_lookup d k = Some p" "p < length (entryStore (index d))"
    "case table_map (index d) k of
       None \<Rightarrow> \<not> ENTRY_IS_BUSY d p
     | Some e \<Rightarrow> ENTRY_IS_BUSY d p \<and> ENTRY_IS_LIVE (entryStore (index d) ! p) \<and> entry_at d p = e"
    by (rule index_lookup_ok [OF coll_okD(1) [OF ok], of k])
  show ?thesis
  proof (cases "table_map (index d) k")
    case None
    then show ?thesis using p absent no_row [OF ok, of k] by auto
  next
    case (Some e)
    then obtain i where i: "i < unat (used d)" "live (rows d ! i)" "canon_key (rkey (rows d ! i)) = canon_key k"
      "e = index_of d i" using row_of_key [OF ok] by blast
    have "unat (rowPlusOne (index_of d i) - 1) = i"
      using i(1) coll_okD(7) [OF ok] row_index(1) [of i] by (simp add: index_of_def)
    then show ?thesis using present p Some i coll_okD(6) [OF ok] by auto
  qed
qed

definition spec_get :: "(jsval \<times> jsval) list \<Rightarrow> jsval \<Rightarrow> jsval option" where
  "spec_get es k = map_option snd (find (\<lambda>p. canon_key (fst p) = canon_key k) es)"

definition spec_put :: "(jsval \<times> jsval) list \<Rightarrow> jsval \<Rightarrow> jsval \<Rightarrow> (jsval \<times> jsval) list" where
  "spec_put es k v =
     (if \<exists>p\<in>set es. canon_key (fst p) = canon_key k
      then map (\<lambda>p. if canon_key (fst p) = canon_key k then (fst p, v) else p) es
      else es @ [(normalize_zero k, v)])"

definition spec_delete :: "(jsval \<times> jsval) list \<Rightarrow> jsval \<Rightarrow> (jsval \<times> jsval) list" where
  "spec_delete es k = filter (\<lambda>p. canon_key (fst p) \<noteq> canon_key k) es"

lemma Get_ok:
  assumes ok: "coll_ok d"
  shows "js_CollectionGet d k = Some (spec_get (entries d) k)"
proof (cases rule: lookup_row [OF ok, of k, case_names absent present])
  case (absent p)
  then have "find (\<lambda>p. canon_key (fst p) = canon_key k) (entries d) = None"
    by (auto simp: find_None_iff entries_def)
  then show ?thesis using absent by (simp add: js_CollectionGet_def spec_get_def)
next
  case (present p i)
  have "find (\<lambda>p. canon_key (fst p) = canon_key k) (entries d) = Some (rkey (rows d ! i), rvalue (rows d ! i))"
  proof (rule find_unique)
    show "(rkey (rows d ! i), rvalue (rows d ! i)) \<in> set (entries d)"
      using present live_rows_iff [OF coll_okD(6) [OF ok]] by (auto simp: entries_def)
  next
    fix y assume "y \<in> set (entries d)" "canon_key (fst y) = canon_key k"
    then obtain j where "j < unat (used d)" "live (rows d ! j)" "y = (rkey (rows d ! j), rvalue (rows d ! j))"
      "canon_key (rkey (rows d ! j)) = canon_key k"
      using live_rows_iff [OF coll_okD(6) [OF ok]] by (auto simp: entries_def)
    then show "y = (rkey (rows d ! i), rvalue (rows d ! i))"
      using row_unique [OF ok, of j i] present by simp
  qed (use present in simp)
  then show ?thesis using present by (simp add: js_CollectionGet_def spec_get_def not_le)
qed

subsection \<open>Changing rows\<close>

text \<open>Changing the value of row \<open>i\<close>, or killing it, as a map over the used rows.\<close>

lemma rows_update:
  assumes ok: "coll_ok d" and i: "i < unat (used d)" "live (rows d ! i)" "canon_key (rkey (rows d ! i)) = canon_key k"
  shows "take (unat (used d)) ((rows d)[i := f (rows d ! i)]) =
    map (\<lambda>r. if live r \<and> canon_key (rkey r) = canon_key k then f r else r) (take (unat (used d)) (rows d))"
proof (rule nth_equalityI)
  fix j assume "j < length (take (unat (used d)) ((rows d)[i := f (rows d ! i)]))"
  then have j: "j < unat (used d)" "j < length (rows d)" by simp_all
  show "take (unat (used d)) ((rows d)[i := f (rows d ! i)]) ! j =
    map (\<lambda>r. if live r \<and> canon_key (rkey r) = canon_key k then f r else r) (take (unat (used d)) (rows d)) ! j"
  proof (cases "j = i")
    case True
    then show ?thesis using i j by simp
  next
    case False
    then have "\<not> (live (rows d ! j) \<and> canon_key (rkey (rows d ! j)) = canon_key k)"
      using row_unique [OF ok i(1,2) j(1)] i(3) by auto
    then show ?thesis using False j by auto
  qed
qed simp

lemma indexed_cong:
  assumes "indexed d 0 0" "index d' = index d" "used d' = used d"
    and "\<And>i. i < unat (used d) \<Longrightarrow> live (rows d' ! i) = live (rows d ! i)"
    and "\<And>i. \<lbrakk>i < unat (used d); live (rows d ! i)\<rbrakk> \<Longrightarrow> rkey (rows d' ! i) = rkey (rows d ! i)"
  shows "indexed d' 0 0"
proof -
  have eq: "index_of d' i = index_of d i" if "i < unat (used d)" "live (rows d ! i)" for i
    using assms(5) [OF that] by (simp add: index_of_def)
  show ?thesis
    using assms(1-3) unfolding indexed_def by (simp add: assms(4,5) eq cong: conj_cong)
qed

lemma filter_map_live: "(\<And>r. live (f r) = live r) \<Longrightarrow> filter live (map f xs) = map f (filter live xs)"
  by (induction xs) auto

lemma filter_map_kill:
  "filter live (map (\<lambda>r. if live r \<and> P r then tombstone r else r) xs) = filter (\<lambda>r. \<not> P r) (filter live xs)"
  by (induction xs) (auto simp: tombstone_def)

text \<open>Writing the value of a key that is present.\<close>

lemma write_value_ok:
  fixes v :: jsval
  assumes ok: "coll_ok d" and i: "i < unat (used d)" "live (rows d ! i)" "canon_key (rkey (rows d ! i)) = canon_key k"
  defines "d' \<equiv> d\<lparr>rows := (rows d)[i := (rows d ! i)\<lparr>rvalue := v\<rparr>]\<rparr>"
  shows "coll_ok d'" "entries d' = spec_put (entries d) k v"
    "entries_from d' n = map (\<lambda>p. if canon_key (fst p) = canon_key k then (fst p, v) else p) (entries_from d n)"
proof -
  note c = coll_okD [OF ok]
  let ?f = "\<lambda>r. if live r \<and> canon_key (rkey r) = canon_key k then r\<lparr>rvalue := v\<rparr> else r"
  have lr: "live_rows d' = map ?f (live_rows d)"
    using rows_update [OF ok i, of "\<lambda>r. r\<lparr>rvalue := v\<rparr>"] filter_map_live [of ?f "take (unat (used d)) (rows d)"]
    by (simp add: live_rows_def d'_def)
  have nth: "rows d' ! j = (if j = i then (rows d ! i)\<lparr>rvalue := v\<rparr> else rows d ! j)" if "j < unat (used d)" for j
    using that c(6) by (simp add: d'_def)
  have "indexed d' 0 0"
    by (rule indexed_cong [OF c(2)]) (auto simp: nth, auto simp: d'_def)
  then show "coll_ok d'" using c lr by (simp add: coll_ok_def) (simp add: d'_def)
  have ex: "\<exists>p\<in>set (entries d). canon_key (fst p) = canon_key k"
    using i c(6) by (auto simp: entries_def live_rows_iff intro!: bexI [of _ "rows d ! i"])
  have "\<And>r. r \<in> set (live_rows d) \<Longrightarrow> live r" by (auto simp: live_rows_def)
  then show "entries d' = spec_put (entries d) k v"
    using ex by (auto simp: spec_put_def entries_def lr)
  have "filter live (drop n (take (unat (used d')) (rows d'))) = map ?f (filter live (drop n (take (unat (used d)) (rows d))))"
    using rows_update [OF ok i, of "\<lambda>r. r\<lparr>rvalue := v\<rparr>"]
      filter_map_live [of ?f "drop n (take (unat (used d)) (rows d))"]
    by (simp add: d'_def drop_map)
  then show "entries_from d' n = map (\<lambda>p. if canon_key (fst p) = canon_key k then (fst p, v) else p) (entries_from d n)"
    by (auto simp: entries_from_def)
qed

text \<open>Making room for one more row.\<close>

lemma grow_rows_ok:
  assumes ok: "coll_ok d" and g: "grow_rows ralloc d = Some d'"
  shows "coll_ok d'" "entries d' = entries d" "live_rows d' = live_rows d" "index d' = index d" "used d' = used d"
    "size_of d' = size_of d" "unat (used d) < unat (capacity d')" "active d' = active d"
    "references d' = references d" "entries_from d' n = entries_from d n"
proof -
  note c = coll_okD [OF ok]
  have "coll_ok d' \<and> live_rows d' = live_rows d \<and> index d' = index d \<and> used d' = used d \<and>
    size_of d' = size_of d \<and> unat (used d) < unat (capacity d') \<and> active d' = active d \<and>
    references d' = references d \<and> take (unat (used d)) (rows d') = take (unat (used d)) (rows d)"
  proof (cases "used d = capacity d")
    case False
    then have "unat (used d) < unat (capacity d)" using c(4) by (simp add: word_ne_nat_iff)
    then show ?thesis using False g ok by (auto simp: grow_rows_def)
  next
    case True
    let ?cap = "if capacity d \<noteq> 0 then capacity d * 2 else 16"
    let ?rows = "rows d @ replicate (unat ?cap - length (rows d)) unwritten"
    have d': "d' = d\<lparr>rows := ?rows, capacity := ?cap\<rparr>" and small: "capacity d \<le> (- 1) div 2"
      using g True by (auto simp: grow_rows_def Let_def not_less split: if_splits)
    have "((- 1) div 2 :: u32) = 0x7FFFFFFF" by (simp add: word_eq_nat_iff unat_div)
    then have "unat ((- 1) div 2 :: u32) = 2 ^ 31 - 1" by simp
    then have le: "unat (capacity d) \<le> 2 ^ 31 - 1" using small by (simp add: word_le_nat_alt)
    have cap: "unat ?cap = (if capacity d \<noteq> 0 then unat (capacity d) * 2 else 16)"
      using le by (simp add: unat_mult_small)
    have gt: "unat (capacity d) < unat ?cap"
      using cap by (auto simp: word_ne_nat_iff)
    have nth: "?rows ! i = rows d ! i" if "i < unat (used d)" for i
      using that c(6) by (simp add: nth_append)
    have "indexed d' 0 0"
      by (rule indexed_cong [OF c(2)]) (use nth in \<open>auto simp: d'\<close>)
    moreover have lr: "live_rows d' = live_rows d" using c(6) by (simp add: live_rows_def d')
    ultimately show ?thesis using c gt True by (simp add: coll_ok_def d')
  qed
  then show "coll_ok d'" "entries d' = entries d" "live_rows d' = live_rows d" "index d' = index d" "used d' = used d"
    "size_of d' = size_of d" "unat (used d) < unat (capacity d')" "active d' = active d"
    "references d' = references d" "entries_from d' n = entries_from d n"
    by (simp_all add: entries_def entries_from_def)
qed

text \<open>Appending a row for a key that is absent.\<close>

lemma append_row_ok:
  fixes v :: jsval
  assumes ok: "coll_ok d" and room: "unat (used d) < unat (capacity d)"
    and absent: "\<forall>r \<in> set (live_rows d). canon_key (rkey r) \<noteq> canon_key k"
    and t: "table_ok collectionOps t"
    and map: "table_map t = (\<lambda>k'. if canon_key k' = canon_key k then Some \<lparr>ikey = k, rowPlusOne = used d + 1\<rparr>
      else table_map (index d) k')"
  defines "d' \<equiv> d\<lparr>index := t, rows := (rows d)[unat (used d) := \<lparr>rkey = k, rvalue = v, live = True\<rparr>],
      used := used d + 1, size_of := size_of d + 1\<rparr>"
  shows "coll_ok d'" "entries d' = entries d @ [(k, v)]"
    "n \<le> unat (used d) \<Longrightarrow> entries_from d' n = entries_from d n @ [(k, v)]"
proof -
  note c = coll_okD [OF ok]
  let ?u = "unat (used d)" let ?row = "\<lparr>rkey = k, rvalue = v, live = True\<rparr>"
  have cap: "unat (capacity d) < 2 ^ 32" using unsigned_less [of "capacity d", where ?'a = nat] by simp
  have u: "unat (used d + 1) = ?u + 1" using room cap by (intro unat_inc) simp
  have len: "?u < length (rows d)" using room c(3) by simp
  have lr: "live_rows d' = live_rows d @ [?row]"
    using len by (simp add: live_rows_def d'_def u take_Suc_conv_app_nth)
  have "length (live_rows d) \<le> ?u"
    using length_filter_le [of live "take ?u (rows d)"] c(6) by (simp add: live_rows_def)
  then have sz: "unat (size_of d + 1) = length (live_rows d) + 1"
    using c(5) room cap by (subst unat_inc) auto
  have nth: "rows d' ! i = (if i = ?u then ?row else rows d ! i)" if "i \<le> ?u" for i
    using that len by (simp add: d'_def)
  have ix: "index_of d' i = (if i = ?u then \<lparr>ikey = k, rowPlusOne = used d + 1\<rparr> else index_of d i)" if "i \<le> ?u" for i
    using that nth by (auto simp: index_of_def)
  have "indexed d' 0 0"
    unfolding indexed_def
  proof (intro allI)
    fix k' e
    let ?R = "\<lambda>i. (i < 0 \<or> 0 \<le> i \<and> i < unat (used d')) \<and> live (rows d' ! i) \<and>
      canon_key (rkey (rows d' ! i)) = canon_key k' \<and> e = index_of d' i"
    have used: "unat (used d') = ?u + 1" by (simp add: d'_def u)
    have R: "?R i \<longleftrightarrow> i = ?u \<and> canon_key k = canon_key k' \<and> e = \<lparr>ikey = k, rowPlusOne = used d + 1\<rparr> \<or>
        i < ?u \<and> live (rows d ! i) \<and> canon_key (rkey (rows d ! i)) = canon_key k' \<and> e = index_of d i" for i
      by (cases "i = ?u"; cases "i < ?u") (auto simp: used nth ix)
    have old: "table_map (index d) k' = Some e \<longleftrightarrow>
        (\<exists>i<?u. live (rows d ! i) \<and> canon_key (rkey (rows d ! i)) = canon_key k' \<and> e = index_of d i)"
      using row_of_key [OF ok, of k' e] by blast
    have none: "table_map (index d) k' \<noteq> Some e" if "canon_key k' = canon_key k"
      using no_row [OF ok, of k] absent that old row_of_key [OF ok] by (metis not_None_eq)
    have "table_map (index d') k' = Some e \<longleftrightarrow>
        (if canon_key k' = canon_key k then e = \<lparr>ikey = k, rowPlusOne = used d + 1\<rparr>
         else table_map (index d) k' = Some e)"
      by (auto simp: d'_def map)
    also have "\<dots> \<longleftrightarrow> (\<exists>i. ?R i)"
      unfolding R using old none by auto
    finally show "table_map (index d') k' = Some e \<longleftrightarrow> (\<exists>i. ?R i)" .
  qed
  moreover have "length (rows d') = unat (capacity d')" "unat (used d') \<le> unat (capacity d')"
    using c(3) room u by (simp_all add: d'_def)
  ultimately show "coll_ok d'"
    using t sz lr by (simp add: coll_ok_def) (simp add: d'_def)
  show "entries d' = entries d @ [(k, v)]" by (simp add: entries_def lr)
  show "entries_from d' n = entries_from d n @ [(k, v)]" if "n \<le> ?u"
    using that len by (simp add: entries_from_def d'_def u take_Suc_conv_app_nth)
qed

text \<open>Killing a row.\<close>

lemma kill_row_ok:
  assumes ok: "coll_ok d" and i: "i < unat (used d)" "live (rows d ! i)" "canon_key (rkey (rows d ! i)) = canon_key k"
    and p: "p < length (entryStore (index d))" "ENTRY_IS_LIVE (entryStore (index d) ! p)" "entry_at d p = index_of d i"
  defines "d' \<equiv> d\<lparr>index := JS_DHashTableRawRemove (index d) p, rows := (rows d)[i := tombstone (rows d ! i)],
      size_of := size_of d - 1\<rparr>"
  shows "coll_ok d'" "entries d' = spec_delete (entries d) k"
proof -
  note c = coll_okD [OF ok]
  let ?u = "unat (used d)"
  have key: "canon_key (getKey collectionOps (body (entryStore (index d) ! p))) = canon_key k"
    using p(3) i(3) by (simp add: entry_at_def index_of_def)
  note rm = coll.RawRemove_ok [OF c(1) p(1,2), unfolded key]
  have lr: "live_rows d' = filter (\<lambda>r. canon_key (rkey r) \<noteq> canon_key k) (live_rows d)"
    using rows_update [OF ok i, of tombstone] filter_map_kill [of "\<lambda>r. canon_key (rkey r) = canon_key k" "take ?u (rows d)"]
    by (simp add: live_rows_def d'_def)
  have nth: "rows d' ! j = (if j = i then tombstone (rows d ! i) else rows d ! j)" if "j < ?u" for j
    using that c(6) by (simp add: d'_def)
  have used: "used d' = used d" by (simp add: d'_def)
  have R: "(j < 0 \<or> 0 \<le> j \<and> j < unat (used d')) \<and> live (rows d' ! j) \<and>
      canon_key (rkey (rows d' ! j)) = canon_key k' \<and> e = index_of d' j \<longleftrightarrow>
      j < ?u \<and> live (rows d ! j) \<and> canon_key (rkey (rows d ! j)) = canon_key k' \<and> e = index_of d j \<and>
      canon_key k' \<noteq> canon_key k" for j k' e
  proof (cases "j < ?u")
    case True
    have u: "j = i" if "live (rows d ! j)" "canon_key (rkey (rows d ! j)) = canon_key k"
      by (rule row_unique [OF ok True that(1) i(1,2)]) (simp add: that(2) i(3))
    show ?thesis
    proof (cases "j = i")
      case eq: True
      then show ?thesis using nth [OF True] i(3) by (auto simp: tombstone_def)
    next
      case False
      then have "rows d' ! j = rows d ! j" "index_of d' j = index_of d j"
        using nth [OF True] by (simp_all add: index_of_def)
      then show ?thesis using True u False by (auto simp: used)
    qed
  next
    case False
    then show ?thesis by (simp add: used)
  qed
  have "indexed d' 0 0"
    unfolding indexed_def R using rm(2) row_of_key [OF ok] by (auto simp: d'_def)
  moreover have "unat (size_of d - 1) = length (live_rows d')"
  proof -
    have "length (live_rows d') + 1 = length (live_rows d)"
      using length_filter_update [of i "take ?u (rows d)" live "tombstone (rows d ! i)"] i c(6)
      by (simp add: live_rows_def d'_def take_update_swap tombstone_def)
    then show ?thesis using c(5) by (subst unat_dec) auto
  qed
  ultimately show "coll_ok d'"
    using c rm(1) by (simp add: coll_ok_def) (simp add: d'_def)
  show "entries d' = spec_delete (entries d) k"
    by (simp add: entries_def lr spec_delete_def filter_map o_def)
qed

subsection \<open>The operations\<close>

lemma has_key_iff:
  "(\<exists>p\<in>set (entries d). canon_key (fst p) = canon_key k) \<longleftrightarrow> (\<exists>r\<in>set (live_rows d). canon_key (rkey r) = canon_key k)"
  by (auto simp: entries_def)

lemma spec_put_normal: "spec_put es (normalize_zero k) v = spec_put es k v"
proof -
  have "normalize_zero (normalize_zero k) = normalize_zero k"
    by (auto simp: normalize_zero_def JSVAL_ZERO_def)
  then show ?thesis by (simp add: spec_put_def)
qed

lemma Put_ok:
  assumes ok: "coll_ok d"
  obtains d' b where "js_CollectionPut alloc ralloc d key v = Some (d', b)" "coll_ok d'"
    "entries d' = (if b then spec_put (entries d) key v else entries d)"
    "(\<exists>p\<in>set (entries d). canon_key (fst p) = canon_key key) \<Longrightarrow> b"
    "active d' = active d" "references d' = references d"
    "\<And>n. \<lbrakk>active d \<noteq> 0; b; n \<le> unat (used d)\<rbrakk> \<Longrightarrow> entries_from d' n =
      (if \<exists>p\<in>set (entries d). canon_key (fst p) = canon_key key
       then map (\<lambda>p. if canon_key (fst p) = canon_key key then (fst p, v) else p) (entries_from d n)
       else entries_from d n @ [(normalize_zero key, v)])"
proof -
  let ?k = "normalize_zero key"
  obtain d1 where d1: "Compact d = Some d1" "coll_ok d1" "entries d1 = entries d"
    "active d1 = active d" "references d1 = references d" "active d \<noteq> 0 \<Longrightarrow> d1 = d"
    using Compact_ok [OF ok] by metis
  show ?thesis
  proof (cases rule: lookup_row [OF d1(2), of ?k, case_names absent present])
    case (present p i)
    let ?d = "d1\<lparr>rows := (rows d1)[i := (rows d1 ! i)\<lparr>rvalue := v\<rparr>]\<rparr>"
    have run: "js_CollectionPut alloc ralloc d key v = Some (?d, True)"
      using d1(1) present(1,2,7,10) by (simp add: js_CollectionPut_def Let_def)
    note w = write_value_ok [OF d1(2) present(6,8,9), where v = v]
    have "\<exists>p\<in>set (entries d1). canon_key (fst p) = canon_key key"
      unfolding has_key_iff using present coll_okD(6) [OF d1(2)]
      by (auto simp: live_rows_iff intro!: bexI [of _ "rows d1 ! i"])
    then show ?thesis by (intro that [OF run w(1)]) (use d1 w(2,3) in \<open>auto simp: spec_put_normal\<close>)
  next
    case (absent p)
    have nokey: "\<not> (\<exists>p\<in>set (entries d). canon_key (fst p) = canon_key key)"
      using absent(4) by (auto simp: d1(3) [symmetric] has_key_iff)
    show ?thesis
    proof (cases "grow_rows ralloc d1")
      case None
      then have "js_CollectionPut alloc ralloc d key v = Some (d1, False)"
        using d1(1) absent(1,2) by (simp add: js_CollectionPut_def Let_def)
      then show ?thesis by (rule that [OF _ d1(2)]) (use d1 nokey in auto)
    next
      case (Some d2)
      note g = grow_rows_ok [OF d1(2) Some]
      have none: "table_map (index d2) ?k = None" using absent(3) g(4) by simp
      show ?thesis
      proof (rule coll.Add_ok [OF coll_okD(1) [OF g(1)], of ?k alloc])
        fix t i
        assume add: "JS_DHashTableOperate alloc (index d2) ?k JS_DHASH_ADD = Some (t, Some i)"
          and a: "coll.added (index d2) ?k t i"
        let ?e = "\<lparr>ikey = ?k, rowPlusOne = used d2 + 1\<rparr>"
        have t: "table_ok collectionOps (set_body t i ?e)"
          "table_map (set_body t i ?e) = (\<lambda>k'. if canon_key k' = canon_key ?k then Some ?e else table_map (index d2) k')"
          using a none by (auto simp: coll.added_def)
        let ?d = "d2\<lparr>index := set_body t i ?e, rows := (rows d2)[unat (used d2) := \<lparr>rkey = ?k, rvalue = v, live = True\<rparr>],
          used := used d2 + 1, size_of := size_of d2 + 1\<rparr>"
        have room: "unat (used d2) < unat (capacity d2)" using g(5,7) by simp
        then have len: "unat (used d2) < length (rows d2)" using coll_okD(3) [OF g(1)] by simp
        have run: "js_CollectionPut alloc ralloc d key v = Some (?d, True)"
          using d1(1) absent(1,2) Some add len by (simp add: js_CollectionPut_def Let_def)
        have "\<forall>r\<in>set (live_rows d2). canon_key (rkey r) \<noteq> canon_key ?k" using absent(4) g(3) by simp
        note ap = append_row_ok [OF g(1) room this t, where v = v]
        have "entries ?d = spec_put (entries d) key v"
          using ap(2) g(2) d1(3) nokey by (simp add: spec_put_def)
        then show thesis by (intro that [OF run ap(1)]) (use nokey g d1 ap(3) in auto)
      next
        assume add: "JS_DHashTableOperate alloc (index d2) ?k JS_DHASH_ADD = Some (index d2, None)"
        then have "js_CollectionPut alloc ralloc d key v = Some (d2, False)"
          using d1(1) absent(1,2) Some by (simp add: js_CollectionPut_def Let_def)
        then show thesis by (rule that [OF _ g(1)]) (use nokey g d1 in auto)
      qed simp
    qed
  qed
qed

lemma Delete_ok:
  assumes ok: "coll_ok d"
  obtains d' where "js_CollectionDelete d key = Some (d', \<exists>p\<in>set (entries d). canon_key (fst p) = canon_key key)"
    "coll_ok d'" "entries d' = spec_delete (entries d) key" "active d' = active d" "references d' = references d"
    "active d \<noteq> 0 \<Longrightarrow> used d' = used d \<and> length (rows d') = length (rows d) \<and>
      (\<forall>i<unat (used d). rows d' ! i = (if live (rows d ! i) \<and> canon_key (rkey (rows d ! i)) = canon_key key
         then tombstone (rows d ! i) else rows d ! i))"
proof (cases rule: lookup_row [OF ok, of key, case_names absent present])
  case (absent p)
  then have nokey: "\<not> (\<exists>p\<in>set (entries d). canon_key (fst p) = canon_key key)" by (simp add: has_key_iff)
  then have "spec_delete (entries d) key = entries d"
    unfolding spec_delete_def by (intro filter_True) blast
  moreover have "\<not> (live (rows d ! i) \<and> canon_key (rkey (rows d ! i)) = canon_key key)" if "i < unat (used d)" for i
    using absent(4) that coll_okD(6) [OF ok] by (auto simp: live_rows_iff Ball_def)
  moreover have "js_CollectionDelete d key = Some (d, False)"
    using absent(1,2) by (simp add: js_CollectionDelete_def)
  ultimately show ?thesis using nokey ok by (intro that [of d]) auto
next
  case (present p i)
  let ?d = "d\<lparr>index := JS_DHashTableRawRemove (index d) p, rows := (rows d)[i := tombstone (rows d ! i)],
    size_of := size_of d - 1\<rparr>"
  note k = kill_row_ok [OF ok present(6,8,9,3,4,5)]
  obtain d' where d': "Compact ?d = Some d'" "coll_ok d'" "entries d' = entries ?d"
    "active d' = active ?d" "references d' = references ?d" "active ?d \<noteq> 0 \<Longrightarrow> d' = ?d"
    using Compact_ok [OF k(1)] by metis
  have run: "js_CollectionDelete d key = Some (d', True)"
    using present(1,2,7,10) d'(1) by (simp add: js_CollectionDelete_def Let_def)
  have key: "\<exists>p\<in>set (entries d). canon_key (fst p) = canon_key key"
    unfolding has_key_iff using present coll_okD(6) [OF ok] by (auto simp: live_rows_iff intro!: bexI [of _ "rows d ! i"])
  have nth: "rows ?d ! j = (if live (rows d ! j) \<and> canon_key (rkey (rows d ! j)) = canon_key key
         then tombstone (rows d ! j) else rows d ! j)" if "j < unat (used d)" for j
  proof -
    have "j = i" if "live (rows d ! j)" "canon_key (rkey (rows d ! j)) = canon_key key"
      by (rule row_unique [OF ok \<open>j < unat (used d)\<close> that(1) present(6,8)]) (simp add: that(2) present(9))
    then show ?thesis using present(7,8,9) by (cases "j = i") auto
  qed
  show ?thesis
    by (rule that [of d']) (use run key d' k nth in auto)
qed

lemma Clear_ok:
  assumes ok: "coll_ok d"
  obtains d' where "js_CollectionClear alloc d = Some d'" "coll_ok d'" "entries d' = []"
    "active d' = active d" "references d' = references d" "active d \<noteq> 0 \<Longrightarrow> used d' = used d"
proof -
  note c = coll_okD [OF ok]
  have kk: "coll.keeps_key ClearIndex" by (simp add: coll.keeps_key_def ClearIndex_def)
  have spec: "fst (enum_spec ClearIndex bs i ()) = []" for bs i
    by (induction bs arbitrary: i) (simp_all add: ClearIndex_def Let_def split_beta)
  obtain t where t: "JS_DHashTableEnumerate alloc (index d) ClearIndex () =
      Some (t, snd (enum_spec ClearIndex (bodies (entryStore (index d))) 0 ()))"
    "table_ok collectionOps t" "table_map t = (\<lambda>k. None)"
    by (rule coll.Enumerate_ok [OF c(1) kk, of alloc "()"]) (auto simp: spec)
  obtain n where run: "JS_DHashTableEnumerate alloc (index d) ClearIndex () = Some (t, n)" using t(1) by blast
  let ?u = "unat (used d)"
  show ?thesis
  proof (cases "active d = 0")
    case True
    let ?d = "d\<lparr>index := t, rows := [], used := 0, capacity := 0, size_of := 0\<rparr>"
    have "js_CollectionClear alloc d = Some ?d" using True run by (simp add: js_CollectionClear_def)
    moreover have "coll_ok ?d" using t(2,3) by (simp add: coll_ok_def indexed_def live_rows_def)
    ultimately show ?thesis by (rule that) (simp_all add: entries_def live_rows_def True)
  next
    case False
    let ?rows = "map tombstone (take ?u (rows d)) @ drop ?u (rows d)"
    let ?d = "d\<lparr>index := t, rows := ?rows, size_of := 0\<rparr>"
    have clear: "js_CollectionClear alloc d = Some ?d" using False run c(6) by (simp add: js_CollectionClear_def)
    have dead: "\<not> live (?rows ! i)" if "i < ?u" for i
      using that c(6) by (simp add: nth_append tombstone_def)
    have empty: "live_rows ?d = []"
      by (simp add: live_rows_def c(6) min_absorb2 filter_empty_conv tombstone_def)
    have "coll_ok ?d"
      using t(2,3) c(3,4,6) dead empty by (auto simp: coll_ok_def indexed_def)
    then show ?thesis by (rule that [OF clear]) (simp_all add: entries_def empty)
  qed
qed

lemma New_ok:
  assumes "js_NewCollectionData calloc alloc = Some d"
  shows "coll_ok d" "entries d = []" "active d = 0" "references d = 1"
proof -
  obtain t where t: "JS_DHashTableInit alloc collectionOps INDEX_BYTES 16 = Some (Some t)"
    "d = \<lparr>index = t, rows = [], used = 0, size_of = 0, capacity = 0, active = 0, references = 1\<rparr>"
    using assms by (auto simp: js_NewCollectionData_def split: if_splits option.splits)
  have "table_ok collectionOps t" "table_map t k = None" for k
    using Init_ok [OF t(1)] by (simp_all add: INDEX_BYTES_def)
  then show "coll_ok d" "entries d = []" "active d = 0" "references d = 1"
    using t(2) by (simp_all add: coll_ok_def indexed_def live_rows_def entries_def)
qed

subsection \<open>Iteration\<close>

lemma next_row_spec:
  assumes "unat (used d) \<le> length (rows d)" "c \<le> unat (used d)"
  shows "case next_row d c of
      (c', None) \<Rightarrow> c' = unat (used d) \<and> filter live (drop c (take (unat (used d)) (rows d))) = []
    | (c', Some kv) \<Rightarrow> c < c' \<and> c' \<le> unat (used d) \<and> live (rows d ! (c' - 1)) \<and>
        kv = (rkey (rows d ! (c' - 1)), rvalue (rows d ! (c' - 1))) \<and>
        filter live (drop c (take (unat (used d)) (rows d))) =
          rows d ! (c' - 1) # filter live (drop c' (take (unat (used d)) (rows d)))"
  using assms
proof (induction d c rule: next_row.induct)
  case (1 d c)
  show ?case
  proof (cases "c < unat (used d)")
    case False
    then show ?thesis using "1.prems" by (subst next_row.simps) simp
  next
    case True
    have drop: "drop c (take (unat (used d)) (rows d)) = rows d ! c # drop (Suc c) (take (unat (used d)) (rows d))"
      using True "1.prems" by (subst Cons_nth_drop_Suc [symmetric]) auto
    show ?thesis
    proof (cases "live (rows d ! c)")
      case live: True
      then show ?thesis using True by (subst next_row.simps) (simp add: drop Let_def)
    next
      case False
      then show ?thesis
        using "1.IH" [OF True refl] "1.prems" True
        by (subst next_row.simps) (auto simp: drop Let_def split: prod.splits option.splits)
    qed
  qed
qed

subsection \<open>Weak tables\<close>

lemma sweep_loop_ok:
  assumes "coll_ok d" "active d \<noteq> 0" "n \<le> unat (used d)"
  shows "\<exists>d'. sweep_loop marked [n..<unat (used d)] d = Some d' \<and> coll_ok d' \<and> active d' = active d \<and>
    references d' = references d \<and>
    live_rows d' = filter live (take n (rows d)) @ filter (\<lambda>r. marked (rkey r)) (filter live (drop n (take (unat (used d)) (rows d))))"
  using assms
proof (induction "unat (used d) - n" arbitrary: n d)
  case 0
  then show ?case by (simp add: live_rows_def)
next
  case (Suc m)
  let ?u = "unat (used d)" let ?r = "rows d ! n"
  note c = coll_okD [OF Suc.prems(1)]
  have n: "n < ?u" "n < length (rows d)" using Suc.hyps(2) c(6) by simp_all
  have upt: "[n..<?u] = n # [Suc n..<?u]" using n by (simp add: upt_conv_Cons)
  have drop: "drop n (take ?u (rows d)) = ?r # drop (Suc n) (take ?u (rows d))"
    using n by (subst Cons_nth_drop_Suc [symmetric]) auto
  have take: "take (Suc n) (rows d) = take n (rows d) @ [?r]" using n by (simp add: take_Suc_conv_app_nth)
  show ?case
  proof (cases "\<not> live ?r \<or> marked (rkey ?r)")
    case True
    then have step: "sweep_loop marked [n..<?u] d = sweep_loop marked [Suc n..<?u] d"
      using n by (simp add: upt)
    have m: "m = ?u - Suc n" using Suc.hyps(2) by simp
    show ?thesis
      using Suc.hyps(1) [OF m Suc.prems(1,2)] n True unfolding step take drop by auto
  next
    case False
    obtain d' b where d': "js_CollectionDelete d (rkey ?r) = Some (d', b)" "coll_ok d'"
      "active d' = active d" "references d' = references d" "used d' = used d" "length (rows d') = length (rows d)"
      "\<forall>i<?u. rows d' ! i = (if live (rows d ! i) \<and> canon_key (rkey (rows d ! i)) = canon_key (rkey ?r)
         then tombstone (rows d ! i) else rows d ! i)"
      by (rule Delete_ok [OF Suc.prems(1), of "rkey ?r"]) (use Suc.prems(2) in auto)
    have nth: "rows d' ! i = (if i = n then tombstone ?r else rows d ! i)" if "i < ?u" for i
      using d'(7) that row_unique [OF Suc.prems(1) that _ n(1)] False by (auto split: if_splits)
    have step: "sweep_loop marked [n..<?u] d = sweep_loop marked [Suc n..<?u] d'"
      using n False d'(1) by (simp add: upt)
    have m: "m = unat (used d') - Suc n" using Suc.hyps(2) d'(5) by simp
    have tk: "take (Suc n) (rows d') = take n (rows d) @ [tombstone ?r]"
    proof -
      have "take n (rows d') = take n (rows d)" using d'(6) n nth by (intro nth_equalityI) auto
      then show ?thesis using n d'(6) nth [OF n(1)] by (simp add: take_Suc_conv_app_nth)
    qed
    have dr: "drop (Suc n) (take ?u (rows d')) = drop (Suc n) (take ?u (rows d))"
      using d'(6) nth n c(6) by (intro nth_equalityI) simp_all
    have "\<exists>d''. sweep_loop marked [Suc n..<?u] d' = Some d'' \<and> coll_ok d'' \<and> active d'' = active d' \<and>
      references d'' = references d' \<and>
      live_rows d'' = filter live (take (Suc n) (rows d')) @ filter (\<lambda>r. marked (rkey r)) (filter live (drop (Suc n) (take ?u (rows d'))))"
      using Suc.hyps(1) [OF m d'(2)] Suc.prems(2) d'(3,5) n by simp
    then show ?thesis
      unfolding step tk dr drop using d'(3,4) False by (auto simp: tombstone_def)
  qed
qed

lemma coll_ok_active: "coll_ok (d\<lparr>active := a\<rparr>) = coll_ok d"
  by (simp add: coll_ok_def indexed_def live_rows_def index_of_def)

lemma live_rows_active: "live_rows (d\<lparr>active := a\<rparr>) = live_rows d"
  by (simp add: live_rows_def)

lemma Sweep_ok:
  assumes "coll_ok d"
  obtains d' where "js_SweepWeakCollectionKeys marked d = Some d'" "coll_ok d'"
    "entries d' = filter (\<lambda>p. marked (fst p)) (entries d)" "active d' = 0"
proof -
  let ?d = "d\<lparr>active := 1\<rparr>"
  have "coll_ok ?d" using assms by (simp add: coll_ok_active)
  then obtain d1 where d1: "sweep_loop marked [0..<unat (used d)] ?d = Some d1" "coll_ok d1"
    "live_rows d1 = filter (\<lambda>r. marked (rkey r)) (live_rows d)"
    using sweep_loop_ok [of ?d 0 marked] by (auto simp: live_rows_def)
  have ok: "coll_ok (d1\<lparr>active := 0\<rparr>)" using d1(2) by (simp add: coll_ok_active)
  obtain d' where d': "Compact (d1\<lparr>active := 0\<rparr>) = Some d'" "coll_ok d'"
    "live_rows d' = live_rows (d1\<lparr>active := 0\<rparr>)" "active d' = active (d1\<lparr>active := 0\<rparr>)"
    using Compact_ok [OF ok] by metis
  show ?thesis
    by (rule that [of d'])
      (use d1 d' in \<open>auto simp: js_SweepWeakCollectionKeys_def entries_def live_rows_active filter_map o_def\<close>)
qed

definition needs_no_mark :: "('g \<Rightarrow> jsval \<Rightarrow> bool) \<Rightarrow> 'g \<Rightarrow> jsval \<Rightarrow> bool" where
  "needs_no_mark marked g v \<longleftrightarrow> \<not> JSVAL_IS_GCTHING v \<or> JSVAL_IS_NULL v \<or> marked g v"

text \<open>What \<open>GC_MARK\<close> promises when no hook touches this collection: the thing gets its mark, no mark is
  lost, the collection stays.\<close>

definition marks_only :: "('g \<Rightarrow> jsval \<Rightarrow> bool) \<Rightarrow> (jsval \<Rightarrow> 'g \<times> JSCollectionData \<Rightarrow> 'g \<times> JSCollectionData) \<Rightarrow> bool" where
  "marks_only marked gc_mark \<longleftrightarrow> (\<forall>v g d. snd (gc_mark v (g, d)) = d \<and> marked (fst (gc_mark v (g, d))) v \<and>
     (\<forall>w. marked g w \<longrightarrow> marked (fst (gc_mark v (g, d))) w))"

lemma weak_loop_ok:
  assumes gc: "marks_only marked gc_mark" and len: "unat (used d) \<le> length (rows d)"
  shows "\<exists>g' changed. weak_loop marked gc_mark i g d ch = Some (g', d, changed) \<and>
    (\<forall>w. marked g w \<longrightarrow> marked g' w) \<and> (ch \<longrightarrow> changed) \<and> (\<not> changed \<longrightarrow> g' = g) \<and>
    (\<forall>j. i \<le> j \<and> j < unat (used d) \<and> live (rows d ! j) \<and> marked g (rkey (rows d ! j)) \<longrightarrow>
       needs_no_mark marked g' (rvalue (rows d ! j)))"
proof (induction "unat (used d) - i" arbitrary: i g ch)
  case 0
  then show ?case by (subst weak_loop.simps) auto
next
  case (Suc m)
  have i: "i < unat (used d)" "i < length (rows d)" using Suc.hyps(2) len by simp_all
  have m: "m = unat (used d) - (i + 1)" using Suc.hyps(2) by simp
  let ?r = "rows d ! i"
  show ?case
  proof (cases "live ?r \<and> marked g (rkey ?r) \<and> \<not> needs_no_mark marked g (rvalue ?r)")
    case True
    obtain g1 where g1: "gc_mark (rvalue ?r) (g, d) = (g1, d)" "marked g1 (rvalue ?r)" "\<forall>w. marked g w \<longrightarrow> marked g1 w"
      using gc unfolding marks_only_def by (metis prod.collapse fst_conv)
    obtain g' changed where IH: "weak_loop marked gc_mark (i + 1) g1 d True = Some (g', d, changed)"
      "\<forall>w. marked g1 w \<longrightarrow> marked g' w" "changed" "\<forall>j. i + 1 \<le> j \<and> j < unat (used d) \<and> live (rows d ! j) \<and>
         marked g1 (rkey (rows d ! j)) \<longrightarrow> needs_no_mark marked g' (rvalue (rows d ! j))"
      using Suc.hyps(1) [OF m, of g1 True] by blast
    have "weak_loop marked gc_mark i g d ch = Some (g', d, changed)"
      using True i g1(1) IH(1) by (subst weak_loop.simps) (simp add: Let_def needs_no_mark_def)
    moreover have "needs_no_mark marked g' (rvalue (rows d ! j))"
      if "i \<le> j" "j < unat (used d)" "live (rows d ! j)" "marked g (rkey (rows d ! j))" for j
    proof (cases "j = i")
      case True
      then show ?thesis using IH(2) g1(2) by (simp add: needs_no_mark_def)
    next
      case False
      then show ?thesis using that IH(4) g1(3) by simp
    qed
    ultimately show ?thesis using IH(2,3) g1(3) by (intro exI [of _ g'] exI [of _ changed]) auto
  next
    case False
    have step: "weak_loop marked gc_mark i g d ch = weak_loop marked gc_mark (i + 1) g d ch"
      using False i by (subst weak_loop.simps) (auto simp: Let_def needs_no_mark_def)
    obtain g' changed where IH: "weak_loop marked gc_mark (i + 1) g d ch = Some (g', d, changed)"
      "\<forall>w. marked g w \<longrightarrow> marked g' w" "ch \<longrightarrow> changed" "\<not> changed \<longrightarrow> g' = g"
      "\<forall>j. i + 1 \<le> j \<and> j < unat (used d) \<and> live (rows d ! j) \<and>
         marked g (rkey (rows d ! j)) \<longrightarrow> needs_no_mark marked g' (rvalue (rows d ! j))"
      using Suc.hyps(1) [OF m, of g ch] by blast
    have "needs_no_mark marked g' (rvalue (rows d ! j))"
      if j: "i \<le> j" "j < unat (used d)" "live (rows d ! j)" "marked g (rkey (rows d ! j))" for j
    proof (cases "j = i")
      case True
      then have "needs_no_mark marked g (rvalue ?r)" using False j by blast
      then show ?thesis using True IH(2) by (auto simp: needs_no_mark_def)
    next
      case False
      then show ?thesis using j IH(5) by simp
    qed
    then show ?thesis unfolding step using IH(1-4) by (intro exI [of _ g'] exI [of _ changed]) auto
  qed
qed

lemma Delete_from:
  assumes ok: "coll_ok d" and act: "active d \<noteq> 0" and run: "js_CollectionDelete d key = Some (d', b)"
  shows "entries_from d' n = spec_delete (entries_from d n) key"
proof -
  let ?u = "unat (used d)"
  have d': "used d' = used d" "length (rows d') = length (rows d)"
      "\<forall>i<?u. rows d' ! i = (if live (rows d ! i) \<and> canon_key (rkey (rows d ! i)) = canon_key key
         then tombstone (rows d ! i) else rows d ! i)"
    by (rule Delete_ok [OF ok, of key], use act run in auto)+
  let ?f = "\<lambda>r. if live r \<and> canon_key (rkey r) = canon_key key then tombstone r else r"
  have "take ?u (rows d') = map ?f (take ?u (rows d))"
    using d'(2,3) by (intro nth_equalityI) auto
  then have "drop n (take ?u (rows d')) = map ?f (drop n (take ?u (rows d)))" by (simp add: drop_map)
  then show ?thesis
    using filter_map_kill [of "\<lambda>r. canon_key (rkey r) = canon_key key" "drop n (take ?u (rows d))"]
    by (simp add: entries_from_def d'(1) spec_delete_def filter_map o_def)
qed

lemma Put_from:
  assumes ok: "coll_ok d" and act: "active d \<noteq> 0" and run: "js_CollectionPut alloc ralloc d key v = Some (d', True)"
    and n: "n \<le> unat (used d)"
  shows "entries_from d' n =
      (if \<exists>p\<in>set (entries d). canon_key (fst p) = canon_key key
       then map (\<lambda>p. if canon_key (fst p) = canon_key key then (fst p, v) else p) (entries_from d n)
       else entries_from d n @ [(normalize_zero key, v)])"
proof (rule Put_ok [OF ok, of alloc ralloc key v])
  fix d2 b
  assume r: "js_CollectionPut alloc ralloc d key v = Some (d2, b)"
    and e: "\<And>n. \<lbrakk>active d \<noteq> 0; b; n \<le> unat (used d)\<rbrakk> \<Longrightarrow> entries_from d2 n =
      (if \<exists>p\<in>set (entries d). canon_key (fst p) = canon_key key
       then map (\<lambda>p. if canon_key (fst p) = canon_key key then (fst p, v) else p) (entries_from d n)
       else entries_from d n @ [(normalize_zero key, v)])"
  have "d2 = d'" "b" using r run by simp_all
  then show ?thesis using e [OF act _ n] by simp
qed

subsection \<open>Properties\<close>

text \<open>A new collection.\<close>

definition new_data :: JSCollectionData where
  "new_data = \<lparr>index = \<lparr>ops = collectionOps, hashShift = 28, maxAlphaFrac = 0xC0, minAlphaFrac = 0x40,
     entrySize = INDEX_BYTES, entryCount = 0, removedCount = 0, generation = 0,
     entryStore = replicate 16 \<lparr>keyHash = 0, body = \<lparr>ikey = JOther 0, rowPlusOne = 0\<rparr>\<rparr>\<rparr>,
     rows = [], used = 0, size_of = 0, capacity = 0, active = 0, references = 1\<rparr>"

lemma new_data_eq: "js_NewCollectionData True (\<lambda>_. True) = Some new_data"
proof -
  have "JS_CEILING_LOG2 16 = 4" by code_simp
  moreover have "zeroed_store collectionOps (JS_BIT 4 * INDEX_BYTES) INDEX_BYTES =
      replicate (2 ^ 4) \<lparr>keyHash = 0, body = zeroEntry collectionOps\<rparr>"
    by (rule zeroed_store_eq) (simp_all add: INDEX_BYTES_def)
  moreover have "\<not> JS_DHASH_SIZE_LIMIT \<le> JS_BIT 4" by (simp add: size_limit)
  ultimately show ?thesis
    by (simp add: js_NewCollectionData_def JS_DHashTableInit_def JS_DHASH_MIN_SIZE_def JS_DHASH_BITS_def
        new_data_def collectionOps_def Let_def word_less_nat_alt)
qed

lemma new_data_ok: "coll_ok new_data" "entries new_data = []" "active new_data = 0" "references new_data = 1"
  using New_ok [OF new_data_eq] by simp_all

text \<open>\<open>js_CollectionGet\<close> on a well-formed collection returns the value of the entry whose key is
  SameValueZero-equal to the argument, or \<open>JS_FALSE\<close> when there is none; it never reads outside the rows.\<close>

theorem collection_get_correct:
  assumes "coll_ok d"
  shows "js_CollectionGet d k = Some (spec_get (entries d) k)"
  by (rule Get_ok [OF assms])

theorem collection_get_correct_witness: "js_CollectionGet new_data (JInt 3) = Some None"
  using collection_get_correct [OF new_data_ok(1), of "JInt 3"] by (simp add: new_data_ok(2) spec_get_def)

text \<open>C9. \<open>js_CollectionPut\<close> ends, keeps the collection well formed, and on success replaces the value of
  an equal key in place or appends the pair (with -0 normalised to +0) at the end; on \<open>JS_FALSE\<close> the
  ordered entries are unchanged, and it never fails for a key that is present.\<close>

theorem collection_put_correct:
  assumes "coll_ok d"
  shows "\<exists>d' b. js_CollectionPut alloc ralloc d key v = Some (d', b) \<and> coll_ok d' \<and>
    entries d' = (if b then spec_put (entries d) key v else entries d) \<and>
    ((\<exists>p\<in>set (entries d). canon_key (fst p) = canon_key key) \<longrightarrow> b) \<and>
    active d' = active d \<and> references d' = references d"
  by (rule Put_ok [OF assms, of alloc ralloc key v]) blast

theorem collection_put_correct_witness:
  "\<exists>d' b. js_CollectionPut (\<lambda>_. True) (\<lambda>_. True) new_data (JInt 3) (JInt 4) = Some (d', b) \<and> coll_ok d' \<and>
    entries d' = (if b then [(normalize_zero (JInt 3), JInt 4)] else [])"
proof -
  obtain d' b where "js_CollectionPut (\<lambda>_. True) (\<lambda>_. True) new_data (JInt 3) (JInt 4) = Some (d', b)"
    "coll_ok d'" "entries d' = (if b then spec_put (entries new_data) (JInt 3) (JInt 4) else entries new_data)"
    using collection_put_correct [OF new_data_ok(1), of "\<lambda>_. True" "\<lambda>_. True" "JInt 3" "JInt 4"]
    by (elim exE conjE)
  then show ?thesis by (intro exI [of _ d'] exI [of _ b]) (simp add: new_data_ok(2) spec_put_def)
qed

text \<open>C29. \<open>js_CollectionDelete\<close> ends, reports whether the key was present, keeps the collection well formed
  (through the compaction it may trigger) and removes exactly the entry of that key, keeping the order
  of the others.\<close>

theorem collection_delete_correct:
  assumes "coll_ok d"
  shows "\<exists>d'. js_CollectionDelete d key =
      Some (d', \<exists>p\<in>set (entries d). canon_key (fst p) = canon_key key) \<and> coll_ok d' \<and>
    entries d' = spec_delete (entries d) key \<and> active d' = active d \<and> references d' = references d"
  by (rule Delete_ok [OF assms, of key]) blast

theorem collection_delete_correct_witness:
  "\<exists>d'. js_CollectionDelete new_data (JInt 3) = Some (d', False) \<and> coll_ok d' \<and> entries d' = []"
proof -
  obtain d' where "js_CollectionDelete new_data (JInt 3) =
      Some (d', \<exists>p\<in>set (entries new_data). canon_key (fst p) = canon_key (JInt 3))" "coll_ok d'"
    "entries d' = spec_delete (entries new_data) (JInt 3)"
    using collection_delete_correct [OF new_data_ok(1), of "JInt 3"] by (elim exE conjE)
  then show ?thesis by (intro exI [of _ d']) (simp add: new_data_ok(2) spec_delete_def)
qed

text \<open>\<open>js_CollectionClear\<close> empties the collection and keeps it well formed; during an iteration it keeps
  the rows in place (all dead), so cursors stay valid.\<close>

theorem collection_clear_correct:
  assumes "coll_ok d"
  shows "\<exists>d'. js_CollectionClear alloc d = Some d' \<and> coll_ok d' \<and> entries d' = [] \<and>
    active d' = active d \<and> (active d \<noteq> 0 \<longrightarrow> used d' = used d)"
  by (rule Clear_ok [OF assms, of alloc]) blast

theorem collection_clear_correct_witness:
  "\<exists>d'. js_CollectionClear (\<lambda>_. True) new_data = Some d' \<and> coll_ok d' \<and> entries d' = []"
  using collection_clear_correct [OF new_data_ok(1), of "\<lambda>_. True"] by blast

text \<open>An iteration step delivers the first entry at or after the cursor and moves the cursor past it;
  at the end it returns \<open>JS_FALSE\<close> and leaves the cursor at \<open>used\<close>.\<close>

theorem collection_next_correct:
  assumes "coll_ok d" "c \<le> used d"
  shows "\<exists>c'. js_CollectionNext d c = Some (c', case entries_from d (unat c) of [] \<Rightarrow> None | kv # _ \<Rightarrow> Some kv) \<and>
    c' \<le> used d \<and> entries_from d (unat c') = tl (entries_from d (unat c))"
proof -
  note k = coll_okD [OF assms(1)]
  have c: "unat c \<le> unat (used d)" using assms(2) by (simp add: word_le_nat_alt)
  obtain n r where n: "next_row d (unat c) = (n, r)" by (cases "next_row d (unat c)")
  note spec = next_row_spec [OF k(6) c, unfolded n]
  have le: "n \<le> unat (used d)" using spec by (auto split: option.splits)
  then have un: "unat (word_of_nat n :: u32) = n" using k(7) by (intro unat_of_nat_small) simp
  have "js_CollectionNext d c = Some (word_of_nat n, r)" using k(6) n by (simp add: js_CollectionNext_def)
  moreover have "r = (case entries_from d (unat c) of [] \<Rightarrow> None | kv # _ \<Rightarrow> Some kv) \<and>
      entries_from d n = tl (entries_from d (unat c))"
    using spec by (cases r) (auto simp: entries_from_def)
  ultimately show ?thesis using le un by (intro exI [of _ "word_of_nat n"]) (simp add: word_le_nat_alt)
qed

theorem collection_next_correct_witness: "\<exists>c'. js_CollectionNext new_data 0 = Some (c', None)"
proof -
  have "entries_from new_data (unat (0::u32)) = []" using entries_from_0 [of new_data] new_data_ok(2) by simp
  then show ?thesis using collection_next_correct [OF new_data_ok(1), of 0] by auto
qed

text \<open>C14. Mutation during an iteration: for every cursor, what a live iteration has still to deliver
  changes exactly as the collection does: a deleted entry disappears from it, a rewritten one shows its
  new value, an added one comes last.  No entry is skipped or delivered twice because rows moved.\<close>

theorem collection_live_iteration:
  assumes "coll_ok d" "active d \<noteq> 0" "c \<le> unat (used d)"
  shows "(js_CollectionDelete d key = Some (d1, b1) \<longrightarrow>
      entries_from d1 c = spec_delete (entries_from d c) key) \<and>
    (js_CollectionPut alloc ralloc d key v = Some (d2, True) \<longrightarrow> entries_from d2 c =
      (if \<exists>p\<in>set (entries d). canon_key (fst p) = canon_key key
       then map (\<lambda>p. if canon_key (fst p) = canon_key key then (fst p, v) else p) (entries_from d c)
       else entries_from d c @ [(normalize_zero key, v)]))"
proof (intro conjI impI)
  assume "js_CollectionDelete d key = Some (d1, b1)"
  then show "entries_from d1 c = spec_delete (entries_from d c) key" by (rule Delete_from [OF assms(1,2)])
next
  assume "js_CollectionPut alloc ralloc d key v = Some (d2, True)"
  then show "entries_from d2 c =
      (if \<exists>p\<in>set (entries d). canon_key (fst p) = canon_key key
       then map (\<lambda>p. if canon_key (fst p) = canon_key key then (fst p, v) else p) (entries_from d c)
       else entries_from d c @ [(normalize_zero key, v)])"
    using Put_from [OF assms(1,2) _ assms(3)] by blast
qed

theorem collection_live_iteration_witness:
  "\<exists>d1 b1. js_CollectionDelete (new_data\<lparr>active := 1\<rparr>) (JInt 3) = Some (d1, b1) \<and> entries_from d1 0 = []"
proof -
  have ok: "coll_ok (new_data\<lparr>active := 1\<rparr>)" using new_data_ok(1) by (simp add: coll_ok_active)
  have e: "entries_from (new_data\<lparr>active := 1\<rparr>) 0 = []"
    using new_data_ok(2) by (simp add: entries_from_0 entries_def live_rows_active)
  obtain d1 b1 where d: "js_CollectionDelete (new_data\<lparr>active := 1\<rparr>) (JInt 3) = Some (d1, b1)"
    by (rule Delete_ok [OF ok, of "JInt 3"]) (erule that)
  then show ?thesis
    using collection_live_iteration [OF ok, of 0 "JInt 3" d1 b1] e by (simp add: spec_delete_def)
qed

text \<open>C30. The sweep of a weak table removes exactly the entries whose keys the collector has not marked,
  keeps the rest in order and leaves the table well formed and compactable.\<close>

theorem weak_sweep_correct:
  assumes "coll_ok d"
  shows "\<exists>d'. js_SweepWeakCollectionKeys marked d = Some d' \<and> coll_ok d' \<and>
    entries d' = filter (\<lambda>p. marked (fst p)) (entries d) \<and> active d' = 0"
  by (rule Sweep_ok [OF assms, of marked]) blast

theorem weak_sweep_correct_witness:
  "\<exists>d'. js_SweepWeakCollectionKeys (\<lambda>_. False) new_data = Some d' \<and> coll_ok d' \<and> entries d' = []"
  using weak_sweep_correct [OF new_data_ok(1), of "\<lambda>_. False"] by (auto simp: new_data_ok(2))

text \<open>The ephemeron marking pass ends, marks the value of every entry whose key was marked when the
  pass began, and reports no change only when nothing was left to mark: a collector that repeats it
  until no table changes has marked everything reachable through marked keys.\<close>

theorem weak_mark_correct:
  assumes "coll_ok d" "marks_only marked gc_mark"
  shows "\<exists>g' changed. js_MarkWeakCollectionValues marked gc_mark g d = Some (g', d\<lparr>active := 0\<rparr>, changed) \<and>
    (\<forall>w. marked g w \<longrightarrow> marked g' w) \<and>
    (\<forall>p\<in>set (entries d). marked g (fst p) \<longrightarrow> needs_no_mark marked g' (snd p)) \<and>
    (\<not> changed \<longrightarrow> g' = g)"
proof -
  let ?d = "d\<lparr>active := 1\<rparr>"
  have len: "unat (used ?d) \<le> length (rows ?d)" using coll_okD(6) [OF assms(1)] by simp
  obtain g' changed where w: "weak_loop marked gc_mark 0 g ?d False = Some (g', ?d, changed)"
    "\<forall>w. marked g w \<longrightarrow> marked g' w" "\<not> changed \<longrightarrow> g' = g"
    "\<forall>j. 0 \<le> j \<and> j < unat (used ?d) \<and> live (rows ?d ! j) \<and> marked g (rkey (rows ?d ! j)) \<longrightarrow>
       needs_no_mark marked g' (rvalue (rows ?d ! j))"
    using weak_loop_ok [OF assms(2) len, of 0 g False] by (elim exE conjE)
  have "needs_no_mark marked g' (snd p)" if p: "p \<in> set (entries d)" "marked g (fst p)" for p
  proof -
    obtain j where "j < unat (used d)" "live (rows d ! j)" "p = (rkey (rows d ! j), rvalue (rows d ! j))"
      using p(1) live_rows_iff [OF coll_okD(6) [OF assms(1)]] by (auto simp: entries_def)
    then show ?thesis using w(4) p(2) by simp
  qed
  then show ?thesis
    using w(1-3) by (intro exI [of _ g'] exI [of _ changed]) (simp add: js_MarkWeakCollectionValues_def)
qed

theorem weak_mark_correct_witness:
  "\<exists>g' changed. js_MarkWeakCollectionValues (\<lambda>g v. v \<in> g) (\<lambda>v (g, d). (insert v g, d)) {} new_data =
    Some (g', new_data\<lparr>active := 0\<rparr>, changed)"
proof -
  have "marks_only (\<lambda>g v. v \<in> g) (\<lambda>v (g, d). (insert v g, d))" by (simp add: marks_only_def)
  then show ?thesis using weak_mark_correct [OF new_data_ok(1), of "\<lambda>g v. v \<in> g" _ "{}"] by blast
qed

end
