(* ===== verification/LongLong.thy ===== *)
theory LongLong
  imports Bits
begin

text \<open>
  The software 64-bit integers of \<open>js/src/jslong.h\<close> and \<open>js/src/jslong.c\<close> for compilers without a
  64-bit type: a pair of 32-bit words, and every integer macro and function on it.  An argument that
  makes the code divide by zero, or shift by a negative amount, is \<open>None\<close>.  The conversions from and to floating
  point (\<open>JSLL_L2D\<close>, \<open>JSLL_D2L\<close>, \<open>JSLL_F2L\<close>, \<open>JSLL_L2F\<close>) are not modelled.
\<close>

record JSInt64 =
  lo :: u32
  hi :: u32

definition ll :: "u32 \<Rightarrow> u32 \<Rightarrow> JSInt64" where
  "ll h l = \<lparr>lo = l, hi = h\<rparr>"

definition JSLL_Zero :: JSInt64 where "JSLL_Zero = ll 0 0"
definition JSLL_MaxInt :: JSInt64 where "JSLL_MaxInt = ll 0x7FFFFFFF 0xFFFFFFFF"
definition JSLL_MinInt :: JSInt64 where "JSLL_MinInt = ll 0x80000000 0"

subsection \<open>Comparisons and bitwise operators\<close>

definition JSLL_IS_ZERO :: "JSInt64 \<Rightarrow> bool" where
  "JSLL_IS_ZERO a \<longleftrightarrow> hi a = 0 \<and> lo a = 0"

definition JSLL_EQ :: "JSInt64 \<Rightarrow> JSInt64 \<Rightarrow> bool" where
  "JSLL_EQ a b \<longleftrightarrow> hi a = hi b \<and> lo a = lo b"

definition JSLL_NE :: "JSInt64 \<Rightarrow> JSInt64 \<Rightarrow> bool" where
  "JSLL_NE a b \<longleftrightarrow> hi a \<noteq> hi b \<or> lo a \<noteq> lo b"

definition JSLL_GE_ZERO :: "JSInt64 \<Rightarrow> bool" where
  "JSLL_GE_ZERO a \<longleftrightarrow> drop_bit 31 (hi a) = 0"

text \<open>\<open>JSLL_CMP(a, <, b)\<close> and \<open>JSLL_UCMP(a, <, b)\<close>; \<open>>\<close> swaps the arguments.\<close>

definition JSLL_CMP :: "JSInt64 \<Rightarrow> JSInt64 \<Rightarrow> bool" where
  "JSLL_CMP a b \<longleftrightarrow> sint (hi a) < sint (hi b) \<or> (hi a = hi b \<and> lo a < lo b)"

definition JSLL_UCMP :: "JSInt64 \<Rightarrow> JSInt64 \<Rightarrow> bool" where
  "JSLL_UCMP a b \<longleftrightarrow> hi a < hi b \<or> (hi a = hi b \<and> lo a < lo b)"

definition JSLL_AND :: "JSInt64 \<Rightarrow> JSInt64 \<Rightarrow> JSInt64" where
  "JSLL_AND a b = ll (hi a AND hi b) (lo a AND lo b)"

definition JSLL_OR :: "JSInt64 \<Rightarrow> JSInt64 \<Rightarrow> JSInt64" where
  "JSLL_OR a b = ll (hi a OR hi b) (lo a OR lo b)"

definition JSLL_XOR :: "JSInt64 \<Rightarrow> JSInt64 \<Rightarrow> JSInt64" where
  "JSLL_XOR a b = ll (hi a XOR hi b) (lo a XOR lo b)"

definition JSLL_NOT :: "JSInt64 \<Rightarrow> JSInt64" where
  "JSLL_NOT a = ll (NOT (hi a)) (NOT (lo a))"

subsection \<open>Arithmetic\<close>

definition JSLL_NEG :: "JSInt64 \<Rightarrow> JSInt64" where
  "JSLL_NEG a = (let l = - lo a in ll (- hi a - (if l \<noteq> 0 then 1 else 0)) l)"

definition JSLL_ADD :: "JSInt64 \<Rightarrow> JSInt64 \<Rightarrow> JSInt64" where
  "JSLL_ADD a b = (let l = lo a + lo b in ll (hi a + hi b + (if l < lo b then 1 else 0)) l)"

definition JSLL_SUB :: "JSInt64 \<Rightarrow> JSInt64 \<Rightarrow> JSInt64" where
  "JSLL_SUB a b = ll (hi a - hi b - (if lo a < lo b then 1 else 0)) (lo a - lo b)"

definition jslo16 :: "u32 \<Rightarrow> u32" where
  "jslo16 a = a AND JS_BITMASK 16"

definition jshi16 :: "u32 \<Rightarrow> u32" where
  "jshi16 a = drop_bit 16 a"

definition JSLL_MUL32 :: "u32 \<Rightarrow> u32 \<Rightarrow> JSInt64" where
  "JSLL_MUL32 a b =
     (let a1 = jshi16 a; a0 = jslo16 a; b1 = jshi16 b; b0 = jslo16 b;
          y0 = a0 * b0; y1 = a0 * b1; y2 = a1 * b0; y3 = a1 * b1;
          y1 = y1 + jshi16 y0;
          y1 = y1 + y2;
          y3 = (if y1 < y2 then y3 + JS_BIT 16 else y3)
      in ll (y3 + jshi16 y1) (push_bit 16 (jslo16 y1) + jslo16 y0))"

definition JSLL_MUL :: "JSInt64 \<Rightarrow> JSInt64 \<Rightarrow> JSInt64" where
  "JSLL_MUL a b = (let r = JSLL_MUL32 (lo a) (lo b) in r\<lparr>hi := hi r + (hi a * lo b + lo a * hi b)\<rparr>)"

subsection \<open>Shifts\<close>

text \<open>
  The shift counts are C integers; a count above 64 or below 0 is out of the documented range.
  Shifting a 32-bit word by \<open>32 - b\<close> is defined for \<open>0 < b < 32\<close>, the only case the code uses it in.
\<close>

definition JSLL_SHL :: "JSInt64 \<Rightarrow> nat \<Rightarrow> JSInt64" where
  "JSLL_SHL a b =
     (if b \<noteq> 0 then
        if b < 32 then ll (push_bit (b mod 32) (hi a) OR drop_bit (32 - b) (lo a)) (push_bit (b mod 32) (lo a))
        else ll (push_bit (b mod 32) (lo a)) 0
      else a)"

definition JSLL_ISHL :: "u32 \<Rightarrow> nat \<Rightarrow> JSInt64" where
  "JSLL_ISHL a b =
     (if b \<noteq> 0 then
        if b < 32 then ll (signed_drop_bit (32 - b) a) (push_bit (b mod 32) a)
        else ll (push_bit (b mod 32) a) 0
      else ll 0 a)"

definition JSLL_SHR :: "JSInt64 \<Rightarrow> nat \<Rightarrow> JSInt64" where
  "JSLL_SHR a b =
     (if b \<noteq> 0 then
        if b < 32 then ll (signed_drop_bit (b mod 32) (hi a)) (push_bit (32 - b) (hi a) OR drop_bit (b mod 32) (lo a))
        else ll (signed_drop_bit 31 (hi a)) (signed_drop_bit (b mod 32) (hi a))
      else a)"

definition JSLL_USHR :: "JSInt64 \<Rightarrow> nat \<Rightarrow> JSInt64" where
  "JSLL_USHR a b =
     (if b \<noteq> 0 then
        if b < 32 then ll (drop_bit (b mod 32) (hi a)) (push_bit (32 - b) (hi a) OR drop_bit (b mod 32) (lo a))
        else ll 0 (drop_bit (b mod 32) (hi a))
      else a)"

subsection \<open>Conversions\<close>

definition JSLL_L2I :: "JSInt64 \<Rightarrow> u32" where "JSLL_L2I l = lo l"
definition JSLL_L2UI :: "JSInt64 \<Rightarrow> u32" where "JSLL_L2UI l = lo l"
definition JSLL_I2L :: "u32 \<Rightarrow> JSInt64" where "JSLL_I2L i = ll (signed_drop_bit 31 i) i"
definition JSLL_UI2L :: "u32 \<Rightarrow> JSInt64" where "JSLL_UI2L ui = ll 0 ui"

subsection \<open>Division\<close>

text \<open>One 16-bit quotient digit of \<open>norm_udivmod32\<close>, which does this twice: quotient and remainder of
  \<open>(h * 2 ^ 16 + l) / b\<close>.\<close>

definition norm_digit :: "u32 \<Rightarrow> u32 \<Rightarrow> u32 \<Rightarrow> u32 \<times> u32" where
  "norm_digit h l b =
     (let d1 = jshi16 b; d0 = jslo16 b;
          r = h mod d1; q = h div d1; m = q * d0;
          r = push_bit 16 r OR l;
          (q, r) =
            (if r < m then
               let q = q - 1; r = r + b
               in if r \<ge> b \<and> r < m then (q - 1, r + b) else (q, r)
             else (q, r))
      in (q, r - m))"

definition norm_udivmod32 :: "JSInt64 \<Rightarrow> u32 \<Rightarrow> u32 \<times> u32" where
  "norm_udivmod32 a b =
     (let (q1, r1) = norm_digit (hi a) (jshi16 (lo a)) b;
          (q0, r0) = norm_digit r1 (jslo16 (lo a)) b
      in (push_bit 16 q1 OR q0, r0))"

text \<open>\<open>jsll_udivmod\<close>: quotient and remainder, or \<open>None\<close> for the division by zero it provokes.\<close>

definition jsll_udivmod :: "JSInt64 \<Rightarrow> JSInt64 \<Rightarrow> (JSInt64 \<times> JSInt64) option" where
  "jsll_udivmod a b =
     (let n0 = lo a; n1 = hi a
      in if hi b = 0 then
           if lo b > n1 then
             let lsh = unat (CountLeadingZeros (lo b));
                 d = (if lsh \<noteq> 0 then push_bit lsh (lo b) else lo b);
                 n1' = (if lsh \<noteq> 0 then push_bit lsh n1 OR drop_bit (32 - lsh) n0 else n1);
                 n0' = (if lsh \<noteq> 0 then push_bit lsh n0 else n0);
                 (q0, n0) = norm_udivmod32 (ll n1' n0') d
             in Some (ll 0 q0, ll 0 (drop_bit lsh n0))
           else if lo b = 0 then None
           else
             let lsh = unat (CountLeadingZeros (lo b))
             in if lsh = 0 then
                  let n1 = n1 - lo b; q1 = 1;
                      (q0, n0) = norm_udivmod32 (ll n1 n0) (lo b)
                  in Some (ll q1 q0, ll 0 (drop_bit lsh n0))
                else
                  let rsh = 32 - lsh; d = push_bit lsh (lo b);
                      n2 = drop_bit rsh n1;
                      n1 = push_bit lsh n1 OR drop_bit rsh n0;
                      n0 = push_bit lsh n0;
                      (q1, n1) = norm_udivmod32 (ll n2 n1) d;
                      (q0, n0) = norm_udivmod32 (ll n1 n0) d
                  in Some (ll q1 q0, ll 0 (drop_bit lsh n0))
         else if hi b > n1 then Some (ll 0 0, ll n1 n0)
         else
           let lsh = unat (CountLeadingZeros (hi b))
           in if lsh = 0 then
                let q0 = (if n1 > hi b \<or> n0 \<ge> lo b then 1 else 0)
                in Some (ll 0 q0, ll n1 n0)
              else
                let rsh = 32 - lsh;
                    b = ll (push_bit lsh (hi b) OR drop_bit rsh (lo b)) (push_bit lsh (lo b));
                    n2 = drop_bit rsh n1;
                    n1 = push_bit lsh n1 OR drop_bit rsh n0;
                    n0 = push_bit lsh n0;
                    (q0, n1) = norm_udivmod32 (ll n2 n1) (hi b);
                    m = JSLL_MUL32 q0 (lo b);
                    (q0, m) = (if hi m > n1 \<or> (hi m = n1 \<and> lo m > n0) then (q0 - 1, JSLL_SUB m b) else (q0, m));
                    a = JSLL_SUB (ll n1 n0) m
                in Some (ll 0 q0, ll (drop_bit lsh (hi a)) (push_bit rsh (hi a) OR drop_bit lsh (lo a))))"

definition JSLL_DIV :: "JSInt64 \<Rightarrow> JSInt64 \<Rightarrow> JSInt64 option" where
  "JSLL_DIV a b =
     (let negative = sint (hi a) < 0;
          a' = (if negative then JSLL_NEG a else a);
          negative = (if sint (hi b) < 0 then \<not> negative else negative);
          b' = (if sint (hi b) < 0 then JSLL_NEG b else b)
      in map_option (\<lambda>(q, r). if negative then JSLL_NEG q else q) (jsll_udivmod a' b'))"

definition JSLL_MOD :: "JSInt64 \<Rightarrow> JSInt64 \<Rightarrow> JSInt64 option" where
  "JSLL_MOD a b =
     (let negative = sint (hi a) < 0;
          a' = (if negative then JSLL_NEG a else a);
          b' = (if sint (hi b) < 0 then JSLL_NEG b else b)
      in map_option (\<lambda>(q, r). if negative then JSLL_NEG r else r) (jsll_udivmod a' b'))"

end
