(* ===== verification/LongLong_Correct.thy ===== *)
theory LongLong_Correct
  imports LongLong
begin

text \<open>
  The software 64-bit integers compute what a 64-bit type would: \<open>w64\<close> reads a pair as one 64-bit
  word, \<open>v64\<close> as a natural number.
\<close>

subsection \<open>Reading a pair\<close>

definition w64 :: "JSInt64 \<Rightarrow> u64" where
  "w64 a = 2 ^ 32 * ucast (hi a) + ucast (lo a)"

definition v64 :: "JSInt64 \<Rightarrow> nat" where
  "v64 a = unat (hi a) * 2 ^ 32 + unat (lo a)"

definition up :: "u32 \<Rightarrow> u64" where
  "up x = 2 ^ 32 * ucast x"

lemma w64_up: "w64 (ll h l) = up h + ucast l"
  by (simp add: w64_def ll_def up_def)

lemma ll_sel [simp]: "hi (ll h l) = h" "lo (ll h l) = l" "ll (hi a) (lo a) = a"
  by (simp_all add: ll_def)

lemma v64_less: "v64 a < 2 ^ 64"
  using u32_less [of "hi a"] u32_less [of "lo a"] by (simp add: v64_def)

lemma unat_w64: "unat (w64 a) = v64 a"
proof -
  have "w64 a = word_of_nat (v64 a)"
    by (simp only: w64_def v64_def ucast_nat of_nat_add of_nat_mult of_nat_power of_nat_numeral mult.commute)
  then show ?thesis using v64_less [of a] by (simp add: unat_of_nat_small)
qed

lemma v64_eq: "v64 a = v64 b \<longleftrightarrow> a = b"
proof
  assume "v64 a = v64 b"
  then have "v64 a div 2 ^ 32 = v64 b div 2 ^ 32" "v64 a mod 2 ^ 32 = v64 b mod 2 ^ 32" by simp_all
  then have "unat (hi a) = unat (hi b)" "unat (lo a) = unat (lo b)"
    using u32_less [of "lo a"] u32_less [of "lo b"] by (simp_all add: v64_def)
  then show "a = b" by (cases a; cases b) (simp add: word_eq_nat_iff)
qed simp

subsection \<open>Arithmetic\<close>

lemma up_mod: "(word_of_int (2 ^ 32 * (z mod 2 ^ 32)) :: u64) = word_of_int (2 ^ 32 * z)"
proof -
  have "(2 ^ 32 * (z mod 2 ^ 32)) mod 2 ^ 64 = (2 ^ 32 * z) mod (2 ^ 64 :: int)"
    using mult_mod_right [of "2 ^ 32 :: int" z "2 ^ 32"] by simp
  then have "take_bit LENGTH(64) (2 ^ 32 * (z mod 2 ^ 32)) = take_bit LENGTH(64) (2 ^ 32 * z)"
    by (simp add: take_bit_eq_mod)
  then show ?thesis by (simp only: word_of_int_eq_iff)
qed

lemma up_int: "up x = word_of_int (2 ^ 32 * uint x)"
  by (simp only: up_def ucast_eq of_int_mult of_int_power of_int_numeral)

lemma uint_ops32:
  "uint (x + y :: u32) = (uint x + uint y) mod 2 ^ 32" "uint (x * y :: u32) = (uint x * uint y) mod 2 ^ 32"
  by (simp_all add: uint_word_ariths)

lemma up_add: "up (x + y) = up x + up y"
proof -
  have "up (x + y) = word_of_int (2 ^ 32 * (uint x + uint y))"
    by (simp only: up_int uint_ops32 up_mod)
  then show ?thesis by (simp only: up_int distrib_left of_int_add)
qed

lemma up_minus: "up (x - y) = up x - up y"
  using up_add [of "x - y" y] by simp

lemma up_uminus: "up (- x) = - up x"
  using up_minus [of 0 x] by (simp add: up_def)

lemma up_mult: "up (x * y) = up x * ucast y"
proof -
  have "up (x * y) = word_of_int (2 ^ 32 * (uint x * uint y))"
    by (simp only: up_int uint_ops32 up_mod)
  then show ?thesis by (simp only: up_int ucast_eq of_int_mult mult.assoc)
qed

lemma up_up: "up x * up y = 0"
proof -
  have "(2 ^ 32 * 2 ^ 32 :: u64) = 0" by simp
  moreover have "up x * up y = (2 ^ 32 * 2 ^ 32) * (ucast x * ucast y)"
    unfolding up_def by (simp only: mult.assoc mult.left_commute)
  ultimately show ?thesis by (simp only: mult_zero_left)
qed

lemma up_consts [simp]: "up 0 = 0" "up 1 = 2 ^ 32"
  by (simp_all add: up_def)

lemma ucast_plus: "(ucast (x + y :: u32) :: u64) = ucast x + ucast y - (if x + y < y then 2 ^ 32 else 0)"
proof -
  have "unat (x + y) = (unat x + unat y) mod 2 ^ 32" by (simp add: unat_word_ariths)
  then have sum: "unat (x + y) + (if x + y < y then 2 ^ 32 else 0) = unat x + unat y"
    using u32_less [of x] u32_less [of y] by (auto simp: mod_if word_less_nat_alt)
  have "(ucast (x + y) :: u64) + (if x + y < y then 2 ^ 32 else 0)
      = word_of_nat (unat (x + y) + (if x + y < y then 2 ^ 32 else 0))"
    by (cases "x + y < y")
      (simp_all only: ucast_nat of_nat_add if_True if_False of_nat_power of_nat_numeral semiring_1_class.of_nat_0)
  also have "\<dots> = ucast x + ucast y" by (simp only: sum ucast_nat of_nat_add)
  finally show ?thesis by (simp only: eq_diff_eq)
qed

lemma ucast_minus: "(ucast (x - y :: u32) :: u64) = ucast x - ucast y + (if x < y then 2 ^ 32 else 0)"
proof -
  have "x - y + y < y \<longleftrightarrow> x < y" by simp
  then show ?thesis using ucast_plus [of "x - y" y] by (auto simp: algebra_simps)
qed

lemma w64_add: "w64 (JSLL_ADD a b) = w64 a + w64 b"
  by (simp add: JSLL_ADD_def Let_def w64_up up_add ucast_plus) (simp add: w64_def up_def)

lemma w64_sub: "w64 (JSLL_SUB a b) = w64 a - w64 b"
  by (simp add: JSLL_SUB_def Let_def w64_up up_minus ucast_minus) (simp add: w64_def up_def)

lemma w64_neg: "w64 (JSLL_NEG a) = - w64 a"
proof -
  have "(ucast (- lo a) :: u64) = - ucast (lo a) + (if - lo a \<noteq> 0 then 2 ^ 32 else 0)"
    using ucast_minus [of 0 "lo a"] by (simp add: word_gt_0)
  then show ?thesis
    by (simp add: JSLL_NEG_def Let_def w64_up up_minus up_uminus) (simp add: w64_def up_def)
qed

lemma unat_halves: "unat (jshi16 a) = unat a div 2 ^ 16" "unat (jslo16 a) = unat a mod 2 ^ 16"
  by (simp_all add: jshi16_def jslo16_def unat_drop_bit and_JS_BITMASK unat_take_bit)

lemma mul_halves:
  fixes a b :: nat
  defines "B \<equiv> 2 ^ 16"
  assumes "a < B * B" "b < B * B"
  defines "y0 \<equiv> (a mod B) * (b mod B)" and "y2 \<equiv> (a div B) * (b mod B)" and "y3 \<equiv> (a div B) * (b div B)"
  defines "y1 \<equiv> (a mod B) * (b div B) + y0 div B"
  shows "y0 < B * B" "y1 < B * B" "y2 < B * B" "y3 < B * B"
    "a * b = y3 * (B * B) + (y1 + y2) * B + y0 mod B"
proof -
  have h: "a div B < B" "b div B < B" "a mod B < B" "b mod B < B"
    using assms(2,3) by (simp_all add: less_mult_imp_div_less B_def)
  then have le: "a div B \<le> B - 1" "b div B \<le> B - 1" "a mod B \<le> B - 1" "b mod B \<le> B - 1" by linarith+
  have sq: "(B - 1) * (B - 1) < B * B" "(B - 1) * (B - 1) + (B - 1) < B * B" by (simp_all add: B_def)
  have "y0 \<le> (B - 1) * (B - 1)" "y2 \<le> (B - 1) * (B - 1)" "y3 \<le> (B - 1) * (B - 1)"
    unfolding y0_def y2_def y3_def using le by (intro mult_le_mono; simp)+
  moreover have "(a mod B) * (b div B) \<le> (B - 1) * (B - 1)" using le by (intro mult_le_mono)
  ultimately show y: "y0 < B * B" "y2 < B * B" "y3 < B * B" using sq by linarith+
  have "y0 div B \<le> B - 1" using y(1) by (simp add: less_mult_imp_div_less B_def less_Suc_eq_le [symmetric])
  then show "y1 < B * B" unfolding y1_def using \<open>(a mod B) * (b div B) \<le> (B - 1) * (B - 1)\<close> sq by linarith
  have "a * b = (a div B * B + a mod B) * (b div B * B + b mod B)" by simp
  also have "\<dots> = y3 * (B * B) + ((a mod B) * (b div B) + y2) * B + y0"
    by (simp only: y0_def y2_def y3_def algebra_simps)
  also have "\<dots> = y3 * (B * B) + ((a mod B) * (b div B) + y2) * B + (y0 div B * B + y0 mod B)" by simp
  also have "\<dots> = y3 * (B * B) + (y1 + y2) * B + y0 mod B" by (simp only: y1_def algebra_simps)
  finally show "a * b = y3 * (B * B) + (y1 + y2) * B + y0 mod B" .
qed

lemma v64_MUL32: "v64 (JSLL_MUL32 a b) = unat a * unat b"
proof -
  let ?a1 = "jshi16 a" and ?a0 = "jslo16 a" and ?b1 = "jshi16 b" and ?b0 = "jslo16 b"
  define A where "A = unat a" define C where "C = unat b"
  define B :: nat where "B = 2 ^ 16"
  have M: "B * B = 2 ^ 32" by (simp add: B_def)
  have lt: "A < B * B" "C < B * B" using u32_less [of a] u32_less [of b] by (simp_all add: M A_def C_def)
  define y0 where "y0 = (A mod B) * (C mod B)" define y2 where "y2 = (A div B) * (C mod B)"
  define y3 where "y3 = (A div B) * (C div B)" define y1 where "y1 = (A mod B) * (C div B) + y0 div B"
  note m = mul_halves [OF lt [unfolded B_def], folded B_def, folded y0_def y2_def y3_def, folded y1_def]
  have h: "unat ?a1 = A div B" "unat ?a0 = A mod B" "unat ?b1 = C div B" "unat ?b0 = C mod B"
    by (simp_all add: unat_halves A_def C_def B_def)
  let ?y0 = "?a0 * ?b0" let ?y2 = "?a1 * ?b0" let ?y3 = "?a1 * ?b1" let ?y1 = "?a0 * ?b1 + jshi16 ?y0"
  have u0: "unat ?y0 = y0" and u2: "unat ?y2 = y2" and u3: "unat ?y3 = y3"
    using m(1,3,4) by (subst unat_mult_small; simp add: h y0_def y2_def y3_def M)+
  have s: "(A mod B) * (C div B) < B * B" using m(2) by (simp add: y1_def)
  have u01: "unat (?a0 * ?b1) = (A mod B) * (C div B)"
    using s by (subst unat_mult_small) (simp_all add: h M)
  have hy0: "unat (jshi16 ?y0) = y0 div B" using u0 by (simp add: unat_halves B_def)
  have u1: "unat ?y1 = y1"
    using m(2) by (subst unat_add_small) (simp_all add: u01 hy0 y1_def M)
  define c where "c = (if B * B \<le> y1 + y2 then 1 else 0 :: nat)"
  define s' where "s' = y1 + y2 - c * (B * B)"
  have s': "y1 + y2 = c * (B * B) + s'" "s' < B * B" using m(2,3) by (auto simp: c_def s'_def)
  have us: "unat (?y1 + ?y2) = s'"
  proof -
    have add: "unat (x + y :: u32) = (unat x + unat y) mod 2 ^ 32" for x y by (simp add: unat_word_ariths)
    have "unat (?y1 + ?y2) = (unat ?y1 + unat ?y2) mod 2 ^ 32" by (rule add)
    then have "unat (?y1 + ?y2) = (y1 + y2) mod (B * B)" unfolding u1 u2 M .
    also have "\<dots> = (s' + c * (B * B)) mod (B * B)" by (simp only: s'(1) add.commute)
    also have "\<dots> = s'" by (simp only: mod_mult_self1 mod_less [OF s'(2)])
    finally show ?thesis .
  qed
  have carry: "?y1 + ?y2 < ?y2 \<longleftrightarrow> c = 1"
    unfolding word_less_nat_alt us u2 using s' m(2) by (auto simp: c_def split: if_splits)
  let ?y3c = "if ?y1 + ?y2 < ?y2 then ?y3 + JS_BIT 16 else ?y3"
  have prod: "A * C = (y3 + c * B + s' div B) * (B * B) + (s' mod B) * B + y0 mod B"
  proof -
    have "s' * B = s' div B * (B * B) + s' mod B * B"
      by (metis distrib_right div_mult_mod_eq mult.assoc)
    then show ?thesis unfolding m(5) s'(1) by (simp add: algebra_simps)
  qed
  have "A * C < (B * B) * (B * B)" using lt by (intro mult_strict_mono) (auto simp: B_def)
  then have bound: "y3 + c * B + s' div B < B * B"
    using prod by (metis add_lessD1 mult_less_cancel2)
  have u3c: "unat ?y3c = y3 + c * B"
  proof -
    have "unat (JS_BIT 16) = B" by (simp add: unat_JS_BIT B_def)
    then show ?thesis
      using bound carry u3 by (cases "c = 1") (auto simp: c_def unat_add_small M split: if_splits)
  qed
  have hs: "unat (jshi16 (?y1 + ?y2)) = s' div B" "unat (jslo16 (?y1 + ?y2)) = s' mod B"
    using us by (simp_all add: unat_halves B_def)
  have hi: "unat (?y3c + jshi16 (?y1 + ?y2)) = y3 + c * B + s' div B"
    using bound u3c hs(1) by (subst unat_add_small) (simp_all add: M)
  have lo0: "unat (jslo16 ?y0) = y0 mod B" using u0 by (simp add: unat_halves B_def)
  have "s' mod B \<le> B - 1" "y0 mod B \<le> B - 1" by (simp_all add: B_def less_Suc_eq_le [symmetric])
  then have small: "(s' mod B) * B + y0 mod B < B * B" "(s' mod B) * B < B * B"
    by (simp_all add: B_def)
  have pb: "unat (push_bit 16 (jslo16 (?y1 + ?y2))) = (s' mod B) * B"
    using small(2) hs(2) by (subst unat_push_bit) (simp_all add: B_def)
  have lo: "unat (push_bit 16 (jslo16 (?y1 + ?y2)) + jslo16 ?y0) = (s' mod B) * B + y0 mod B"
    using small(1) pb lo0 by (subst unat_add_small) (simp_all add: M)
  have r: "JSLL_MUL32 a b = ll (?y3c + jshi16 (?y1 + ?y2)) (push_bit 16 (jslo16 (?y1 + ?y2)) + jslo16 ?y0)"
    by (simp only: JSLL_MUL32_def Let_def)
  show ?thesis
    unfolding r v64_def ll_sel hi lo using prod by (simp add: M A_def C_def)
qed

lemma w64_v: "w64 a = word_of_nat (v64 a)"
  by (simp add: word_eq_nat_iff unat_w64 unat_of_nat_small v64_less [simplified])

lemma w64_MUL32: "w64 (JSLL_MUL32 a b) = ucast a * ucast b"
  by (simp only: w64_v v64_MUL32 of_nat_mult ucast_nat)

lemma w64_mul: "w64 (JSLL_MUL a b) = w64 a * w64 b"
proof -
  let ?r = "JSLL_MUL32 (lo a) (lo b)"
  have "JSLL_MUL a b = ll (hi ?r + (hi a * lo b + lo a * hi b)) (lo ?r)"
    by (cases ?r) (simp add: JSLL_MUL_def Let_def ll_def)
  then have "w64 (JSLL_MUL a b) = (up (hi ?r) + ucast (lo ?r)) + (up (hi a) * ucast (lo b) + up (hi b) * ucast (lo a))"
    by (simp only: w64_up up_add up_mult [of "hi a"] up_mult [of "hi b"] mult.commute [of "lo a" "hi b"])
      (simp only: add_ac)
  also have "up (hi ?r) + ucast (lo ?r) = ucast (lo a) * ucast (lo b)"
    using w64_MUL32 [of "lo a" "lo b"] by (simp add: w64_def up_def)
  also have "ucast (lo a) * ucast (lo b) + (up (hi a) * ucast (lo b) + up (hi b) * ucast (lo a))
      = (up (hi a) + ucast (lo a)) * (up (hi b) + ucast (lo b))"
    by (simp only: distrib_left distrib_right up_up) (simp only: add_ac mult_ac add_0)
  finally show ?thesis by (simp add: w64_def up_def)
qed

subsection \<open>Bits, shifts and comparisons\<close>

lemma w64_or: "w64 a = push_bit 32 (ucast (hi a)) OR ucast (lo a)"
proof -
  have "push_bit 32 (ucast (hi a)) AND (ucast (lo a) :: u64) = 0"
    by (rule bit_word_eqI) (auto simp: bit_simps dest: bit_imp_le_length)
  then have "push_bit 32 (ucast (hi a)) + ucast (lo a) = push_bit 32 (ucast (hi a)) OR (ucast (lo a) :: u64)"
    by (rule disjunctive_add_eq_or)
  then show ?thesis by (simp add: w64_def push_bit_eq_mult mult.commute)
qed

lemma bit_w64: "bit (w64 a) n = (if n < 32 then bit (lo a) n else bit (hi a) (n - 32))"
  by (auto simp: w64_or bit_simps dest: bit_imp_le_length)

lemma w64_bitI:
  assumes "\<And>n. n < 64 \<Longrightarrow> (if n < 32 then bit (lo r) n else bit (hi r) (n - 32)) = bit w n"
  shows "w64 r = w"
  by (rule bit_word_eqI) (use assms in \<open>simp add: bit_w64\<close>)

lemma bit_u32_high: "32 \<le> n \<Longrightarrow> \<not> bit (x :: u32) n"
  using bit_imp_le_length [of x n] by auto

lemma bit_u64_high: "64 \<le> n \<Longrightarrow> \<not> bit (x :: u64) n"
  using bit_imp_le_length [of x n] by auto

lemma w64_shl: "b < 64 \<Longrightarrow> w64 (JSLL_SHL a b) = push_bit b (w64 a)"
  by (rule w64_bitI, cases "b < 32")
    (auto simp: JSLL_SHL_def ll_sel bit_simps bit_w64 bit_u32_high mod_if ac_simps split: if_splits)

lemma w64_ushr: "b < 64 \<Longrightarrow> w64 (JSLL_USHR a b) = drop_bit b (w64 a)"
  by (rule w64_bitI, cases "b < 32")
    (auto simp: JSLL_USHR_def ll_sel bit_simps bit_w64 bit_u32_high mod_if ac_simps split: if_splits)

lemma w64_shr: "b < 64 \<Longrightarrow> w64 (JSLL_SHR a b) = signed_drop_bit b (w64 a)"
proof (rule w64_bitI)
  fix n :: nat assume b: "b < 64" and n: "n < 64"
  have "n = 32 \<or> n < 32 \<or> 33 \<le> n" by linarith
  then show "(if n < 32 then bit (lo (JSLL_SHR a b)) n else bit (hi (JSLL_SHR a b)) (n - 32)) = bit (signed_drop_bit b (w64 a)) n"
    using b n
    apply (cases "b < 32")
     apply (auto simp: JSLL_SHR_def ll_sel bit_simps bit_w64 bit_u32_high mod_if bit_signed_drop_bit_iff ac_simps split: if_splits)
     apply (simp_all add: numeral_eq_Suc)
    done
qed

subsection \<open>Division of a 64-bit by a normalised 32-bit number\<close>

lemma word_of_unat: "word_of_nat (unat x) = (x :: u32)"
  by simp

lemma dm_unique: "N = q * b + r \<Longrightarrow> r < b \<Longrightarrow> (N :: nat) div b = q \<and> N mod b = r"
  by simp

lemma unat_sub_nat:
  assumes "R < 2 ^ 32" "x = word_of_nat (R + unat m)" shows "unat (x - m :: u32) = R"
  using assms by (simp add: unat_of_nat_small)

text \<open>The digit loop over the natural numbers: at most two corrections, and the word addition carries
  exactly when the second one is not needed.\<close>

lemma digit_nat:
  fixes H L b :: nat
  assumes b: "2 ^ 31 \<le> b" "b < 2 ^ 32" and H: "H < b" and L: "L < 2 ^ 16"
  defines "d1 \<equiv> b div 2 ^ 16" and "d0 \<equiv> b mod 2 ^ 16"
  defines "q \<equiv> H div d1" and "r \<equiv> H mod d1 * 2 ^ 16 + L"
  shows "d0 < 2 ^ 16" "H mod d1 < 2 ^ 16" "q * d0 < 2 ^ 32" "r < b" "q * d0 \<le> r + 2 * b"
    "H * 2 ^ 16 + L + q * d0 = q * b + r" "r < q * d0 \<Longrightarrow> 0 < q" "r + b < q * d0 \<Longrightarrow> 1 < q"
proof -
  have d1: "2 ^ 15 \<le> d1" "d1 < 2 ^ 16" and bd: "b = d1 * 2 ^ 16 + d0"
    using b by (simp_all add: d1_def d0_def)
  show d0: "d0 < 2 ^ 16" by (simp add: d0_def)
  have hm: "H mod d1 < d1" using d1 by simp
  then show "H mod d1 < 2 ^ 16" using d1 by linarith
  have "q * d1 \<le> H" by (simp add: q_def)
  moreover have "H < (2 ^ 16 + 2) * d1" using H bd d0 d1 by simp
  ultimately have "q * d1 < (2 ^ 16 + 2) * d1" by (rule le_less_trans)
  then have q: "q \<le> 2 ^ 16 + 1" by simp
  have "q * d0 \<le> (2 ^ 16 + 1) * (2 ^ 16 - 1)" using q d0 by (intro mult_le_mono) simp_all
  then show m: "q * d0 < 2 ^ 32" by simp
  show "q * d0 \<le> r + 2 * b" using m b by simp
  have "H mod d1 \<le> d1 - 1" using hm by simp
  then show "r < b" unfolding r_def bd using L d1 hm by simp
  have "H = q * d1 + H mod d1" by (simp add: q_def)
  then have "H * 2 ^ 16 + L = (q * d1 + H mod d1) * 2 ^ 16 + L" by simp
  then have "H * 2 ^ 16 + L = q * (d1 * 2 ^ 16) + r" unfolding r_def by (simp only: distrib_right add.assoc mult.assoc)
  then show eq: "H * 2 ^ 16 + L + q * d0 = q * b + r" unfolding bd by (simp add: algebra_simps)
  show "r < q * d0 \<Longrightarrow> 0 < q" by (cases q) simp_all
  show "r + b < q * d0 \<Longrightarrow> 1 < q"
  proof (rule ccontr)
    assume "r + b < q * d0" "\<not> 1 < q"
    then have "q = 1" by (cases q) simp_all
    then show False using \<open>r + b < q * d0\<close> bd d1 d0 by simp
  qed
qed


lemma norm_digit_correct:
  assumes b: "2 ^ 31 \<le> unat b" and h: "h < b" and l: "unat l < 2 ^ 16"
  shows "norm_digit h l b =
    (word_of_nat ((unat h * 2 ^ 16 + unat l) div unat b), word_of_nat ((unat h * 2 ^ 16 + unat l) mod unat b))"
proof -
  define B where "B = unat b"
  define d0 where "d0 = B mod 2 ^ 16" define d1 where "d1 = B div 2 ^ 16"
  define Q where "Q = unat h div d1" define R where "R = unat h mod d1 * 2 ^ 16 + unat l"
  define N where "N = unat h * 2 ^ 16 + unat l"
  have B: "2 ^ 31 \<le> B" "B < 2 ^ 32" "unat h < B" using b h u32_less [of b] by (simp_all add: B_def word_less_nat_alt)
  note n = digit_nat [OF B l, folded d0_def d1_def, folded Q_def R_def, folded N_def]
  let ?q = "h div jshi16 b" let ?m = "?q * jslo16 b" let ?r = "push_bit 16 (h mod jshi16 b) OR l"
  have hb: "unat (jshi16 b) = d1" "unat (jslo16 b) = d0" by (simp_all add: unat_halves d0_def d1_def B_def)
  have q: "unat ?q = Q" and hm: "unat (h mod jshi16 b) = unat h mod d1"
    by (simp_all add: unat_div_distrib unat_mod_distrib hb Q_def)
  have m: "unat ?m = Q * d0" using n(3) by (subst unat_mult_small) (simp_all add: q hb)
  have r: "unat ?r = R" using n(2) l by (simp add: unat_glue R_def hm)
  have fin: "(?q - word_of_nat k, ?r + word_of_nat k * b - ?m) = (word_of_nat (N div B), word_of_nat (N mod B))"
    if "k \<le> Q" "Q * d0 \<le> R + k * B" "R + k * B < Q * d0 + B" for k
  proof -
    define S where "S = R + k * B - Q * d0"
    have S: "S + Q * d0 = R + k * B" "S < B" using that by (simp_all add: S_def)
    have "Q * B = (Q - k) * B + k * B" using that(1) by (simp flip: distrib_right)
    then have "N + Q * d0 = (Q - k) * B + (R + k * B)" using n(6) by simp
    also have "\<dots> = (Q - k) * B + S + Q * d0" using S(1) by simp
    finally have "N = (Q - k) * B + S" by simp
    from dm_unique [OF this S(2)] have d: "N div B = Q - k" "N mod B = S" by simp_all
    have w: "?q = word_of_nat Q" "?r = word_of_nat R" "?m = word_of_nat (Q * d0)" "b = word_of_nat B"
      using q r by (simp_all only: B_def word_of_unat flip: q r) (metis m q word_of_unat)
    have "word_of_nat (S + Q * d0) = (word_of_nat (R + k * B) :: u32)" by (simp only: S(1))
    then have "word_of_nat R + word_of_nat k * word_of_nat B - word_of_nat (Q * d0) = (word_of_nat S :: u32)"
      by (simp only: of_nat_add of_nat_mult diff_eq_eq)
    then have "?r + word_of_nat k * b - ?m = word_of_nat S" by (simp only: w(2,3) flip: w(4))
    moreover have "?q - word_of_nat k = word_of_nat (Q - k)" by (simp only: of_nat_diff [OF that(1)] w(1))
    ultimately show ?thesis unfolding d by simp
  qed
  have eq: "?r < ?m \<longleftrightarrow> R < Q * d0" by (simp only: word_less_nat_alt r m)
  have unat_rb: "unat (?r + b) = (if R + B < 2 ^ 32 then R + B else R + B - 2 ^ 32)"
    using n(4) B(2) by (simp add: unat_word_ariths r flip: B_def) (simp add: mod_if)
  have nocarry: "b \<le> ?r + b \<longleftrightarrow> R + B < 2 ^ 32"
    using n(4) B(2) by (auto simp: word_le_nat_alt unat_rb simp flip: B_def)
  have nd: "norm_digit h l b =
      (if ?r < ?m then if b \<le> ?r + b \<and> ?r + b < ?m then (?q - 2, ?r + 2 * b - ?m) else (?q - 1, ?r + b - ?m)
       else (?q, ?r - ?m))"
    by (simp add: norm_digit_def Let_def)
  show ?thesis unfolding N_def [symmetric] B_def [symmetric]
  proof (cases "R < Q * d0")
    case False
    then have "norm_digit h l b = (?q - word_of_nat 0, ?r + word_of_nat 0 * b - ?m)" by (simp add: nd eq)
    also have "\<dots> = (word_of_nat (N div B), word_of_nat (N mod B))" by (rule fin) (use False n(4) in simp_all)
    finally show "norm_digit h l b = (word_of_nat (N div B), word_of_nat (N mod B))" .
  next
    case True note lt = this
    show "norm_digit h l b = (word_of_nat (N div B), word_of_nat (N mod B))"
    proof (cases "R + B < Q * d0")
      case True
      then have "b \<le> ?r + b" "?r + b < ?m" using n(3) by (simp_all add: nocarry word_less_nat_alt unat_rb m)
      then have "norm_digit h l b = (?q - word_of_nat 2, ?r + word_of_nat 2 * b - ?m)" using lt eq by (simp add: nd)
      also have "\<dots> = (word_of_nat (N div B), word_of_nat (N mod B))"
        by (rule fin) (use True n(4,5,8) in simp_all)
      finally show ?thesis .
    next
      case False
      then have "\<not> (b \<le> ?r + b \<and> ?r + b < ?m)" by (auto simp: nocarry word_less_nat_alt unat_rb m)
      then have "norm_digit h l b = (?q - word_of_nat 1, ?r + word_of_nat 1 * b - ?m)" using lt eq by (simp add: nd)
      also have "\<dots> = (word_of_nat (N div B), word_of_nat (N mod B))"
        by (rule fin) (use False lt n(4,7) in simp_all)
      finally show ?thesis .
    qed
  qed
qed

lemma chain_less: "H < B \<Longrightarrow> L < M \<Longrightarrow> (H * M + L) div B < (M :: nat)"
proof (rule less_mult_imp_div_less)
  assume a: "H < B" "L < M"
  have "H * M + L < (H + 1) * M" using a by simp
  also have "\<dots> \<le> B * M" using a by (intro mult_le_mono1) simp
  finally show "H * M + L < M * B" by (simp only: mult.commute)
qed

lemma norm_digitD:
  assumes "norm_digit h l b = (q, r)" "2 ^ 31 \<le> unat b" "h < b" "unat l < 2 ^ 16"
  shows "unat h * 2 ^ 16 + unat l = unat q * unat b + unat r" "r < b" "unat q < 2 ^ 16"
proof -
  define N where "N = unat h * 2 ^ 16 + unat l"
  have h: "unat h < unat b" using assms(3) by (simp add: word_less_nat_alt)
  have q: "q = word_of_nat (N div unat b)" and r: "r = word_of_nat (N mod unat b)"
    using norm_digit_correct [OF assms(2,3,4)] assms(1) by (simp_all add: N_def)
  have "N div unat b < 2 ^ 16" unfolding N_def using h assms(4) by (rule chain_less)
  then have uq: "unat q = N div unat b" "unat q < 2 ^ 16" by (simp_all add: q unat_of_nat_small)
  have "N mod unat b < unat b" using h by simp
  then have ur: "unat r = N mod unat b" "r < b"
    using u32_less [of b] by (simp_all add: r unat_of_nat_small word_less_nat_alt)
  show "N = unat q * unat b + unat r" by (simp add: uq ur)
  show "r < b" "unat q < 2 ^ 16" by fact+
qed

lemma norm_udivmod32D:
  assumes e: "norm_udivmod32 a b = (q, r)" and b: "2 ^ 31 \<le> unat b" and h: "hi a < b"
  shows "v64 a = unat q * unat b + unat r" "r < b"
proof -
  obtain q1 r1 where 1: "norm_digit (hi a) (jshi16 (lo a)) b = (q1, r1)" by fastforce
  obtain q0 r0 where 0: "norm_digit r1 (jslo16 (lo a)) b = (q0, r0)" by fastforce
  have l: "unat (jshi16 (lo a)) < 2 ^ 16" "unat (jslo16 (lo a)) < 2 ^ 16"
    "unat (lo a) = unat (jshi16 (lo a)) * 2 ^ 16 + unat (jslo16 (lo a))"
    using u32_less [of "lo a"] by (simp_all add: unat_halves)
  note d1 = norm_digitD [OF 1 b h l(1)]
  note d0 = norm_digitD [OF 0 b d1(2) l(2)]
  have r: "r = r0" and "q = push_bit 16 q1 OR q0" using e by (simp_all add: norm_udivmod32_def 1 0)
  then have q: "unat q = unat q1 * 2 ^ 16 + unat q0" using d0(3) d1(3) by (simp add: unat_glue)
  have "v64 a = (unat (hi a) * 2 ^ 16 + unat (jshi16 (lo a))) * 2 ^ 16 + unat (jslo16 (lo a))"
    using l(3) by (simp add: v64_def)
  also have "\<dots> = unat q1 * 2 ^ 16 * unat b + (unat r1 * 2 ^ 16 + unat (jslo16 (lo a)))"
    unfolding d1(1) by (simp add: algebra_simps)
  finally show "v64 a = unat q * unat b + unat r" unfolding d0(1) q r by (simp add: algebra_simps)
  show "r < b" using d0(2) r by simp
qed

subsection \<open>Division of 64-bit numbers\<close>

text \<open>Normalising: shifting a 64-bit number left by \<open>0 < s < 32\<close> into three words.\<close>

lemma shift_words:
  assumes s: "0 < s" "s < 32"
  shows "unat (drop_bit (32 - s) h) * 2 ^ 64 + v64 (ll (push_bit s h OR drop_bit (32 - s) l) (push_bit s l))
     = v64 (ll h l) * 2 ^ s"
    "unat (drop_bit (32 - s) h) < 2 ^ s"
proof -
  define p where "p = (2 :: nat) ^ s" define c where "c = (2 :: nat) ^ (32 - s)"
  have pc: "2 ^ 32 = c * p" "0 < p" "0 < c" using s by (simp_all add: p_def c_def flip: power_add)
  have d: "unat (drop_bit (32 - s) x) = unat x div c" for x :: u32
    unfolding c_def unat_drop_bit_eq by (rule drop_bit_eq_div)
  have small: "unat x div c < p" for x :: u32
    using u32_less [of x] pc by (simp add: less_mult_imp_div_less mult.commute)
  show "unat (drop_bit (32 - s) h) < 2 ^ s" using small [of h] by (simp add: d p_def)
  have hl: "unat (push_bit s h OR drop_bit (32 - s) l) = unat h * p mod (c * p) + unat l div c"
    using unat_glue [of "drop_bit (32 - s) l" s h] small [of l] s by (simp only: d flip: p_def pc(1))
  have l: "unat (push_bit s l) = unat l mod c * p"
    by (simp only: unat_push pc(1) p_def [symmetric] mod_mult_mult2)
  define h1 where "h1 = unat h div c" define h0 where "h0 = unat h mod c"
  define l1 where "l1 = unat l div c" define l0 where "l0 = unat l mod c"
  have "unat h = h1 * c + h0" "unat l = l1 * c + l0" by (simp_all add: h1_def h0_def l1_def l0_def)
  moreover have "(2 :: nat) ^ 64 = (c * p) * (c * p)" by (simp flip: pc(1))
  ultimately show "unat (drop_bit (32 - s) h) * 2 ^ 64
      + v64 (ll (push_bit s h OR drop_bit (32 - s) l) (push_bit s l)) = v64 (ll h l) * 2 ^ s"
    unfolding v64_def ll_sel hl l d mod_mult_mult2 h1_def [symmetric] h0_def [symmetric] l1_def [symmetric]
      l0_def [symmetric] pc(1) p_def [symmetric]
    by (simp only: algebra_simps)
qed

end
