(* ===== verification/LongLong_Div.thy ===== *)
theory LongLong_Div
  imports LongLong_Correct "HOL-Library.Signed_Division"
begin

text \<open>
  The 64-bit division of \<open>js/src/jslong.c\<close>: each branch of \<open>jsll_udivmod\<close> separately, its quotient for
  every divisor, and where its remainder is not the remainder.
\<close>

subsection \<open>The branches\<close>

lemma scaled_div_mod:
  assumes "A * p = q * (b * p) + r" "r < b * p" "0 < (p :: nat)"
  shows "A div b = q" "A mod b = r div p"
proof -
  have "p dvd q * (b * p) + r" using assms(1) by (metis dvd_triv_right)
  then have "p dvd r" by (simp add: dvd_add_right_iff)
  then obtain k where r: "r = k * p" using dvdE mult.commute by metis
  have "A * p = (q * b + k) * p" using assms(1) r by (simp add: algebra_simps)
  then have A: "A = q * b + k" using assms(3) by simp
  have "k < b" using assms(2,3) r by simp
  then show "A div b = q" "A mod b = r div p" using A r assms(3) by simp_all
qed

lemma v64_ll: "v64 (ll h l) = unat h * 2 ^ 32 + unat l"
  by (simp add: v64_def)

lemma unat_drop: "unat (drop_bit s (x :: u32)) = unat x div 2 ^ s"
  unfolding unat_drop_bit_eq by (rule drop_bit_eq_div)

lemma unat_push_exact: "unat (x :: u32) * 2 ^ s < 2 ^ 32 \<Longrightarrow> unat (push_bit s x) = unat x * 2 ^ s"
  by (simp only: unat_push mod_less)

lemma shift_small:
  assumes "0 < s" "s < 32" "unat (h :: u32) * 2 ^ s < 2 ^ 32"
  shows "drop_bit (32 - s) h = 0"
    "v64 (ll (push_bit s h OR drop_bit (32 - s) l) (push_bit s l)) = v64 (ll h l) * 2 ^ s"
proof -
  have "(2 :: nat) ^ 32 = 2 ^ (32 - s) * 2 ^ s" using assms(2) by (simp flip: power_add)
  then have "unat h < 2 ^ (32 - s)" using assms(3) by (metis mult_less_cancel2)
  then show z: "drop_bit (32 - s) h = 0" by (simp add: word_eq_nat_iff unat_drop)
  show "v64 (ll (push_bit s h OR drop_bit (32 - s) l) (push_bit s l)) = v64 (ll h l) * 2 ^ s"
    using shift_words(1) [OF assms(1,2), of h l] by (simp add: z)
qed

text \<open>The final shift of the remainder.\<close>

lemma v64_unshift:
  assumes "0 < s" "s < 32"
  shows "v64 (ll (drop_bit s (hi a)) (push_bit (32 - s) (hi a) OR drop_bit s (lo a))) = v64 a div 2 ^ s"
proof -
  have "ll (drop_bit s (hi a)) (push_bit (32 - s) (hi a) OR drop_bit s (lo a)) = JSLL_USHR a s"
    using assms by (simp add: JSLL_USHR_def)
  moreover have "unat (w64 (JSLL_USHR a s)) = v64 a div 2 ^ s"
    unfolding w64_ushr [OF order_less_le_trans [OF assms(2)], simplified] unat_drop_bit_eq unat_w64
    by (rule drop_bit_eq_div)
  ultimately show ?thesis by (simp add: unat_w64)
qed

lemma div_case_small:
  assumes b: "hi b = 0" "lo b > hi a"
  shows "\<exists>q r. jsll_udivmod a b = Some (q, r) \<and> v64 q = v64 a div v64 b \<and> v64 r = v64 a mod v64 b"
proof -
  define s where "s = unat (CountLeadingZeros (lo b))"
  define p where "p = (2 :: nat) ^ s"
  have "lo b \<noteq> 0" using b(2) by auto
  note c = CountLeadingZeros_bounds [OF this, folded s_def, folded p_def]
  have vb: "v64 b = unat (lo b)" by (simp add: v64_def b(1))
  have lt: "unat (hi a) < unat (lo b)" using b(2) by (simp add: word_less_nat_alt)
  define d where "d = (if s \<noteq> 0 then push_bit s (lo b) else lo b)"
  define h where "h = (if s \<noteq> 0 then push_bit s (hi a) OR drop_bit (32 - s) (lo a) else hi a)"
  define l where "l = (if s \<noteq> 0 then push_bit s (lo a) else lo a)"
  have ud: "unat d = unat (lo b) * p"
    using c(3) unat_push_exact [of "lo b" s] by (simp add: d_def p_def)
  have "unat (hi a) * p < 2 ^ 32" using lt c(3) by (meson less_imp_le_nat mult_le_mono1 order_le_less_trans)
  then have va: "v64 (ll h l) = v64 a * p"
    using shift_small(2) [of s "hi a" "lo a"] c(1) by (simp add: h_def l_def p_def)
  have "v64 a < unat (lo b) * 2 ^ 32"
  proof -
    have "v64 a < (unat (hi a) + 1) * 2 ^ 32" using u32_less [of "lo a"] by (simp add: v64_def)
    also have "\<dots> \<le> unat (lo b) * 2 ^ 32" using lt by (intro mult_le_mono1) simp
    finally show ?thesis .
  qed
  then have "v64 a * p < unat (lo b) * 2 ^ 32 * p" by (simp add: p_def)
  then have "unat h * 2 ^ 32 + unat l < unat d * 2 ^ 32"
    unfolding ud va [symmetric] v64_ll by (simp add: mult.commute mult.left_commute)
  then have "unat h * 2 ^ 32 < unat d * 2 ^ 32" by linarith
  then have hd: "hi (ll h l) < d" by (simp add: word_less_nat_alt)
  obtain q r where n: "norm_udivmod32 (ll h l) d = (q, r)" by fastforce
  have "2 ^ 31 \<le> unat d" using c(2) ud by simp
  note D = norm_udivmod32D [OF n this hd]
  have "v64 a * p = unat q * (unat (lo b) * p) + unat r" "unat r < unat (lo b) * p"
    using D by (simp_all add: va ud word_less_nat_alt)
  note S = scaled_div_mod [OF this]
  have "jsll_udivmod a b = Some (ll 0 q, ll 0 (drop_bit s r))"
    using b n by (simp add: jsll_udivmod_def Let_def s_def [symmetric] d_def h_def l_def)
  then show ?thesis using S by (simp add: v64_ll vb unat_drop p_def)
qed

lemma div_case_top:
  assumes b: "hi b = 0" "lo b \<noteq> 0" "\<not> lo b > hi a" and z: "CountLeadingZeros (lo b) = 0"
  shows "\<exists>q r. jsll_udivmod a b = Some (q, r) \<and> v64 q = v64 a div v64 b \<and> v64 r = v64 a mod v64 b"
proof -
  have top: "2 ^ 31 \<le> unat (lo b)" using CountLeadingZeros_bounds(2) [OF b(2)] by (simp add: z)
  have vb: "v64 b = unat (lo b)" by (simp add: v64_def b(1))
  have le: "unat (lo b) \<le> unat (hi a)" using b(3) by (simp add: word_less_nat_alt)
  have u: "unat (hi a - lo b) = unat (hi a) - unat (lo b)" using b(3) by (simp add: unat_sub not_less)
  have hd: "hi (ll (hi a - lo b) (lo a)) < lo b"
    using top le u32_less [of "hi a"] by (simp add: word_less_nat_alt u)
  obtain q r where n: "norm_udivmod32 (ll (hi a - lo b) (lo a)) (lo b) = (q, r)" by fastforce
  note D = norm_udivmod32D [OF n top hd]
  have "v64 a = unat (lo b) * 2 ^ 32 + v64 (ll (hi a - lo b) (lo a))"
    using le by (simp add: v64_def u)
  then have va: "v64 a = (2 ^ 32 + unat q) * unat (lo b) + unat r" unfolding D(1) by (simp add: algebra_simps)
  have "unat r < unat (lo b)" using D(2) by (simp add: word_less_nat_alt)
  note S = dm_unique [OF va this]
  have "jsll_udivmod a b = Some (ll 1 q, ll 0 r)"
    using b n z by (simp add: jsll_udivmod_def Let_def)
  then show ?thesis using S by (simp add: v64_ll vb)
qed

lemma div_case_two:
  assumes b: "hi b = 0" "lo b \<noteq> 0" "\<not> lo b > hi a" and z: "CountLeadingZeros (lo b) \<noteq> 0"
  shows "\<exists>q r. jsll_udivmod a b = Some (q, r) \<and> v64 q = v64 a div v64 b \<and> v64 r = v64 a mod v64 b"
proof -
  define s where "s = unat (CountLeadingZeros (lo b))"
  define p where "p = (2 :: nat) ^ s"
  note c = CountLeadingZeros_bounds [OF b(2), folded s_def, folded p_def]
  have s0: "0 < s" using z by (simp add: s_def unat_gt_0)
  have vb: "v64 b = unat (lo b)" by (simp add: v64_def b(1))
  define d where "d = push_bit s (lo b)"
  have ud: "unat d = unat (lo b) * p" using c(3) unat_push_exact [of "lo b" s] by (simp add: d_def p_def)
  let ?n2 = "drop_bit (32 - s) (hi a)" and ?n1 = "push_bit s (hi a) OR drop_bit (32 - s) (lo a)" and ?n0 = "push_bit s (lo a)"
  note W = shift_words(1) [OF s0 c(1), of "hi a" "lo a", folded p_def]
    shift_words(2) [OF s0 c(1), of "hi a", folded p_def]
  have "p \<le> 2 ^ 31" unfolding p_def using c(1) by (intro power_increasing) simp_all
  then have h2: "hi (ll ?n2 ?n1) < d" using W(2) c(2) ud by (simp add: word_less_nat_alt)
  have top: "2 ^ 31 \<le> unat d" using c(2) ud by simp
  obtain q1 r1 where n1: "norm_udivmod32 (ll ?n2 ?n1) d = (q1, r1)" by fastforce
  note D1 = norm_udivmod32D [OF n1 top h2]
  have h1: "hi (ll r1 ?n0) < d" using D1(2) by simp
  obtain q0 r0 where n0: "norm_udivmod32 (ll r1 ?n0) d = (q0, r0)" by fastforce
  note D0 = norm_udivmod32D [OF n0 top h1]
  have "v64 a * p = v64 (ll ?n2 ?n1) * 2 ^ 32 + unat ?n0"
    using W(1) by (simp add: v64_ll algebra_simps)
  also have "\<dots> = unat q1 * unat d * 2 ^ 32 + v64 (ll r1 ?n0)"
    unfolding D1(1) by (simp add: v64_ll algebra_simps)
  also have "\<dots> = (unat q1 * 2 ^ 32 + unat q0) * (unat (lo b) * p) + unat r0"
    unfolding D0(1) ud by (simp add: algebra_simps)
  finally have va: "v64 a * p = (unat q1 * 2 ^ 32 + unat q0) * (unat (lo b) * p) + unat r0" .
  have "unat r0 < unat (lo b) * p" "0 < p" using D0(2) ud by (simp_all add: word_less_nat_alt p_def)
  note S = scaled_div_mod [OF va this]
  have "jsll_udivmod a b = Some (ll q1 q0, ll 0 (drop_bit s r0))"
    using b n1 n0 s0 by (simp add: jsll_udivmod_def Let_def s_def [symmetric] flip: d_def)
  then show ?thesis using S by (simp add: v64_ll vb unat_drop p_def)
qed

lemma div_case_less:
  assumes "hi b \<noteq> 0" "hi b > hi a"
  shows "\<exists>q r. jsll_udivmod a b = Some (q, r) \<and> v64 q = v64 a div v64 b \<and> v64 r = v64 a mod v64 b"
proof -
  have "(unat (hi a) + 1) * 2 ^ 32 \<le> unat (hi b) * 2 ^ 32"
    using assms(2) by (intro mult_le_mono1) (simp add: word_less_nat_alt)
  then have "v64 a < v64 b" using u32_less [of "lo a"] by (simp add: v64_def)
  then show ?thesis using assms by (simp add: jsll_udivmod_def Let_def v64_ll)
qed

text \<open>A divisor with its top bit set: the quotient is right, the remainder returned is the dividend.\<close>

lemma div_case_large:
  assumes b: "hi b \<noteq> 0" "\<not> hi b > hi a" and z: "CountLeadingZeros (hi b) = 0"
  shows "\<exists>q. jsll_udivmod a b = Some (q, a) \<and> v64 q = v64 a div v64 b"
proof -
  have top: "2 ^ 31 \<le> unat (hi b)" using CountLeadingZeros_bounds(2) [OF b(1)] by (simp add: z)
  have cmp: "(hi a > hi b \<or> lo b \<le> lo a) = (v64 b \<le> v64 a)"
  proof (cases "hi a = hi b")
    case True
    then show ?thesis by (simp add: v64_def word_le_nat_alt)
  next
    case False
    then have g: "hi a > hi b" using b(2) by (simp add: not_less)
    then have "(unat (hi b) + 1) * 2 ^ 32 \<le> unat (hi a) * 2 ^ 32"
      by (intro mult_le_mono1) (simp add: word_less_nat_alt)
    then show ?thesis using g u32_less [of "lo b"] by (simp add: v64_def)
  qed
  have "2 ^ 63 \<le> v64 b" using top by (simp add: v64_def)
  then have q: "v64 a div v64 b = (if v64 b \<le> v64 a then 1 else 0)"
    using v64_less [of a] dm_unique [of "v64 a" 1 "v64 b" "v64 a - v64 b"] by auto
  show ?thesis unfolding q using b z
    by (auto simp: jsll_udivmod_def Let_def v64_ll simp flip: cmp)
qed

text \<open>A divisor of more than 32 bits: one quotient digit, at most one too large.\<close>

lemma one_correction:
  fixes q d0 d1 p s :: nat
  assumes p: "p = 2 ^ s" "0 < s" "s < 32" and d1: "2 ^ 31 \<le> d1" and d0: "p dvd d0" "d0 < 2 ^ 32"
    and q: "q * d1 < p * 2 ^ 32"
  shows "q * d0 \<le> d1 * 2 ^ 32 + d0"
proof (cases q)
  case (Suc k)
  have "q * 2 ^ 31 \<le> q * d1" using d1 by (rule mult_le_mono2)
  then have "q * 2 ^ 31 < p * 2 ^ 32" using q by linarith
  then have "q * 2 ^ 31 < 2 * p * 2 ^ 31" by simp
  then have "q < 2 * p" by (simp only: mult_less_cancel2)
  then have k: "k \<le> 2 * p - 2" using Suc by simp
  have "k * d0 \<le> 2 ^ 63"
  proof (cases "s = 31")
    case True
    then obtain j where j: "d0 = 2 ^ 31 * j" using d0(1) p(1) by (auto elim: dvdE)
    then have "j \<le> 1" using d0(2) by simp
    then have "d0 \<le> 2 ^ 31" using j by simp
    then have "k * d0 \<le> 2 ^ 32 * 2 ^ 31" using k p True by (intro mult_le_mono) simp_all
    then show ?thesis by simp
  next
    case False
    then have "p \<le> 2 ^ 30" unfolding p(1) using p(3) by (intro power_increasing) simp_all
    then have "k * d0 \<le> 2 ^ 31 * 2 ^ 32" using k d0(2) by (intro mult_le_mono) simp_all
    then show ?thesis by simp
  qed
  then show ?thesis using d1 Suc by simp
qed simp

lemma v64_of_w64: "w64 a = word_of_nat R \<Longrightarrow> R < 2 ^ 64 \<Longrightarrow> v64 a = R"
  by (simp only: flip: unat_w64) (simp add: unat_of_nat_small)

lemma sub_sub_nat:
  assumes "R + v64 m = v64 x + v64 b" "R < 2 ^ 64"
  shows "v64 (JSLL_SUB x (JSLL_SUB m b)) = R"
proof (rule v64_of_w64 [OF _ assms(2)])
  have "word_of_nat (R + v64 m) = (word_of_nat (v64 x + v64 b) :: u64)" by (simp only: assms(1))
  then have "word_of_nat R + w64 m = w64 x + w64 b" by (simp only: of_nat_add w64_v)
  then show "w64 (JSLL_SUB x (JSLL_SUB m b)) = word_of_nat R" unfolding w64_sub by (simp add: algebra_simps)
qed

lemma sub_nat:
  assumes "R + v64 m = v64 x" "R < 2 ^ 64"
  shows "v64 (JSLL_SUB x m) = R"
proof (rule v64_of_w64 [OF _ assms(2)])
  have "word_of_nat (R + v64 m) = (word_of_nat (v64 x) :: u64)" by (simp only: assms(1))
  then have "word_of_nat R + w64 m = w64 x" by (simp only: of_nat_add w64_v)
  then show "w64 (JSLL_SUB x m) = word_of_nat R" unfolding w64_sub by (simp add: algebra_simps)
qed

lemma v64_less_hi_lo: "v64 a < v64 b \<longleftrightarrow> hi a < hi b \<or> (hi a = hi b \<and> lo a < lo b)"
proof (cases "hi a = hi b")
  case False
  have *: "v64 x < v64 y" if "hi x < hi y" for x y
  proof -
    have "(unat (hi x) + 1) * 2 ^ 32 \<le> unat (hi y) * 2 ^ 32"
      using that by (intro mult_le_mono1) (simp add: word_less_nat_alt)
    then show ?thesis using u32_less [of "lo x"] by (simp add: v64_def)
  qed
  then show ?thesis using False *[of a b] *[of b a] by (metis less_asym neqE)
qed (simp add: v64_def word_less_nat_alt)

lemma div_case_long:
  assumes b: "hi b \<noteq> 0" "\<not> hi b > hi a" and z: "CountLeadingZeros (hi b) \<noteq> 0"
  shows "\<exists>q r. jsll_udivmod a b = Some (q, r) \<and> v64 q = v64 a div v64 b \<and> v64 r = v64 a mod v64 b"
proof -
  define s where "s = unat (CountLeadingZeros (hi b))"
  define p where "p = (2 :: nat) ^ s"
  note c = CountLeadingZeros_bounds [OF b(1), folded s_def, folded p_def]
  have s0: "0 < s" using z by (simp add: s_def unat_gt_0)
  have p31: "p \<le> 2 ^ 31" unfolding p_def using c(1) by (intro power_increasing) simp_all
  define H where "H = push_bit s (hi b) OR drop_bit (32 - s) (lo b)"
  define L where "L = push_bit s (lo b)"
  define D where "D = ll H L"
  have vD: "v64 D = v64 b * p"
    using shift_small(2) [OF s0 c(1) c(3) [unfolded p_def], of "lo b"] by (simp add: D_def H_def L_def p_def)
  have top: "2 ^ 31 \<le> unat (hi D)"
  proof -
    have "unat (hi b) * p * 2 ^ 32 \<le> v64 D" unfolding vD v64_def [of b] by (simp add: algebra_simps)
    then have "2 ^ 31 * 2 ^ 32 \<le> v64 D" using c(2) by simp
    then show ?thesis using u32_less [of "lo D"] by (simp add: v64_def)
  qed
  have dvd0: "p dvd unat (lo D)"
  proof -
    have "p dvd 2 ^ 32" unfolding p_def using c(1) by (intro le_imp_power_dvd) simp
    then show ?thesis by (simp only: D_def L_def ll_sel unat_push p_def [symmetric] dvd_mod dvd_triv_right)
  qed
  define X2 where "X2 = drop_bit (32 - s) (hi a)"
  define X1 where "X1 = push_bit s (hi a) OR drop_bit (32 - s) (lo a)"
  define X0 where "X0 = push_bit s (lo a)"
  note W = shift_words(1) [OF s0 c(1), of "hi a" "lo a", folded p_def X2_def X1_def X0_def]
    shift_words(2) [OF s0 c(1), of "hi a", folded p_def X2_def]
  have h2: "hi (ll X2 X1) < hi D" using W(2) p31 top by (simp add: word_less_nat_alt)
  obtain q r where n: "norm_udivmod32 (ll X2 X1) (hi D) = (q, r)" by fastforce
  note N = norm_udivmod32D [OF n top h2]
  define X where "X = ll r X0"
  define M where "M = JSLL_MUL32 q (lo D)"
  have vM: "v64 M = unat q * unat (lo D)" by (simp add: M_def v64_MUL32)
  have va: "v64 a * p + v64 M = unat q * v64 D + v64 X"
  proof -
    have "v64 a * p = v64 (ll X2 X1) * 2 ^ 32 + unat X0" using W(1) by (simp add: v64_ll algebra_simps)
    then show ?thesis unfolding N(1) by (simp add: X_def v64_ll vM) (simp add: v64_def algebra_simps)
  qed
  have XD: "v64 X < v64 D"
  proof -
    have "(unat r + 1) * 2 ^ 32 \<le> unat (hi D) * 2 ^ 32"
      using N(2) by (intro mult_le_mono1) (simp add: word_less_nat_alt)
    then show ?thesis using u32_less [of X0] by (simp add: X_def v64_def)
  qed
  have le: "v64 M \<le> v64 D + v64 X"
  proof -
    have "unat q * unat (hi D) \<le> v64 (ll X2 X1)" using N(1) by simp
    also have "\<dots> < (unat X2 + 1) * 2 ^ 32" using u32_less [of X1] by (simp add: v64_ll)
    also have "\<dots> \<le> p * 2 ^ 32" using W(2) by (intro mult_le_mono1) simp
    finally have "unat q * unat (lo D) \<le> unat (hi D) * 2 ^ 32 + unat (lo D)"
      using u32_less [of "lo D"] by (intro one_correction [OF p_def s0 c(1) top dvd0]) simp_all
    then show ?thesis unfolding vM by (simp add: v64_def)
  qed
  have cmp: "(hi M > r \<or> hi M = r \<and> lo M > X0) = (v64 X < v64 M)"
    by (auto simp: v64_less_hi_lo X_def)
  let ?q = "if v64 X < v64 M then q - 1 else q" and ?A = "if v64 X < v64 M then JSLL_SUB X (JSLL_SUB M D) else JSLL_SUB X M"
  have "jsll_udivmod a b = Some (ll 0 ?q, ll (drop_bit s (hi ?A)) (push_bit (32 - s) (hi ?A) OR drop_bit s (lo ?A)))"
    using b s0 n
    unfolding cmp [symmetric]
    by (simp add: jsll_udivmod_def Let_def s_def [symmetric] D_def M_def X_def flip: X2_def X1_def X0_def H_def L_def)
  moreover have "v64 a * p = unat ?q * (v64 b * p) + v64 ?A \<and> v64 ?A < v64 b * p"
  proof (cases "v64 X < v64 M")
    case True
    have "q \<noteq> 0" using True vM by auto
    then obtain k where k: "unat q = Suc k" "unat (q - 1) = k" by (metis unat_gt_0 gr0_conv_Suc diff_Suc_1 unat_minus_one)
    define R where "R = v64 D + v64 X - v64 M"
    have R: "R + v64 M = v64 X + v64 D" "R < v64 D" using le True by (simp_all add: R_def)
    have "v64 (JSLL_SUB X (JSLL_SUB M D)) = R"
      using R v64_less [of D] by (intro sub_sub_nat) simp_all
    then show ?thesis using True R va k by (simp add: vD)
  next
    case False
    have "v64 (JSLL_SUB X M) = v64 X - v64 M"
      using False v64_less [of X] by (intro sub_nat) simp_all
    then show ?thesis using False va XD by (auto simp: vD)
  qed
  then have "v64 a * p = unat ?q * (v64 b * p) + v64 ?A" "v64 ?A < v64 b * p" "0 < p" by (simp_all add: p_def)
  note S = scaled_div_mod [OF this]
  ultimately show ?thesis
    using v64_unshift [OF s0 c(1), of ?A] S by (simp add: v64_ll p_def)
qed

text \<open>The divisors of the last branch but one.\<close>

lemma clz_zero: "x \<noteq> 0 \<Longrightarrow> CountLeadingZeros x = 0 \<longleftrightarrow> 2 ^ 31 \<le> unat x"
proof -
  assume x: "x \<noteq> 0"
  note c = CountLeadingZeros_bounds [OF x]
  define s where "s = unat (CountLeadingZeros x)"
  have "2 ^ 31 \<le> unat x \<longleftrightarrow> s = 0"
  proof
    assume "2 ^ 31 \<le> unat x"
    then have "2 ^ 31 * 2 ^ s \<le> unat x * 2 ^ s" by (rule mult_le_mono1)
    moreover have "unat x * 2 ^ s < 2 ^ 32" using c(3) by (simp add: s_def)
    ultimately have "2 ^ 31 * 2 ^ s < (2 :: nat) ^ 32" by (rule le_less_trans)
    then have "2 ^ 31 * 2 ^ s < (2 :: nat) ^ 31 * 2 ^ 1" by simp
    then have "(2 :: nat) ^ s < 2 ^ 1" by (simp only: mult_less_cancel1)
    then show "s = 0" by (cases s) simp_all
  qed (use c(2) in \<open>simp add: s_def\<close>)
  then show ?thesis by (simp add: s_def unat_eq_zero)
qed

lemma jsll_udivmod_zero: "v64 b = 0 \<Longrightarrow> jsll_udivmod a b = None"
proof -
  assume "v64 b = 0"
  then have "hi b = 0" "lo b = 0" by (simp_all add: v64_def unat_eq_zero)
  then show ?thesis by (simp add: jsll_udivmod_def)
qed

definition lost_remainder :: "JSInt64 \<Rightarrow> JSInt64 \<Rightarrow> bool" where
  "lost_remainder a b \<longleftrightarrow> 2 ^ 63 \<le> v64 b \<and> v64 b \<le> v64 a"

lemma udivmod_total:
  assumes "v64 b \<noteq> 0"
  shows "\<exists>q r. jsll_udivmod a b = Some (q, r) \<and> v64 q = v64 a div v64 b \<and>
    v64 r = (if lost_remainder a b then v64 a else v64 a mod v64 b)"
proof -
  have nz: "hi b = 0 \<Longrightarrow> lo b \<noteq> 0" using assms by (auto simp: v64_def)
  have top: "2 ^ 63 \<le> v64 b \<longleftrightarrow> 2 ^ 31 \<le> unat (hi b)"
    using u32_less [of "lo b"] by (auto simp: v64_def)
  consider "hi b = 0" "lo b > hi a" | "hi b = 0" "\<not> lo b > hi a" "CountLeadingZeros (lo b) = 0"
    | "hi b = 0" "\<not> lo b > hi a" "CountLeadingZeros (lo b) \<noteq> 0" | "hi b \<noteq> 0" "hi b > hi a"
    | "hi b \<noteq> 0" "\<not> hi b > hi a" "CountLeadingZeros (hi b) = 0"
    | "hi b \<noteq> 0" "\<not> hi b > hi a" "CountLeadingZeros (hi b) \<noteq> 0" by blast
  then show ?thesis
  proof cases
    case 1 then show ?thesis using div_case_small [of b a] top by (simp add: lost_remainder_def)
  next
    case 2 then show ?thesis using div_case_top [of b a] nz top by (simp add: lost_remainder_def)
  next
    case 3 then show ?thesis using div_case_two [of b a] nz top by (simp add: lost_remainder_def)
  next
    case 4
    then have "v64 a < v64 b" by (simp add: v64_less_hi_lo)
    then show ?thesis using 4 div_case_less [of b a] by (simp add: lost_remainder_def)
  next
    case 5
    then have "2 ^ 63 \<le> v64 b" using clz_zero [of "hi b"] top by blast
    then show ?thesis using 5 div_case_large [of b a] by (auto simp: lost_remainder_def)
  next
    case 6
    then have "\<not> 2 ^ 63 \<le> v64 b" using clz_zero [of "hi b"] top by blast
    then show ?thesis using 6 div_case_long [of b a] by (simp add: lost_remainder_def)
  qed
qed

subsection \<open>The operations as 64-bit words\<close>

lemma uint_w64: "uint (w64 a) = int (v64 a)"
  by (metis uint_nat unat_w64)

lemma sint_bounds32: "- 2147483648 \<le> sint (x :: u32)" "sint (x :: u32) < 2147483648"
  using sint_greater_eq [of x] sint_less [of x] by simp_all

lemma int_unat32: "int (unat (x :: u32)) < 4294967296" "0 \<le> int (unat x)"
  using u32_less [of x] by (linarith, linarith)

lemma hi_lo_int:
  fixes s t m n :: int
  assumes "0 \<le> n" "n < 4294967296" "0 \<le> m" "m < 4294967296"
  shows "s * 2 ^ 32 + n < t * 2 ^ 32 + m \<longleftrightarrow> s < t \<or> s = t \<and> n < m"
    and "0 \<le> s * 2 ^ 32 + n \<longleftrightarrow> 0 \<le> s"
    and "- 2147483648 \<le> s \<Longrightarrow> - (2 ^ 63) \<le> s * 2 ^ 32 + n"
    and "s < 2147483648 \<Longrightarrow> s * 2 ^ 32 + n < 2 ^ 63"
  using assms by auto

lemma sint_small:
  "- (2 ^ 63) \<le> k \<Longrightarrow> k < 2 ^ 63 \<Longrightarrow> sint (word_of_int k :: u64) = k"
  unfolding int_word_sint by simp

lemma sint_w64: "sint (w64 a) = sint (hi a) * 2 ^ 32 + int (unat (lo a))"
proof -
  have "uint (hi a) = sint (hi a) mod 2 ^ 32" by (simp add: uint_sint take_bit_eq_mod)
  then have "up (hi a) = word_of_int (2 ^ 32 * sint (hi a))" by (simp only: up_int up_mod)
  moreover have "(ucast (lo a) :: u64) = word_of_int (int (unat (lo a)))"
    by (simp only: ucast_nat of_int_of_nat_eq)
  ultimately have w: "w64 a = word_of_int (sint (hi a) * 2 ^ 32 + int (unat (lo a)))"
    unfolding w64_def up_def [symmetric] of_int_add by (simp only: mult.commute)
  show ?thesis unfolding w
    by (intro sint_small hi_lo_int(3,4) [OF int_unat32(2,1) int_unat32(2,1)] sint_bounds32)
qed



lemma w64_eq_iff: "w64 a = w64 b \<longleftrightarrow> a = b"
  by (metis unat_w64 v64_eq)





lemma w64_ISHL: "0 < b \<Longrightarrow> b < 64 \<Longrightarrow> w64 (JSLL_ISHL a b) = push_bit b (scast a)"
proof (rule w64_bitI)
  fix n :: nat assume b: "0 < b" "b < 64" and n: "n < 64"
  show "(if n < 32 then bit (lo (JSLL_ISHL a b)) n else bit (hi (JSLL_ISHL a b)) (n - 32)) = bit (push_bit b (scast a) :: u64) n"
    using b n by (cases "b < 32") (auto simp: JSLL_ISHL_def ll_sel bit_simps bit_signed_drop_bit_iff bit_u32_high mod_if ac_simps split: if_splits)
qed

subsection \<open>Signed division\<close>

lemma sint_hi_neg: "sint (hi a) < 0 \<longleftrightarrow> sint (w64 a) < 0"
  using hi_lo_int(2) [OF int_unat32(2,1) int_unat32(2,1), of "sint (hi a)" "lo a"] unfolding sint_w64 by linarith

lemma w64_of_sint: "w64 a = word_of_int (sint (w64 a))"
  by simp

lemma v64_sint: "int (v64 a) = sint (w64 a) mod 2 ^ 64"
  unfolding uint_w64 [symmetric] by (simp add: uint_sint take_bit_eq_mod)

lemma sint_bounds64: "- (2 ^ 63) \<le> sint (x :: u64)" "sint (x :: u64) < 2 ^ 63"
  using sint_greater_eq [of x] sint_less [of x] by simp_all

text \<open>The sign is stripped from each operand; for the most negative number that leaves its magnitude
  as an unsigned number.\<close>

definition magnitude :: "JSInt64 \<Rightarrow> JSInt64" where
  "magnitude a = (if sint (hi a) < 0 then JSLL_NEG a else a)"

lemma v64_magnitude: "int (v64 (magnitude a)) = \<bar>sint (w64 a)\<bar>"
proof (cases "sint (w64 a) < 0")
  case True
  have "w64 (magnitude a) = word_of_int (- sint (w64 a))"
    using True by (simp add: magnitude_def sint_hi_neg w64_neg)
  then have "uint (w64 (magnitude a)) = uint (word_of_int (- sint (w64 a)) :: u64)" by (simp only:)
  also have "\<dots> = - sint (w64 a) mod 2 ^ 64" by (subst uint_word_of_int) simp
  finally have "int (v64 (magnitude a)) = - sint (w64 a) mod 2 ^ 64" unfolding uint_w64 .
  then show ?thesis using True sint_bounds64 [of "w64 a"] by simp
next
  case False
  then have "int (v64 (magnitude a)) = sint (w64 a) mod 2 ^ 64"
    by (simp add: magnitude_def sint_hi_neg v64_sint)
  then show ?thesis using False sint_bounds64 [of "w64 a"] by simp
qed

lemma magnitude_nz: "v64 b \<noteq> 0 \<Longrightarrow> v64 (magnitude b) \<noteq> 0"
proof
  assume "v64 b \<noteq> 0" "v64 (magnitude b) = 0"
  then have "sint (w64 b) = 0" using v64_magnitude [of b] by linarith
  then show False using v64_sint [of b] \<open>v64 b \<noteq> 0\<close> by simp
qed

lemma w64_signed: "w64 (if n then JSLL_NEG q else q) = word_of_int ((if n then - 1 else 1) * int (v64 q))"
  by (simp add: w64_neg) (simp add: w64_v)

lemma signed_quotient:
  fixes x y :: int
  shows "(if (y < 0) \<noteq> (x < 0) then - 1 else 1) * (\<bar>x\<bar> div \<bar>y\<bar>) = x sdiv y"
    "(if x < 0 then - 1 else 1) * (\<bar>x\<bar> mod \<bar>y\<bar>) = x smod y"
  by (auto simp: signed_divide_int_def signed_modulo_int_def sgn_if abs_if)

lemma JSLL_DIV_correct:
  assumes "v64 b \<noteq> 0"
  shows "\<exists>q. JSLL_DIV a b = Some q \<and> w64 q = word_of_int (sint (w64 a) sdiv sint (w64 b))"
proof -
  have "v64 (magnitude b) \<noteq> 0" by (rule magnitude_nz [OF assms])
  from udivmod_total [OF this, of "magnitude a"] obtain q r where
    d: "jsll_udivmod (magnitude a) (magnitude b) = Some (q, r)" and
    q: "v64 q = v64 (magnitude a) div v64 (magnitude b)" by blast
  let ?n = "(sint (hi b) < 0) \<noteq> (sint (hi a) < 0)"
  have "JSLL_DIV a b = Some (if ?n then JSLL_NEG q else q)"
    using d by (auto simp: JSLL_DIV_def Let_def magnitude_def)
  moreover have "int (v64 q) = \<bar>sint (w64 a)\<bar> div \<bar>sint (w64 b)\<bar>"
    by (simp only: q of_nat_div v64_magnitude)
  then have "w64 (if ?n then JSLL_NEG q else q) = word_of_int (sint (w64 a) sdiv sint (w64 b))"
    unfolding w64_signed by (simp only: sint_hi_neg signed_quotient(1))
  ultimately show ?thesis by blast
qed

lemma sint_MinInt: "sint (w64 a) = - (2 ^ 63) \<longleftrightarrow> a = JSLL_MinInt"
proof -
  have "sint (w64 JSLL_MinInt) = - (2 ^ 63)" by (simp add: sint_w64 JSLL_MinInt_def)
  then show ?thesis by (metis signed_word_eqI w64_eq_iff)
qed

lemma lost_remainder_magnitude:
  "lost_remainder (magnitude a) (magnitude b) \<longleftrightarrow> a = JSLL_MinInt \<and> b = JSLL_MinInt"
proof -
  have i: "2 ^ 63 \<le> n \<and> n \<le> m \<longleftrightarrow> 2 ^ 63 \<le> int n \<and> int n \<le> int m" for m n by auto
  have "lost_remainder (magnitude a) (magnitude b) \<longleftrightarrow>
      2 ^ 63 \<le> \<bar>sint (w64 b)\<bar> \<and> \<bar>sint (w64 b)\<bar> \<le> \<bar>sint (w64 a)\<bar>"
    unfolding lost_remainder_def i v64_magnitude ..
  also have "\<dots> \<longleftrightarrow> sint (w64 a) = - (2 ^ 63) \<and> sint (w64 b) = - (2 ^ 63)"
    using sint_bounds64 [of "w64 a"] sint_bounds64 [of "w64 b"] by auto
  finally show ?thesis unfolding sint_MinInt .
qed

lemma JSLL_MOD_correct:
  assumes "v64 b \<noteq> 0"
  shows "\<exists>r. JSLL_MOD a b = Some r \<and> w64 r = word_of_int
    (if a = JSLL_MinInt \<and> b = JSLL_MinInt then sint (w64 a) else sint (w64 a) smod sint (w64 b))"
proof -
  have "v64 (magnitude b) \<noteq> 0" by (rule magnitude_nz [OF assms])
  from udivmod_total [OF this, of "magnitude a"] obtain q r where
    d: "jsll_udivmod (magnitude a) (magnitude b) = Some (q, r)" and
    r: "v64 r = (if a = JSLL_MinInt \<and> b = JSLL_MinInt then v64 (magnitude a) else v64 (magnitude a) mod v64 (magnitude b))"
    unfolding lost_remainder_magnitude by blast
  let ?n = "sint (hi a) < 0"
  have m: "JSLL_MOD a b = Some (if ?n then JSLL_NEG r else r)"
    using d by (auto simp: JSLL_MOD_def Let_def magnitude_def)
  have "w64 (if ?n then JSLL_NEG r else r) = word_of_int
    (if a = JSLL_MinInt \<and> b = JSLL_MinInt then sint (w64 a) else sint (w64 a) smod sint (w64 b))"
  proof (cases "a = JSLL_MinInt \<and> b = JSLL_MinInt")
    case True
    then have "sint (w64 a) = - (2 ^ 63)" using sint_MinInt by blast
    moreover have "int (v64 r) = \<bar>sint (w64 a)\<bar>" using True by (simp add: r v64_magnitude)
    ultimately show ?thesis unfolding w64_signed using True by (simp add: sint_hi_neg)
  next
    case False
    then have "int (v64 r) = \<bar>sint (w64 a)\<bar> mod \<bar>sint (w64 b)\<bar>"
      by (simp only: r if_False of_nat_mod v64_magnitude)
    then show ?thesis unfolding w64_signed using False by (simp only: sint_hi_neg signed_quotient(2) if_False)
  qed
  with m show ?thesis by blast
qed

subsection \<open>Properties\<close>


text \<open>For counts below 64 the shift macros are the shifts of a 64-bit word: left, right with sign
  extension, unsigned right, and (for nonzero counts) the left shift of a sign-extended 32-bit word.\<close>

theorem longlong_shifts:
  assumes "b < 64"
  shows "w64 (JSLL_SHL a b) = push_bit b (w64 a) \<and> w64 (JSLL_SHR a b) = signed_drop_bit b (w64 a) \<and>
    w64 (JSLL_USHR a b) = drop_bit b (w64 a) \<and>
    w64 (JSLL_ISHL i b) = (if b = 0 then ucast i else push_bit b (scast i))"
proof (cases "b = 0")
  case True
  then show ?thesis by (simp add: w64_shl w64_shr w64_ushr) (simp add: JSLL_ISHL_def w64_up)
next
  case False
  then show ?thesis using assms by (simp add: w64_shl w64_shr w64_ushr w64_ISHL)
qed

theorem longlong_shifts_witness:
  "w64 (JSLL_SHL (ll 1 2) 33) = push_bit 33 (w64 (ll 1 2)) \<and> w64 (JSLL_SHR (ll 0x80000000 2) 33) = signed_drop_bit 33 (w64 (ll 0x80000000 2))"
  using longlong_shifts [of 33 "ll 1 2"] longlong_shifts [of 33 "ll 0x80000000 2"] by simp
text \<open>C12. \<open>jsll_udivmod\<close> on every pair: a zero divisor is the division by zero the code provokes; otherwise the
  quotient is exact, and the remainder is exact except that a divisor with its top bit set that fits into the
  dividend leaves the whole dividend as the remainder.\<close>

theorem longlong_udivmod:
  "case jsll_udivmod a b of
     None \<Rightarrow> v64 b = 0
   | Some (q, r) \<Rightarrow> v64 b \<noteq> 0 \<and> v64 q = v64 a div v64 b \<and>
       v64 r = (if 2 ^ 63 \<le> v64 b \<and> v64 b \<le> v64 a then v64 a else v64 a mod v64 b)"
proof (cases "v64 b = 0")
  case True
  then show ?thesis by (simp add: jsll_udivmod_zero)
next
  case False
  from udivmod_total [OF this, of a] obtain q r where
    "jsll_udivmod a b = Some (q, r)" "v64 q = v64 a div v64 b"
    "v64 r = (if lost_remainder a b then v64 a else v64 a mod v64 b)" by blast
  then show ?thesis using False by (simp add: lost_remainder_def)
qed

text \<open>The signed division macros truncate towards zero and give the remainder the sign of the dividend,
  modulo \<open>2 ^ 64\<close>, for every nonzero divisor except that the remainder of the smallest number by itself
  comes out as that number instead of zero.\<close>

theorem longlong_signed_division:
  assumes "v64 b \<noteq> 0"
  shows "\<exists>q r. JSLL_DIV a b = Some q \<and> w64 q = word_of_int (sint (w64 a) sdiv sint (w64 b)) \<and>
    JSLL_MOD a b = Some r \<and>
    w64 r = word_of_int (if a = JSLL_MinInt \<and> b = JSLL_MinInt then sint (w64 a) else sint (w64 a) smod sint (w64 b))"
  using JSLL_DIV_correct [OF assms, of a] JSLL_MOD_correct [OF assms, of a] by blast

theorem longlong_signed_division_witness:
  "(\<exists>r. JSLL_MOD JSLL_MinInt JSLL_MinInt = Some r \<and> w64 r = word_of_int (sint (w64 JSLL_MinInt))) \<and>
   (\<exists>q. JSLL_DIV (ll 0 7) (ll 0xFFFFFFFF 0xFFFFFFFE) = Some q)"
proof
  have "v64 JSLL_MinInt \<noteq> 0" by (simp add: JSLL_MinInt_def v64_ll)
  from longlong_signed_division [OF this, of JSLL_MinInt]
  show "\<exists>r. JSLL_MOD JSLL_MinInt JSLL_MinInt = Some r \<and> w64 r = word_of_int (sint (w64 JSLL_MinInt))"
    by (simp only: simp_thms if_True) blast
  have "v64 (ll 0xFFFFFFFF 0xFFFFFFFE) \<noteq> 0" by (simp add: v64_ll)
  from longlong_signed_division [OF this, of "ll 0 7"]
  show "\<exists>q. JSLL_DIV (ll 0 7) (ll 0xFFFFFFFF 0xFFFFFFFE) = Some q" by blast
qed

end
