(* ===== verification/Utf8.thy ===== *)
theory Utf8
  imports Prelude
begin

text \<open>
  String transcoding of \<open>js/src/jsstr.c\<close>: one UCS-4 character to and from its UTF-8 bytes
  (\<open>js_OneUcs4ToUtf8Char\<close>, \<open>Utf8ToOneUcs4Char\<close>) and whole strings between UTF-16 and byte strings
  (\<open>js_DeflateStringToBuffer\<close>, \<open>js_InflateStringToBuffer\<close>), in the build that keeps C strings as UTF-8 and
  in the build that keeps one byte per character.  A destination buffer is the list of what was written
  to it; a null destination, with which the functions only count, is \<open>have_dst = False\<close>.
\<close>

text \<open>What the functions report through \<open>JS_ReportError\<close>.\<close>

datatype str_error =
    BAD_SURROGATE_CHAR jschar
  | BUFFER_TOO_SMALL
  | MALFORMED_UTF8_CHAR nat
  | UTF8_CHAR_TOO_LARGE u32

text \<open>\<open>(size_t) -1\<close> on a machine with 64-bit sizes.\<close>

definition SIZE_MAX :: nat where "SIZE_MAX = 2 ^ 64 - 1"

subsection \<open>One character\<close>

lemma drop_bit_5_less: "a \<noteq> (0 :: u32) \<Longrightarrow> unat (drop_bit 5 a) < unat a"
  by (simp add: unat_drop_bit unat_gt_0)

function utf8_length :: "u32 \<Rightarrow> nat \<Rightarrow> nat" where
  "utf8_length a n = (if a \<noteq> 0 then utf8_length (drop_bit 5 a) (n + 1) else n)"
  by auto
termination by (relation "measure (\<lambda>(a, n). unat a)") (use drop_bit_5_less in auto)

declare utf8_length.simps [simp del]

text \<open>The loop \<open>while (--i)\<close> that stores the continuation bytes from the last one backwards; \<open>i\<close> of them.\<close>

primrec utf8_tail :: "nat \<Rightarrow> u32 \<Rightarrow> u8 list \<Rightarrow> u32 \<times> u8 list" where
  "utf8_tail 0 c bytes = (c, bytes)"
| "utf8_tail (Suc i) c bytes = utf8_tail i (drop_bit 6 c) (ucast ((c AND 0x3F) OR 0x80) # bytes)"

definition js_OneUcs4ToUtf8Char :: "u32 \<Rightarrow> u8 list" where
  "js_OneUcs4ToUtf8Char ucs4Char =
     (if ucs4Char < 0x80 then [ucast ucs4Char]
      else
        let utf8Length = utf8_length (drop_bit 11 ucs4Char) 2;
            (c, bytes) = utf8_tail (utf8Length - 1) ucs4Char []
        in ucast (0x100 - push_bit (8 - utf8Length) 1 + c) # bytes)"

definition minucs4Table :: "u32 list" where
  "minucs4Table = [0x80, 0x800, 0x1000, 0x20000, 0x400000]"

text \<open>The first \<open>utf8Length\<close> bytes of the buffer.\<close>

definition utf8_continue :: "u32 \<Rightarrow> u8 list \<Rightarrow> u32" where
  "utf8_continue = foldl (\<lambda>ucs4Char b. push_bit 6 ucs4Char OR ucast (b AND 0x3F))"

definition Utf8ToOneUcs4Char :: "u8 list \<Rightarrow> u32" where
  "Utf8ToOneUcs4Char utf8Buffer =
     (let utf8Length = length utf8Buffer in
      if utf8Length = 1 then ucast (hd utf8Buffer)
      else
        let ucs4Char = utf8_continue (ucast (hd utf8Buffer) AND (push_bit (7 - utf8Length) 1 - 1)) (tl utf8Buffer);
            minucs4Char = minucs4Table ! (utf8Length - 2)
        in if ucs4Char < minucs4Char then 0xFFFD else ucs4Char)"

subsection \<open>UTF-16 to bytes\<close>

definition is_low_surrogate :: "jschar \<Rightarrow> bool" where
  "is_low_surrogate c \<longleftrightarrow> 0xDC00 \<le> c \<and> c \<le> 0xDFFF"

definition surrogate_pair :: "jschar \<Rightarrow> jschar \<Rightarrow> u32" where
  "surrogate_pair c c2 = push_bit 10 (ucast c - 0xD800) + (ucast c2 - 0xDC00) + 0x10000"

text \<open>The head of the loop: the next code point and the rest of the source, or the error.\<close>

fun deflate_next :: "jschar \<Rightarrow> jschar list \<Rightarrow> str_error + u32 \<times> jschar list" where
  "deflate_next c src =
     (if is_low_surrogate c then Inl (BAD_SURROGATE_CHAR c)
      else if c < 0xD800 \<or> c > 0xDBFF then Inr (ucast c, src)
      else case src of
          [] \<Rightarrow> Inl BUFFER_TOO_SMALL
        | c2 # src \<Rightarrow>
            if c2 < 0xDC00 \<or> c2 > 0xDFFF then Inl (BAD_SURROGATE_CHAR c2)
            else Inr (surrogate_pair c c2, src))"

definition deflate_put :: "u32 \<Rightarrow> nat \<Rightarrow> (u8 list \<times> nat) option" where
  "deflate_put v dstlen =
     (if v < 0x80 then if dstlen = 0 then None else Some ([ucast v], dstlen - 1)
      else
        let bytes = js_OneUcs4ToUtf8Char v; utf8Len = length bytes
        in if utf8Len > dstlen then None else Some (bytes, dstlen - utf8Len))"

lemma deflate_next_length: "deflate_next c src = Inr (v, src') \<Longrightarrow> length src' \<le> length src"
  by (auto split: if_splits list.splits)

function deflate_loop :: "bool \<Rightarrow> jschar list \<Rightarrow> u8 list \<Rightarrow> nat \<Rightarrow> str_error option \<times> u8 list \<times> nat" where
  "deflate_loop have_dst [] dst dstlen = (None, dst, dstlen)"
| "deflate_loop have_dst (c # src) dst dstlen =
     (case deflate_next c src of
        Inl e \<Rightarrow> (Some e, dst, dstlen)
      | Inr (v, src) \<Rightarrow>
          (case deflate_put v dstlen of
             None \<Rightarrow> (Some BUFFER_TOO_SMALL, dst, dstlen)
           | Some (bytes, dstlen) \<Rightarrow> deflate_loop have_dst src (if have_dst then dst @ bytes else dst) dstlen))"
  by pat_completeness auto
termination
  by (relation "measure (\<lambda>(h, src, d, n). length src)") (auto simp: less_Suc_eq_le deflate_next_length simp del: deflate_next.simps)

text \<open>Result: the error if any, the bytes written, and the new \<open>*dstlenp\<close>.\<close>

definition js_DeflateStringToBuffer :: "bool \<Rightarrow> jschar list \<Rightarrow> nat \<Rightarrow> str_error option \<times> u8 list \<times> nat" where
  "js_DeflateStringToBuffer have_dst src dstlenp =
     (let origDstlen = (if have_dst then dstlenp else SIZE_MAX);
          (e, dst, dstlen) = deflate_loop have_dst src [] origDstlen
      in (e, dst, origDstlen - dstlen))"

text \<open>\<open>js_DeflateString\<close>: count, allocate, convert, terminate.\<close>

definition js_DeflateString :: "jschar list \<Rightarrow> str_error + u8 list" where
  "js_DeflateString chars =
     (case js_DeflateStringToBuffer False chars 0 of
        (Some e, _, _) \<Rightarrow> Inl e
      | (None, _, n) \<Rightarrow>
          (case js_DeflateStringToBuffer True chars n of (_, bytes, _) \<Rightarrow> Inr (bytes @ [0])))"

subsection \<open>Bytes to UTF-16\<close>

lemma lead_mask_zero: "8 \<le> n \<Longrightarrow> drop_bit n (0x80 :: u32) = 0"
proof -
  assume "8 \<le> n"
  then have "(2 :: nat) ^ 8 \<le> 2 ^ n" by (rule power_increasing) simp
  then show ?thesis by (simp add: word_eq_nat_iff unat_drop_bit)
qed

function lead_ones :: "u32 \<Rightarrow> nat \<Rightarrow> nat" where
  "lead_ones v n = (if v AND drop_bit n 0x80 \<noteq> 0 then lead_ones v (n + 1) else n)"
  by auto
termination
proof (relation "measure (\<lambda>(v, n). 8 - n)")
  fix v :: u32 and n assume "v AND drop_bit n 0x80 \<noteq> 0"
  then have "n < 8" using lead_mask_zero [of n] by (cases "8 \<le> n") auto
  then show "((v, n + 1), (v, n)) \<in> measure (\<lambda>(v, n). 8 - n)" by simp
qed simp

declare lead_ones.simps [simp del]

lemma lead_ones_ge: "n \<le> lead_ones v n"
  by (induction v n rule: lead_ones.induct) (subst lead_ones.simps, auto)

text \<open>One round of the loop: the characters the bytes at the front of \<open>src\<close> decode to and how many bytes
  they take, or the error; \<open>offset\<close> is only for the message.\<close>

definition inflate_next :: "u8 list \<Rightarrow> nat \<Rightarrow> nat \<Rightarrow> str_error + jschar list \<times> nat" where
  "inflate_next src offset dstlen =
     (let v = ucast (hd src) :: u32
      in if v AND 0x80 \<noteq> 0 then
           let n = lead_ones v 1
           in if n > length src then Inl BUFFER_TOO_SMALL
              else if n = 1 \<or> n > 6 then Inl (MALFORMED_UTF8_CHAR offset)
              else if list_ex (\<lambda>b. b AND 0xC0 \<noteq> 0x80) (take (n - 1) (drop 1 src)) then Inl (MALFORMED_UTF8_CHAR offset)
              else
                let v = Utf8ToOneUcs4Char (take n src)
                in if v \<ge> 0x10000 then
                     let v = v - 0x10000
                     in if v > 0xFFFFF \<or> dstlen < 2 then Inl (UTF8_CHAR_TOO_LARGE (v + 0x10000))
                        else Inr ([ucast (drop_bit 10 v + 0xD800), ucast ((v AND 0x3FF) + 0xDC00)], n)
                   else if dstlen = 0 then Inl BUFFER_TOO_SMALL else Inr ([ucast v], n)
         else if dstlen = 0 then Inl BUFFER_TOO_SMALL else Inr ([ucast v], 1))"

lemma inflate_next_pos: "inflate_next src offset dstlen = Inr (cs, n) \<Longrightarrow> n \<noteq> 0"
  using lead_ones_ge [of 1 "ucast (hd src)"] by (auto simp: inflate_next_def Let_def split: if_splits)

function inflate_loop :: "bool \<Rightarrow> u8 list \<Rightarrow> nat \<Rightarrow> jschar list \<Rightarrow> nat \<Rightarrow> str_error option \<times> jschar list \<times> nat" where
  "inflate_loop have_dst src offset dst dstlen =
     (if src = [] then (None, dst, dstlen)
      else case inflate_next src offset dstlen of
          Inl e \<Rightarrow> (Some e, dst, dstlen)
        | Inr (cs, n) \<Rightarrow>
            inflate_loop have_dst (drop n src) (offset + n) (if have_dst then dst @ cs else dst) (dstlen - length cs))"
  by auto
termination
  by (relation "measure (\<lambda>(h, src, off, d, n). length src)") (auto dest: inflate_next_pos)

declare inflate_loop.simps [simp del]

definition js_InflateStringToBuffer :: "bool \<Rightarrow> u8 list \<Rightarrow> nat \<Rightarrow> str_error option \<times> jschar list \<times> nat" where
  "js_InflateStringToBuffer have_dst src dstlenp =
     (let origDstlen = (if have_dst then dstlenp else SIZE_MAX);
          (e, dst, dstlen) = inflate_loop have_dst src 0 [] origDstlen
      in (e, dst, origDstlen - dstlen))"

definition js_InflateString :: "u8 list \<Rightarrow> str_error + jschar list" where
  "js_InflateString bytes =
     (case js_InflateStringToBuffer False bytes 0 of
        (Some e, _, _) \<Rightarrow> Inl e
      | (None, _, dstlen) \<Rightarrow>
          (case js_InflateStringToBuffer True bytes dstlen of (_, chars, _) \<Rightarrow> Inr (chars @ [0])))"

subsection \<open>One byte per character\<close>

text \<open>The other build.  A buffer that is too small is filled before the error is reported.\<close>

definition js_InflateStringToBuffer_bytes :: "u8 list \<Rightarrow> nat \<Rightarrow> str_error option \<times> jschar list \<times> nat" where
  "js_InflateStringToBuffer_bytes bytes charsLength =
     (if length bytes > charsLength
      then (Some BUFFER_TOO_SMALL, map (\<lambda>i. ucast (bytes ! i)) [0..<charsLength], charsLength)
      else (None, map (\<lambda>i. ucast (bytes ! i)) [0..<length bytes], length bytes))"

definition js_InflateString_bytes :: "u8 list \<Rightarrow> jschar list" where
  "js_InflateString_bytes bytes = map (\<lambda>i. ucast (bytes ! i)) [0..<length bytes] @ [0]"

definition js_DeflateStringToBuffer_bytes :: "jschar list \<Rightarrow> nat \<Rightarrow> str_error option \<times> u8 list \<times> nat" where
  "js_DeflateStringToBuffer_bytes chars bytesLength =
     (if length chars > bytesLength
      then (Some BUFFER_TOO_SMALL, map (\<lambda>i. ucast (chars ! i)) [0..<bytesLength], bytesLength)
      else (None, map (\<lambda>i. ucast (chars ! i)) [0..<length chars], length chars))"

definition js_DeflateString_bytes :: "jschar list \<Rightarrow> u8 list" where
  "js_DeflateString_bytes chars = map (\<lambda>i. ucast (chars ! i)) [0..<length chars] @ [0]"

end
