(* ===== verification/Utf8_Correct.thy ===== *)
theory Utf8_Correct
  imports Utf8
begin

text \<open>
  Round trips and bounds of the string transcoding: every code point below \<open>2 ^ 31\<close> survives its UTF-8
  bytes, every string the deflater accepts comes bk from the inflater, and neither writes more than its
  destination holds.
\<close>

subsection \<open>The length and the continuation bytes\<close>

definition utf8_size :: "nat \<Rightarrow> nat" where
  "utf8_size c = (if c < 0x80 then 1 else if c < 0x800 then 2 else if c < 0x10000 then 3
     else if c < 0x200000 then 4 else if c < 0x4000000 then 5 else 6)"

lemma utf8_length_unat:
  "utf8_length a n = (if unat a = 0 then n else utf8_length (drop_bit 5 a) (n + 1))"
  by (subst utf8_length.simps) (simp add: unat_eq_zero)

lemma utf8_length_size:
  assumes "0x80 \<le> unat c" "unat c < 2 ^ 31"
  shows "utf8_length (drop_bit 11 c) 2 = utf8_size (unat c)"
proof -
  let ?L = "utf8_length"
  have step: "?L (drop_bit k c) n = (if unat c < 2 ^ k then n else ?L (drop_bit (k + 5) c) (n + 1))" for k n
    by (subst utf8_length_unat) (auto simp: unat_drop_bit add.commute div_eq_0_iff)
  show ?thesis
    using assms by (simp add: step [of 11] step [of 16] step [of 21] step [of 26] step [of 31] utf8_size_def)
qed

lemma mask6: "(0x3F :: u32) = mask 6" "(0x3F :: u8) = mask 6"
  by (simp_all add: mask_eq_exp_minus_1)

lemma bit_0x80: "bit (0x80 :: int) n \<longleftrightarrow> n = 7"
proof -
  have "(0x80 :: int) = 2 ^ 7" by simp
  then show ?thesis by (simp only: bit_exp_iff) auto
qed

lemma bit_0xC0: "bit (0xC0 :: int) n \<longleftrightarrow> n = 6 \<or> n = 7"
proof -
  have "(0xC0 :: int) = 2 ^ 6 OR 2 ^ 7" by simp
  then show ?thesis by (simp only: bit_or_iff bit_exp_iff) auto
qed

definition is_continuation :: "u8 \<Rightarrow> bool" where
  "is_continuation b \<longleftrightarrow> b AND 0xC0 = 0x80"

lemma continuation_byte: "is_continuation (ucast (((c :: u32) AND 0x3F) OR 0x80))"
  unfolding is_continuation_def
  by (rule bit_word_eqI) (auto simp: bit_simps bit_0x80 bit_0xC0 mask6)

lemma continuation_payload:
  "push_bit 6 (drop_bit 6 c) OR ucast ((ucast ((c AND 0x3F) OR 0x80) :: u8) AND 0x3F) = (c :: u32)"
proof (rule bit_word_eqI)
  fix n assume "n < LENGTH(32)"
  then show "bit (push_bit 6 (drop_bit 6 c) OR ucast ((ucast ((c AND 0x3F) OR 0x80) :: u8) AND 0x3F)) n = bit c n"
    by (cases "n < 6") (auto simp: bit_simps bit_0x80 mask6)
qed

lemma utf8_tail_props:
  "\<exists>t. utf8_tail i c bytes = (drop_bit (6 * i) c, t @ bytes) \<and> length t = i \<and>
     list_all is_continuation t \<and> utf8_continue (drop_bit (6 * i) c) t = c"
proof (induction i arbitrary: c bytes)
  case 0
  show ?case by (auto simp: utf8_continue_def)
next
  case (Suc i)
  let ?b = "ucast ((c AND 0x3F) OR 0x80) :: u8"
  from Suc [of "drop_bit 6 c" "?b # bytes"] obtain t where
    t: "utf8_tail i (drop_bit 6 c) (?b # bytes) = (drop_bit (6 * i) (drop_bit 6 c), t @ ?b # bytes)"
      "length t = i" "list_all is_continuation t" "utf8_continue (drop_bit (6 * i) (drop_bit 6 c)) t = drop_bit 6 c"
    by blast
  have d: "drop_bit (6 * i) (drop_bit 6 c) = drop_bit (6 * Suc i) c" by (simp add: add.commute)
  have "utf8_continue (drop_bit (6 * Suc i) c) (t @ [?b]) = c"
    unfolding utf8_continue_def foldl_append foldl.simps t(4) [unfolded utf8_continue_def d]
    by (rule continuation_payload)
  then show ?case using t(1-3) continuation_byte [of c] d
    by (intro exI [of _ "t @ [?b]"]) simp
qed

subsection \<open>The first byte\<close>

lemma lead_test: "v AND drop_bit n (0x80 :: u32) \<noteq> 0 \<longleftrightarrow> n \<le> 7 \<and> bit v (7 - n)"
proof -
  have "bit (drop_bit n (0x80 :: u32)) k \<longleftrightarrow> n \<le> 7 \<and> k = 7 - n" for k
    by (auto simp: bit_drop_bit_eq bit_0x80)
  moreover have "v AND w \<noteq> 0 \<longleftrightarrow> (\<exists>k. bit v k \<and> bit w k)" for w
  proof -
    have "k < 32" if "bit v k" for k using bit_imp_le_length [OF that] by simp
    then show ?thesis by (auto simp: bit_eq_iff [of "v AND w" 0] bit_and_iff)
  qed
  ultimately show ?thesis by (metis (no_types))
qed

lemma bit_unat: "bit (v :: 'a::len word) n \<longleftrightarrow> odd (unat v div 2 ^ n)"
  using bit_unsigned_iff [of v n, where ?'a = nat] by (simp add: bit_iff_odd)

lemma lead_ones_eq:
  assumes "n \<le> L" "L \<le> 7" "\<And>k. n \<le> k \<Longrightarrow> k < L \<Longrightarrow> bit v (7 - k)" "\<not> bit v (7 - L)"
  shows "lead_ones v n = L"
  using assms(1,3)
proof (induction n rule: inc_induct)
  case base
  show ?case by (subst lead_ones.simps) (use assms(4) in \<open>simp only: lead_test, simp\<close>)
next
  case (step n)
  have "bit v (7 - n)" using step.prems step.hyps by simp
  then show ?case using step assms(2) by (subst lead_ones.simps) (simp only: lead_test, simp)
qed

lemma mask_shift: "push_bit k 1 - 1 = (mask k :: u32)"
  by (simp add: mask_eq_decr_exp push_bit_eq_mult)

lemma bit_unatI: "m * 2 ^ n \<le> unat (v :: 'a::len word) \<Longrightarrow> unat v < (m + 1) * 2 ^ n \<Longrightarrow> bit v n = odd m"
  unfolding bit_unat using div_nat_eqI [of "2 ^ n" m "unat v"] by (simp add: mult.commute)

lemma first_byte:
  fixes x :: u32
  assumes "2 \<le> L" "L \<le> 6" "unat x < 2 ^ (7 - L)"
  defines "f \<equiv> ucast (0x100 - push_bit (8 - L) 1 + x) :: u8"
  shows "lead_ones (ucast f) 1 = L" "(ucast f :: u32) AND 0x80 \<noteq> 0" "ucast f AND (push_bit (7 - L) 1 - 1) = x"
proof -
  define X where "X = unat x"
  have p: "unat (push_bit (8 - L) (1 :: u32)) = 2 ^ (8 - L)"
    using assms(1,2) by (simp add: unat_push_bit_1 del: push_bit_of_1)
  have L: "L = 2 \<or> L = 3 \<or> L = 4 \<or> L = 5 \<or> L = 6" using assms(1,2) by linarith
  have le: "(2 :: nat) ^ (8 - L) \<le> 2 ^ 6" using assms(1) by (intro power_increasing) simp_all
  have two: "(2 :: nat) ^ (8 - L) = 2 * 2 ^ (7 - L)" using L by auto
  have "unat (0x100 - push_bit (8 - L) 1 :: u32) = 256 - 2 ^ (8 - L)"
    using le by (subst unat_sub) (simp_all add: word_le_nat_alt p del: push_bit_of_1)
  moreover have sm: "256 - 2 ^ (8 - L) + X < 256" using le two assms(3) by (simp add: X_def)
  ultimately have "unat (0x100 - push_bit (8 - L) 1 + x) = 256 - 2 ^ (8 - L) + X"
    by (subst unat_add_small) (simp_all add: X_def del: push_bit_of_1)
  then have uf: "unat f = 256 - 2 ^ (8 - L) + X"
    using sm by (simp add: f_def unsigned_ucast_eq take_bit_eq_mod del: push_bit_of_1)
  have uf32: "unat (ucast f :: u32) = 256 - 2 ^ (8 - L) + X"
    using uf sm by (simp add: unsigned_ucast_eq take_bit_eq_mod)
  have X: "X < 2 ^ (7 - L)" using assms(3) by (simp add: X_def)
  show "lead_ones (ucast f) 1 = L"
  proof (rule lead_ones_eq)
    show "1 \<le> L" "L \<le> 7" using L by auto
    show "bit (ucast f :: u32) (7 - k)" if "1 \<le> k" "k < L" for k
    proof -
      have "2 ^ (8 - L) \<le> (2 :: nat) ^ (7 - k)" using that assms(2) by (intro power_increasing) simp_all
      then have "256 - 2 ^ (7 - k) \<le> 256 - 2 ^ (8 - L) + X" by (intro trans_le_add1 diff_le_mono2)
      moreover have "(2 ^ (k + 1) - 1) * 2 ^ (7 - k) = 256 - (2 :: nat) ^ (7 - k)"
      proof -
        have "(2 :: nat) ^ (k + 1) * 2 ^ (7 - k) = 2 ^ 8" using that assms(2) by (simp flip: power_add)
        then show ?thesis by (simp add: diff_mult_distrib)
      qed
      moreover have "(2 ^ (k + 1) - 1 + 1) * 2 ^ (7 - k) = (256 :: nat)"
        using that assms(2) by (simp flip: power_add)
      ultimately show ?thesis
        using bit_unatI [of "2 ^ (k + 1) - 1" "7 - k" "ucast f :: u32"] sm unfolding uf32 by simp
    qed
    show "\<not> bit (ucast f :: u32) (7 - L)"
    proof -
      have d: "(2 :: nat) ^ (L + 1) * 2 ^ (7 - L) = 2 ^ 8" using assms(2) by (simp flip: power_add)
      have "(2 ^ (L + 1) - 2) * 2 ^ (7 - L) = 256 - 2 * (2 :: nat) ^ (7 - L)"
        using d by (simp only: diff_mult_distrib) simp
      moreover have "(2 ^ (L + 1) - 2 + 1) * 2 ^ (7 - L) = 256 - 2 * (2 :: nat) ^ (7 - L) + 2 ^ (7 - L)"
        unfolding add_mult_distrib calculation by simp
      ultimately show ?thesis
        using bit_unatI [of "2 ^ (L + 1) - 2" "7 - L" "ucast f :: u32"] two X unfolding uf32 by simp
    qed
  qed
  have "1 * 2 ^ 7 \<le> unat (ucast f :: u32)" "unat (ucast f :: u32) < (1 + 1) * 2 ^ 7"
    unfolding uf32 using le sm by simp_all
  then have "bit (ucast f :: u32) 7" using bit_unatI [of 1 7 "ucast f :: u32"] by simp
  then show "(ucast f :: u32) AND 0x80 \<noteq> 0" using lead_test [of "ucast f" 0] by simp
  have "256 - 2 ^ (8 - L) = (2 ^ (L + 1) - 2) * (2 :: nat) ^ (7 - L)"
  proof -
    have "(2 :: nat) ^ (L + 1) * 2 ^ (7 - L) = 2 ^ 8" using assms(2) by (simp flip: power_add)
    then show ?thesis unfolding two diff_mult_distrib by simp
  qed
  then have "(256 - 2 ^ (8 - L) + X) mod 2 ^ (7 - L) = X" using X by simp
  then have "unat (take_bit (7 - L) (ucast f :: u32)) = unat x" by (simp only: unat_take_bit uf32 X_def)
  then show "ucast f AND (push_bit (7 - L) 1 - 1) = x"
    by (simp only: mask_shift flip: take_bit_eq_mask) (simp only: word_eq_nat_iff)
qed

subsection \<open>One character there and back\<close>

lemma utf8_form:
  assumes "0x80 \<le> unat c" "unat c < 2 ^ 31"
  defines "L \<equiv> utf8_size (unat c)"
  obtains f t where "js_OneUcs4ToUtf8Char c = f # t" "length t = L - 1" "list_all is_continuation t"
    "lead_ones (ucast f) 1 = L" "(ucast f :: u32) AND 0x80 \<noteq> 0"
    "utf8_continue (ucast f AND (push_bit (7 - L) 1 - 1)) t = c" "2 \<le> L" "L \<le> 6"
proof -
  have L: "2 \<le> L" "L \<le> 6" using assms(1) by (simp_all add: L_def utf8_size_def)
  obtain t where t: "utf8_tail (L - 1) c [] = (drop_bit (6 * (L - 1)) c, t)" "length t = L - 1"
      "list_all is_continuation t" "utf8_continue (drop_bit (6 * (L - 1)) c) t = c"
    using utf8_tail_props [of "L - 1" c "[]"] by auto
  let ?x = "drop_bit (6 * (L - 1)) c"
  have "unat ?x < 2 ^ (7 - L)"
    using assms(1,2) by (simp add: unat_drop_bit L_def utf8_size_def split: if_splits) (simp_all add: less_mult_imp_div_less)
  note f = first_byte [OF L this]
  have "\<not> c < 0x80" using assms(1) by (simp add: word_less_nat_alt)
  then have "js_OneUcs4ToUtf8Char c = ucast (0x100 - push_bit (8 - L) 1 + ?x) # t"
    using t(1) utf8_length_size [OF assms(1,2)] by (simp add: js_OneUcs4ToUtf8Char_def Let_def L_def)
  then show thesis using that t f L by (metis (no_types))
qed

lemma minucs4_size:
  assumes "0x80 \<le> unat c" "unat c < 2 ^ 31"
  shows "\<not> c < minucs4Table ! (utf8_size (unat c) - 2)"
  using assms(1) by (auto simp: word_less_nat_alt minucs4Table_def utf8_size_def)

lemma utf8_char_roundtrip:
  assumes "unat c < 2 ^ 31"
  shows "Utf8ToOneUcs4Char (js_OneUcs4ToUtf8Char c) = c"
proof (cases "unat c < 0x80")
  case True
  then have "js_OneUcs4ToUtf8Char c = [ucast c]"
    by (simp add: js_OneUcs4ToUtf8Char_def word_less_nat_alt)
  moreover have "(ucast (ucast c :: u8) :: u32) = c"
    using True by (simp add: word_eq_nat_iff unsigned_ucast_eq take_bit_eq_mod unat_mod_distrib)
  ultimately show ?thesis by (simp add: Utf8ToOneUcs4Char_def)
next
  case False
  then have ge: "0x80 \<le> unat c" by simp
  from utf8_form [OF ge assms] obtain f t where
    "js_OneUcs4ToUtf8Char c = f # t" "length t = utf8_size (unat c) - 1"
    "utf8_continue (ucast f AND (push_bit (7 - utf8_size (unat c)) 1 - 1)) t = c" "2 \<le> utf8_size (unat c)"
    by metis
  then show ?thesis using minucs4_size [OF ge assms]
    by (simp add: Utf8ToOneUcs4Char_def Let_def del: push_bit_of_1)
qed

subsection \<open>UTF-16\<close>

definition is_scalar :: "u32 \<Rightarrow> bool" where
  "is_scalar v \<longleftrightarrow> v \<le> 0x10FFFF \<and> \<not> (0xD800 \<le> v \<and> v \<le> 0xDFFF)"

definition utf16 :: "u32 \<Rightarrow> jschar list" where
  "utf16 v = (if v \<ge> 0x10000
     then [ucast (drop_bit 10 (v - 0x10000) + 0xD800), ucast ((v - 0x10000 AND 0x3FF) + 0xDC00)] else [ucast v])"

lemma unat_ucast16: "unat (ucast (c :: jschar) :: u32) = unat c"
  using unsigned_less [of c, where ?'a = nat] by (simp add: unsigned_ucast_eq take_bit_nat_eq_self)

lemma unat_to16: "unat (v :: u32) < 65536 \<Longrightarrow> unat (ucast v :: jschar) = unat v"
  by (simp add: unsigned_ucast_eq take_bit_nat_eq_self)

lemma ucast_pair: "unat c < 65536 \<Longrightarrow> utf16 c = [ucast c]"
  by (simp add: utf16_def word_le_nat_alt)

lemma unat_surrogate_pair:
  assumes "0xD800 \<le> c" "c \<le> 0xDBFF" "0xDC00 \<le> c2" "c2 \<le> 0xDFFF"
  shows "unat (surrogate_pair c c2) = (unat c - 0xD800) * 1024 + (unat c2 - 0xDC00) + 0x10000"
proof -
  define x where "x = unat c - 0xD800" define y where "y = unat c2 - 0xDC00"
  have c: "unat c = 0xD800 + x" "unat c2 = 0xDC00 + y" "x < 1024" "y < 1024"
    using assms by (simp_all add: x_def y_def word_le_nat_alt)
  have sx: "unat (ucast c - 0xD800 :: u32) = x" "unat (ucast c2 - 0xDC00 :: u32) = y"
    using c by (simp_all add: unat_sub word_le_nat_alt unat_ucast16)
  then have px: "unat (push_bit 10 (ucast c - 0xD800 :: u32)) = x * 1024"
    using c by (subst unat_push_bit) simp_all
  have pxy: "unat (push_bit 10 (ucast c - 0xD800) + (ucast c2 - 0xDC00) :: u32) = x * 1024 + y"
    using c px sx by (subst unat_add_small) simp_all
  then show ?thesis unfolding x_def [symmetric] y_def [symmetric]
    using c unfolding surrogate_pair_def by (subst unat_add_small) simp_all
qed

lemma pair_scalar:
  assumes "0xD800 \<le> c" "c \<le> 0xDBFF" "0xDC00 \<le> c2" "c2 \<le> 0xDFFF"
  shows "is_scalar (surrogate_pair c c2)" "utf16 (surrogate_pair c c2) = [c, c2]"
proof -
  define x where "x = unat c - 0xD800" define y where "y = unat c2 - 0xDC00"
  have c: "unat c = 0xD800 + x" "unat c2 = 0xDC00 + y" "x < 1024" "y < 1024"
    using assms by (simp_all add: x_def y_def word_le_nat_alt)
  have v: "unat (surrogate_pair c c2) = x * 1024 + y + 0x10000"
    using unat_surrogate_pair [OF assms] by (simp add: x_def y_def)
  then show "is_scalar (surrogate_pair c c2)" using c by (simp add: is_scalar_def word_le_nat_alt)
  have w: "unat (surrogate_pair c c2 - 0x10000) = x * 1024 + y"
    using v by (simp add: unat_sub word_le_nat_alt)
  have h: "unat (drop_bit 10 (surrogate_pair c c2 - 0x10000) + 0xD800) = 0xD800 + x"
    using c w by (subst unat_add_small) (simp_all add: unat_drop_bit)
  have "unat (surrogate_pair c c2 - 0x10000 AND 0x3FF) = y"
  proof -
    have "(0x3FF :: u32) = mask 10" by (simp add: mask_eq_exp_minus_1)
    then show ?thesis using c w by (simp only: unat_and_mask) simp
  qed
  then have l: "unat ((surrogate_pair c c2 - 0x10000 AND 0x3FF) + 0xDC00) = 0xDC00 + y"
    using c by (subst unat_add_small) simp_all
  have "ucast (drop_bit 10 (surrogate_pair c c2 - 0x10000) + 0xD800) = c"
    "ucast ((surrogate_pair c c2 - 0x10000 AND 0x3FF) + 0xDC00) = c2"
    using c h l by (simp_all only: word_eq_nat_iff unat_to16)
  then show "utf16 (surrogate_pair c c2) = [c, c2]" using v by (simp add: utf16_def word_le_nat_alt)
qed

lemma deflate_next_utf16:
  assumes "deflate_next c src = Inr (v, src')"
  shows "c # src = utf16 v @ src'" "is_scalar v"
proof -
  consider (plain) "\<not> is_low_surrogate c" "c < 0xD800 \<or> c > 0xDBFF" "v = ucast c" "src' = src"
    | (pair) c2 where "0xD800 \<le> c" "c \<le> 0xDBFF" "0xDC00 \<le> c2" "c2 \<le> 0xDFFF" "src = c2 # src'" "v = surrogate_pair c c2"
    using assms by (auto split: if_splits list.splits)
  then have "c # src = utf16 v @ src' \<and> is_scalar v"
  proof cases
    case plain
    note a = plain
    then have u: "unat v = unat c" "unat v < 65536"
      using unsigned_less [of c, where ?'a = nat] by (simp_all add: unat_ucast16)
    then have "ucast v = c" by (simp only: word_eq_nat_iff unat_to16)
    then have "c # src = utf16 v @ src'" using a u by (simp add: ucast_pair)
    moreover have "is_scalar v"
      using a(1,2) u(1) u(2) unfolding is_scalar_def is_low_surrogate_def word_le_nat_alt word_less_nat_alt by auto
    ultimately show ?thesis ..
  next
    case pair
    then show ?thesis using pair_scalar by simp
  qed
  then show "c # src = utf16 v @ src'" "is_scalar v" by blast+
qed

lemma length_utf16: "0 < length (utf16 v)" "length (utf16 v) \<le> 2"
  by (simp_all add: utf16_def)

lemma scalar_less: "is_scalar v \<Longrightarrow> unat v < 2 ^ 21"
  by (simp add: is_scalar_def word_le_nat_alt)

lemma length_OneUcs4:
  assumes "unat v < 2 ^ 31" shows "length (js_OneUcs4ToUtf8Char v) = utf8_size (unat v)"
proof (cases "unat v < 0x80")
  case True
  then show ?thesis by (simp add: js_OneUcs4ToUtf8Char_def word_less_nat_alt utf8_size_def)
next
  case False
  then have "0x80 \<le> unat v" by simp
  from utf8_form [OF this assms] obtain f t where
    "js_OneUcs4ToUtf8Char v = f # t" "length t = utf8_size (unat v) - 1" "2 \<le> utf8_size (unat v)" by metis
  then show ?thesis by simp
qed

lemma deflate_put_bytes:
  assumes "deflate_put v n = Some (bs, n')" "unat v < 2 ^ 31"
  shows "bs = js_OneUcs4ToUtf8Char v" "n = n' + length bs"
  using assms by (auto simp: deflate_put_def js_OneUcs4ToUtf8Char_def Let_def split: if_splits)

lemma inflate_next_char:
  assumes v: "is_scalar v" and n: "length (utf16 v) \<le> n"
  shows "inflate_next (js_OneUcs4ToUtf8Char v @ rest) off n = Inr (utf16 v, length (js_OneUcs4ToUtf8Char v))"
proof -
  have small: "unat v < 2 ^ 31" using scalar_less [OF v] by simp
  show ?thesis
  proof (cases "unat v < 0x80")
    case True
    then have b: "js_OneUcs4ToUtf8Char v = [ucast v]"
      by (simp add: js_OneUcs4ToUtf8Char_def word_less_nat_alt)
    have u: "(ucast (ucast v :: u8) :: u32) = v"
      using True by (simp add: word_eq_nat_iff unsigned_ucast_eq take_bit_eq_mod unat_mod_distrib)
    have "\<not> bit v 7" unfolding bit_unat using True by simp
    then have "v AND 0x80 = 0" using lead_test [of v 0] by simp
    moreover have "utf16 v = [ucast v]" using True by (simp add: ucast_pair)
    ultimately show ?thesis using n unfolding b inflate_next_def Let_def by (simp add: u)
  next
    case False
    then have ge: "0x80 \<le> unat v" by simp
    define L where "L = utf8_size (unat v)"
    from utf8_form [OF ge small, folded L_def] obtain f t where
      f: "js_OneUcs4ToUtf8Char v = f # t" "length t = L - 1" "list_all is_continuation t"
        "lead_ones (ucast f) 1 = L" "(ucast f :: u32) AND 0x80 \<noteq> 0" "2 \<le> L" "L \<le> 6"
      by (metis (no_types))
    have t: "take (L - 1) (t @ rest) = t" "take L (f # t @ rest) = f # t" using f(2,6) by (simp_all add: take_Cons')
    have c: "\<not> list_ex (\<lambda>b. b AND 0xC0 \<noteq> 0x80) t"
      using f(3) by (auto simp: list_ex_iff list_all_iff is_continuation_def)
    have r: "Utf8ToOneUcs4Char (f # t) = v" using utf8_char_roundtrip [OF small] by (simp add: f(1))
    have big: "\<not> v - 0x10000 > 0xFFFFF" if "0x10000 \<le> v"
      using v that by (simp add: is_scalar_def word_le_nat_alt word_less_nat_alt unat_sub)
    show ?thesis
      using n big f(2,4,5,6,7) c t r
      unfolding f(1) inflate_next_def Let_def
      by (cases "0x10000 \<le> v") (auto simp: utf16_def)
  qed
qed

subsection \<open>Whole strings\<close>

lemma inflate_loop_char:
  assumes "is_scalar v" "length (utf16 v) \<le> n"
  shows "inflate_loop d (js_OneUcs4ToUtf8Char v @ rest) off dst n =
    inflate_loop d rest (off + length (js_OneUcs4ToUtf8Char v)) (if d then dst @ utf16 v else dst) (n - length (utf16 v))"
proof -
  have "js_OneUcs4ToUtf8Char v \<noteq> []"
    by (simp add: js_OneUcs4ToUtf8Char_def Let_def split: prod.splits)
  then show ?thesis by (subst inflate_loop.simps) (simp add: inflate_next_char [OF assms])
qed

text \<open>What a successful deflation leaves, and that the inflater takes it back.\<close>

lemma deflate_loop_ok:
  assumes "deflate_loop d src dst n = (None, dst', n')"
  shows "\<exists>bs. dst' = (if d then dst @ bs else dst) \<and> n = n' + length bs \<and> length bs \<le> 3 * length src \<and>
    (\<forall>rest e off out k. length src \<le> k \<longrightarrow>
       inflate_loop e (bs @ rest) off out k = inflate_loop e rest (off + length bs) (if e then out @ src else out) (k - length src))"
  using assms
proof (induction d src dst n rule: deflate_loop.induct)
  case (1 d dst n)
  then show ?case by simp
next
  case (2 d c src dst n)
  obtain v src1 where nx: "deflate_next c src = Inr (v, src1)"
    using 2(2) by (auto split: sum.splits simp del: deflate_next.simps)
  obtain b n1 where pt: "deflate_put v n = Some (b, n1)"
    using 2(2) nx by (auto split: option.splits simp del: deflate_next.simps)
  have run: "deflate_loop d src1 (if d then dst @ b else dst) n1 = (None, dst', n')"
    using 2(2) nx pt by (simp del: deflate_next.simps)
  note u = deflate_next_utf16 [OF nx]
  have small: "unat v < 2 ^ 31" using scalar_less [OF u(2)] by simp
  note b = deflate_put_bytes [OF pt small]
  from 2(1) [OF nx refl pt refl run] obtain bs where
    bs: "dst' = (if d then (if d then dst @ b else dst) @ bs else (if d then dst @ b else dst))" "n1 = n' + length bs"
      "length bs \<le> 3 * length src1"
    and bk: "\<And>rest e off out k. length src1 \<le> k \<Longrightarrow>
       inflate_loop e (bs @ rest) off out k = inflate_loop e rest (off + length bs) (if e then out @ src1 else out) (k - length src1)"
    by blast
  have len: "length (c # src) = length (utf16 v) + length src1" by (simp only: u(1) length_append)
  have "length b \<le> 3 * length (utf16 v)"
    using small scalar_less [OF u(2)] by (simp add: b(1) length_OneUcs4 utf8_size_def utf16_def word_le_nat_alt)
  moreover have "inflate_loop e ((b @ bs) @ rest) off out k =
      inflate_loop e rest (off + length (b @ bs)) (if e then out @ (c # src) else out) (k - length (c # src))"
    if "length (c # src) \<le> k" for rest e off out k
  proof -
    have k: "length (utf16 v) \<le> k" "length src1 \<le> k - length (utf16 v)" using that len by linarith+
    show ?thesis unfolding append_assoc b(1) inflate_loop_char [OF u(2) k(1)] bk [OF k(2)] len u(1)
      by (simp add: add.assoc)
  qed
  ultimately show ?case using bs b(2) len by (intro exI [of _ "b @ bs"]) (simp add: add.assoc)
qed

subsection \<open>Which strings deflate\<close>

lemma surrogate_pair_utf16:
  assumes "is_scalar v" "0x10000 \<le> v"
  obtains c c2 where "utf16 v = [c, c2]" "0xD800 \<le> c" "c \<le> 0xDBFF" "0xDC00 \<le> c2" "c2 \<le> 0xDFFF" "surrogate_pair c c2 = v"
proof -
  define w where "w = unat v - 0x10000"
  define x where "x = w div 1024" define y where "y = w mod 1024"
  have vn: "unat v = 0x10000 + w" "w < 0x100000" using assms by (simp_all add: w_def is_scalar_def word_le_nat_alt)
  have xy: "x < 1024" "y < 1024" "w = x * 1024 + y" using vn(2) by (simp_all add: x_def y_def less_mult_imp_div_less)
  have uw: "unat (v - 0x10000) = w" using vn by (simp add: unat_sub word_le_nat_alt)
  have "unat (drop_bit 10 (v - 0x10000)) = x" by (simp add: unat_drop_bit uw x_def)
  then have "unat (drop_bit 10 (v - 0x10000) + 0xD800) = 0xD800 + x"
    using xy(1) by (subst unat_add_small) simp_all
  then have c: "unat (ucast (drop_bit 10 (v - 0x10000) + 0xD800) :: jschar) = 0xD800 + x"
    using xy(1) by (simp add: unat_to16)
  have "(0x3FF :: u32) = mask 10" by (simp add: mask_eq_exp_minus_1)
  then have "unat (v - 0x10000 AND 0x3FF) = y" by (simp only: unat_and_mask uw) (simp add: y_def)
  then have "unat ((v - 0x10000 AND 0x3FF) + 0xDC00) = 0xDC00 + y"
    using xy(2) by (subst unat_add_small) simp_all
  then have c2: "unat (ucast ((v - 0x10000 AND 0x3FF) + 0xDC00) :: jschar) = 0xDC00 + y"
    using xy(2) by (simp add: unat_to16)
  define h where "h = (ucast (drop_bit 10 (v - 0x10000) + 0xD800) :: jschar)"
  define l where "l = (ucast ((v - 0x10000 AND 0x3FF) + 0xDC00) :: jschar)"
  have hl: "unat h = 0xD800 + x" "unat l = 0xDC00 + y" unfolding h_def l_def by (rule c c2)+
  have b: "0xD800 \<le> h" "h \<le> 0xDBFF" "0xDC00 \<le> l" "l \<le> 0xDFFF"
    using hl xy(1,2) by (simp_all add: word_le_nat_alt)
  have u: "utf16 v = [h, l]" using assms(2) by (simp add: utf16_def h_def l_def)
  have "unat (surrogate_pair h l) = x * 1024 + y + 0x10000"
    using unat_surrogate_pair [OF b] hl by simp
  then have "unat (surrogate_pair h l) = unat v" using vn xy by linarith
  then have "surrogate_pair h l = v" by (rule word_unat_eq_iff [THEN iffD2])
  from that [OF u b this] show thesis .
qed

lemma deflate_next_scalar:
  assumes "is_scalar v"
  obtains c src where "utf16 v @ rest = c # src" "deflate_next c src = Inr (v, rest)"
proof (cases "0x10000 \<le> v")
  case True
  from surrogate_pair_utf16 [OF assms True] obtain c c2 where
    c: "utf16 v = [c, c2]" "0xD800 \<le> c" "c \<le> 0xDBFF" "0xDC00 \<le> c2" "c2 \<le> 0xDFFF" "surrogate_pair c c2 = v" .
  then have "deflate_next c (c2 # rest) = Inr (v, rest)"
    by (auto simp: is_low_surrogate_def word_le_nat_alt word_less_nat_alt)
  then show thesis using that [of c "c2 # rest"] c(1) by simp
next
  case False
  then have v: "unat v < 65536" by (simp add: word_le_nat_alt)
  then have u: "unat (ucast v :: jschar) = unat v" by (rule unat_to16)
  then have "ucast (ucast v :: jschar) = v" by (simp only: word_eq_nat_iff unat_ucast16)
  then have "deflate_next (ucast v) rest = Inr (v, rest)"
    using assms u by (auto simp: is_low_surrogate_def is_scalar_def word_le_nat_alt word_less_nat_alt)
  then show thesis using that [of "ucast v" rest] v by (simp add: ucast_pair)
qed

lemma deflate_put_ok:
  assumes "unat v < 2 ^ 31" "length (js_OneUcs4ToUtf8Char v) \<le> n"
  shows "deflate_put v n = Some (js_OneUcs4ToUtf8Char v, n - length (js_OneUcs4ToUtf8Char v))"
proof (cases "v < 0x80")
  case True
  then have "js_OneUcs4ToUtf8Char v = [ucast v]" by (simp add: js_OneUcs4ToUtf8Char_def)
  then show ?thesis using assms True by (simp add: deflate_put_def)
qed (use assms in \<open>simp add: deflate_put_def Let_def\<close>)

lemma deflate_loop_scalars:
  assumes "list_all is_scalar vs" "length (concat (map js_OneUcs4ToUtf8Char vs)) \<le> n"
  shows "deflate_loop d (concat (map utf16 vs)) dst n =
    (None, if d then dst @ concat (map js_OneUcs4ToUtf8Char vs) else dst, n - length (concat (map js_OneUcs4ToUtf8Char vs)))"
  using assms
proof (induction vs arbitrary: dst n)
  case (Cons v vs)
  then have v: "is_scalar v" "unat v < 2 ^ 31" using scalar_less [of v] by simp_all
  from deflate_next_scalar [OF v(1), of "concat (map utf16 vs)"] obtain c src where
    c: "utf16 v @ concat (map utf16 vs) = c # src" "deflate_next c src = Inr (v, concat (map utf16 vs))" .
  have "length (js_OneUcs4ToUtf8Char v) \<le> n" using Cons.prems(2) by simp
  note p = deflate_put_ok [OF v(2) this]
  have e: "concat (map utf16 (v # vs)) = c # src" using c(1) by simp
  show ?case unfolding e deflate_loop.simps c(2) sum.case prod.case p option.case
    using Cons.prems by (subst Cons.IH) auto
qed simp

lemma deflate_loop_scalarsD:
  "deflate_loop d src dst n = (None, dst', n') \<Longrightarrow> \<exists>vs. list_all is_scalar vs \<and> src = concat (map utf16 vs)"
proof (induction d src dst n rule: deflate_loop.induct)
  case (1 d dst n)
  show ?case by (intro exI [of _ "[]"]) simp
next
  case (2 d c src dst n)
  obtain v src1 where nx: "deflate_next c src = Inr (v, src1)"
    using 2(2) by (auto split: sum.splits simp del: deflate_next.simps)
  obtain b n1 where pt: "deflate_put v n = Some (b, n1)"
    using 2(2) nx by (auto split: option.splits simp del: deflate_next.simps)
  have run: "deflate_loop d src1 (if d then dst @ b else dst) n1 = (None, dst', n')"
    using 2(2) nx pt by (simp del: deflate_next.simps)
  from 2(1) [OF nx refl pt refl run] obtain vs where "list_all is_scalar vs" "src1 = concat (map utf16 vs)" by blast
  then show ?case using deflate_next_utf16 [OF nx] by (intro exI [of _ "v # vs"]) simp
qed
subsection \<open>Bounds\<close>

lemma deflate_put_length: "deflate_put v n = Some (bs, n') \<Longrightarrow> n = n' + length bs"
  by (auto simp: deflate_put_def Let_def split: if_splits)

lemma deflate_loop_bounds:
  "deflate_loop d src dst n = (e, dst', n') \<Longrightarrow> n' \<le> n \<and> length dst' = length dst + (if d then n - n' else 0)"
proof (induction d src dst n rule: deflate_loop.induct)
  case (2 d c src dst n)
  show ?case
  proof (cases "deflate_next c src")
    case (Inr p)
    then obtain v src1 where nx: "deflate_next c src = Inr (v, src1)" by (cases p) auto
    show ?thesis
    proof (cases "deflate_put v n")
      case (Some q)
      then obtain b n1 where pt: "deflate_put v n = Some (b, n1)" by (cases q) auto
      have "deflate_loop d src1 (if d then dst @ b else dst) n1 = (e, dst', n')"
        using 2(2) nx pt by (simp del: deflate_next.simps)
      from 2(1) [OF nx refl pt refl this] show ?thesis using deflate_put_length [OF pt] by auto
    qed (use 2(2) nx in \<open>simp del: deflate_next.simps\<close>)
  qed (use 2(2) in \<open>simp del: deflate_next.simps\<close>)
qed simp

lemma inflate_next_bounds: "src \<noteq> [] \<Longrightarrow> inflate_next src off n = Inr (cs, k) \<Longrightarrow> length cs \<le> n \<and> k \<le> length src"
  by (auto simp: inflate_next_def Let_def Suc_le_eq split: if_splits)

lemma inflate_loop_bounds:
  "inflate_loop d src off dst n = (e, dst', n') \<Longrightarrow> n' \<le> n \<and> length dst' = length dst + (if d then n - n' else 0)"
proof (induction d src off dst n rule: inflate_loop.induct)
  case (1 d src off dst n)
  show ?case
  proof (cases "src = []")
    case False
    show ?thesis
    proof (cases "inflate_next src off n")
      case (Inr p)
      then obtain cs k where nx: "inflate_next src off n = Inr (cs, k)" by (cases p) auto
      have "inflate_loop d (drop k src) (off + k) (if d then dst @ cs else dst) (n - length cs) = (e, dst', n')"
        using 1(2) nx False by (subst (asm) inflate_loop.simps) simp
      from 1(1) [OF False nx refl this] show ?thesis using inflate_next_bounds [OF False nx] by auto
    qed (use 1(2) False in \<open>simp add: inflate_loop.simps\<close>)
  qed (use 1(2) in \<open>simp add: inflate_loop.simps\<close>)
qed

lemma deflate_buffer:
  "js_DeflateStringToBuffer True src n = (e, bytes, m) \<longleftrightarrow> (\<exists>n'. deflate_loop True src [] n = (e, bytes, n') \<and> m = n - n')"
  by (auto simp: js_DeflateStringToBuffer_def split: prod.splits)

lemma concat_utf16_length: "length (concat (map js_OneUcs4ToUtf8Char vs)) \<le> 3 * length (concat (map utf16 vs))"
  if "list_all is_scalar vs"
  using that
proof (induction vs)
  case (Cons v vs)
  have "length (js_OneUcs4ToUtf8Char v) \<le> 3 * length (utf16 v)"
    using Cons.prems scalar_less [of v] by (simp add: length_OneUcs4 utf8_size_def utf16_def word_le_nat_alt)
  then show ?case using Cons by simp
qed simp

lemma js_DeflateString_scalars:
  assumes "list_all is_scalar vs" "3 * length (concat (map utf16 vs)) \<le> SIZE_MAX"
  shows "js_DeflateString (concat (map utf16 vs)) = Inr (concat (map js_OneUcs4ToUtf8Char vs) @ [0])"
proof -
  let ?b = "concat (map js_OneUcs4ToUtf8Char vs)"
  have "length ?b \<le> SIZE_MAX" using concat_utf16_length [OF assms(1)] assms(2) by linarith
  then show ?thesis
    using deflate_loop_scalars [OF assms(1), of SIZE_MAX False "[]"] deflate_loop_scalars [OF assms(1), of "length ?b" True "[]"]
    by (simp add: js_DeflateString_def js_DeflateStringToBuffer_def)
qed

text \<open>The comment of the table says that non-shortest forms are illegal; from the third entry on the entries are smaller
  than the smallest characters of their length, so forms of four bytes of characters that take three are accepted.\<close>

lemma overlong_accepted:
  "Utf8ToOneUcs4Char [0xF0, 0x81, 0x80, 0x80] = 0x1000" "js_OneUcs4ToUtf8Char 0x1000 = [0xE1, 0x80, 0x80]"
  "js_InflateStringToBuffer True [0xF0, 0x81, 0x80, 0x80] 1 = (None, [0x1000], 1)"
  by code_simp+

subsection \<open>Properties\<close>

text \<open>C33. Every UCS-4 character below \<open>2 ^ 31\<close> is decoded from its own UTF-8 bytes.\<close>

theorem ucs4_utf8_roundtrip:
  assumes "c < 0x80000000"
  shows "Utf8ToOneUcs4Char (js_OneUcs4ToUtf8Char c) = c"
  by (rule utf8_char_roundtrip) (use assms in \<open>simp add: word_less_nat_alt\<close>)

theorem ucs4_utf8_roundtrip_witness: "Utf8ToOneUcs4Char (js_OneUcs4ToUtf8Char 0x1F600) = 0x1F600"
  using ucs4_utf8_roundtrip [of "0x1F600"] by simp

text \<open>C13. What the deflater accepts the inflater gives back: when \<open>js_DeflateStringToBuffer\<close> succeeds, it has
  written the bytes it counted, and \<open>js_InflateStringToBuffer\<close> on them, with room for the string,
  returns the string.\<close>

theorem deflate_inflate_roundtrip:
  assumes "js_DeflateStringToBuffer True src n = (None, bytes, m)" "length src \<le> k"
  shows "m = length bytes \<and> m \<le> n \<and> js_InflateStringToBuffer True bytes k = (None, src, length src)"
proof -
  obtain n' where r: "deflate_loop True src [] n = (None, bytes, n')" "m = n - n'"
    using assms(1) by (auto simp: deflate_buffer)
  from deflate_loop_ok [OF r(1)] have
    "n = n' + length bytes" and
    "inflate_loop True (bytes @ []) 0 [] k = inflate_loop True [] (0 + length bytes) src (k - length src)"
    using assms(2) by (simp_all del: append_Nil2)
  then show ?thesis using r(2) assms(2)
    by (simp add: js_InflateStringToBuffer_def inflate_loop.simps [of True "[]"])
qed

theorem deflate_inflate_roundtrip_witness:
  "js_InflateStringToBuffer True [0x41, 0xF0, 0x9F, 0x98, 0x80] 5 = (None, [0x41, 0xD83D, 0xDE00], 3)"
proof -
  have "js_DeflateStringToBuffer True [0x41, 0xD83D, 0xDE00] 8 = (None, [0x41, 0xF0, 0x9F, 0x98, 0x80], 5)"
    by code_simp
  from deflate_inflate_roundtrip [OF this, of 5] show ?thesis by simp
qed

text \<open>C32. \<open>js_DeflateString\<close> accepts exactly the UTF-16 strings of Unicode scalar values, and its result is the
  concatenated UTF-8 bytes of those values with a terminator: the counting pass sizes the buffer so that the
  second pass never fails.\<close>

theorem deflate_accepts_scalars:
  assumes "3 * length src \<le> SIZE_MAX"
  shows "case js_DeflateString src of
      Inr out \<Rightarrow> (\<exists>vs. list_all is_scalar vs \<and> src = concat (map utf16 vs) \<and> out = concat (map js_OneUcs4ToUtf8Char vs) @ [0])
    | Inl e \<Rightarrow> \<not> (\<exists>vs. list_all is_scalar vs \<and> src = concat (map utf16 vs))"
proof (cases "\<exists>vs. list_all is_scalar vs \<and> src = concat (map utf16 vs)")
  case True
  then obtain vs where vs: "list_all is_scalar vs" "src = concat (map utf16 vs)" by blast
  with js_DeflateString_scalars [OF vs(1)] assms show ?thesis by auto
next
  case False
  obtain e dst n where l: "deflate_loop False src [] SIZE_MAX = (e, dst, n)" by (metis prod_cases3)
  then obtain e' where "e = Some e'" using False deflate_loop_scalarsD [of False src "[]" SIZE_MAX dst n] by (cases e) auto
  then show ?thesis using False l by (simp add: js_DeflateString_def js_DeflateStringToBuffer_def)
qed

theorem deflate_accepts_scalars_witness:
  "case js_DeflateString [0x41, 0xD83D, 0xDE00] of
      Inr out \<Rightarrow> (\<exists>vs. list_all is_scalar vs \<and> [0x41, 0xD83D, 0xDE00] = concat (map utf16 vs) \<and>
        out = concat (map js_OneUcs4ToUtf8Char vs) @ [0])
    | Inl e \<Rightarrow> \<not> (\<exists>vs. list_all is_scalar vs \<and> [0x41, 0xD83D, 0xDE00] = concat (map utf16 vs))"
  by (rule deflate_accepts_scalars) (simp add: SIZE_MAX_def)

text \<open>C34. Neither transcoder writes beyond its destination, on success or error: what it has written is what it
  reports in \<open>*dstlenp\<close>, and that is at most the room it was given.\<close>

theorem transcode_bounds:
  "(case js_DeflateStringToBuffer d src n of (e, bytes, m) \<Rightarrow>
      length bytes = (if d then m else 0) \<and> m \<le> (if d then n else SIZE_MAX)) \<and>
   (case js_InflateStringToBuffer d bs k of (e, chars, m) \<Rightarrow>
      length chars = (if d then m else 0) \<and> m \<le> (if d then k else SIZE_MAX))"
proof
  obtain e b n' where l: "deflate_loop d src [] (if d then n else SIZE_MAX) = (e, b, n')" by (metis prod_cases3)
  from deflate_loop_bounds [OF this] l show "case js_DeflateStringToBuffer d src n of (e, bytes, m) \<Rightarrow>
      length bytes = (if d then m else 0) \<and> m \<le> (if d then n else SIZE_MAX)"
    by (auto simp: js_DeflateStringToBuffer_def)
  obtain e b n' where l: "inflate_loop d bs 0 [] (if d then k else SIZE_MAX) = (e, b, n')" by (metis prod_cases3)
  from inflate_loop_bounds [OF this] l show "case js_InflateStringToBuffer d bs k of (e, chars, m) \<Rightarrow>
      length chars = (if d then m else 0) \<and> m \<le> (if d then k else SIZE_MAX)"
    by (auto simp: js_InflateStringToBuffer_def)
qed

end
