(* ===== verification/Uri.thy ===== *)
theory Uri
  imports Utf8_Correct
begin

text \<open>
  The URI functions of \<open>js/src/jsstr.c\<close>: \<open>Encode\<close>, \<open>Decode\<close>, the growing result string
  (\<open>AddCharsToURI\<close>) and the four natives on them.  An argument is the character list of the string value;
  \<open>None\<close> is the \<open>JSMSG_BAD_URI\<close> error.  Allocation is taken to succeed.
\<close>

subsection \<open>Characters\<close>

text \<open>A zero-terminated set of characters, with its terminator.\<close>

fun js_strchr :: "jschar list \<Rightarrow> jschar \<Rightarrow> bool" where
  "js_strchr [] c = False"
| "js_strchr (x # s) c = (if x = 0 then False else if x = c then True else js_strchr s c)"

definition JS7_ISDEC :: "jschar \<Rightarrow> bool" where
  "JS7_ISDEC c \<longleftrightarrow> (ucast c :: u32) - 0x30 \<le> 9"

text \<open>\<open>isxdigit\<close> and \<open>tolower\<close> of the C locale.\<close>

definition JS7_ISHEX :: "jschar \<Rightarrow> bool" where
  "JS7_ISHEX c \<longleftrightarrow> c < 128 \<and> (0x30 \<le> c \<and> c \<le> 0x39 \<or> 0x41 \<le> c \<and> c \<le> 0x46 \<or> 0x61 \<le> c \<and> c \<le> 0x66)"

definition tolower_ascii :: "jschar \<Rightarrow> jschar" where
  "tolower_ascii c = (if 0x41 \<le> c \<and> c \<le> 0x5A then c + 0x20 else c)"

definition JS7_UNHEX :: "jschar \<Rightarrow> u32" where
  "JS7_UNHEX c = (if JS7_ISDEC c then ucast c - 0x30 else 10 + ucast (tolower_ascii c) - 0x61)"

definition js_empty_ucstr :: "jschar list" where "js_empty_ucstr = [0]"

definition js_uriReservedPlusPound_ucstr :: "jschar list" where
  "js_uriReservedPlusPound_ucstr = [0x3B, 0x2F, 0x3F, 0x3A, 0x40, 0x26, 0x3D, 0x2B, 0x24, 0x2C, 0x23, 0]"

text \<open>Digits, capital and small letters, and \<open>-_.!~*'()\<close>.\<close>

definition js_uriUnescaped_ucstr :: "jschar list" where
  "js_uriUnescaped_ucstr = map word_of_nat ([48..<58] @ [65..<91] @ [97..<123] @ [45, 95, 46, 33, 126, 42, 39, 40, 41, 0])"

subsection \<open>The result string\<close>

text \<open>\<open>room\<close> is the number of characters allocated, \<open>None\<close> while \<open>chars\<close> is null.\<close>

record uri_string =
  body :: "jschar list"
  room :: "nat option"

definition URI_CHUNK :: nat where "URI_CHUNK = 64"

definition JS_HOWMANY :: "nat \<Rightarrow> nat \<Rightarrow> nat" where
  "JS_HOWMANY x y = (x + y - 1) div y"

definition JS_ROUNDUP :: "nat \<Rightarrow> nat \<Rightarrow> nat" where
  "JS_ROUNDUP x y = JS_HOWMANY x y * y"

definition new_uri_string :: uri_string where
  "new_uri_string = \<lparr>body = [], room = None\<rparr>"

definition AddCharsToURI :: "uri_string \<Rightarrow> jschar list \<Rightarrow> uri_string" where
  "AddCharsToURI str chars =
     (let total = length (body str) + length chars + 1;
          room' = (if room str = None \<or> JS_HOWMANY total URI_CHUNK > JS_HOWMANY (length (body str) + 1) URI_CHUNK
                   then Some (JS_ROUNDUP total URI_CHUNK) else room str)
      in \<lparr>body = body str @ chars, room = room'\<rparr>)"

subsection \<open>Encode\<close>

definition HexDigits :: "jschar list" where
  "HexDigits = map word_of_nat [48, 49, 50, 51, 52, 53, 54, 55, 56, 57, 65, 66, 67, 68, 69, 70]"

definition hexBuf :: "u8 \<Rightarrow> jschar list" where
  "hexBuf b = [0x25, HexDigits ! unat (drop_bit 4 b), HexDigits ! unat (b AND 0xF)]"

definition encode_bytes :: "uri_string \<Rightarrow> u8 list \<Rightarrow> uri_string" where
  "encode_bytes = foldl (\<lambda>R b. AddCharsToURI R (hexBuf b))"

text \<open>The code point at the front and what follows it.\<close>

fun encode_next :: "jschar \<Rightarrow> jschar list \<Rightarrow> (u32 \<times> jschar list) option" where
  "encode_next c rest =
     (if 0xDC00 \<le> c \<and> c \<le> 0xDFFF then None
      else if c < 0xD800 \<or> c > 0xDBFF then Some (ucast c, rest)
      else case rest of
          [] \<Rightarrow> None
        | c2 # rest \<Rightarrow> if c2 < 0xDC00 \<or> c2 > 0xDFFF then None else Some (surrogate_pair c c2, rest))"

lemma encode_next_length: "encode_next c rest = Some (v, rest') \<Longrightarrow> length rest' \<le> length rest"
  by (auto split: if_splits list.splits)

function encode_loop :: "jschar list \<Rightarrow> jschar list option \<Rightarrow> jschar list \<Rightarrow> uri_string \<Rightarrow> uri_string option" where
  "encode_loop unescapedSet unescapedSet2 [] R = Some R"
| "encode_loop unescapedSet unescapedSet2 (c # rest) R =
     (if js_strchr unescapedSet c \<or> (case unescapedSet2 of None \<Rightarrow> False | Some s \<Rightarrow> js_strchr s c)
      then encode_loop unescapedSet unescapedSet2 rest (AddCharsToURI R [c])
      else case encode_next c rest of
          None \<Rightarrow> None
        | Some (v, rest) \<Rightarrow>
            encode_loop unescapedSet unescapedSet2 rest (encode_bytes R (js_OneUcs4ToUtf8Char v)))"
  by pat_completeness auto
termination
  by (relation "measure (\<lambda>(s, s2, rest, R). length rest)")
    (auto simp: less_Suc_eq_le encode_next_length simp del: encode_next.simps)

definition Encode :: "jschar list \<Rightarrow> jschar list \<Rightarrow> jschar list option \<Rightarrow> jschar list option" where
  "Encode str unescapedSet unescapedSet2 =
     (if length str = 0 then Some []
      else map_option body (encode_loop unescapedSet unescapedSet2 str new_uri_string))"

subsection \<open>Decode\<close>

text \<open>The two hexadecimal digits at \<open>k\<close>.\<close>

definition hex_at :: "jschar list \<Rightarrow> nat \<Rightarrow> u32 option" where
  "hex_at chars k =
     (if \<not> JS7_ISHEX (chars ! k) \<or> \<not> JS7_ISHEX (chars ! (k + 1)) then None
      else Some (JS7_UNHEX (chars ! k) * 16 + JS7_UNHEX (chars ! (k + 1))))"

text \<open>The loop over the remaining \<open>j\<close> octets; the index of the last character read and the octets.\<close>

fun decode_octets :: "jschar list \<Rightarrow> nat \<Rightarrow> nat \<Rightarrow> u8 list \<Rightarrow> (nat \<times> u8 list) option" where
  "decode_octets chars 0 k octets = Some (k, octets)"
| "decode_octets chars (Suc j) k octets =
     (if chars ! (k + 1) \<noteq> 0x25 then None
      else case hex_at chars (k + 2) of
          None \<Rightarrow> None
        | Some B \<Rightarrow> if B AND 0xC0 \<noteq> 0x80 then None else decode_octets chars j (k + 3) (octets @ [ucast B]))"

definition not_shortest :: "nat \<Rightarrow> u8 list \<Rightarrow> bool" where
  "not_shortest n octets \<longleftrightarrow>
     n > 4 \<or> (n = 2 \<and> octets ! 0 < 0xC2) \<or>
     (n = 3 \<and> ((octets ! 0 = 0xE0 \<and> octets ! 1 < 0xA0) \<or> (octets ! 0 = 0xED \<and> octets ! 1 \<ge> 0xA0))) \<or>
     (n = 4 \<and> ((octets ! 0 = 0xF0 \<and> octets ! 1 < 0x90) \<or> octets ! 0 > 0xF4 \<or> (octets ! 0 = 0xF4 \<and> octets ! 1 > 0x8F)))"

text \<open>An escape at \<open>k\<close>: the index of its last character, the high surrogate if the character needs one, and
  the character.  \<open>es2015\<close> is the test of the language version.\<close>

definition decode_escape :: "bool \<Rightarrow> jschar list \<Rightarrow> nat \<Rightarrow> (nat \<times> jschar list \<times> jschar) option" where
  "decode_escape es2015 chars k =
     (if k + 2 \<ge> length chars then None
      else case hex_at chars (k + 1) of
          None \<Rightarrow> None
        | Some B \<Rightarrow>
            (let k = k + 2 in
             if B AND 0x80 = 0 then Some (k, [], ucast B)
             else
               let n = lead_ones B 1
               in if n = 1 \<or> n > 6 then None
                  else if k + 3 * (n - 1) \<ge> length chars then None
                  else case decode_octets chars (n - 1) k [ucast B] of
                      None \<Rightarrow> None
                    | Some (k, octets) \<Rightarrow>
                        if es2015 \<and> not_shortest n octets then None
                        else
                          let v = Utf8ToOneUcs4Char octets
                          in if v \<ge> 0x10000 then
                               let v = v - 0x10000
                               in if v > 0xFFFFF then None
                                  else Some (k, [ucast (drop_bit 10 v + 0xD800)], ucast ((v AND 0x3FF) + 0xDC00))
                             else Some (k, [], ucast v)))"

lemma decode_octets_mono: "decode_octets chars j k octets = Some (k', octets') \<Longrightarrow> k \<le> k'"
  by (induction chars j k octets rule: decode_octets.induct) (auto split: if_splits option.splits)

lemma decode_escape_mono: "decode_escape e chars k = Some (k', H, c) \<Longrightarrow> k \<le> k'"
  by (auto simp: decode_escape_def Let_def dest!: decode_octets_mono split: if_splits option.splits prod.splits)

function decode_loop :: "bool \<Rightarrow> jschar list \<Rightarrow> jschar list \<Rightarrow> nat \<Rightarrow> uri_string \<Rightarrow> uri_string option" where
  "decode_loop es2015 reservedSet chars k R =
     (if k \<ge> length chars then Some R
      else
        let c = chars ! k
        in if c = 0x25 then
             case decode_escape es2015 chars k of
               None \<Rightarrow> None
             | Some (k', H, c) \<Rightarrow>
                 let R = (if H = [] then R else AddCharsToURI R H)
                 in decode_loop es2015 reservedSet chars (k' + 1)
                      (if js_strchr reservedSet c then AddCharsToURI R (take (k' - k + 1) (drop k chars))
                       else AddCharsToURI R [c])
           else decode_loop es2015 reservedSet chars (k + 1) (AddCharsToURI R [c]))"
  by auto
termination
  by (relation "measure (\<lambda>(e, s, chars, k, R). length chars - k)") (auto dest: decode_escape_mono)

declare decode_loop.simps [simp del]

definition Decode :: "bool \<Rightarrow> jschar list \<Rightarrow> jschar list \<Rightarrow> jschar list option" where
  "Decode es2015 str reservedSet =
     (if length str = 0 then Some []
      else map_option body (decode_loop es2015 reservedSet str 0 new_uri_string))"

subsection \<open>The natives\<close>

definition str_decodeURI :: "bool \<Rightarrow> jschar list \<Rightarrow> jschar list option" where
  "str_decodeURI es2015 str = Decode es2015 str js_uriReservedPlusPound_ucstr"

definition str_decodeURI_Component :: "bool \<Rightarrow> jschar list \<Rightarrow> jschar list option" where
  "str_decodeURI_Component es2015 str = Decode es2015 str js_empty_ucstr"

definition str_encodeURI :: "jschar list \<Rightarrow> jschar list option" where
  "str_encodeURI str = Encode str js_uriReservedPlusPound_ucstr (Some js_uriUnescaped_ucstr)"

definition str_encodeURI_Component :: "jschar list \<Rightarrow> jschar list option" where
  "str_encodeURI_Component str = Encode str js_uriUnescaped_ucstr None"

end
