(* ===== verification/Uri_Correct.thy ===== *)
theory Uri_Correct
  imports Uri
begin

text \<open>
  The URI functions: decoding undoes encoding in every language version, encoding fails exactly on
  strings with unpaired surrogates, and the result string is never written beyond its allocation.
\<close>

subsection \<open>The result string\<close>

lemma body_AddCharsToURI [simp]: "body (AddCharsToURI R cs) = body R @ cs"
  by (simp add: AddCharsToURI_def Let_def)

lemma body_encode_bytes [simp]: "body (encode_bytes R bs) = body R @ concat (map hexBuf bs)"
  unfolding encode_bytes_def by (induction bs arbitrary: R) simp_all

lemma body_new [simp]: "body new_uri_string = []"
  by (simp add: new_uri_string_def)

subsection \<open>Hexadecimal digits\<close>

lemma hex_digit_facts:
  "list_all (\<lambda>n. JS7_ISHEX (HexDigits ! n) \<and> JS7_UNHEX (HexDigits ! n) = word_of_nat n) [0..<16]"
  by code_simp

lemma hex_digit: "n < 16 \<Longrightarrow> JS7_ISHEX (HexDigits ! n)" "n < 16 \<Longrightarrow> JS7_UNHEX (HexDigits ! n) = word_of_nat n"
  using hex_digit_facts by (simp_all add: list_all_iff)

lemma ucast_of_nat: "(ucast (b :: u8) :: u32) = word_of_nat (unat b)"
  by (simp only: unsigned_of_nat of_nat_unat)

lemma nibbles: "ucast (drop_bit 4 b) * 16 + ucast (b AND 0xF) = (ucast (b :: u8) :: u32)"
proof -
  have "(0xF :: u8) = mask 4" by (simp add: mask_eq_exp_minus_1)
  then have u: "unat (b AND 0xF) = unat b mod 16" by (simp only: unat_and_mask) simp
  have "unat (drop_bit 4 b) * 16 + unat (b AND 0xF) = unat b" by (simp add: u unat_drop_bit)
  then have "word_of_nat (unat (drop_bit 4 b) * 16 + unat (b AND 0xF)) = (word_of_nat (unat b) :: u32)" by (simp only:)
  then show ?thesis unfolding ucast_of_nat by (simp only: of_nat_add of_nat_mult of_nat_numeral)
qed

lemma ucast_ucast_u8: "ucast (ucast (b :: u8) :: u32) = b"
  by (rule bit_word_eqI) (auto simp: bit_simps)

lemma hexBuf_shape: "hexBuf b ! 0 = 0x25" "length (hexBuf b) = 3"
  by (simp_all add: hexBuf_def)

lemma hex_at_hexBuf:
  assumes "chars = pre @ hexBuf b @ rest"
  shows "hex_at chars (length pre + 1) = Some (ucast b)" "chars ! length pre = 0x25"
proof -
  have n: "unat (drop_bit 4 b) < 16" "unat (b AND 0xF) < 16"
  proof -
    show "unat (drop_bit 4 b) < 16" using unsigned_less [of b, where ?'a = nat] by (simp add: unat_drop_bit)
    have "(0xF :: u8) = mask 4" by (simp add: mask_eq_exp_minus_1)
    then show "unat (b AND 0xF) < 16" by (simp only: unat_and_mask) simp
  qed
  have c: "chars ! (length pre + 1) = HexDigits ! unat (drop_bit 4 b)" "chars ! (length pre + 1 + 1) = HexDigits ! unat (b AND 0xF)"
    using nth_append_length_plus [of pre "hexBuf b @ rest" 1] nth_append_length_plus [of pre "hexBuf b @ rest" 2]
    by (simp_all add: assms hexBuf_def)
  show "hex_at chars (length pre + 1) = Some (ucast b)"
    unfolding hex_at_def c by (simp add: hex_digit n) (rule nibbles)
  show "chars ! length pre = 0x25" by (simp add: assms hexBuf_def)
qed

definition esc :: "u8 list \<Rightarrow> jschar list" where
  "esc bs = concat (map hexBuf bs)"

lemma esc_simps [simp]: "esc [] = []" "esc (b # bs) = hexBuf b @ esc bs" "length (esc bs) = 3 * length bs"
  by (induction bs) (simp_all add: esc_def hexBuf_shape)

lemma continuation32: "is_continuation b \<Longrightarrow> (ucast b :: u32) AND 0xC0 = 0x80"
proof -
  assume "is_continuation b"
  moreover have "(ucast b :: u32) AND 0xC0 = ucast (b AND 0xC0)"
    by (rule bit_word_eqI) (auto simp: bit_simps bit_0xC0)
  ultimately show ?thesis by (simp add: is_continuation_def)
qed

lemma decode_octets_esc:
  assumes "list_all is_continuation t" "chars = pre @ esc t @ rest" "length pre = k + 1"
  shows "decode_octets chars (length t) k octets = Some (k + 3 * length t, octets @ t)"
  using assms
proof (induction t arbitrary: pre k octets)
  case (Cons b t)
  have c: "chars = pre @ hexBuf b @ (esc t @ rest)" using Cons.prems(2) by simp
  have h: "chars ! (k + 1) = 0x25" "hex_at chars (k + 2) = Some (ucast b)"
    using hex_at_hexBuf [OF c] Cons.prems(3) by simp_all
  have b: "(ucast b :: u32) AND 0xC0 = 0x80" using Cons.prems(1) by (simp add: continuation32)
  have "decode_octets chars (length t) (k + 3) (octets @ [b]) = Some (k + 3 + 3 * length t, (octets @ [b]) @ t)"
    using Cons.prems by (intro Cons.IH [of "pre @ hexBuf b"]) (simp_all add: hexBuf_shape)
  then show ?case using h b by (simp add: ucast_ucast_u8 del: unsigned_ucast_eq)
qed simp
subsection \<open>The bytes of a scalar value are the shortest form\<close>

lemma utf8_tail_hd:
  "\<exists>t. snd (utf8_tail (Suc i) c bytes) = ucast ((drop_bit (6 * i) c AND 0x3F) OR 0x80) # t"
proof (induction i arbitrary: c bytes)
  case (Suc i)
  have "utf8_tail (Suc (Suc i)) c bytes = utf8_tail (Suc i) (drop_bit 6 c) (ucast ((c AND 0x3F) OR 0x80) # bytes)"
    by (rule utf8_tail.simps)
  moreover have "drop_bit (6 * i) (drop_bit 6 c) = drop_bit (6 * Suc i) c" by (simp add: add.commute)
  ultimately show ?case using Suc.IH [of "drop_bit 6 c" "ucast ((c AND 0x3F) OR 0x80) # bytes"] by simp
qed simp

lemma unat_continuation: "unat (ucast (((x :: u32) AND 0x3F) OR 0x80) :: u8) = 128 + unat x mod 64"
proof -
  have "(x AND 0x3F) AND 0x80 = 0" by (rule bit_word_eqI) (auto simp: bit_simps bit_0x80 mask6)
  then have o: "(x AND 0x3F) OR 0x80 = (x AND 0x3F) + 0x80" by (rule disjunctive_add_eq_or [symmetric])
  have m: "unat (x AND 0x3F) = unat x mod 64" by (simp only: mask6 unat_and_mask) simp
  have "unat ((x AND 0x3F) + 0x80) = 128 + unat x mod 64" by (subst unat_add_small) (simp_all add: m)
  then show ?thesis unfolding o by (simp add: unsigned_ucast_eq take_bit_nat_eq_self)
qed

lemma unat_first:
  assumes "2 \<le> L" "L \<le> 6" "unat (x :: u32) < 2 ^ (7 - L)"
  shows "unat (ucast (0x100 - push_bit (8 - L) 1 + x) :: u8) = 256 - 2 ^ (8 - L) + unat x"
proof -
  have p: "unat (push_bit (8 - L) (1 :: u32)) = 2 ^ (8 - L)"
    using assms(1,2) by (simp add: unat_push_bit_1 del: push_bit_of_1)
  have le: "(2 :: nat) ^ (8 - L) \<le> 2 ^ 6" using assms(1) by (intro power_increasing) simp_all
  have "8 - L = Suc (7 - L)" using assms(2) by simp
  then have two: "(2 :: nat) ^ (8 - L) = 2 * 2 ^ (7 - L)" by simp
  have "unat (0x100 - push_bit (8 - L) 1 :: u32) = 256 - 2 ^ (8 - L)"
    using le by (subst unat_sub) (simp_all add: word_le_nat_alt p del: push_bit_of_1)
  moreover have sm: "256 - 2 ^ (8 - L) + unat x < 256" using le two assms(3) by simp
  ultimately have "unat (0x100 - push_bit (8 - L) 1 + x) = 256 - 2 ^ (8 - L) + unat x"
    by (subst unat_add_small) (simp_all del: push_bit_of_1)
  then show ?thesis using sm by (simp add: unsigned_ucast_eq take_bit_eq_mod del: push_bit_of_1)
qed

lemma OneUcs4_first_two:
  assumes "0x80 \<le> unat c" "unat c < 2 ^ 31"
  defines "L \<equiv> utf8_size (unat c)"
  obtains f g t where "js_OneUcs4ToUtf8Char c = f # g # t"
    "unat f = 256 - 2 ^ (8 - L) + unat c div 2 ^ (6 * (L - 1))"
    "unat g = 128 + unat c div 2 ^ (6 * (L - 2)) mod 64"
proof -
  have L: "2 \<le> L" "L \<le> 6" using assms(1) by (simp_all add: L_def utf8_size_def)
  then obtain i where i: "L - 1 = Suc i" "L - 2 = i" by (metis Suc_1 Suc_diff_Suc Suc_le_lessD diff_Suc_1 diff_Suc_Suc numeral_2_eq_2)
  from utf8_tail_props [of "L - 1" c "[]"] obtain t0 where t0: "utf8_tail (L - 1) c [] = (drop_bit (6 * (L - 1)) c, t0)" by auto
  moreover from utf8_tail_hd [of i c "[]"] obtain t where "snd (utf8_tail (L - 1) c []) = ucast ((drop_bit (6 * i) c AND 0x3F) OR 0x80) # t"
    unfolding i(1) by blast
  ultimately have t: "t0 = ucast ((drop_bit (6 * (L - 2)) c AND 0x3F) OR 0x80) # t" by (simp add: i(2))
  let ?x = "drop_bit (6 * (L - 1)) c"
  have x: "unat ?x < 2 ^ (7 - L)"
    using assms(1,2) by (simp add: unat_drop_bit L_def utf8_size_def split: if_splits) (simp_all add: less_mult_imp_div_less)
  have "\<not> c < 0x80" using assms(1) by (simp add: word_less_nat_alt)
  then have "js_OneUcs4ToUtf8Char c = ucast (0x100 - push_bit (8 - L) 1 + ?x) # t0"
    using t0 utf8_length_size [OF assms(1,2)] by (simp add: js_OneUcs4ToUtf8Char_def Let_def L_def)
  then show thesis
    using that unat_first [OF L x] unat_continuation [of "drop_bit (6 * (L - 2)) c"] t by (simp only: unat_drop_bit)
qed

lemma shortest_nat:
  fixes N :: nat
  shows "128 \<le> N \<Longrightarrow> \<not> 192 + N div 64 < 194"
    "0x800 \<le> N \<Longrightarrow> \<not> (224 + N div 4096 = 224 \<and> 128 + N div 64 mod 64 < 160)"
    "N < 0xD800 \<or> 0xDFFF < N \<Longrightarrow> \<not> (224 + N div 4096 = 237 \<and> 160 \<le> 128 + N div 64 mod 64)"
    "0x10000 \<le> N \<Longrightarrow> \<not> (240 + N div 262144 = 240 \<and> 128 + N div 4096 mod 64 < 144)"
    "N \<le> 0x10FFFF \<Longrightarrow> \<not> 244 < 240 + N div 262144"
    "N \<le> 0x10FFFF \<Longrightarrow> \<not> (240 + N div 262144 = 244 \<and> 143 < 128 + N div 4096 mod 64)"
proof -
  define m where "m = N div 64" define k where "k = N div 4096"
  have d: "x = x div 64 * 64 + x mod 64" "x mod 64 < 64" for x :: nat by simp_all
  have n: "N = m * 64 + N mod 64" "N mod 64 < 64" "N = k * 4096 + N mod 4096" "N mod 4096 < 4096"
    by (simp_all add: m_def k_def)
  have m: "N div 4096 = m div 64" "64 * m \<le> N" "N < 64 * m + 64" using n(1,2) by (simp_all add: m_def flip: div_mult2_eq)
  have k: "N div 262144 = k div 64" "4096 * k \<le> N" "N < 4096 * k + 4096" using n(3,4) by (simp_all add: k_def flip: div_mult2_eq)
  show "128 \<le> N \<Longrightarrow> \<not> 192 + N div 64 < 194" using m(2,3) by (simp add: m_def)
  show "0x800 \<le> N \<Longrightarrow> \<not> (224 + N div 4096 = 224 \<and> 128 + N div 64 mod 64 < 160)"
    unfolding m(1) m_def [symmetric] using m(2,3) d [of m] by linarith
  show "N < 0xD800 \<or> 0xDFFF < N \<Longrightarrow> \<not> (224 + N div 4096 = 237 \<and> 160 \<le> 128 + N div 64 mod 64)"
    unfolding m(1) m_def [symmetric] using m(2,3) d [of m] by linarith
  show "0x10000 \<le> N \<Longrightarrow> \<not> (240 + N div 262144 = 240 \<and> 128 + N div 4096 mod 64 < 144)"
    unfolding k(1) k_def [symmetric] using k(2,3) d [of k] by linarith
  show "N \<le> 0x10FFFF \<Longrightarrow> \<not> 244 < 240 + N div 262144"
    unfolding k(1) using k(2,3) d [of k] by linarith
  show "N \<le> 0x10FFFF \<Longrightarrow> \<not> (240 + N div 262144 = 244 \<and> 143 < 128 + N div 4096 mod 64)"
    unfolding k(1) k_def [symmetric] using k(2,3) d [of k] by linarith
qed

lemma scalar_shortest:
  assumes "is_scalar v" "0x80 \<le> unat v"
  shows "\<not> not_shortest (utf8_size (unat v)) (js_OneUcs4ToUtf8Char v)"
proof -
  define N where "N = unat v"
  have s: "N \<le> 0x10FFFF" "N < 0xD800 \<or> 0xDFFF < N" "0x80 \<le> N"
    using assms by (auto simp: is_scalar_def word_le_nat_alt N_def)
  then have "unat v < 2 ^ 31" by (simp add: N_def)
  from OneUcs4_first_two [OF assms(2) this] obtain f g t where
    fg: "js_OneUcs4ToUtf8Char v = f # g # t" and
    f: "unat f = 256 - 2 ^ (8 - utf8_size N) + N div 2 ^ (6 * (utf8_size N - 1))" and
    g: "unat g = 128 + N div 2 ^ (6 * (utf8_size N - 2)) mod 64"
    unfolding N_def by metis
  have e: "(f = 0xE0) = (unat f = 0xE0)" "(f = 0xED) = (unat f = 0xED)" "(f = 0xF0) = (unat f = 0xF0)" "(f = 0xF4) = (unat f = 0xF4)"
    by (simp_all add: word_eq_nat_iff)
  note cmp = word_less_nat_alt [of f] word_less_nat_alt [of g] word_less_nat_alt [of _ f] word_less_nat_alt [of _ g] word_le_nat_alt [of _ g]
  have "\<not> not_shortest (utf8_size N) (f # g # t)"
  proof (cases "N < 0x800")
    case True
    then have L: "utf8_size N = 2" using s(3) by (simp add: utf8_size_def)
    have "\<not> f < 0xC2" using shortest_nat(1) [OF s(3)] f by (simp add: L cmp)
    then show ?thesis by (simp add: L not_shortest_def)
  next
    case False
    then have b: "0x800 \<le> N" by simp
    show ?thesis
    proof (cases "N < 0x10000")
      case True
      then have L: "utf8_size N = 3" using b by (simp add: utf8_size_def)
      have fg: "unat f = 224 + N div 4096" "unat g = 128 + N div 64 mod 64" using f g by (simp_all add: L)
      have "\<not> (f = 0xE0 \<and> g < 0xA0)" "\<not> (f = 0xED \<and> 0xA0 \<le> g)"
        using shortest_nat(2) [OF b] shortest_nat(3) [OF s(2)] by (simp_all only: e cmp fg) simp_all
      then show ?thesis by (simp add: L not_shortest_def)
    next
      case False
      then have b: "0x10000 \<le> N" by simp
      then have L: "utf8_size N = 4" using s(1) by (simp add: utf8_size_def)
      have fg: "unat f = 240 + N div 262144" "unat g = 128 + N div 4096 mod 64" using f g by (simp_all add: L)
      have "\<not> (f = 0xF0 \<and> g < 0x90)" "\<not> 0xF4 < f" "\<not> (f = 0xF4 \<and> 0x8F < g)"
        using shortest_nat(4) [OF b] shortest_nat(5,6) [OF s(1)] by (simp_all only: e cmp fg) simp_all
      then show ?thesis by (simp add: L not_shortest_def)
    qed
  qed
  then show ?thesis by (simp add: fg N_def)
qed
subsection \<open>Decoding an encoded character\<close>

lemma decode_escape_scalar:
  assumes v: "is_scalar v" and chars: "chars = pre @ esc (js_OneUcs4ToUtf8Char v) @ rest"
  shows "\<exists>H c. decode_escape es2015 chars (length pre) = Some (length pre + 3 * length (js_OneUcs4ToUtf8Char v) - 1, H, c) \<and>
    H @ [c] = utf16 v \<and> (H = [] \<or> 0xDC00 \<le> c)"
proof (cases "unat v < 0x80")
  case True
  then have b: "js_OneUcs4ToUtf8Char v = [ucast v]" by (simp add: js_OneUcs4ToUtf8Char_def word_less_nat_alt)
  have u: "(ucast (ucast v :: u8) :: u32) = v"
    using True by (simp add: word_eq_nat_iff unsigned_ucast_eq take_bit_eq_mod unat_mod_distrib)
  have "chars = pre @ hexBuf (ucast v) @ rest" using chars by (simp add: b)
  note h = hex_at_hexBuf(1) [OF this, unfolded u]
  have "\<not> bit v 7" unfolding bit_unat using True by simp
  then have "v AND 0x80 = 0" using lead_test [of v 0] by simp
  moreover have "length chars > length pre + 2" using chars by (simp add: b hexBuf_shape)
  moreover have "utf16 v = [ucast v]" using True by (simp add: ucast_pair)
  ultimately show ?thesis using h by (simp add: decode_escape_def b)
next
  case False
  then have ge: "0x80 \<le> unat v" by simp
  have small: "unat v < 2 ^ 31" using scalar_less [OF v] by simp
  define L where "L = utf8_size (unat v)"
  from utf8_form [OF ge small, folded L_def] obtain f t where
    f: "js_OneUcs4ToUtf8Char v = f # t" "length t = L - 1" "list_all is_continuation t"
      "lead_ones (ucast f) 1 = L" "(ucast f :: u32) AND 0x80 \<noteq> 0" "2 \<le> L" "L \<le> 6"
    by (metis (no_types))
  have c1: "chars = pre @ hexBuf f @ (esc t @ rest)" using chars by (simp add: f(1))
  note h = hex_at_hexBuf(1) [OF c1]
  have o: "decode_octets chars (length t) (length pre + 2) [f] = Some (length pre + 2 + 3 * length t, [f] @ t)"
    by (rule decode_octets_esc [of _ _ "pre @ hexBuf f"]) (use f(3) c1 in \<open>simp_all add: hexBuf_shape\<close>)
  have len: "length pre + 2 + 3 * (L - 1) < length chars" using c1 f(2) by (simp add: hexBuf_shape)
  have s: "\<not> not_shortest L (f # t)" using scalar_shortest [OF v ge] by (simp add: f(1) L_def)
  have r: "Utf8ToOneUcs4Char (f # t) = v" using utf8_char_roundtrip [OF small] by (simp add: f(1))
  have k: "length pre + 2 + 3 * length t = length pre + 3 * length (f # t) - 1" by simp
  note L = f(2) [symmetric, unfolded One_nat_def]
  have e: "decode_escape es2015 chars (length pre) =
      (if v \<ge> 0x10000 then if v - 0x10000 > 0xFFFFF then None
         else Some (length pre + 2 + 3 * length t, [ucast (drop_bit 10 (v - 0x10000) + 0xD800)], ucast ((v - 0x10000 AND 0x3FF) + 0xDC00))
       else Some (length pre + 2 + 3 * length t, [], ucast v))"
    using h f(4,5,6,7) len s o unfolding decode_escape_def Let_def
    by (simp add: ucast_ucast_u8 r L del: unsigned_ucast_eq)
  show ?thesis
  proof (cases "0x10000 \<le> v")
    case True
    from surrogate_pair_utf16 [OF v True] obtain c c2 where "utf16 v = [c, c2]" "0xDC00 \<le> c2" by metis
    moreover have "\<not> v - 0x10000 > 0xFFFFF"
      using v True by (simp add: is_scalar_def word_le_nat_alt word_less_nat_alt unat_sub)
    ultimately show ?thesis unfolding f(1) e k using True by (auto simp: utf16_def)
  qed (unfold f(1) e k, auto simp: utf16_def)
qed
subsection \<open>Whole strings\<close>

definition plain :: "jschar list \<Rightarrow> jschar list option \<Rightarrow> jschar \<Rightarrow> bool" where
  "plain us us2 c \<longleftrightarrow> js_strchr us c \<or> (case us2 of None \<Rightarrow> False | Some s \<Rightarrow> js_strchr s c)"

text \<open>What a decoder needs of the sets: a percent sign is always escaped, and what the decoder keeps
  escaped the encoder never escapes.\<close>

definition sets_ok :: "jschar list \<Rightarrow> jschar list option \<Rightarrow> jschar list \<Rightarrow> bool" where
  "sets_ok us us2 res \<longleftrightarrow> \<not> plain us us2 0x25 \<and> (\<forall>c. js_strchr res c \<longrightarrow> plain us us2 c \<and> c < 0xDC00)"

lemma encode_next_deflate: "encode_next c rest = Some (v, rest') \<longleftrightarrow> deflate_next c rest = Inr (v, rest')"
  by (auto simp: is_low_surrogate_def split: list.splits)

lemma decode_plain_step:
  assumes "k < length chars" "chars ! k \<noteq> 0x25"
  shows "decode_loop e res chars k D = decode_loop e res chars (k + 1) (AddCharsToURI D [chars ! k])"
  using assms by (subst decode_loop.simps) (simp add: Let_def)

lemma decode_escape_step:
  assumes v: "is_scalar v" and chars: "chars = pre @ esc (js_OneUcs4ToUtf8Char v) @ rest"
    and res: "\<And>c. js_strchr res c \<Longrightarrow> c < 0xDC00 \<and> utf16 v \<noteq> [c]"
  shows "\<exists>D'. body D' = body D @ utf16 v \<and>
    decode_loop e res chars (length pre) D = decode_loop e res chars (length (pre @ esc (js_OneUcs4ToUtf8Char v))) D'"
proof -
  let ?b = "js_OneUcs4ToUtf8Char v"
  have ne: "?b \<noteq> []" by (simp add: js_OneUcs4ToUtf8Char_def Let_def split: prod.splits)
  then obtain x y where xy: "?b = x # y" by (cases ?b) auto
  from decode_escape_scalar [OF v chars, of e] obtain H c where
    d: "decode_escape e chars (length pre) = Some (length pre + 3 * length ?b - 1, H, c)"
    and H: "H @ [c] = utf16 v" "H = [] \<or> 0xDC00 \<le> c" by blast
  have nr: "\<not> js_strchr res c" using res [of c] H by (auto simp flip: not_less)
  have "chars ! length pre = 0x25"
    by (rule hex_at_hexBuf(2) [of _ _ x "esc y @ rest"]) (simp add: chars xy)
  moreover have "length pre < length chars" using xy by (simp add: chars hexBuf_shape)
  moreover have "length pre + 3 * length ?b - 1 + 1 = length (pre @ esc ?b)" using ne by simp
  ultimately have "decode_loop e res chars (length pre) D =
      decode_loop e res chars (length (pre @ esc ?b)) (AddCharsToURI (if H = [] then D else AddCharsToURI D H) [c])"
    using nr by (subst decode_loop.simps) (simp add: d Let_def)
  then show ?thesis using H(1) by (intro exI [of _ "AddCharsToURI (if H = [] then D else AddCharsToURI D H) [c]"]) auto
qed

lemma encode_loop_ok:
  assumes "encode_loop us us2 s R = Some R'" "sets_ok us us2 res"
  shows "\<exists>e. body R' = body R @ e \<and> (s \<noteq> [] \<longrightarrow> e \<noteq> []) \<and>
    (\<forall>es pre rest D. \<exists>D'. body D' = body D @ s \<and>
       decode_loop es res (pre @ e @ rest) (length pre) D = decode_loop es res (pre @ e @ rest) (length (pre @ e)) D')"
  using assms
proof (induction us us2 s R rule: encode_loop.induct)
  case (1 us us2 R)
  then show ?case by auto
next
  case (2 us us2 c rest0 R)
  show ?case
  proof (cases "plain us us2 c")
    case True
    then have run: "encode_loop us us2 rest0 (AddCharsToURI R [c]) = Some R'" using 2(3) by (simp add: plain_def)
    have np: "c \<noteq> 0x25" using True 2(4) by (auto simp: sets_ok_def)
    from 2(1) [OF True [unfolded plain_def] run 2(4)] obtain e where
      e: "body R' = body R @ [c] @ e" and
      IH: "\<And>es pre rest D. \<exists>D'. body D' = body D @ rest0 \<and>
       decode_loop es res (pre @ e @ rest) (length pre) D = decode_loop es res (pre @ e @ rest) (length (pre @ e)) D'"
      by auto
    have "\<exists>D'. body D' = body D @ c # rest0 \<and>
       decode_loop es res (pre @ ([c] @ e) @ rest) (length pre) D = decode_loop es res (pre @ ([c] @ e) @ rest) (length (pre @ [c] @ e)) D'"
      for es pre rest D
    proof -
      have "decode_loop es res (pre @ ([c] @ e) @ rest) (length pre) D =
          decode_loop es res (pre @ ([c] @ e) @ rest) (length pre + 1) (AddCharsToURI D [c])"
        using decode_plain_step [of "length pre" "pre @ ([c] @ e) @ rest"] np by simp
      with IH [of "AddCharsToURI D [c]" es "pre @ [c]" rest] show ?thesis by simp
    qed
    with e show ?thesis by (intro exI [of _ "[c] @ e"]) simp
  next
    case False
    obtain v rest1 where nx: "encode_next c rest0 = Some (v, rest1)"
      using 2(3) False by (auto simp: plain_def split: option.splits simp del: encode_next.simps)
    let ?b = "js_OneUcs4ToUtf8Char v"
    have run: "encode_loop us us2 rest1 (encode_bytes R ?b) = Some R'"
      using 2(3) False nx by (simp add: plain_def del: encode_next.simps)
    from 2(2) [OF False [unfolded plain_def] nx refl run 2(4)] obtain e where
      e: "body R' = body R @ esc ?b @ e" and
      IH: "\<And>es pre rest D. \<exists>D'. body D' = body D @ rest1 \<and>
       decode_loop es res (pre @ e @ rest) (length pre) D = decode_loop es res (pre @ e @ rest) (length (pre @ e)) D'"
      by (auto simp: esc_def)
    note u = deflate_next_utf16 [OF nx [unfolded encode_next_deflate]]
    have res: "x < 0xDC00 \<and> utf16 v \<noteq> [x]" if "js_strchr res x" for x
    proof -
      have "plain us us2 x" "x < 0xDC00" using that 2(4) by (auto simp: sets_ok_def)
      moreover have "utf16 v \<noteq> [x]" using calculation(1) False u(1) by auto
      ultimately show ?thesis by simp
    qed
    have "\<exists>D'. body D' = body D @ c # rest0 \<and>
       decode_loop es res (pre @ (esc ?b @ e) @ rest) (length pre) D =
       decode_loop es res (pre @ (esc ?b @ e) @ rest) (length (pre @ esc ?b @ e)) D'" for es pre rest D
    proof -
      from decode_escape_step [OF u(2) _ res, where chars = "pre @ (esc ?b @ e) @ rest" and pre = pre and rest = "e @ rest" and D = D and e = es]
      obtain D1 where
        1: "body D1 = body D @ utf16 v"
          "decode_loop es res (pre @ (esc ?b @ e) @ rest) (length pre) D = decode_loop es res (pre @ (esc ?b @ e) @ rest) (length (pre @ esc ?b)) D1"
        by auto
      from IH [of D1 es "pre @ esc ?b" rest] obtain D2 where
        "body D2 = body D1 @ rest1"
        "decode_loop es res ((pre @ esc ?b) @ e @ rest) (length (pre @ esc ?b)) D1 = decode_loop es res ((pre @ esc ?b) @ e @ rest) (length ((pre @ esc ?b) @ e)) D2"
        by blast
      then show ?thesis using 1 u(1) by (intro exI [of _ D2]) simp
    qed
    moreover have "esc ?b \<noteq> []" by (auto simp: esc_def js_OneUcs4ToUtf8Char_def Let_def hexBuf_def split: prod.splits)
    ultimately show ?thesis using e by (intro exI [of _ "esc ?b @ e"]) simp
  qed
qed

lemma encode_decode:
  assumes "Encode s us us2 = Some t" "sets_ok us us2 res"
  shows "Decode es t res = Some s"
proof (cases "s = []")
  case True
  then show ?thesis using assms by (simp add: Encode_def Decode_def)
next
  case False
  then obtain R' where R: "encode_loop us us2 s new_uri_string = Some R'" "t = body R'"
    using assms(1) by (auto simp: Encode_def)
  from encode_loop_ok [OF R(1) assms(2)] obtain e where
    e: "body R' = body new_uri_string @ e" "s \<noteq> [] \<longrightarrow> e \<noteq> []" and
    all: "\<And>es pre rest D. \<exists>D'. body D' = body D @ s \<and>
       decode_loop es res (pre @ e @ rest) (length pre) D = decode_loop es res (pre @ e @ rest) (length (pre @ e)) D'"
    by blast
  have t: "t = e" "t \<noteq> []" using e R(2) False by simp_all
  from all [of new_uri_string es "[]" "[]"] obtain D' where
    "body D' = s" "decode_loop es res t 0 new_uri_string = decode_loop es res t (length t) D'"
    unfolding t(1) by auto
  moreover have "decode_loop es res t (length t) D' = Some D'" by (subst decode_loop.simps) simp
  ultimately show ?thesis using t by (simp add: Decode_def)
qed
lemma strchr_sets:
  "js_strchr js_uriReservedPlusPound_ucstr c \<Longrightarrow> c < 128"
  "js_strchr js_uriUnescaped_ucstr c \<Longrightarrow> c < 128"
proof -
  have s: "js_strchr s c \<Longrightarrow> c \<in> set s" for s by (induction s) (auto split: if_splits)
  have "list_all (\<lambda>c. c < 128) js_uriReservedPlusPound_ucstr" "list_all (\<lambda>c. c < 128) js_uriUnescaped_ucstr" by code_simp+
  then show "js_strchr js_uriReservedPlusPound_ucstr c \<Longrightarrow> c < 128" "js_strchr js_uriUnescaped_ucstr c \<Longrightarrow> c < 128"
    using s by (auto simp: list_all_iff)
qed

lemma sets_ok_URI: "sets_ok js_uriReservedPlusPound_ucstr (Some js_uriUnescaped_ucstr) js_uriReservedPlusPound_ucstr"
proof -
  have "\<not> plain js_uriReservedPlusPound_ucstr (Some js_uriUnescaped_ucstr) 0x25" by code_simp
  moreover have "c < 0xDC00" if "js_strchr js_uriReservedPlusPound_ucstr c" for c
    using strchr_sets(1) [OF that] by (rule order.strict_trans) simp
  ultimately show ?thesis by (auto simp: sets_ok_def plain_def)
qed

lemma sets_ok_Component: "sets_ok js_uriUnescaped_ucstr None js_empty_ucstr"
proof -
  have "\<not> plain js_uriUnescaped_ucstr None 0x25" by code_simp
  then show ?thesis by (simp add: sets_ok_def js_empty_ucstr_def)
qed

subsection \<open>Which strings encode\<close>

lemma plain_scalar: "c < 128 \<Longrightarrow> is_scalar (ucast c) \<and> utf16 (ucast c) = [c]"
proof -
  assume "c < 128"
  then have c: "unat c < 128" by (simp add: word_less_nat_alt)
  then have "ucast (ucast c :: u32) = c" by (simp only: word_eq_nat_iff) (simp add: unat_to16 unat_ucast16)
  then show ?thesis using c by (simp add: is_scalar_def word_le_nat_alt unat_ucast16 ucast_pair)
qed

lemma encode_loop_scalarsD:
  assumes "\<And>c. plain us us2 c \<Longrightarrow> c < 128"
  shows "encode_loop us us2 s R = Some R' \<Longrightarrow> \<exists>vs. list_all is_scalar vs \<and> s = concat (map utf16 vs)"
  using assms
proof (induction us us2 s R rule: encode_loop.induct)
  case (1 us us2 R)
  show ?case by (intro exI [of _ "[]"]) simp
next
  case (2 us us2 c rest0 R)
  show ?case
  proof (cases "plain us us2 c")
    case True
    then have "encode_loop us us2 rest0 (AddCharsToURI R [c]) = Some R'" using 2(3) by (simp add: plain_def)
    from 2(1) [OF True [unfolded plain_def] this 2(4)] obtain vs where "list_all is_scalar vs" "rest0 = concat (map utf16 vs)" by blast
    then show ?thesis using plain_scalar [OF 2(4) [OF True]] by (intro exI [of _ "ucast c # vs"]) simp
  next
    case False
    obtain v rest1 where nx: "encode_next c rest0 = Some (v, rest1)"
      using 2(3) False by (auto simp: plain_def split: option.splits simp del: encode_next.simps)
    have run: "encode_loop us us2 rest1 (encode_bytes R (js_OneUcs4ToUtf8Char v)) = Some R'"
      using 2(3) False nx by (simp add: plain_def del: encode_next.simps)
    from 2(2) [OF False [unfolded plain_def] nx refl run 2(4)] obtain vs where "list_all is_scalar vs" "rest1 = concat (map utf16 vs)" by blast
    then show ?thesis using deflate_next_utf16 [OF nx [unfolded encode_next_deflate]] by (intro exI [of _ "v # vs"]) simp
  qed
qed

lemma encode_loop_scalars:
  assumes p: "\<And>c. plain us us2 c \<Longrightarrow> c < 128" and "list_all is_scalar vs"
  shows "\<exists>R'. encode_loop us us2 (concat (map utf16 vs)) R = Some R'"
  using assms(2)
proof (induction vs arbitrary: R)
  case (Cons v vs)
  from Cons.prems have v: "is_scalar v" by simp
  from deflate_next_scalar [OF v, of "concat (map utf16 vs)"] obtain c src where
    c: "utf16 v @ concat (map utf16 vs) = c # src" "encode_next c src = Some (v, concat (map utf16 vs))"
    unfolding encode_next_deflate .
  have IH: "\<exists>R'. encode_loop us us2 (concat (map utf16 vs)) R = Some R'" for R using Cons by simp
  show ?case
  proof (cases "plain us us2 c")
    case True
    then have "encode_next c src = Some (ucast c, src)"
      using p [OF True] by (auto simp: word_less_nat_alt word_le_nat_alt)
    then have "src = concat (map utf16 vs)" using c(2) by simp
    then show ?thesis using IH [of "AddCharsToURI R [c]"] True c(1) by (simp add: plain_def)
  next
    case False
    then show ?thesis using c IH by (simp add: plain_def del: encode_next.simps)
  qed
qed simp

lemma Encode_error:
  assumes p: "\<And>c. plain us us2 c \<Longrightarrow> c < 128"
  shows "Encode s us us2 = None \<longleftrightarrow> \<not> (\<exists>vs. list_all is_scalar vs \<and> s = concat (map utf16 vs))"
proof (cases "s = []")
  case True
  then show ?thesis by (auto simp: Encode_def intro: exI [of _ "[]"])
next
  case False
  then have "Encode s us us2 = None \<longleftrightarrow> encode_loop us us2 s new_uri_string = None" by (simp add: Encode_def)
  then show ?thesis using encode_loop_scalarsD [OF p] encode_loop_scalars [OF p] by (metis not_Some_eq)
qed

subsection \<open>The allocation of the result\<close>

definition uri_ok :: "uri_string \<Rightarrow> bool" where
  "uri_ok R \<longleftrightarrow> (case room R of None \<Rightarrow> body R = [] | Some r \<Rightarrow> r = JS_ROUNDUP (length (body R) + 1) URI_CHUNK)"

lemma JS_ROUNDUP_ge: "x \<le> JS_ROUNDUP x URI_CHUNK"
  unfolding JS_ROUNDUP_def JS_HOWMANY_def URI_CHUNK_def by presburger

lemma uri_ok_room: "uri_ok R \<Longrightarrow> room R = Some r \<Longrightarrow> length (body R) < r"
  using JS_ROUNDUP_ge [of "length (body R) + 1"] by (simp add: uri_ok_def)

lemma uri_ok_Add [simp]: "uri_ok R \<Longrightarrow> uri_ok (AddCharsToURI R cs)"
proof -
  assume R: "uri_ok R"
  have mono: "JS_HOWMANY (length (body R) + 1) URI_CHUNK \<le> JS_HOWMANY (length (body R) + length cs + 1) URI_CHUNK"
    unfolding JS_HOWMANY_def by (intro div_le_mono) simp
  show ?thesis
  proof (cases "room R = None \<or> JS_HOWMANY (length (body R) + length cs + 1) URI_CHUNK > JS_HOWMANY (length (body R) + 1) URI_CHUNK")
    case False
    then have "JS_HOWMANY (length (body R) + length cs + 1) URI_CHUNK = JS_HOWMANY (length (body R) + 1) URI_CHUNK"
      using mono by simp
    then show ?thesis using R False by (auto simp: uri_ok_def AddCharsToURI_def JS_ROUNDUP_def)
  qed (simp add: uri_ok_def AddCharsToURI_def)
qed

lemma uri_ok_bytes [simp]: "uri_ok R \<Longrightarrow> uri_ok (encode_bytes R bs)"
  unfolding encode_bytes_def by (induction bs arbitrary: R) simp_all

lemma uri_ok_encode: "encode_loop us us2 s R = Some R' \<Longrightarrow> uri_ok R \<Longrightarrow> uri_ok R'"
  by (induction us us2 s R rule: encode_loop.induct) (auto split: if_splits option.splits simp del: encode_next.simps)

lemma uri_ok_decode: "decode_loop e res chars k R = Some R' \<Longrightarrow> uri_ok R \<Longrightarrow> uri_ok R'"
proof (induction e res chars k R rule: decode_loop.induct)
  case (1 e res chars k R)
  note run = 1(3) [unfolded decode_loop.simps [of e res chars k R]]
  show ?case
  proof (cases "length chars \<le> k")
    case True
    then show ?thesis using run 1(4) by simp
  next
    case in_range: False
    show ?thesis
    proof (cases "chars ! k = 0x25")
      case False
      then show ?thesis using 1(2) [OF in_range refl False] run 1(4) in_range by simp
    next
      case True
      then obtain k' H c where d: "decode_escape e chars k = Some (k', H, c)"
        using run in_range by (auto split: option.splits)
      let ?R = "if H = [] then R else AddCharsToURI R H"
      let ?R' = "if js_strchr res c then AddCharsToURI ?R (take (k' - k + 1) (drop k chars)) else AddCharsToURI ?R [c]"
      have "decode_loop e res chars (k' + 1) ?R' = Some R'" using run in_range True d by (simp add: Let_def)
      moreover have "uri_ok ?R'" using 1(4) by simp
      ultimately show ?thesis using 1(1) [OF in_range refl True d refl refl refl] by blast
    qed
  qed
qed

subsection \<open>Properties\<close>

text \<open>C10. \<open>decodeURI\<close> undoes \<open>encodeURI\<close> and \<open>decodeURIComponent\<close> undoes \<open>encodeURIComponent\<close>, in every
  language version: whatever the encoder returns, the decoder accepts and maps back to the argument.\<close>

theorem uri_roundtrip:
  "(case str_encodeURI s of None \<Rightarrow> True | Some t \<Rightarrow> str_decodeURI es2015 t = Some s) \<and>
   (case str_encodeURI_Component s of None \<Rightarrow> True | Some t \<Rightarrow> str_decodeURI_Component es2015 t = Some s)"
  unfolding str_encodeURI_def str_decodeURI_def str_encodeURI_Component_def str_decodeURI_Component_def
  by (auto split: option.splits intro: encode_decode [OF _ sets_ok_URI] encode_decode [OF _ sets_ok_Component])

text \<open>Both encoders report a malformed URI exactly for the strings that are not UTF-16 encodings of a
  sequence of Unicode scalar values.\<close>

theorem uri_encode_error:
  "(str_encodeURI s = None \<longleftrightarrow> \<not> (\<exists>vs. list_all is_scalar vs \<and> s = concat (map utf16 vs))) \<and>
   (str_encodeURI_Component s = None \<longleftrightarrow> \<not> (\<exists>vs. list_all is_scalar vs \<and> s = concat (map utf16 vs)))"
  unfolding str_encodeURI_def str_encodeURI_Component_def
  by (intro conjI Encode_error) (auto simp: plain_def dest: strchr_sets)

text \<open>The result string of \<open>Encode\<close> and of \<open>Decode\<close> always fits its allocation with its terminator:
  after every successful run of either loop, the room is the string with terminator rounded up to a
  chunk.\<close>

theorem uri_string_fits:
  "(case encode_loop us us2 s new_uri_string of None \<Rightarrow> True
    | Some R \<Rightarrow> (case room R of None \<Rightarrow> body R = [] | Some r \<Rightarrow> length (body R) < r \<and> r < length (body R) + 1 + URI_CHUNK)) \<and>
   (case decode_loop e res t 0 new_uri_string of None \<Rightarrow> True
    | Some R \<Rightarrow> (case room R of None \<Rightarrow> body R = [] | Some r \<Rightarrow> length (body R) < r \<and> r < length (body R) + 1 + URI_CHUNK))"
proof -
  have up: "JS_ROUNDUP x URI_CHUNK < x + URI_CHUNK" for x
    unfolding JS_ROUNDUP_def JS_HOWMANY_def URI_CHUNK_def by presburger
  have fits: "case room R of None \<Rightarrow> body R = [] | Some r \<Rightarrow> length (body R) < r \<and> r < length (body R) + 1 + URI_CHUNK"
    if "uri_ok R" for R
    using uri_ok_room [OF that] that up [of "length (body R) + 1"] by (auto simp: uri_ok_def split: option.splits)
  have "uri_ok new_uri_string" by (simp add: uri_ok_def new_uri_string_def)
  then show ?thesis using fits uri_ok_encode [of us us2 s new_uri_string] uri_ok_decode [of e res t 0 new_uri_string]
    by (auto split: option.splits)
qed

end
