(* ===== verification/Normalization.thy ===== *)
theory Normalization
  imports Prelude
begin

text \<open>
  Unicode normalization of strings, \<open>js/src/jsnormalization.c\<close>: the table searches, the decomposition
  buffer, the canonical ordering of combining marks by counting sort, the in-place composition and
  \<open>js_NormalizeString\<close>.  The generated tables of \<open>jsnormalization-data.h\<close> are the argument \<open>tables\<close>.
  \<open>alloc\<close> says whether an allocation of so many bytes succeeds; \<open>None\<close> is a reported error.
\<close>

subsection \<open>Tables\<close>

record NormalizationMapping =
  map_point :: u32
  canonicalOffset :: u32
  compatibilityOffset :: u32
  canonicalLength :: u8
  compatibilityLength :: u8

record CombiningRange =
  range_first :: u32
  range_last :: u32
  range_class :: u8

record CompositionPair =
  pair_first :: u32
  pair_second :: u32
  composite :: u32

record NormalizationChar =
  point :: u32
  combining :: u8

record tables =
  normalizationSequence :: "u32 list"
  normalizationMappings :: "NormalizationMapping list"
  normalizationClasses :: "CombiningRange list"
  normalizationPairs :: "CompositionPair list"

text \<open>The loop the three searches share: what the comparison of the wanted key with an entry says.\<close>

datatype side = Before | After | Here

function bsearch :: "('a \<Rightarrow> side) \<Rightarrow> 'a list \<Rightarrow> nat \<Rightarrow> nat \<Rightarrow> 'a option" where
  "bsearch cmp table low high =
     (if low < high then
        let middle = low + (high - low) div 2
        in case cmp (table ! middle) of
             Before \<Rightarrow> bsearch cmp table low middle
           | After \<Rightarrow> bsearch cmp table (middle + 1) high
           | Here \<Rightarrow> Some (table ! middle)
      else None)"
  by auto
termination by (relation "measure (\<lambda>(c, t, low, high). high - low)") auto

declare bsearch.simps [simp del]

definition class_side :: "u32 \<Rightarrow> CombiningRange \<Rightarrow> side" where
  "class_side p r = (if p < range_first r then Before else if p > range_last r then After else Here)"

definition CombiningClass :: "tables \<Rightarrow> u32 \<Rightarrow> u8" where
  "CombiningClass t p =
     (case bsearch (class_side p) (normalizationClasses t) 0 (length (normalizationClasses t)) of
        None \<Rightarrow> 0 | Some r \<Rightarrow> range_class r)"

definition mapping_side :: "u32 \<Rightarrow> NormalizationMapping \<Rightarrow> side" where
  "mapping_side p m = (if p < map_point m then Before else if p > map_point m then After else Here)"

definition Decomposition :: "tables \<Rightarrow> u32 \<Rightarrow> NormalizationMapping option" where
  "Decomposition t p = bsearch (mapping_side p) (normalizationMappings t) 0 (length (normalizationMappings t))"

definition pair_side :: "u32 \<Rightarrow> u32 \<Rightarrow> CompositionPair \<Rightarrow> side" where
  "pair_side first second pair =
     (if first < pair_first pair \<or> (first = pair_first pair \<and> second < pair_second pair) then Before
      else if first > pair_first pair \<or> second > pair_second pair then After else Here)"

text \<open>The result 0 means that the two characters do not compose.\<close>

definition Compose :: "tables \<Rightarrow> u32 \<Rightarrow> u32 \<Rightarrow> u32" where
  "Compose t first second =
     (if first \<ge> 0x1100 \<and> first < 0x1113 \<and> second \<ge> 0x1161 \<and> second < 0x1176
      then 0xac00 + (first - 0x1100) * 588 + (second - 0x1161) * 28
      else if first \<ge> 0xac00 \<and> first \<le> 0xd7a3 \<and> second > 0x11a7 \<and> second < 0x11c3 \<and> (first - 0xac00) mod 28 = 0
      then first + second - 0x11a7
      else case bsearch (pair_side first second) (normalizationPairs t) 0 (length (normalizationPairs t)) of
             None \<Rightarrow> 0 | Some pair \<Rightarrow> composite pair)"

subsection \<open>The decomposition buffer\<close>

definition JSVAL_INT_MAX :: nat where "JSVAL_INT_MAX = 2 ^ 30 - 1"

definition CHAR_BYTES :: nat where "CHAR_BYTES = 8"

definition buffer_limit :: nat where
  "buffer_limit = min JSVAL_INT_MAX ((2 ^ 64 - 1) div CHAR_BYTES)"

text \<open>The buffer is what has been written to it, with the number of elements allocated.\<close>

definition AppendDecomposition ::
  "tables \<Rightarrow> (nat \<Rightarrow> bool) \<Rightarrow> NormalizationChar list \<times> nat \<Rightarrow> u32 list \<Rightarrow> (NormalizationChar list \<times> nat) option" where
  "AppendDecomposition t alloc buf points =
     (let (buffer, capacity) = buf; count = length points
      in if count > buffer_limit - length buffer then None
         else
           let required = length buffer + count;
               grown = (if capacity \<noteq> 0 then capacity * 2 else 32);
               grown = (if grown < required then required else grown);
               grown = (if grown > buffer_limit then buffer_limit else grown);
               capacity' = (if required > capacity then grown else capacity)
           in if required > capacity \<and> \<not> alloc (grown * CHAR_BYTES) then None
              else Some (buffer @ map (\<lambda>p. \<lparr>point = p, combining = CombiningClass t p\<rparr>) points, capacity'))"

subsection \<open>Canonical ordering\<close>

text \<open>The end of the run of combining marks from \<open>start\<close>, and whether it is in order already.\<close>

function run_end :: "NormalizationChar list \<Rightarrow> nat \<Rightarrow> bool \<Rightarrow> nat \<times> bool" where
  "run_end buffer e ordered =
     (if e < length buffer \<and> combining (buffer ! e) \<noteq> 0
      then run_end buffer (e + 1) (if combining (buffer ! (e - 1)) > combining (buffer ! e) then False else ordered)
      else (e, ordered))"
  by auto
termination by (relation "measure (\<lambda>(b, e, o'). length b - e)") auto

declare run_end.simps [simp del]

definition count_classes :: "NormalizationChar list \<Rightarrow> nat list" where
  "count_classes = foldl (\<lambda>positions c. positions[unat (combining c) := positions ! unat (combining c) + 1]) (replicate 256 0)"

definition prefix_sums :: "nat list \<Rightarrow> nat list" where
  "prefix_sums positions = fst (foldl (\<lambda>(positions, total) k. (positions[k := total], total + positions ! k)) (positions, 0) [1..<256])"

definition scatter :: "NormalizationChar list \<Rightarrow> NormalizationChar list \<times> nat list \<Rightarrow> NormalizationChar list \<times> nat list" where
  "scatter run = (\<lambda>s. foldl (\<lambda>(scratch, positions) c.
     let k = unat (combining c) in (scratch[positions ! k := c], positions[k := positions ! k + 1])) s run)"

text \<open>\<open>scratch\<close> is freshly allocated; every element of it is written.\<close>

definition counting_sort :: "NormalizationChar list \<Rightarrow> NormalizationChar list" where
  "counting_sort run =
     fst (scatter run (replicate (length run) \<lparr>point = 0, combining = 0\<rparr>, prefix_sums (count_classes run)))"

lemma run_end_bounds:
  "run_end buffer e ordered = (e', ordered') \<Longrightarrow> e \<le> e' \<and> (e \<le> length buffer \<longrightarrow> e' \<le> length buffer)"
proof (induction buffer e ordered rule: run_end.induct)
  case (1 buffer e ordered)
  show ?case
  proof (cases "e < length buffer \<and> combining (buffer ! e) \<noteq> 0")
    case True
    from 1(1) [OF True] 1(2) [unfolded run_end.simps [of buffer e ordered]] True show ?thesis by auto
  next
    case False
    then show ?thesis using 1(2) [unfolded run_end.simps [of buffer e ordered]] by auto
  qed
qed

lemma length_counting_sort: "length (counting_sort run) = length run"
proof -
  have "length (fst (scatter r s)) = length (fst s)" for r s
    unfolding scatter_def by (induction r arbitrary: s) (auto simp: Let_def split: prod.splits)
  then show ?thesis by (simp add: counting_sort_def)
qed

lemma run_end_next: "run_end buffer (Suc start) ordered = (e, ordered') \<Longrightarrow> start < length buffer \<Longrightarrow> start < e \<and> e \<le> length buffer"
  using run_end_bounds [of buffer "Suc start" ordered e ordered'] by auto

text \<open>\<open>None\<close> when the scratch buffer cannot grow to the run; \<open>capacity\<close> is its size.\<close>

function order_loop :: "(nat \<Rightarrow> bool) \<Rightarrow> NormalizationChar list \<Rightarrow> nat \<Rightarrow> nat \<Rightarrow> NormalizationChar list option" where
  "order_loop alloc buffer start capacity =
     (if start < length buffer then
        if combining (buffer ! start) = 0 then order_loop alloc buffer (start + 1) capacity
        else
          case run_end buffer (start + 1) True of (e, ordered) \<Rightarrow>
            if ordered then order_loop alloc buffer e capacity
            else
              let count = e - start
              in if count > capacity \<and> \<not> alloc (count * CHAR_BYTES) then None
                 else order_loop alloc
                        (take start buffer @ counting_sort (take count (drop start buffer)) @ drop e buffer)
                        e (max capacity count)
      else Some buffer)"
  by auto

termination
  by (relation "measure (\<lambda>(a, buffer, start, c). length buffer - start)")
    (auto simp: length_counting_sort dest!: run_end_next [OF sym])

definition CanonicalOrder :: "(nat \<Rightarrow> bool) \<Rightarrow> NormalizationChar list \<Rightarrow> NormalizationChar list option" where
  "CanonicalOrder alloc buffer = order_loop alloc buffer 0 0"

declare order_loop.simps [simp del]
subsection \<open>Composition, in place\<close>

type_synonym compose_state = "NormalizationChar list \<times> nat option \<times> nat \<times> u8"

definition compose_step :: "tables \<Rightarrow> compose_state \<Rightarrow> nat \<Rightarrow> compose_state" where
  "compose_step t state i =
     (let (buffer, starter, outputLength, previousClass) = state;
          comp = (case starter of
                    None \<Rightarrow> 0
                  | Some s \<Rightarrow>
                      if previousClass = 0 \<or> previousClass < combining (buffer ! i)
                      then Compose t (point (buffer ! s)) (point (buffer ! i)) else 0)
      in if comp \<noteq> 0
         then (buffer[the starter := (buffer ! the starter)\<lparr>point := comp\<rparr>], starter, outputLength, previousClass)
         else (buffer[outputLength := buffer ! i],
               if combining (buffer ! i) = 0 then Some outputLength else starter, outputLength + 1, combining (buffer ! i)))"

definition compose_buffer :: "tables \<Rightarrow> NormalizationChar list \<Rightarrow> NormalizationChar list" where
  "compose_buffer t buffer =
     (case foldl (compose_step t) (buffer, None, 0, 0) [0..<length buffer] of
        (buffer, _, outputLength, _) \<Rightarrow> take outputLength buffer)"

subsection \<open>The whole string\<close>

text \<open>The next code point; an unpaired surrogate stands for itself.\<close>

fun norm_next :: "jschar \<Rightarrow> jschar list \<Rightarrow> u32 \<times> jschar list" where
  "norm_next c [] = (ucast c, [])"
| "norm_next c (c2 # rest) =
     (if c \<ge> 0xd800 \<and> c \<le> 0xdbff \<and> c2 \<ge> 0xdc00 \<and> c2 \<le> 0xdfff
      then (0x10000 + push_bit 10 (ucast c - 0xd800) + (ucast c2 - 0xdc00), rest)
      else (ucast c, c2 # rest))"

text \<open>The sequence that a mapping names lies within the generated table; what would lie past it is left out.\<close>

definition decomposition_points :: "tables \<Rightarrow> u32 \<Rightarrow> u32 \<Rightarrow> u32 list" where
  "decomposition_points t form p =
     (if p \<ge> 0xac00 \<and> p \<le> 0xd7a3 then
        let s = p - 0xac00
        in [0x1100 + s div 588, 0x1161 + s mod 588 div 28] @ (if s mod 28 \<noteq> 0 then [0x11a7 + s mod 28] else [])
      else
        case Decomposition t p of
          None \<Rightarrow> [p]
        | Some m \<Rightarrow>
            let count = unat (if form AND 2 \<noteq> 0 then compatibilityLength m else canonicalLength m);
                offset = unat (if form AND 2 \<noteq> 0 then compatibilityOffset m else canonicalOffset m)
            in if count \<noteq> 0 then take count (drop offset (normalizationSequence t)) else [p])"

lemma norm_next_length: "norm_next c rest = (p, rest') \<Longrightarrow> length rest' \<le> length rest"
  by (cases rest) (auto split: if_splits)

function decompose_loop ::
  "tables \<Rightarrow> (nat \<Rightarrow> bool) \<Rightarrow> u32 \<Rightarrow> jschar list \<Rightarrow> NormalizationChar list \<times> nat \<Rightarrow> (NormalizationChar list \<times> nat) option" where
  "decompose_loop t alloc form [] buf = Some buf"
| "decompose_loop t alloc form (c # rest) buf =
     (case norm_next c rest of (p, rest) \<Rightarrow>
        case AppendDecomposition t alloc buf (decomposition_points t form p) of
          None \<Rightarrow> None
        | Some buf \<Rightarrow> decompose_loop t alloc form rest buf)"
  by pat_completeness auto
termination
  by (relation "measure (\<lambda>(t, a, f, src, b). length src)") (auto simp: less_Suc_eq_le dest!: norm_next_length [OF sym])

fun output_length :: "NormalizationChar list \<Rightarrow> nat \<Rightarrow> nat option" where
  "output_length [] n = Some n"
| "output_length (c # buffer) n =
     (let count = (if point c > 0xffff then 2 else 1)
      in if count > JSVAL_INT_MAX - n then None else output_length buffer (n + count))"

definition point_units :: "u32 \<Rightarrow> jschar list" where
  "point_units p =
     (if p \<le> 0xffff then [ucast p]
      else let p = p - 0x10000 in [ucast (0xd800 + drop_bit 10 p), ucast (0xdc00 + (p AND 0x3ff))])"

text \<open>\<open>js_NewString\<close> takes the characters over; a string header has 16 bytes.\<close>

definition JSSTRING_LENGTH_MASK :: nat where "JSSTRING_LENGTH_MASK = 2 ^ 62 - 1"

definition js_NewString :: "(nat \<Rightarrow> bool) \<Rightarrow> jschar list \<Rightarrow> jschar list option" where
  "js_NewString alloc chars = (if length chars > JSSTRING_LENGTH_MASK \<or> \<not> alloc 16 then None else Some chars)"

definition js_NormalizeString :: "tables \<Rightarrow> (nat \<Rightarrow> bool) \<Rightarrow> jschar list \<Rightarrow> u32 \<Rightarrow> jschar list option" where
  "js_NormalizeString t alloc source form =
     (case decompose_loop t alloc form source ([], 0) of
        None \<Rightarrow> None
      | Some (buffer, capacity) \<Rightarrow>
          case CanonicalOrder alloc buffer of
            None \<Rightarrow> None
          | Some buffer \<Rightarrow>
              let buffer = (if form AND 1 \<noteq> 0 then compose_buffer t buffer else buffer)
              in case output_length buffer 0 of
                   None \<Rightarrow> None
                 | Some outputLength \<Rightarrow>
                     if \<not> alloc ((outputLength + 1) * 2) then None
                     else js_NewString alloc (concat (map (\<lambda>c. point_units (point c)) buffer)))"

end
