(* ===== verification/Normalization_Correct.thy ===== *)
theory Normalization_Correct
  imports Normalization "HOL-Library.Multiset"
begin

text \<open>
  Normalization against independent descriptions: table searches are lookups, canonical ordering is a
  stable sort of every run of combining marks, composition in place is composition into a fresh list, and
  Hangul syllables decompose and compose back.
\<close>

subsection \<open>Table searches\<close>

definition ordered_by :: "('a \<Rightarrow> side) \<Rightarrow> 'a list \<Rightarrow> bool" where
  "ordered_by cmp = sorted_wrt (\<lambda>x y. (cmp x = Before \<longrightarrow> cmp y = Before) \<and> (cmp y = After \<longrightarrow> cmp x = After) \<and> \<not> (cmp x = Here \<and> cmp y = Here))"

lemma ordered_byD:
  assumes "ordered_by cmp table" "i < j" "j < length table"
  shows "cmp (table ! i) = Before \<Longrightarrow> cmp (table ! j) = Before"
    "cmp (table ! j) = After \<Longrightarrow> cmp (table ! i) = After" "\<not> (cmp (table ! i) = Here \<and> cmp (table ! j) = Here)"
  using assms by (auto simp: ordered_by_def sorted_wrt_iff_nth_less)

lemma bsearch_sound:
  assumes "ordered_by cmp table" "high \<le> length table"
  shows "(\<forall>x. bsearch cmp table low high = Some x \<longrightarrow> (\<exists>i<high. x = table ! i \<and> cmp x = Here)) \<and>
    (bsearch cmp table low high = None \<longrightarrow> (\<forall>i. low \<le> i \<and> i < high \<longrightarrow> cmp (table ! i) \<noteq> Here))"
  using assms
proof (induction cmp table low high rule: bsearch.induct)
  case (1 cmp table low high)
  show ?case
  proof (cases "low < high")
    case False
    then show ?thesis by (auto simp: bsearch.simps)
  next
    case True
    define mid where "mid = low + (high - low) div 2"
    have m: "low \<le> mid" "mid < high" using True by (simp_all add: mid_def)
    show ?thesis
    proof (cases "cmp (table ! mid)")
      case Before
      then have b: "bsearch cmp table low high = bsearch cmp table low mid"
        using True by (subst bsearch.simps) (simp add: Let_def flip: mid_def)
      have "cmp (table ! i) \<noteq> Here" if "mid \<le> i" "i < high" for i
        using ordered_byD(1) [OF 1(3), of mid i] that Before 1(4) by (cases "mid = i") auto
      moreover have "(\<forall>x. bsearch cmp table low mid = Some x \<longrightarrow> (\<exists>i<mid. x = table ! i \<and> cmp x = Here)) \<and>
          (bsearch cmp table low mid = None \<longrightarrow> (\<forall>i. low \<le> i \<and> i < mid \<longrightarrow> cmp (table ! i) \<noteq> Here))"
        using 1(1) [OF True mid_def Before 1(3)] m(2) 1(4) by simp
      ultimately show ?thesis unfolding b using m(2) by (meson less_trans not_le)
    next
      case After
      then have b: "bsearch cmp table low high = bsearch cmp table (mid + 1) high"
        using True by (subst bsearch.simps) (simp add: Let_def flip: mid_def)
      have "cmp (table ! i) \<noteq> Here" if "i \<le> mid" for i
        using ordered_byD(2) [OF 1(3), of i mid] that After 1(4) m(2) by (cases "mid = i") auto
      moreover note 1(2) [OF True mid_def After 1(3,4)]
      moreover have "i \<le> mid \<or> mid + 1 \<le> i" for i by linarith
      ultimately show ?thesis unfolding b by blast
    next
      case Here
      then show ?thesis using True m 1(4) by (subst (1 2) bsearch.simps) (auto simp: Let_def simp flip: mid_def)
    qed
  qed
qed

lemma bsearch_find:
  assumes "ordered_by cmp table"
  shows "bsearch cmp table 0 (length table) = find (\<lambda>x. cmp x = Here) table"
proof -
  note sound = bsearch_sound [OF assms order_refl, of 0]
  show ?thesis
  proof (cases "bsearch cmp table 0 (length table)")
    case None
    with sound have n: "\<And>i. i < length table \<Longrightarrow> cmp (table ! i) \<noteq> Here" by simp
    have "find (\<lambda>x. cmp x = Here) table = None"
      unfolding find_None_iff by (metis n in_set_conv_nth)
    with None show ?thesis by simp
  next
    case (Some x)
    with sound obtain i where i: "i < length table" "x = table ! i" "cmp x = Here" by auto
    have "cmp (table ! j) \<noteq> Here" if "j < i" for j
      using ordered_byD(3) [OF assms that i(1)] i(2,3) by simp
    then have "find (\<lambda>x. cmp x = Here) table = Some x"
      unfolding find_Some_iff using i by (intro exI [of _ i]) simp
    with Some show ?thesis by simp
  qed
qed

text \<open>The order of the generated tables.\<close>

definition tables_ok :: "tables \<Rightarrow> bool" where
  "tables_ok t \<longleftrightarrow> sorted_wrt (\<lambda>m n. map_point m < map_point n) (normalizationMappings t) \<and>
     sorted_wrt (\<lambda>r s. range_last r < range_first s) (normalizationClasses t) \<and>
     list_all (\<lambda>r. range_first r \<le> range_last r) (normalizationClasses t) \<and>
     sorted_wrt (\<lambda>p q. pair_first p < pair_first q \<or> pair_first p = pair_first q \<and> pair_second p < pair_second q)
       (normalizationPairs t)"

lemma tables_ordered:
  assumes "tables_ok t"
  shows "ordered_by (mapping_side p) (normalizationMappings t)"
    "ordered_by (class_side p) (normalizationClasses t)"
    "ordered_by (pair_side p q) (normalizationPairs t)"
proof -
  show "ordered_by (mapping_side p) (normalizationMappings t)"
    using assms unfolding tables_ok_def ordered_by_def
    by (elim conjE sorted_wrt_mono_rel [rotated]) (auto simp: mapping_side_def)
  show "ordered_by (pair_side p q) (normalizationPairs t)"
    using assms unfolding tables_ok_def ordered_by_def
    by (elim conjE) (erule sorted_wrt_mono_rel [rotated], auto simp: pair_side_def)
  have c: "sorted_wrt (\<lambda>r s. range_last r < range_first s) (normalizationClasses t)"
    "\<forall>r \<in> set (normalizationClasses t). range_first r \<le> range_last r"
    using assms by (simp_all add: tables_ok_def list_all_iff)
  show "ordered_by (class_side p) (normalizationClasses t)"
    unfolding ordered_by_def
  proof (rule sorted_wrt_mono_rel [OF _ c(1)])
    fix x y assume "x \<in> set (normalizationClasses t)" "y \<in> set (normalizationClasses t)" "range_last x < range_first y"
    moreover from this c(2) have "range_first x \<le> range_last x" "range_first y \<le> range_last y" by blast+
    ultimately show "(class_side p x = Before \<longrightarrow> class_side p y = Before) \<and>
        (class_side p y = After \<longrightarrow> class_side p x = After) \<and> \<not> (class_side p x = Here \<and> class_side p y = Here)"
      by (auto simp: class_side_def)
  qed
qed
subsection \<open>Counting sort\<close>

definition cls :: "NormalizationChar \<Rightarrow> nat" where
  "cls c = unat (combining c)"

abbreviation bucket :: "nat \<Rightarrow> NormalizationChar list \<Rightarrow> NormalizationChar list" where
  "bucket k xs \<equiv> filter (\<lambda>c. cls c = k) xs"

lemma cls_less: "cls c < 256"
  using unsigned_less [of "combining c", where ?'a = nat] by (simp add: cls_def)

lemma count_classes_nth:
  "length (count_classes run) = 256 \<and> (\<forall>k<256. count_classes run ! k = length (bucket k run))"
proof -
  have "length (foldl (\<lambda>p c. p[unat (combining c) := p ! unat (combining c) + 1]) p run) = 256 \<and>
      (\<forall>k<256. foldl (\<lambda>p c. p[unat (combining c) := p ! unat (combining c) + 1]) p run ! k = p ! k + length (bucket k run))"
    if "length p = 256" for p :: "nat list"
    using that
  proof (induction run arbitrary: p)
    case (Cons c run)
    have "unat (combining c) < 256" using cls_less [of c] by (simp add: cls_def)
    then show ?case using Cons.IH [of "p[unat (combining c) := p ! unat (combining c) + 1]"] Cons.prems
      by (auto simp: cls_def nth_list_update)
  qed simp
  from this [of "replicate 256 0"] show ?thesis by (simp add: count_classes_def)
qed

definition bucket_start :: "NormalizationChar list \<Rightarrow> nat \<Rightarrow> nat" where
  "bucket_start run k = (\<Sum>j \<in> {1..<k}. length (bucket j run))"

lemma bucket_start_Suc: "1 \<le> k \<Longrightarrow> bucket_start run (Suc k) = bucket_start run k + length (bucket k run)"
  by (simp add: bucket_start_def)

lemma bucket_start_mono: "j \<le> k \<Longrightarrow> bucket_start run j \<le> bucket_start run k"
  unfolding bucket_start_def by (intro sum_mono2) auto

lemma bucket_start_filter: "1 \<le> k \<Longrightarrow> bucket_start run k = length (filter (\<lambda>c. 1 \<le> cls c \<and> cls c < k) run)"
proof (induction k rule: nat_induct_at_least)
  case base
  then show ?case by (simp add: bucket_start_def)
next
  case (Suc n)
  have "length (filter (\<lambda>c. 1 \<le> cls c \<and> cls c < Suc n) run) =
      length (filter (\<lambda>c. 1 \<le> cls c \<and> cls c < n) run) + length (bucket n run)"
    using Suc.hyps by (induction run) auto
  then show ?case using Suc by (simp add: bucket_start_Suc)
qed

lemma bucket_start_all: "list_all (\<lambda>c. cls c \<noteq> 0) run \<Longrightarrow> bucket_start run 256 = length run"
  using cls_less by (simp add: bucket_start_filter list_all_iff Suc_le_eq)

lemma prefix_sums_nth:
  assumes "length p = 256" "\<forall>k<256. p ! k = length (bucket k run)"
  shows "length (prefix_sums p) = 256 \<and> (\<forall>k<256. 1 \<le> k \<longrightarrow> prefix_sums p ! k = bucket_start run k)"
proof -
  let ?f = "\<lambda>(positions, total) k. (positions[k := total], total + positions ! k) :: nat list \<times> nat"
  have "length (fst (foldl ?f (p, 0) [1..<n])) = 256 \<and> snd (foldl ?f (p, 0) [1..<n]) = bucket_start run n \<and>
      (\<forall>k<256. fst (foldl ?f (p, 0) [1..<n]) ! k = (if 1 \<le> k \<and> k < n then bucket_start run k else length (bucket k run)))"
    if "1 \<le> n" "n \<le> 256" for n
    using that
  proof (induction n rule: nat_induct_at_least)
    case base
    then show ?case using assms by (simp add: bucket_start_def)
  next
    case (Suc n)
    obtain ps t where st: "foldl ?f (p, 0) [1..<n] = (ps, t)" by fastforce
    with Suc have ps: "length ps = 256" "t = bucket_start run n"
      "\<forall>k<256. ps ! k = (if 1 \<le> k \<and> k < n then bucket_start run k else length (bucket k run))" by simp_all
    have e: "foldl ?f (p, 0) [1..<Suc n] = (ps[n := t], t + ps ! n)"
      using st Suc.hyps by (simp add: upt_Suc_append)
    show ?case unfolding e using ps Suc.hyps Suc.prems by (auto simp: bucket_start_Suc nth_list_update less_Suc_eq)
  qed
  from this [of 256] show ?thesis by (simp add: prefix_sums_def)
qed

definition scattered :: "NormalizationChar list \<Rightarrow> NormalizationChar list \<Rightarrow> NormalizationChar list \<times> nat list \<Rightarrow> bool" where
  "scattered run seen sp \<longleftrightarrow> length (fst sp) = length run \<and> length (snd sp) = 256 \<and>
     (\<forall>k<256. 1 \<le> k \<longrightarrow> snd sp ! k = bucket_start run k + length (bucket k seen) \<and>
        (\<forall>i<length (bucket k seen). fst sp ! (bucket_start run k + i) = bucket k seen ! i))"

lemma scattered_step:
  assumes inv: "scattered run seen (s, p)" and run: "run = seen @ c # rest" and nz: "list_all (\<lambda>c. cls c \<noteq> 0) run"
  shows "scattered run (seen @ [c]) (s[p ! cls c := c], p[cls c := p ! cls c + 1])"
proof -
  let ?k = "cls c" and ?at = "p ! cls c"
  have k: "1 \<le> ?k" "?k < 256" using nz run cls_less by (simp_all add: Suc_le_eq)
  have at: "?at = bucket_start run ?k + length (bucket ?k seen)" using inv k by (simp add: scattered_def)
  have room: "bucket_start run j + length (bucket j seen) \<le> bucket_start run (Suc j)" if "1 \<le> j" for j
    using that run by (simp add: bucket_start_Suc)
  have at_end: "?at < bucket_start run (Suc ?k)" using k at run by (simp add: bucket_start_Suc)
  have "bucket_start run (Suc ?k) \<le> bucket_start run 256" using k by (intro bucket_start_mono) simp
  then have in_s: "?at < length run" using at_end bucket_start_all [OF nz] by simp
  have other: "bucket_start run j + i \<noteq> ?at" if j: "1 \<le> j" "j < 256" "j \<noteq> ?k" and i: "i < length (bucket j seen)" for j i
  proof (cases "j < ?k")
    case True
    then have "bucket_start run (Suc j) \<le> bucket_start run ?k" by (intro bucket_start_mono) simp
    then show ?thesis using room [OF j(1)] i at by linarith
  next
    case False
    then have "bucket_start run (Suc ?k) \<le> bucket_start run j" using j(3) by (intro bucket_start_mono) simp
    then show ?thesis using at_end by linarith
  qed
  show ?thesis unfolding scattered_def
  proof (intro conjI allI impI)
    fix j :: nat assume j: "j < 256" "1 \<le> j"
    note I = inv [unfolded scattered_def fst_conv snd_conv]
    show "snd (s[?at := c], p[?k := ?at + 1]) ! j = bucket_start run j + length (bucket j (seen @ [c]))"
      using I j k by (auto simp: nth_list_update)
    fix i :: nat assume i: "i < length (bucket j (seen @ [c]))"
    show "fst (s[?at := c], p[?k := ?at + 1]) ! (bucket_start run j + i) = bucket j (seen @ [c]) ! i"
    proof (cases "j = ?k")
      case True
      then show ?thesis using I j i at in_s by (auto simp: nth_append nth_list_update less_Suc_eq)
    next
      case False
      then show ?thesis using I j i other [of j i] by auto
    qed
  qed (use inv in \<open>simp_all add: scattered_def\<close>)
qed

lemma scatter_all:
  assumes "scattered run seen sp" "run = seen @ rest" "list_all (\<lambda>c. cls c \<noteq> 0) run"
  shows "scattered run run (scatter rest sp)"
  using assms
proof (induction rest arbitrary: seen sp)
  case Nil
  then show ?case by (simp add: scatter_def)
next
  case (Cons c rest)
  obtain s p where sp: "sp = (s, p)" by fastforce
  have "scattered run (seen @ [c]) (s[p ! cls c := c], p[cls c := p ! cls c + 1])"
    by (rule scattered_step) (use Cons.prems sp in auto)
  from Cons.IH [OF this] Cons.prems show ?case by (simp add: scatter_def sp Let_def cls_def)
qed

lemma concat_buckets:
  assumes "scattered run run (s, p)" "1 \<le> n" "n \<le> 256" "list_all (\<lambda>c. cls c \<noteq> 0) run"
  shows "concat (map (\<lambda>k. bucket k run) [1..<n]) = take (bucket_start run n) s"
  using assms(2,3)
proof (induction n rule: nat_induct_at_least)
  case base
  then show ?case by (simp add: bucket_start_def)
next
  case (Suc n)
  have len: "bucket_start run (Suc n) \<le> length s"
    using bucket_start_mono [of "Suc n" 256 run] Suc.prems bucket_start_all [OF assms(4)] assms(1) by (simp add: scattered_def)
  have "take (length (bucket n run)) (drop (bucket_start run n) s) = bucket n run"
  proof (rule nth_equalityI)
    show "length (take (length (bucket n run)) (drop (bucket_start run n) s)) = length (bucket n run)"
      using len Suc.hyps by (simp add: bucket_start_Suc)
    fix i assume "i < length (take (length (bucket n run)) (drop (bucket_start run n) s))"
    then show "take (length (bucket n run)) (drop (bucket_start run n) s) ! i = bucket n run ! i"
      using assms(1) Suc.hyps Suc.prems len by (simp add: scattered_def bucket_start_Suc)
  qed
  then show ?case using Suc by (simp add: bucket_start_Suc take_add upt_Suc_append)
qed

lemma counting_sort_buckets:
  assumes "list_all (\<lambda>c. cls c \<noteq> 0) run"
  shows "counting_sort run = concat (map (\<lambda>k. bucket k run) [1..<256])"
proof -
  let ?s0 = "(replicate (length run) \<lparr>point = 0, combining = 0\<rparr>, prefix_sums (count_classes run))"
  have "scattered run [] ?s0"
    using prefix_sums_nth [of "count_classes run" run] count_classes_nth [of run] by (simp add: scattered_def)
  from scatter_all [OF this] assms have all: "scattered run run (scatter run ?s0)" by simp
  obtain s p where sp: "scatter run ?s0 = (s, p)" by fastforce
  have "concat (map (\<lambda>k. bucket k run) [1..<256]) = take (bucket_start run 256) s"
    by (rule concat_buckets [of run s p]) (use all sp assms in simp_all)
  also have "\<dots> = s" using all sp bucket_start_all [OF assms] by (simp add: scattered_def)
  finally show ?thesis by (simp add: counting_sort_def sp)
qed

subsection \<open>Canonical ordering is a stable sort of each run\<close>

lemma buckets_sorted: "sorted (map cls (concat (map (\<lambda>k. bucket k run) [1..<n])))"
proof (induction n)
  case (Suc n)
  have "sorted (map cls (bucket n run))" by (induction run) auto
  then show ?case using Suc by (cases "n = 0") (auto simp: upt_Suc_append sorted_append)
qed simp

lemma buckets_filter:
  "filter (\<lambda>c. cls c = k) (concat (map (\<lambda>k. bucket k run) [1..<n])) = (if 1 \<le> k \<and> k < n then bucket k run else [])"
proof (induction n)
  case (Suc n)
  then show ?case by (cases "n = 0") (auto simp: upt_Suc_append filter_empty_conv intro: filter_cong)
qed simp

lemma buckets_mset:
  "mset (concat (map (\<lambda>k. bucket k run) [1..<n])) = mset (filter (\<lambda>c. 1 \<le> cls c \<and> cls c < n) run)"
proof (induction n)
  case (Suc n)
  have "mset (filter (\<lambda>c. 1 \<le> cls c \<and> cls c < Suc n) run) =
      mset (filter (\<lambda>c. 1 \<le> cls c \<and> cls c < n) run) + mset (bucket n run)" if "1 \<le> n"
    using that by (induction run) auto
  then show ?case using Suc by (cases "n = 0") (auto simp: upt_Suc_append)
qed simp

lemma counting_sort_stable:
  assumes "list_all (\<lambda>c. cls c \<noteq> 0) run"
  shows "counting_sort run = sort_key cls run"
proof -
  have "sort_key cls run = concat (map (\<lambda>k. bucket k run) [1..<256])"
  proof (rule properties_for_sort_key)
    have all: "filter (\<lambda>c. 1 \<le> cls c \<and> cls c < 256) run = run"
      using assms cls_less by (auto simp: list_all_iff Suc_le_eq intro!: filter_True)
    show "mset (concat (map (\<lambda>k. bucket k run) [1..<256])) = mset run"
      unfolding buckets_mset all ..
    show "filter (\<lambda>x. cls k = cls x) (concat (map (\<lambda>k. bucket k run) [1..<256])) = filter (\<lambda>x. cls k = cls x) run"
      if "k \<in> set (concat (map (\<lambda>k. bucket k run) [1..<256]))" for k
    proof -
      have "1 \<le> cls k" "cls k < 256" using that by auto
      then show ?thesis using buckets_filter [of "cls k" run 256] by (simp add: eq_commute [of "cls k"])
    qed
    show "sorted (map cls (concat (map (\<lambda>k. bucket k run) [1..<256])))" by (rule buckets_sorted)
  qed
  then show ?thesis by (simp add: counting_sort_buckets [OF assms])
qed

text \<open>The reference: starters stay, every maximal run of combining marks is stably sorted by class.\<close>

function order_marks :: "NormalizationChar list \<Rightarrow> NormalizationChar list" where
  "order_marks [] = []"
| "order_marks (c # cs) =
     (if combining c = 0 then c # order_marks cs
      else sort_key cls (c # takeWhile (\<lambda>c. combining c \<noteq> 0) cs) @ order_marks (dropWhile (\<lambda>c. combining c \<noteq> 0) cs))"
  by pat_completeness auto
termination by (relation "measure length") (auto simp: length_dropWhile_le less_Suc_eq_le)

lemma run_end_spec:
  assumes "run_end buffer e ordered = (e', ordered')" "1 \<le> e" "e \<le> length buffer"
  shows "e' = e + length (takeWhile (\<lambda>c. combining c \<noteq> 0) (drop e buffer)) \<and>
    (ordered' \<longleftrightarrow> ordered \<and> (\<forall>i. e \<le> i \<and> i < e' \<longrightarrow> cls (buffer ! (i - 1)) \<le> cls (buffer ! i)))"
  using assms
proof (induction buffer e ordered rule: run_end.induct)
  case (1 buffer e ordered)
  show ?case
  proof (cases "e < length buffer \<and> combining (buffer ! e) \<noteq> 0")
    case True
    let ?o = "if combining (buffer ! (e - 1)) > combining (buffer ! e) then False else ordered"
    have r: "run_end buffer (e + 1) ?o = (e', ordered')" using 1(2) True by (subst (asm) run_end.simps) simp
    have IH: "e' = e + 1 + length (takeWhile (\<lambda>c. combining c \<noteq> 0) (drop (e + 1) buffer))"
      "ordered' \<longleftrightarrow> ?o \<and> (\<forall>i. e + 1 \<le> i \<and> i < e' \<longrightarrow> cls (buffer ! (i - 1)) \<le> cls (buffer ! i))"
      using 1(1) [OF True r] 1(3) True by auto
    have d: "drop e buffer = buffer ! e # drop (e + 1) buffer" using True by (simp add: Cons_nth_drop_Suc)
    have len: "e' = e + length (takeWhile (\<lambda>c. combining c \<noteq> 0) (drop e buffer))" using IH(1) True by (simp add: d)
    have o: "?o \<longleftrightarrow> ordered \<and> cls (buffer ! (e - 1)) \<le> cls (buffer ! e)"
      by (auto simp: cls_def word_less_nat_alt)
    have split: "(\<forall>i. e \<le> i \<and> i < e' \<longrightarrow> P i) \<longleftrightarrow> P e \<and> (\<forall>i. e + 1 \<le> i \<and> i < e' \<longrightarrow> P i)" for P
      using IH(1) by (metis Suc_eq_plus1 add_Suc_right le_add1 le_eq_less_or_eq less_Suc_eq_le not_less_eq_eq plus_nat.simps(2) Suc_leI)
    show ?thesis unfolding IH(2) o split [of "\<lambda>i. cls (buffer ! (i - 1)) \<le> cls (buffer ! i)"] using len by blast
  next
    case False
    then have "e' = e" "ordered' = ordered" using 1(2) by (subst (asm) run_end.simps, simp)+
    moreover have "takeWhile (\<lambda>c. combining c \<noteq> 0) (drop e buffer) = []"
      using False 1(4) by (cases "e < length buffer") (simp_all add: Cons_nth_drop_Suc [symmetric])
    ultimately show ?thesis by simp
  qed
qed

lemma order_loop_spec:
  "case order_loop alloc buffer start capacity of
     None \<Rightarrow> \<exists>n. \<not> alloc n
   | Some r \<Rightarrow> r = take start buffer @ order_marks (drop start buffer)"
proof (induction alloc buffer start capacity rule: order_loop.induct)
  case (1 alloc buffer start capacity)
  show ?case
  proof (cases "start < length buffer")
    case False
    then show ?thesis by (simp add: order_loop.simps)
  next
    case True
    have d: "drop start buffer = buffer ! start # drop (start + 1) buffer" using True by (simp add: Cons_nth_drop_Suc)
    show ?thesis
    proof (cases "combining (buffer ! start) = 0")
      case z: True
      have "order_loop alloc buffer start capacity = order_loop alloc buffer (start + 1) capacity"
        using True z by (subst order_loop.simps) simp
      then show ?thesis using 1(1) [OF True z] True z by (simp add: d take_Suc_conv_app_nth split: option.splits)
    next
      case nz: False
      obtain e ordered where r: "run_end buffer (start + 1) True = (e, ordered)" by fastforce
      let ?m = "\<lambda>c. combining c \<noteq> 0"
      let ?run = "buffer ! start # takeWhile ?m (drop (start + 1) buffer)"
      have spec: "e = start + 1 + length (takeWhile ?m (drop (start + 1) buffer))"
        "ordered \<longleftrightarrow> (\<forall>i. start + 1 \<le> i \<and> i < e \<longrightarrow> cls (buffer ! (i - 1)) \<le> cls (buffer ! i))"
        using run_end_spec [OF r] True by auto
      have e: "start < e" "e \<le> length buffer" using run_end_bounds [OF r] True by auto
      have de: "drop e buffer = dropWhile ?m (drop (start + 1) buffer)"
        unfolding spec(1) dropWhile_eq_drop drop_drop by (simp only: add.commute)
      have run: "take (e - start) (drop start buffer) = ?run"
        unfolding d spec(1) using takeWhile_eq_take [of ?m "drop (start + 1) buffer", symmetric] by simp
      have marks: "order_marks (drop start buffer) = sort_key cls ?run @ order_marks (drop e buffer)"
        using nz by (simp add: d de)
      have nzr: "list_all (\<lambda>c. cls c \<noteq> 0) ?run"
        using nz by (auto simp: list_all_iff cls_def unat_eq_zero dest: set_takeWhileD)
      have te: "take e buffer = take start buffer @ ?run"
        using e unfolding run [symmetric] by (metis le_add_diff_inverse less_imp_le_nat take_add)
      show ?thesis
      proof (cases ordered)
        case True
        have "sorted (map cls ?run)"
        proof (subst sorted_iff_nth_Suc, intro allI impI)
          fix i assume i: "Suc i < length (map cls ?run)"
          have at: "?run ! j = buffer ! (start + j)" if "j < length ?run" for j
            using that e unfolding run [symmetric] by simp
          have "start + Suc i < e" using i spec(1) by simp
          moreover have "start + 1 \<le> start + Suc i" by simp
          moreover have "\<forall>i. start + 1 \<le> i \<and> i < e \<longrightarrow> cls (buffer ! (i - 1)) \<le> cls (buffer ! i)"
            using True spec(2) by blast
          ultimately have "cls (buffer ! (start + Suc i - 1)) \<le> cls (buffer ! (start + Suc i))" by blast
          moreover have l: "i < length ?run" "Suc i < length ?run" using i by simp_all
          ultimately show "map cls ?run ! i \<le> map cls ?run ! Suc i"
            unfolding nth_map [OF l(1)] nth_map [OF l(2)] at [OF l(1)] at [OF l(2)] by simp
        qed
        then have "sort_key cls ?run = ?run" by (intro properties_for_sort_key) simp_all
        moreover have "order_loop alloc buffer start capacity = order_loop alloc buffer e capacity"
          using \<open>start < length buffer\<close> nz r True by (subst order_loop.simps) simp
        moreover note 1(2) [OF \<open>start < length buffer\<close> nz r [symmetric] True]
        ultimately show ?thesis using te marks by (simp split: option.splits)
      next
        case False
        let ?c = "e - start"
        let ?b = "take start buffer @ counting_sort ?run @ drop e buffer"
        have l: "length (counting_sort ?run) = ?c" using e by (simp only: length_counting_sort flip: run) simp
        have step: "order_loop alloc buffer start capacity =
            (if ?c > capacity \<and> \<not> alloc (?c * CHAR_BYTES) then None else order_loop alloc ?b e (max capacity ?c))"
          using \<open>start < length buffer\<close> nz r False by (subst order_loop.simps) (simp add: Let_def run)
        show ?thesis
        proof (cases "?c > capacity \<and> \<not> alloc (?c * CHAR_BYTES)")
          case True
          then show ?thesis unfolding step by auto
        next
          case False
          have "take e ?b = take start buffer @ counting_sort ?run" "drop e ?b = drop e buffer"
            using e l by simp_all
          then show ?thesis
            using 1(3) [OF \<open>start < length buffer\<close> nz r [symmetric] \<open>\<not> ordered\<close> refl False] marks
            unfolding step run if_not_P [OF False] counting_sort_stable [OF nzr]
            by (simp split: option.splits)
        qed
      qed
    qed
  qed
qed
lemma canonical:
  "case CanonicalOrder alloc buffer of None \<Rightarrow> \<exists>n. \<not> alloc n | Some r \<Rightarrow> r = order_marks buffer"
  using order_loop_spec [where alloc = alloc and buffer = buffer and start = 0 and capacity = 0] by (simp add: CanonicalOrder_def split: option.splits)

subsection \<open>Composition\<close>

abbreviation in_order :: "NormalizationChar \<Rightarrow> NormalizationChar \<Rightarrow> bool" where
  "in_order x y \<equiv> combining x \<noteq> 0 \<longrightarrow> combining y \<noteq> 0 \<longrightarrow> combining x \<le> combining y"

lemma successively_nth: "successively P xs \<Longrightarrow> i + 1 < length xs \<Longrightarrow> P (xs ! i) (xs ! (i + 1))"
proof (induction P xs arbitrary: i rule: successively.induct)
  case (3 P x y xs)
  then show ?case by (cases i) auto
qed simp_all

lemma cls_le: "cls x \<le> cls y \<longleftrightarrow> combining x \<le> combining y"
  by (simp add: cls_def word_le_nat_alt)

lemma sorted_in_order: "sorted (map cls xs) \<Longrightarrow> successively in_order xs"
proof (induction xs)
  case (Cons x xs)
  then show ?case by (cases xs) (simp_all add: cls_le)
qed simp

lemma order_marks_in_order: "successively in_order (order_marks b)"
proof (induction b rule: order_marks.induct)
  case (2 c cs)
  show ?case
  proof (cases "combining c = 0")
    case True
    then show ?thesis using 2(1) [OF True] by (cases "order_marks cs") (simp_all add: successively_Cons)
  next
    case False
    let ?m = "\<lambda>c. combining c \<noteq> 0"
    have "order_marks (dropWhile ?m cs) = [] \<or> combining (hd (order_marks (dropWhile ?m cs))) = 0"
    proof (cases "dropWhile ?m cs")
      case (Cons x xs)
      then have "\<not> ?m x" using hd_dropWhile [of ?m cs] by simp
      then show ?thesis by (simp add: Cons)
    next
      case Nil
      then show ?thesis by (simp only: order_marks.simps simp_thms)
    qed
    moreover have "successively in_order (sort_key cls (c # takeWhile ?m cs))" by (rule sorted_in_order) (rule sorted_sort_key)
    ultimately show ?thesis using 2(2) [OF False] False by (auto simp: successively_append_iff)
  qed
qed simp

text \<open>The reference, as the Unicode standard has it: a character composes with the last starter unless a
  character between them is a starter or has at least its class.\<close>

definition blocked :: "NormalizationChar list \<Rightarrow> nat \<Rightarrow> NormalizationChar \<Rightarrow> bool" where
  "blocked out s c \<longleftrightarrow> list_ex (\<lambda>b. combining b = 0 \<or> combining b \<ge> combining c) (drop (s + 1) out)"

definition spec_step :: "tables \<Rightarrow> NormalizationChar list \<times> nat option \<Rightarrow> NormalizationChar \<Rightarrow> NormalizationChar list \<times> nat option" where
  "spec_step t st c =
     (case st of (out, starter) \<Rightarrow>
        let comp = (case starter of None \<Rightarrow> 0 | Some s \<Rightarrow> if blocked out s c then 0 else Compose t (point (out ! s)) (point c))
        in if comp \<noteq> 0 then (out[the starter := (out ! the starter)\<lparr>point := comp\<rparr>], starter)
           else (out @ [c], if combining c = 0 then Some (length out) else starter))"

definition compose_inv :: "NormalizationChar list \<Rightarrow> nat \<Rightarrow> compose_state \<Rightarrow> NormalizationChar list \<times> nat option \<Rightarrow> bool" where
  "compose_inv b i cs st \<longleftrightarrow>
     (case (cs, st) of ((buffer, starter, n, prev), (out, starter')) \<Rightarrow>
        starter = starter' \<and> n = length out \<and> n \<le> i \<and> take n buffer = out \<and> length buffer = length b \<and>
        (\<forall>j. i \<le> j \<longrightarrow> j < length b \<longrightarrow> buffer ! j = b ! j) \<and>
        (case starter of None \<Rightarrow> True
         | Some s \<Rightarrow> s < n \<and>
             (if drop (s + 1) out = [] then prev = 0
              else prev = combining (last out) \<and> i \<noteq> 0 \<and> combining (b ! (i - 1)) \<noteq> 0 \<and> prev \<le> combining (b ! (i - 1)) \<and>
                (\<forall>x \<in> set (drop (s + 1) out). combining x \<noteq> 0 \<and> combining x \<le> prev))))"

lemma blocked_test:
  assumes "compose_inv b i (buffer, Some s, n, prev) (out, Some s)" "i < length b" "successively in_order b"
  shows "(prev = 0 \<or> prev < combining (b ! i)) \<longleftrightarrow> \<not> blocked out s (b ! i)"
proof (cases "drop (s + 1) out = []")
  case True
  then show ?thesis using assms(1) by (auto simp: compose_inv_def blocked_def)
next
  case False
  then have p: "prev = combining (last out)" "\<forall>x \<in> set (drop (s + 1) out). combining x \<noteq> 0 \<and> combining x \<le> prev"
    using assms(1) by (auto simp: compose_inv_def)
  have "last out \<in> set (drop (s + 1) out)" using False by (metis last_drop last_in_set drop_eq_Nil not_le)
  then show ?thesis using p False by (auto simp: blocked_def list_ex_iff not_le)
qed
lemma compose_inv_step:
  assumes inv: "compose_inv b i cs st" and i: "i < length b" and ord: "successively in_order b"
  shows "compose_inv b (i + 1) (compose_step t cs i) (spec_step t st (b ! i))"
proof -
  obtain buffer starter n prev where cs: "cs = (buffer, starter, n, prev)" by (metis prod_cases4)
  obtain out where st: "st = (out, starter)" using inv by (cases st) (simp add: cs compose_inv_def)
  have I: "n = length out" "n \<le> i" "take n buffer = out" "length buffer = length b" "\<And>j. i \<le> j \<Longrightarrow> j < length b \<Longrightarrow> buffer ! j = b ! j"
    using inv by (auto simp: cs st compose_inv_def)
  have bi: "buffer ! i = b ! i" using I(5) i by simp
  define comp where "comp = (case starter of None \<Rightarrow> 0 | Some s \<Rightarrow> if blocked out s (b ! i) then 0 else Compose t (point (out ! s)) (point (b ! i)))"
  have comp: "(case starter of None \<Rightarrow> 0 | Some s \<Rightarrow> if prev = 0 \<or> prev < combining (buffer ! i)
      then Compose t (point (buffer ! s)) (point (buffer ! i)) else 0) = comp"
  proof (cases starter)
    case (Some s)
    have "s < n" using inv by (simp add: cs st Some compose_inv_def)
    then have "buffer ! s = out ! s" using I(3) by (metis nth_take)
    then show ?thesis using blocked_test [OF _ i ord, of buffer s n prev out] inv
      by (simp add: comp_def Some bi cs st)
  qed (simp add: comp_def)
  show ?thesis
  proof (cases "comp = 0")
    case False
    then obtain s where s: "starter = Some s" by (cases starter) (simp_all add: comp_def)
    then have S: "s < n" using inv by (simp add: cs st compose_inv_def)
    have nb: "\<not> blocked out s (b ! i)" using False by (auto simp: comp_def s)
    have step: "compose_step t cs i = (buffer[s := (buffer ! s)\<lparr>point := comp\<rparr>], starter, n, prev)"
      using False comp by (simp add: compose_step_def cs Let_def s)
    have spec: "spec_step t st (b ! i) = (out[s := (out ! s)\<lparr>point := comp\<rparr>], starter)"
      using False by (simp add: spec_step_def st Let_def s comp_def)
    have bs: "buffer ! s = out ! s" using I(3) S by (metis nth_take)
    have tk: "take n (buffer[s := (buffer ! s)\<lparr>point := comp\<rparr>]) = out[s := (out ! s)\<lparr>point := comp\<rparr>]"
      using S I(3) by (simp add: take_update_swap bs)
    have tail: "drop (s + 1) (out[s := x]) = drop (s + 1) out" for x by simp
    have last: "last (out[s := x]) = last out" if "drop (s + 1) out \<noteq> []" for x
    proof -
      have "out \<noteq> []" "s \<noteq> length out - 1" using that by auto
      then show ?thesis using last_list_update [of out s x] by simp
    qed
    have prev: "if drop (s + 1) out = [] then prev = 0 else prev = combining (last out) \<and> combining (b ! i) \<noteq> 0 \<and> prev \<le> combining (b ! i) \<and>
        (\<forall>x \<in> set (drop (s + 1) out). combining x \<noteq> 0 \<and> combining x \<le> prev)"
    proof (cases "drop (s + 1) out = []")
      case True
      then show ?thesis using inv by (simp add: cs st s compose_inv_def)
    next
      case nn: False
      then have p: "prev = combining (last out)" "\<forall>x \<in> set (drop (s + 1) out). combining x \<noteq> 0 \<and> combining x \<le> prev"
        using inv by (auto simp: cs st s compose_inv_def)
      have "last out \<in> set (drop (s + 1) out)" using nn by (metis last_drop last_in_set drop_eq_Nil not_le)
      then have "prev \<noteq> 0" using p by auto
      moreover have "prev = 0 \<or> prev < combining (b ! i)"
        using blocked_test [OF _ i ord, of buffer s n prev out] inv nb by (simp add: cs st s)
      ultimately have "prev < combining (b ! i)" by blast
      then have "combining (b ! i) \<noteq> 0" "prev \<le> combining (b ! i)" by auto
      then show ?thesis using p nn by simp
    qed
    show ?thesis unfolding step spec compose_inv_def
      using I S tk prev last tail by (auto simp: s)
  next
    case True
    have step: "compose_step t cs i =
        (buffer[n := b ! i], if combining (b ! i) = 0 then Some n else starter, n + 1, combining (b ! i))"
      using True comp by (simp add: compose_step_def cs Let_def bi)
    have spec: "spec_step t st (b ! i) = (out @ [b ! i], if combining (b ! i) = 0 then Some n else starter)"
      using True I(1) by (simp add: spec_step_def st Let_def comp_def)
    have tk: "take (n + 1) (buffer[n := b ! i]) = out @ [b ! i]"
      using I i by (simp add: take_Suc_conv_app_nth)
    have prev: "s < n + 1 \<and> (if drop (s + 1) (out @ [b ! i]) = [] then combining (b ! i) = 0 else
        combining (b ! i) \<noteq> 0 \<and> (\<forall>x \<in> set (drop (s + 1) (out @ [b ! i])). combining x \<noteq> 0 \<and> combining x \<le> combining (b ! i)))"
      if s: "(if combining (b ! i) = 0 then Some n else starter) = Some s" for s
    proof (cases "combining (b ! i) = 0")
      case True
      then show ?thesis using s I(1) by simp
    next
      case False
      then have s': "starter = Some s" using s by simp
      then have S: "s < n" using inv by (simp add: cs st compose_inv_def)
      have "combining x \<noteq> 0 \<and> combining x \<le> combining (b ! i)" if x: "x \<in> set (drop (s + 1) out)" for x
      proof -
        have "drop (s + 1) out \<noteq> []" using x by auto
        then have p: "i \<noteq> 0" "combining (b ! (i - 1)) \<noteq> 0" "prev \<le> combining (b ! (i - 1))" "combining x \<noteq> 0" "combining x \<le> prev"
          using inv x by (auto simp: cs st s' compose_inv_def)
        have "in_order (b ! (i - 1)) (b ! (i - 1 + 1))" using ord i p(1) by (intro successively_nth [of in_order b "i - 1"]) simp_all
        then show ?thesis using p False by (auto intro: order_trans)
      qed
      then show ?thesis using S I(1) False by (auto simp: drop_append)
    qed
    define starter' where "starter' = (if combining (b ! i) = 0 then Some n else starter)"
    have "\<forall>j. i + 1 \<le> j \<longrightarrow> j < length b \<longrightarrow> buffer[n := b ! i] ! j = b ! j" using I(2,5) by simp
    moreover have "case starter' of None \<Rightarrow> True | Some s \<Rightarrow> s < n + 1 \<and>
        (if drop (s + 1) (out @ [b ! i]) = [] then combining (b ! i) = 0
         else combining (b ! i) = combining (last (out @ [b ! i])) \<and> i + 1 \<noteq> 0 \<and> combining (b ! (i + 1 - 1)) \<noteq> 0 \<and>
           combining (b ! i) \<le> combining (b ! (i + 1 - 1)) \<and>
           (\<forall>x \<in> set (drop (s + 1) (out @ [b ! i])). combining x \<noteq> 0 \<and> combining x \<le> combining (b ! i)))"
    proof (cases starter')
      case (Some s)
      from prev [of s] Some show ?thesis unfolding starter'_def [symmetric] Some option.case
        by (cases "drop (s + 1) (out @ [b ! i]) = []") (simp_all only: if_True if_False last_snoc add_diff_cancel_right' simp_thms order_refl, simp_all)
    qed simp
    ultimately show ?thesis unfolding step spec compose_inv_def prod.case starter'_def [symmetric]
      using I(1,2,4) tk by simp
  qed
qed

lemma compose_buffer_spec:
  assumes "successively in_order b"
  shows "compose_buffer t b = fst (foldl (spec_step t) ([], None) b)"
proof -
  have "compose_inv b i (foldl (compose_step t) (b, None, 0, 0) [0..<i]) (foldl (spec_step t) ([], None) (take i b))"
    if "i \<le> length b" for i
    using that
  proof (induction i)
    case 0
    show ?case by (simp add: compose_inv_def)
  next
    case (Suc i)
    then have "compose_inv b (i + 1) (compose_step t (foldl (compose_step t) (b, None, 0, 0) [0..<i]) i)
        (spec_step t (foldl (spec_step t) ([], None) (take i b)) (b ! i))"
      by (intro compose_inv_step assms) simp_all
    then show ?case using Suc.prems by (simp add: take_Suc_conv_app_nth)
  qed
  from this [of "length b"] show ?thesis
    by (auto simp: compose_buffer_def compose_inv_def split: prod.splits)
qed

subsection \<open>Hangul\<close>

lemma hangul_words:
  fixes s :: u32
  assumes "unat s < 11172"
  defines "L \<equiv> 0x1100 + s div 588" and "V \<equiv> 0x1161 + s mod 588 div 28" and "T \<equiv> 0x11a7 + s mod 28"
  shows "unat L = 0x1100 + unat s div 588" "unat V = 0x1161 + unat s mod 588 div 28" "unat T = 0x11a7 + unat s mod 28"
proof -
  have b: "unat s div 588 < 19" "unat s mod 588 div 28 < 21" "unat s mod 28 < 28"
    using assms(1) by (simp_all add: less_mult_imp_div_less)
  have u: "unat (s div 588) = unat s div 588" "unat (s mod 588 div 28) = unat s mod 588 div 28" "unat (s mod 28) = unat s mod 28"
    by (simp_all add: unat_div_distrib unat_mod_distrib)
  show "unat L = 0x1100 + unat s div 588" "unat V = 0x1161 + unat s mod 588 div 28" "unat T = 0x11a7 + unat s mod 28"
    unfolding L_def V_def T_def using b u by (subst unat_add_small; simp)+
qed

lemma Compose_hangul:
  assumes s: "unat s < 11172"
  defines "L \<equiv> 0x1100 + s div 588" and "V \<equiv> 0x1161 + s mod 588 div 28" and "T \<equiv> 0x11a7 + s mod 28"
  shows "Compose t L V = 0xac00 + (s - s mod 28)"
    "s mod 28 \<noteq> 0 \<Longrightarrow> Compose t (0xac00 + (s - s mod 28)) T = 0xac00 + s"
proof -
  note u = hangul_words [OF s, folded L_def V_def T_def]
  have b: "unat s div 588 < 19" "unat s mod 588 div 28 < 21" "unat s mod 28 < 28"
    using s by (simp_all add: less_mult_imp_div_less)
  have "s mod 588 mod 28 = s mod 28"
    by (simp add: word_eq_nat_iff unat_mod_distrib mod_mod_cancel)
  moreover have "s = s div 588 * 588 + s mod 588" "s mod 588 = s mod 588 div 28 * 28 + s mod 588 mod 28"
    by (rule div_mult_mod_eq [symmetric])+
  ultimately have "s = s div 588 * 588 + (s mod 588 div 28 * 28 + s mod 28)" by (simp only:)
  then have parts: "s div 588 * 588 + s mod 588 div 28 * 28 = s - s mod 28" by (simp only: eq_diff_eq add.assoc)
  have "0x1100 \<le> L" "L < 0x1113" "0x1161 \<le> V" "V < 0x1176"
    using u b by (simp_all add: word_le_nat_alt word_less_nat_alt)
  then have "Compose t L V = 0xac00 + (L - 0x1100) * 588 + (V - 0x1161) * 28" by (simp add: Compose_def)
  also have "\<dots> = 0xac00 + (s div 588 * 588 + s mod 588 div 28 * 28)" by (simp add: L_def V_def)
  finally show "Compose t L V = 0xac00 + (s - s mod 28)" by (simp only: parts)
  assume nz: "s mod 28 \<noteq> 0"
  let ?f = "0xac00 + (s - s mod 28)"
  have um: "unat (s mod 28) = unat s mod 28" by (simp add: unat_mod_distrib)
  have nz': "unat s mod 28 \<noteq> 0" using nz um unat_eq_zero [of "s mod 28"] by simp
  have ud: "unat (s - s mod 28) = unat s - unat s mod 28" by (subst unat_sub) (simp_all add: word_le_nat_alt um)
  have uf: "unat ?f = 0xac00 + (unat s - unat s mod 28)" using s by (subst unat_add_small) (simp_all add: ud)
  have f: "0xac00 \<le> ?f" "?f \<le> 0xd7a3" "\<not> ?f < 0x1113" using uf s by (simp_all add: word_le_nat_alt word_less_nat_alt)
  have T: "0x11a7 < T" "T < 0x11c3" using u(3) b(3) nz' by (simp_all add: word_less_nat_alt)
  have "(?f - 0xac00) mod 28 = 0"
  proof -
    have "unat ((s - s mod 28) mod 28) = 0" by (simp add: unat_mod_distrib ud)
    then show ?thesis by (simp add: unat_eq_zero)
  qed
  then have "Compose t ?f T = ?f + T - 0x11a7" using f T by (simp add: Compose_def)
  then show "Compose t ?f T = 0xac00 + s" by (simp add: T_def)
qed

subsection \<open>Properties\<close>

text \<open>With tables in the order the generator emits them, each binary search is the lookup it stands for:
  the combining class of the range that holds a character (0 outside every range), the mapping of a
  character, and outside Hangul the composite of a pair (0 if there is none).\<close>

theorem normalize_lookups:
  assumes "tables_ok t"
  shows "CombiningClass t p = (case find (\<lambda>r. range_first r \<le> p \<and> p \<le> range_last r) (normalizationClasses t) of
      None \<Rightarrow> 0 | Some r \<Rightarrow> range_class r) \<and>
    Decomposition t p = find (\<lambda>m. map_point m = p) (normalizationMappings t) \<and>
    (p < 0x1100 \<or> 0xd7a3 < p \<longrightarrow>
      Compose t p q = (case find (\<lambda>e. pair_first e = p \<and> pair_second e = q) (normalizationPairs t) of
        None \<Rightarrow> 0 | Some e \<Rightarrow> composite e))"
proof (intro conjI impI)
  have here: "(\<lambda>r. class_side p r = Here) = (\<lambda>r. range_first r \<le> p \<and> p \<le> range_last r)"
    "(\<lambda>m. mapping_side p m = Here) = (\<lambda>m. map_point m = p)"
    "(\<lambda>e. pair_side p q e = Here) = (\<lambda>e. pair_first e = p \<and> pair_second e = q)"
    by (auto simp: class_side_def mapping_side_def pair_side_def fun_eq_iff not_less)
  show "CombiningClass t p = (case find (\<lambda>r. range_first r \<le> p \<and> p \<le> range_last r) (normalizationClasses t) of
      None \<Rightarrow> 0 | Some r \<Rightarrow> range_class r)"
    unfolding CombiningClass_def bsearch_find [OF tables_ordered(2) [OF assms]] here ..
  show "Decomposition t p = find (\<lambda>m. map_point m = p) (normalizationMappings t)"
    unfolding Decomposition_def bsearch_find [OF tables_ordered(1) [OF assms]] here ..
  assume p: "p < 0x1100 \<or> 0xd7a3 < p"
  have "\<not> (0x1100 \<le> p \<and> p < 0x1113 \<and> 0x1161 \<le> q \<and> q < 0x1176)"
    "\<not> (0xac00 \<le> p \<and> p \<le> 0xd7a3 \<and> 0x11a7 < q \<and> q < 0x11c3 \<and> (p - 0xac00) mod 28 = 0)"
    using p by (auto simp: word_less_nat_alt word_le_nat_alt)
  then show "Compose t p q = (case find (\<lambda>e. pair_first e = p \<and> pair_second e = q) (normalizationPairs t) of
        None \<Rightarrow> 0 | Some e \<Rightarrow> composite e)"
    unfolding Compose_def bsearch_find [OF tables_ordered(3) [OF assms]] here by (simp only: if_False)
qed

definition sample_tables :: tables where
  "sample_tables = \<lparr>normalizationSequence = [0x41, 0x300, 0x41, 0x301],
     normalizationMappings = [\<lparr>map_point = 0xc0, canonicalOffset = 0, compatibilityOffset = 0, canonicalLength = 2, compatibilityLength = 2\<rparr>,
       \<lparr>map_point = 0xc1, canonicalOffset = 2, compatibilityOffset = 2, canonicalLength = 2, compatibilityLength = 2\<rparr>],
     normalizationClasses = [\<lparr>range_first = 0x300, range_last = 0x314, range_class = 230\<rparr>, \<lparr>range_first = 0x316, range_last = 0x319, range_class = 220\<rparr>],
     normalizationPairs = [\<lparr>pair_first = 0x41, pair_second = 0x300, composite = 0xc0\<rparr>, \<lparr>pair_first = 0x41, pair_second = 0x301, composite = 0xc1\<rparr>]\<rparr>"

theorem normalize_lookups_witness:
  "CombiningClass sample_tables 0x301 = 230 \<and> Compose sample_tables 0x41 0x301 = 0xc1"
proof -
  have "tables_ok sample_tables" by code_simp
  from normalize_lookups [OF this, of "0x301" 0] normalize_lookups [OF this, of "0x41" "0x301"]
  show ?thesis by (simp add: sample_tables_def)
qed

text \<open>C35. Canonical ordering leaves starters where they are and stably sorts every maximal run of combining
  marks by class; it fails only when an allocation fails.\<close>

theorem canonical_order_stable:
  "case CanonicalOrder alloc buffer of None \<Rightarrow> \<exists>n. \<not> alloc n | Some r \<Rightarrow> r = order_marks buffer"
  by (rule canonical)

text \<open>C36. On a canonically ordered buffer the in-place composition, which only remembers the class of the last
  character it kept, composes exactly the characters that are not blocked from the last starter.\<close>

theorem compose_unblocked:
  "compose_buffer t (order_marks b) = fst (foldl (spec_step t) ([], None) (order_marks b))"
  by (rule compose_buffer_spec) (rule order_marks_in_order)

definition fits :: "NormalizationChar list \<times> nat \<Rightarrow> bool" where
  "fits buf \<longleftrightarrow> length (fst buf) \<le> snd buf \<and> snd buf \<le> buffer_limit"

lemma AppendDecomposition_fits: "AppendDecomposition t alloc buf points = Some buf' \<Longrightarrow> fits buf \<Longrightarrow> fits buf'"
  by (cases buf) (auto simp: AppendDecomposition_def fits_def Let_def split: if_splits)

lemma decompose_loop_fits: "decompose_loop t alloc form s buf = Some buf' \<Longrightarrow> fits buf \<Longrightarrow> fits buf'"
proof (induction t alloc form s buf rule: decompose_loop.induct)
  case (2 t alloc form c rest buf)
  obtain p rest' where n: "norm_next c rest = (p, rest')" by fastforce
  obtain b1 where a: "AppendDecomposition t alloc buf (decomposition_points t form p) = Some b1"
    using 2(2) n by (auto split: option.splits)
  have "decompose_loop t alloc form rest' b1 = Some buf'" using 2(2) n a by simp
  from 2(1) [OF n [symmetric] a this] AppendDecomposition_fits [OF a 2(3)] show ?case by blast
qed simp

text \<open>C38. The decomposition buffer never holds more than it has room for, and its room never exceeds the
  limit on string lengths.\<close>

theorem decomposition_buffer_fits:
  "case decompose_loop t alloc form s ([], 0) of
     None \<Rightarrow> True | Some (buffer, capacity) \<Rightarrow> length buffer \<le> capacity \<and> capacity \<le> buffer_limit"
proof (cases "decompose_loop t alloc form s ([], 0)")
  case (Some buf)
  have "fits ([], 0)" by (simp add: fits_def)
  from decompose_loop_fits [OF Some this] show ?thesis by (cases buf) (simp add: Some fits_def)
qed simp

lemma output_length_small: "n + 2 * length b \<le> JSVAL_INT_MAX \<Longrightarrow> output_length b n \<noteq> None"
  by (induction b arbitrary: n) (auto simp: Let_def)

lemma order_marks_starters: "list_all (\<lambda>c. combining c = 0) b \<Longrightarrow> order_marks b = b"
  by (induction b rule: order_marks.induct) auto

text \<open>C37. Hangul: a precomposed syllable normalizes to its two or three conjoining jamo without composition,
  and back to itself with composition, for all tables in which the jamo are starters.\<close>

theorem hangul_roundtrip:
  assumes jamo: "\<And>p. 0x1100 \<le> p \<Longrightarrow> p < 0x1200 \<Longrightarrow> CombiningClass t p = 0" and c: "0xac00 \<le> c" "c \<le> 0xd7a3"
  shows "js_NormalizeString t (\<lambda>_. True) [c] 1 = Some [c] \<and>
    (\<exists>l v ts. js_NormalizeString t (\<lambda>_. True) [c] 0 = Some (l # v # ts) \<and> length ts \<le> 1 \<and>
       0x1100 \<le> l \<and> l < 0x1113 \<and> 0x1161 \<le> v \<and> v < 0x1176)"
proof -
  define s where "s = (ucast c :: u32) - 0xac00"
  have uc: "unat (ucast c :: u32) = unat c" using unsigned_less [of c, where ?'a = nat] by (simp add: unsigned_ucast_eq take_bit_nat_eq_self)
  have cn: "0xac00 \<le> unat c" "unat c \<le> 0xd7a3" using c by (simp_all add: word_le_nat_alt)
  have su: "unat s = unat c - 0xac00" "unat s < 11172" using cn by (simp_all add: s_def unat_sub word_le_nat_alt uc)
  have cs: "ucast c = 0xac00 + s" by (simp add: s_def)
  define L where "L = 0x1100 + s div 588" define V where "V = 0x1161 + s mod 588 div 28" define T where "T = 0x11a7 + s mod 28"
  note u = hangul_words [OF su(2), folded L_def V_def T_def] and comp = Compose_hangul [OF su(2), folded L_def V_def T_def]
  have b: "unat s div 588 < 19" "unat s mod 588 div 28 < 21" "unat s mod 28 < 28"
    using su(2) by (simp_all add: less_mult_imp_div_less)
  have cl: "CombiningClass t L = 0" "CombiningClass t V = 0" "CombiningClass t T = 0"
    using u b by (auto intro!: jamo simp: word_le_nat_alt word_less_nat_alt)
  define z where "z \<longleftrightarrow> s mod 28 \<noteq> 0"
  let ?pts = "[L, V] @ (if z then [T] else [])"
  have range: "0xac00 \<le> (ucast c :: u32)" "(ucast c :: u32) \<le> 0xd7a3" using cn by (simp_all add: word_le_nat_alt uc)
  have pts: "decomposition_points t f (ucast c) = ?pts" for f
    using range by (simp add: decomposition_points_def Let_def L_def V_def T_def z_def flip: s_def)
  define b0 where "b0 = map (\<lambda>p. \<lparr>point = p, combining = 0\<rparr>) ?pts"
  have loop: "\<exists>cap. decompose_loop t (\<lambda>_. True) f [c] ([], 0) = Some (b0, cap)" for f
    using cl by (auto simp: pts b0_def AppendDecomposition_def buffer_limit_def JSVAL_INT_MAX_def CHAR_BYTES_def Let_def)
  have starters: "list_all (\<lambda>c. combining c = 0) b0" by (simp add: b0_def)
  then have ord: "CanonicalOrder (\<lambda>_. True) b0 = Some b0" "successively in_order b0"
    using canonical [of "\<lambda>_. True" b0] order_marks_starters [of b0] order_marks_in_order [of b0]
    by (simp_all split: option.splits)
  have LV: "Compose t L V = 0xac00 + (s - s mod 28)" and LVT: "z \<Longrightarrow> Compose t (0xac00 + (s - s mod 28)) T = 0xac00 + s"
    using comp by (simp_all add: z_def)
  define f where "f = 0xac00 + (s - s mod 28)"
  have fz: "\<not> z \<Longrightarrow> f = ucast c" by (simp add: f_def z_def cs)
  have "unat (s - s mod 28) \<le> unat s" by (subst unat_sub) (simp_all add: word_le_nat_alt unat_mod_distrib)
  then have "unat f \<noteq> 0" using su(2) unfolding f_def by (subst unat_add_small) simp_all
  then have nz: "f \<noteq> 0" "ucast c \<noteq> (0 :: u32)" using cn uc by auto
  have "fst (foldl (spec_step t) ([], None) b0) = [\<lparr>point = ucast c, combining = 0\<rparr>]"
    using nz LV LVT fz by (cases z) (simp_all add: b0_def spec_step_def blocked_def Let_def cs flip: f_def)
  then have compb: "compose_buffer t b0 = [\<lparr>point = ucast c, combining = 0\<rparr>]"
    by (simp add: compose_buffer_spec [OF ord(2)])
  have small: "point_units p = [ucast p]" if "unat p < 0x10000" for p
    using that by (simp add: point_units_def word_le_nat_alt)
  have "length b0 \<le> 3" by (simp add: b0_def)
  then have "output_length b0 0 \<noteq> None" by (intro output_length_small) (simp add: JSVAL_INT_MAX_def)
  moreover have "output_length [\<lparr>point = ucast c, combining = 0\<rparr>] 0 \<noteq> None"
    by (rule output_length_small) (simp add: JSVAL_INT_MAX_def)
  ultimately obtain n1 n0 where len: "output_length [\<lparr>point = ucast c, combining = 0\<rparr>] 0 = Some n1" "output_length b0 0 = Some n0"
    by blast
  have "js_NormalizeString t (\<lambda>_. True) [c] 1 = Some [c]"
  proof -
    obtain cap where "decompose_loop t (\<lambda>_. True) 1 [c] ([], 0) = Some (b0, cap)" using loop by blast
    moreover have "point_units (ucast c) = [c]"
    proof -
      have cc: "(ucast (ucast c :: u32) :: jschar) = c" by (rule bit_word_eqI) (auto simp: bit_simps)
      show ?thesis using small [of "ucast c"] cn unfolding uc cc by simp
    qed
    ultimately show ?thesis by (simp add: js_NormalizeString_def js_NewString_def JSSTRING_LENGTH_MASK_def ord(1) compb len(1) del: decompose_loop.simps output_length.simps)
  qed
  moreover have "js_NormalizeString t (\<lambda>_. True) [c] 0 = Some (map ucast ?pts)"
  proof -
    obtain cap where "decompose_loop t (\<lambda>_. True) 0 [c] ([], 0) = Some (b0, cap)" using loop by blast
    moreover have "concat (map (\<lambda>c. point_units (point c)) b0) = map ucast ?pts"
      using u b small [of L] small [of V] small [of T] by (cases z) (simp_all add: b0_def)
    ultimately show ?thesis by (simp add: js_NormalizeString_def js_NewString_def JSSTRING_LENGTH_MASK_def ord(1) len(2) del: decompose_loop.simps output_length.simps)
  qed
  moreover have "0x1100 \<le> (ucast L :: jschar)" "(ucast L :: jschar) < 0x1113" "0x1161 \<le> (ucast V :: jschar)" "(ucast V :: jschar) < 0x1176"
    using u b by (simp_all add: word_le_nat_alt word_less_nat_alt unsigned_ucast_eq take_bit_nat_eq_self)
  ultimately show ?thesis by (cases z) auto
qed

theorem hangul_roundtrip_witness:
  "js_NormalizeString sample_tables (\<lambda>_. True) [0xd55c] 1 = Some [0xd55c]"
proof -
  have "CombiningClass sample_tables p = 0" if "0x1100 \<le> p" for p
  proof -
    have "\<not> p \<le> 0x314" "\<not> p \<le> 0x319" using that by (auto simp: word_le_nat_alt)
    moreover have "tables_ok sample_tables" by code_simp
    then have "CombiningClass sample_tables p = (case find (\<lambda>r. class_side p r = Here) (normalizationClasses sample_tables) of None \<Rightarrow> 0 | Some r \<Rightarrow> range_class r)"
      by (simp add: CombiningClass_def bsearch_find tables_ordered)
    ultimately show ?thesis by (simp add: sample_tables_def class_side_def not_le)
  qed
  then show ?thesis using hangul_roundtrip [of sample_tables "0xd55c"] by simp
qed

end
