(* ===== verification/Hash.thy ===== *)
theory Hash
  imports Bits
begin

text \<open>
  The chained hash table of \<open>js/src/jshash.c\<close> and \<open>js/src/jshash.h\<close>.  A chain is the list of its entries,
  a link \<open>JSHashEntry **hep\<close> is a bucket with a position in its chain (the end of the chain when
  \<open>*hep\<close> is null).  Whether the allocation hooks succeed are the arguments \<open>alloc\<close> (tables, by size) and
  \<open>alloc_entry\<close>; what the free hook does with memory is not part of the model.  A shift of the 32-bit
  bucket count by 32 and a walk past the bucket vector have no result in C and are \<open>None\<close>.
\<close>

record ('k, 'v) JSHashEntry =
  keyHash :: u32
  key :: 'k
  val :: 'v

record ('k, 'v) JSHashTable =
  buckets :: "('k, 'v) JSHashEntry list list"
  nentries :: u32
  shift :: nat
  hashFunction :: "'k \<Rightarrow> u32"
  keyCompare :: "'k \<Rightarrow> 'k \<Rightarrow> bool"
  valueCompare :: "'v \<Rightarrow> 'v \<Rightarrow> bool"

definition JS_HASH_BITS :: nat where "JS_HASH_BITS = 32"
definition JS_GOLDEN_RATIO :: u32 where "JS_GOLDEN_RATIO = 0x9E3779B9"
definition MINBUCKETSLOG2 :: nat where "MINBUCKETSLOG2 = 4"
definition MINBUCKETS :: u32 where "MINBUCKETS = JS_BIT MINBUCKETSLOG2"
definition POINTER_BYTES :: nat where "POINTER_BYTES = 8"
definition TABLE_BYTES :: nat where "TABLE_BYTES = 64"

definition NBUCKETS :: "('k, 'v) JSHashTable \<Rightarrow> u32" where
  "NBUCKETS ht = JS_BIT (JS_HASH_BITS - shift ht)"

definition OVERLOADED :: "u32 \<Rightarrow> u32" where
  "OVERLOADED n = n - drop_bit 3 n"

definition UNDERLOADED :: "u32 \<Rightarrow> u32" where
  "UNDERLOADED n = (if n > MINBUCKETS then drop_bit 2 n else 0)"

text \<open>The test \<open>(int32)n < 0\<close> of the source never holds of a logarithm; a logarithm of 32, which a request of
  more than \<open>2 ^ 31\<close> buckets gives, makes the shift \<open>JS_BIT(n)\<close> undefined.\<close>

definition JS_NewHashTable ::
  "(nat \<Rightarrow> bool) \<Rightarrow> u32 \<Rightarrow> ('k \<Rightarrow> u32) \<Rightarrow> ('k \<Rightarrow> 'k \<Rightarrow> bool) \<Rightarrow> ('v \<Rightarrow> 'v \<Rightarrow> bool) \<Rightarrow> ('k, 'v) JSHashTable option option" where
  "JS_NewHashTable alloc n hash cmp vcmp =
     (let log2 = (if n \<le> MINBUCKETS then MINBUCKETSLOG2 else JS_CeilingLog2 n)
      in if \<not> alloc TABLE_BYTES then Some None
         else if JS_HASH_BITS \<le> log2 then None
         else if \<not> alloc (unat (JS_BIT log2) * POINTER_BYTES) then Some None
         else Some (Some \<lparr>buckets = replicate (unat (JS_BIT log2)) [], nentries = 0, shift = JS_HASH_BITS - log2,
                hashFunction = hash, keyCompare = cmp, valueCompare = vcmp\<rparr>))"

definition BUCKET_HEAD :: "nat \<Rightarrow> u32 \<Rightarrow> nat" where
  "BUCKET_HEAD s key_hash = unat (drop_bit s (key_hash * JS_GOLDEN_RATIO))"

subsection \<open>Lookup\<close>

text \<open>The position in the chain of the entry sought.\<close>

fun chain_find :: "('k \<Rightarrow> 'k \<Rightarrow> bool) \<Rightarrow> u32 \<Rightarrow> 'k \<Rightarrow> ('k, 'v) JSHashEntry list \<Rightarrow> nat \<Rightarrow> nat option" where
  "chain_find cmp key_hash k [] i = None"
| "chain_find cmp key_hash k (he # chain) i =
     (if keyHash he = key_hash \<and> cmp k (key he) then Some i else chain_find cmp key_hash k chain (i + 1))"

type_synonym link = "nat \<times> nat"

definition entry_of :: "('k, 'v) JSHashTable \<Rightarrow> link \<Rightarrow> ('k, 'v) JSHashEntry option" where
  "entry_of ht hep = (case hep of (b, i) \<Rightarrow> if i < length (buckets ht ! b) then Some (buckets ht ! b ! i) else None)"

definition JS_HashTableRawLookup :: "('k, 'v) JSHashTable \<Rightarrow> u32 \<Rightarrow> 'k \<Rightarrow> ('k, 'v) JSHashTable \<times> link" where
  "JS_HashTableRawLookup ht key_hash k =
     (let b = BUCKET_HEAD (shift ht) key_hash; chain = buckets ht ! b
      in case chain_find (keyCompare ht) key_hash k chain 0 of
           Some i \<Rightarrow>
             (if i \<noteq> 0 then ht\<lparr>buckets := (buckets ht)[b := chain ! i # take i chain @ drop (i + 1) chain]\<rparr> else ht, (b, 0))
         | None \<Rightarrow> (ht, (b, length chain)))"

subsection \<open>Resizing\<close>

text \<open>The count of the entries still to move is a \<open>size_t\<close>, which wraps around.\<close>

definition relink :: "nat \<Rightarrow> ('k, 'v) JSHashEntry list list \<Rightarrow> ('k, 'v) JSHashEntry \<Rightarrow> ('k, 'v) JSHashEntry list list" where
  "relink s bs he = (let b = BUCKET_HEAD s (keyHash he) in bs[b := he # bs ! b])"

fun resize_loop ::
  "nat \<Rightarrow> ('k, 'v) JSHashEntry list list \<Rightarrow> u64 \<Rightarrow> ('k, 'v) JSHashEntry list list \<Rightarrow> ('k, 'v) JSHashEntry list list option" where
  "resize_loop s [] n bs = (if n = 0 then Some bs else None)"
| "resize_loop s (chain # old) n bs =
     (if n = 0 then Some bs else resize_loop s old (n - word_of_nat (length chain)) (foldl (relink s) bs chain))"

definition Resize :: "(nat \<Rightarrow> bool) \<Rightarrow> ('k, 'v) JSHashTable \<Rightarrow> nat \<Rightarrow> (('k, 'v) JSHashTable \<times> bool) option" where
  "Resize alloc ht newshift =
     (let nb = 2 ^ (JS_HASH_BITS - newshift)
      in if nb > (2 ^ 64 - 1) div POINTER_BYTES then Some (ht, False)
         else if \<not> alloc (nb * POINTER_BYTES) then Some (ht, False)
         else map_option (\<lambda>bs. (ht\<lparr>buckets := bs, shift := newshift\<rparr>, True))
                (resize_loop newshift (buckets ht) (ucast (nentries ht)) (replicate nb [])))"

subsection \<open>Adding and removing\<close>

definition insert_at :: "('k, 'v) JSHashTable \<Rightarrow> link \<Rightarrow> ('k, 'v) JSHashEntry \<Rightarrow> ('k, 'v) JSHashTable" where
  "insert_at ht hep he =
     (case hep of (b, i) \<Rightarrow> let chain = buckets ht ! b in
        ht\<lparr>buckets := (buckets ht)[b := take i chain @ he # drop i chain], nentries := nentries ht + 1\<rparr>)"

text \<open>The table and whether an entry was added.\<close>

definition JS_HashTableRawAdd ::
  "(nat \<Rightarrow> bool) \<Rightarrow> bool \<Rightarrow> ('k, 'v) JSHashTable \<Rightarrow> link \<Rightarrow> u32 \<Rightarrow> 'k \<Rightarrow> 'v \<Rightarrow> (('k, 'v) JSHashTable \<times> bool) option" where
  "JS_HashTableRawAdd alloc alloc_entry ht hep key_hash k v =
     (if shift ht = 0 then None
      else if nentries ht \<ge> OVERLOADED (NBUCKETS ht) then
        case Resize alloc ht (shift ht - 1) of
          None \<Rightarrow> None
        | Some (ht, ok) \<Rightarrow>
            if \<not> ok then Some (ht, False)
            else
              (case JS_HashTableRawLookup ht key_hash k of (ht, hep) \<Rightarrow>
                 if \<not> alloc_entry then Some (ht, False)
                 else Some (insert_at ht hep \<lparr>keyHash = key_hash, key = k, val = v\<rparr>, True))
      else if \<not> alloc_entry then Some (ht, False)
      else Some (insert_at ht hep \<lparr>keyHash = key_hash, key = k, val = v\<rparr>, True))"

definition set_value :: "('k, 'v) JSHashTable \<Rightarrow> link \<Rightarrow> 'v \<Rightarrow> ('k, 'v) JSHashTable" where
  "set_value ht hep v =
     (case hep of (b, i) \<Rightarrow> ht\<lparr>buckets := (buckets ht)[b := (buckets ht ! b)[i := (buckets ht ! b ! i)\<lparr>val := v\<rparr>]]\<rparr>)"

definition JS_HashTableAdd ::
  "(nat \<Rightarrow> bool) \<Rightarrow> bool \<Rightarrow> ('k, 'v) JSHashTable \<Rightarrow> 'k \<Rightarrow> 'v \<Rightarrow> (('k, 'v) JSHashTable \<times> bool) option" where
  "JS_HashTableAdd alloc alloc_entry ht k v =
     (let key_hash = hashFunction ht k in
      case JS_HashTableRawLookup ht key_hash k of (ht, hep) \<Rightarrow>
        case entry_of ht hep of
          Some he \<Rightarrow> if valueCompare ht (val he) v then Some (ht, True) else Some (set_value ht hep v, True)
        | None \<Rightarrow> JS_HashTableRawAdd alloc alloc_entry ht hep key_hash k v)"

definition unlink :: "('k, 'v) JSHashTable \<Rightarrow> link \<Rightarrow> ('k, 'v) JSHashTable" where
  "unlink ht hep =
     (case hep of (b, i) \<Rightarrow> let chain = buckets ht ! b in ht\<lparr>buckets := (buckets ht)[b := take i chain @ drop (i + 1) chain]\<rparr>)"

definition JS_HashTableRawRemove :: "(nat \<Rightarrow> bool) \<Rightarrow> ('k, 'v) JSHashTable \<Rightarrow> link \<Rightarrow> ('k, 'v) JSHashTable option" where
  "JS_HashTableRawRemove alloc ht hep =
     (if shift ht = 0 then None
      else
        let ht = unlink ht hep; n = NBUCKETS ht; ht = ht\<lparr>nentries := nentries ht - 1\<rparr>
        in if nentries ht < UNDERLOADED n then map_option fst (Resize alloc ht (shift ht + 1)) else Some ht)"

definition JS_HashTableRemove :: "(nat \<Rightarrow> bool) \<Rightarrow> ('k, 'v) JSHashTable \<Rightarrow> 'k \<Rightarrow> (('k, 'v) JSHashTable \<times> bool) option" where
  "JS_HashTableRemove alloc ht k =
     (case JS_HashTableRawLookup ht (hashFunction ht k) k of (ht, hep) \<Rightarrow>
        case entry_of ht hep of
          None \<Rightarrow> Some (ht, False)
        | Some he \<Rightarrow> map_option (\<lambda>ht. (ht, True)) (JS_HashTableRawRemove alloc ht hep))"

text \<open>The value found; no value is the null pointer.\<close>

definition JS_HashTableLookup :: "('k, 'v) JSHashTable \<Rightarrow> 'k \<Rightarrow> ('k, 'v) JSHashTable \<times> 'v option" where
  "JS_HashTableLookup ht k =
     (case JS_HashTableRawLookup ht (hashFunction ht k) k of (ht, hep) \<Rightarrow> (ht, map_option val (entry_of ht hep)))"

subsection \<open>Enumerating\<close>

text \<open>An enumerator sees the entry, its ordinal and its argument and returns whether to remove the entry,
  whether to stop, and its argument.\<close>

type_synonym ('k, 'v, 'a) JSHashEnumerator = "('k, 'v) JSHashEntry \<Rightarrow> nat \<Rightarrow> 'a \<Rightarrow> bool \<times> bool \<times> 'a"

text \<open>One chain: what is left of it, the count, the argument, the entries removed and whether to stop.\<close>

fun enum_chain ::
  "('k, 'v, 'a) JSHashEnumerator \<Rightarrow> ('k, 'v) JSHashEntry list \<Rightarrow> nat \<Rightarrow> 'a \<Rightarrow> u32 \<Rightarrow>
   ('k, 'v) JSHashEntry list \<times> nat \<times> 'a \<times> u32 \<times> bool" where
  "enum_chain f [] n arg entries = ([], n, arg, entries, False)"
| "enum_chain f (he # chain) n arg entries =
     (case f he n arg of (remove, stop, arg) \<Rightarrow>
        let entries = (if remove then entries - 1 else entries)
        in if stop then (if remove then chain else he # chain, n + 1, arg, entries, True)
           else case enum_chain f chain (n + 1) arg entries of
                  (chain, n, arg, entries, stop) \<Rightarrow> (if remove then chain else he # chain, n, arg, entries, stop))"

fun enum_buckets ::
  "('k, 'v, 'a) JSHashEnumerator \<Rightarrow> nat \<Rightarrow> ('k, 'v) JSHashEntry list list \<Rightarrow> nat \<Rightarrow> 'a \<Rightarrow> u32 \<Rightarrow>
   (('k, 'v) JSHashEntry list list \<times> nat \<times> 'a \<times> u32) option" where
  "enum_buckets f nlimit [] n arg entries = (if n = nlimit then Some ([], n, arg, entries) else None)"
| "enum_buckets f nlimit (chain # bs) n arg entries =
     (if n = nlimit then Some (chain # bs, n, arg, entries)
      else case enum_chain f chain n arg entries of
             (chain, n, arg, entries, stop) \<Rightarrow>
               if stop then Some (chain # bs, n, arg, entries)
               else map_option (\<lambda>(bs, n, arg, entries). (chain # bs, n, arg, entries)) (enum_buckets f nlimit bs n arg entries))"

definition JS_HashTableEnumerateEntries ::
  "(nat \<Rightarrow> bool) \<Rightarrow> ('k, 'v) JSHashTable \<Rightarrow> ('k, 'v, 'a) JSHashEnumerator \<Rightarrow> 'a \<Rightarrow> (('k, 'v) JSHashTable \<times> nat \<times> 'a) option" where
  "JS_HashTableEnumerateEntries alloc ht f arg =
     (let nlimit = nentries ht in
      case enum_buckets f (unat nlimit) (buckets ht) 0 arg (nentries ht) of
        None \<Rightarrow> None
      | Some (bs, n, arg, entries) \<Rightarrow>
          let ht = ht\<lparr>buckets := bs, nentries := entries\<rparr>
          in if entries \<noteq> nlimit then
               if shift ht = 0 then None
               else
                 let nbuckets = NBUCKETS ht
                 in if MINBUCKETS < nbuckets \<and> entries < UNDERLOADED nbuckets then
                      let newlog2 = max MINBUCKETSLOG2 (JS_CeilingLog2 entries)
                      in map_option (\<lambda>(ht, ok). (ht, n, arg)) (Resize alloc ht (JS_HASH_BITS - newlog2))
                    else Some (ht, n, arg)
             else Some (ht, n, arg))"

subsection \<open>Stock hooks\<close>

text \<open>The characters of a C string without the terminator.\<close>

definition JS_HashString :: "u8 list \<Rightarrow> u32" where
  "JS_HashString = foldl (\<lambda>h s. drop_bit (JS_HASH_BITS - 4) h XOR push_bit 4 h XOR ucast s) 0"

definition JS_CompareValues :: "u64 \<Rightarrow> u64 \<Rightarrow> bool" where
  "JS_CompareValues v1 v2 \<longleftrightarrow> v1 = v2"

end
