(* ===== verification/Hash_Correct.thy ===== *)
theory Hash_Correct
  imports Hash "HOL-Library.Multiset"
begin

text \<open>
  The chained hash table as a finite map.  The keys are compared by what they denote: \<open>canon\<close> gives the
  denotation, the key comparison decides its equality and the hash function depends on it only.  The abstract
  value of a table is the map from denotations to values; all proofs go through the multiset of its entries,
  which neither the move to front nor a resize changes.
\<close>

subsection \<open>The abstract table\<close>

definition table_entries :: "('k, 'v) JSHashTable \<Rightarrow> ('k, 'v) JSHashEntry list" where
  "table_entries ht = concat (buckets ht)"

definition emap :: "('k \<Rightarrow> 'c) \<Rightarrow> ('k, 'v) JSHashEntry list \<Rightarrow> 'c \<Rightarrow> 'v option" where
  "emap canon xs = map_of (map (\<lambda>he. (canon (key he), val he)) xs)"

definition ht_map :: "('k \<Rightarrow> 'c) \<Rightarrow> ('k, 'v) JSHashTable \<Rightarrow> 'c \<Rightarrow> 'v option" where
  "ht_map canon ht = emap canon (table_entries ht)"

definition keys_ok :: "('k \<Rightarrow> 'c) \<Rightarrow> ('k, 'v) JSHashTable \<Rightarrow> bool" where
  "keys_ok canon ht \<longleftrightarrow> (\<forall>a b. keyCompare ht a b = (canon a = canon b)) \<and>
     (\<forall>a b. canon a = canon b \<longrightarrow> hashFunction ht a = hashFunction ht b)"

definition placed :: "nat \<Rightarrow> ('k, 'v) JSHashEntry list list \<Rightarrow> bool" where
  "placed s bs \<longleftrightarrow> (\<forall>b < length bs. \<forall>he \<in> set (bs ! b). BUCKET_HEAD s (keyHash he) = b)"

definition entries_ok :: "('k \<Rightarrow> 'c) \<Rightarrow> ('k \<Rightarrow> u32) \<Rightarrow> ('k, 'v) JSHashEntry list \<Rightarrow> bool" where
  "entries_ok canon hash xs \<longleftrightarrow> (\<forall>he \<in> set xs. keyHash he = hash (key he)) \<and> distinct (map (\<lambda>he. canon (key he)) xs)"

definition shape_ok :: "('k, 'v) JSHashTable \<Rightarrow> bool" where
  "shape_ok ht \<longleftrightarrow> shift ht \<le> 28 \<and> length (buckets ht) = 2 ^ (32 - shift ht) \<and> placed (shift ht) (buckets ht)"

definition ht_ok :: "('k \<Rightarrow> 'c) \<Rightarrow> ('k, 'v) JSHashTable \<Rightarrow> bool" where
  "ht_ok canon ht \<longleftrightarrow> shape_ok ht \<and> keys_ok canon ht \<and> entries_ok canon (hashFunction ht) (table_entries ht) \<and>
     unat (nentries ht) = length (table_entries ht) \<and> length (table_entries ht) \<le> 2 ^ (32 - shift ht)"

definition same_hooks :: "('k, 'v) JSHashTable \<Rightarrow> ('k, 'v) JSHashTable \<Rightarrow> bool" where
  "same_hooks a b \<longleftrightarrow> hashFunction a = hashFunction b \<and> keyCompare a = keyCompare b \<and> valueCompare a = valueCompare b"

lemma same_hooks_refl [simp]: "same_hooks a a"
  by (simp add: same_hooks_def)

lemma same_hooks_trans: "same_hooks a b \<Longrightarrow> same_hooks b c \<Longrightarrow> same_hooks a c"
  by (simp add: same_hooks_def)

lemma keys_okD:
  assumes "keys_ok canon ht"
  shows "keyCompare ht a b = (canon a = canon b)" "canon a = canon b \<Longrightarrow> hashFunction ht a = hashFunction ht b"
  using assms unfolding keys_ok_def by blast+

lemma keys_ok_same: "same_hooks a b \<Longrightarrow> keys_ok canon a = keys_ok canon b"
  by (simp add: same_hooks_def keys_ok_def)

lemma hash_same: "same_hooks a b \<Longrightarrow> hashFunction a = hashFunction b"
  by (simp add: same_hooks_def)

subsection \<open>Entries up to order\<close>

lemma entries_ok_mset:
  assumes "mset xs = mset ys" shows "entries_ok canon hash xs = entries_ok canon hash ys"
proof -
  have "mset (map (\<lambda>he. canon (key he)) xs) = mset (map (\<lambda>he. canon (key he)) ys)"
    using assms by (simp only: mset_map)
  then have "distinct (map (\<lambda>he. canon (key he)) xs) = distinct (map (\<lambda>he. canon (key he)) ys)"
    by (rule mset_eq_imp_distinct_iff)
  then show ?thesis unfolding entries_ok_def using mset_eq_setD [OF assms] by simp
qed

lemma emap_mset:
  assumes "mset xs = mset ys" "entries_ok canon hash xs" shows "emap canon xs = emap canon ys"
proof -
  let ?p = "\<lambda>he. (canon (key he), val he)"
  have d: "distinct (map fst (map ?p xs))" "distinct (map fst (map ?p ys))"
    using assms entries_ok_mset [OF assms(1), of canon hash] by (simp_all add: entries_ok_def comp_def)
  have "set (map ?p xs) = set (map ?p ys)" using mset_eq_setD [OF assms(1)] by simp
  then show ?thesis unfolding emap_def using map_of_inject_set [OF d] by simp
qed

lemma emap_Cons: "emap canon (he # xs) = (emap canon xs)(canon (key he) \<mapsto> val he)"
  by (simp add: emap_def)

lemma emap_None_iff: "emap canon xs c = None \<longleftrightarrow> (\<forall>he \<in> set xs. canon (key he) \<noteq> c)"
  by (force simp: emap_def map_of_eq_None_iff image_iff)

lemma emap_Some: "entries_ok canon hash xs \<Longrightarrow> he \<in> set xs \<Longrightarrow> emap canon xs (canon (key he)) = Some (val he)"
  unfolding emap_def entries_ok_def by (rule map_of_is_SomeI) (auto simp: comp_def)

lemma entries_ok_Cons: "entries_ok canon hash (he # xs) \<longleftrightarrow>
   keyHash he = hash (key he) \<and> emap canon xs (canon (key he)) = None \<and> entries_ok canon hash xs"
  unfolding emap_None_iff entries_ok_def by (auto simp: image_iff)

lemma mset_concat_update:
  assumes "b < length bs" shows "mset (concat (bs[b := c])) + mset (bs ! b) = mset (concat bs) + mset c"
proof -
  have "concat bs = concat (take b bs) @ bs ! b @ concat (drop (Suc b) bs)"
    by (subst id_take_nth_drop [OF assms]) simp
  moreover have "concat (bs[b := c]) = concat (take b bs) @ c @ concat (drop (Suc b) bs)"
    by (simp add: upd_conv_take_nth_drop [OF assms])
  ultimately show ?thesis by simp
qed

lemma placed_update:
  assumes "placed s bs" "\<forall>he \<in> set c. BUCKET_HEAD s (keyHash he) = b"
  shows "placed s (bs[b := c])"
  unfolding placed_def
proof (intro allI impI ballI)
  fix d he assume "d < length (bs[b := c])" "he \<in> set (bs[b := c] ! d)"
  then show "BUCKET_HEAD s (keyHash he) = d"
    using assms by (cases "d = b") (simp_all add: placed_def)
qed

lemma BUCKET_HEAD_less: "s \<le> 32 \<Longrightarrow> BUCKET_HEAD s h < 2 ^ (32 - s)"
proof -
  assume "s \<le> 32"
  have "unat (h * JS_GOLDEN_RATIO) < 2 ^ (32 - s) * 2 ^ s"
    using unsigned_less [of "h * JS_GOLDEN_RATIO", where ?'a = nat] \<open>s \<le> 32\<close> by (simp flip: power_add)
  then show ?thesis unfolding BUCKET_HEAD_def unat_drop_bit by (rule div_less_iff_less_mult [THEN iffD2, rotated]) simp
qed

lemma in_bucket:
  assumes "placed s bs" "he \<in> set (concat bs)"
  shows "BUCKET_HEAD s (keyHash he) < length bs \<and> he \<in> set (bs ! BUCKET_HEAD s (keyHash he))"
proof -
  obtain c where "c \<in> set bs" "he \<in> set c" using assms(2) by auto
  then obtain b where "b < length bs" "he \<in> set (bs ! b)" by (metis in_set_conv_nth)
  then show ?thesis using assms(1) by (auto simp: placed_def)
qed

subsection \<open>Lookup\<close>

lemma chain_find_Some:
  "chain_find cmp h k chain i = Some j \<Longrightarrow> i \<le> j \<and> j - i < length chain \<and>
     keyHash (chain ! (j - i)) = h \<and> cmp k (key (chain ! (j - i)))"
proof (induction cmp h k chain i rule: chain_find.induct)
  case (2 cmp h k he chain i)
  show ?case
  proof (cases "keyHash he = h \<and> cmp k (key he)")
    case False
    then have "chain_find cmp h k chain (i + 1) = Some j" using "2.prems" by (simp only: chain_find.simps if_False)
    with "2.IH" [OF False] obtain "i + 1 \<le> j" "j - (i + 1) < length chain" "keyHash (chain ! (j - (i + 1))) = h"
      "cmp k (key (chain ! (j - (i + 1))))" by blast
    then show ?thesis by (simp add: nth_Cons') 
  qed (use "2.prems" in simp)
qed simp

lemma chain_find_None:
  "chain_find cmp h k chain i = None \<longleftrightarrow> (\<forall>he \<in> set chain. \<not> (keyHash he = h \<and> cmp k (key he)))"
  by (induction cmp h k chain i rule: chain_find.induct) auto

lemma mset_move_front:
  "i < length xs \<Longrightarrow> mset (xs ! i # take i xs @ drop (i + 1) xs) = mset xs"
  by (subst (4) id_take_nth_drop [of i xs]) simp_all

lemma table_update:
  assumes "shape_ok ht" "b < length (buckets ht)" "\<forall>he \<in> set c. BUCKET_HEAD (shift ht) (keyHash he) = b"
    "buckets ht' = (buckets ht)[b := c]" "shift ht' = shift ht"
  shows "shape_ok ht'" "mset (table_entries ht') + mset (buckets ht ! b) = mset (table_entries ht) + mset c"
  using assms placed_update [of "shift ht" "buckets ht" c b] mset_concat_update [of b "buckets ht" c]
  by (simp_all add: shape_ok_def table_entries_def)

lemma raw_lookup:
  assumes ok: "ht_ok canon ht" and raw: "JS_HashTableRawLookup ht (hashFunction ht k) k = (ht', (b, i))"
  shows "ht_ok canon ht'" "mset (table_entries ht') = mset (table_entries ht)" "same_hooks ht ht'"
    "shift ht' = shift ht" "nentries ht' = nentries ht"
    "b = BUCKET_HEAD (shift ht) (hashFunction ht k)" "b < length (buckets ht')"
    "(\<exists>he. entry_of ht' (b, i) = Some he \<and> i < length (buckets ht' ! b) \<and> buckets ht' ! b ! i = he \<and> canon (key he) = canon k) \<or>
     (entry_of ht' (b, i) = None \<and> ht' = ht \<and> i = length (buckets ht' ! b) \<and> ht_map canon ht (canon k) = None)"
proof -
  let ?b = "BUCKET_HEAD (shift ht) (hashFunction ht k)" let ?chain = "buckets ht ! ?b"
  have shape: "shape_ok ht" and keys: "keys_ok canon ht" using ok by (simp_all add: ht_ok_def)
  have b_less: "?b < length (buckets ht)"
    using shape BUCKET_HEAD_less [of "shift ht"] by (simp add: shape_ok_def)
  have all: "ht_ok canon ht' \<and> mset (table_entries ht') = mset (table_entries ht) \<and> same_hooks ht ht'
      \<and> shift ht' = shift ht \<and> nentries ht' = nentries ht \<and> b = ?b \<and> b < length (buckets ht') \<and>
      ((\<exists>he. entry_of ht' (b, i) = Some he \<and> i < length (buckets ht' ! b) \<and> buckets ht' ! b ! i = he \<and> canon (key he) = canon k) \<or>
       (entry_of ht' (b, i) = None \<and> ht' = ht \<and> i = length (buckets ht' ! b) \<and> ht_map canon ht (canon k) = None))"
  proof (cases "chain_find (keyCompare ht) (hashFunction ht k) k ?chain 0")
    case None
    then have "(ht, ?b, length ?chain) = (ht', b, i)"
      using raw unfolding JS_HashTableRawLookup_def Let_def None option.case by blast
    then have r: "ht' = ht" "b = ?b" "i = length ?chain" by blast+
    have "canon (key he) \<noteq> canon k" if "he \<in> set (table_entries ht)" for he
    proof
      assume eq: "canon (key he) = canon k"
      have "keyHash he = hashFunction ht (key he)" using ok that by (simp add: ht_ok_def entries_ok_def)
      also have "\<dots> = hashFunction ht k" using keys eq unfolding keys_ok_def by blast
      finally have h: "keyHash he = hashFunction ht k" .
      have "he \<in> set ?chain"
        using in_bucket [of "shift ht" "buckets ht" he] shape that h by (simp add: shape_ok_def table_entries_def)
      moreover have "keyCompare ht k (key he)" using keys eq [symmetric] unfolding keys_ok_def by blast
      ultimately show False using None h unfolding chain_find_None by blast
    qed
    then have "ht_map canon ht (canon k) = None" by (simp add: ht_map_def emap_None_iff)
    then show ?thesis using r ok b_less by (simp add: entry_of_def)
  next
    case (Some j)
    from chain_find_Some [OF Some] have j: "j < length ?chain" and cmp: "keyCompare ht k (key (?chain ! j))" by simp_all
    have eq: "canon (key (?chain ! j)) = canon k" using keys_okD(1) [OF keys] cmp by metis
    have r: "b = ?b" "i = 0"
      and ht': "ht' = (if j \<noteq> 0 then ht\<lparr>buckets := (buckets ht)[?b := ?chain ! j # take j ?chain @ drop (j + 1) ?chain]\<rparr> else ht)"
      using raw Some by (simp_all add: JS_HashTableRawLookup_def Let_def)
    let ?c = "?chain ! j # take j ?chain @ drop (j + 1) ?chain"
    have ms: "mset ?c = mset ?chain" by (rule mset_move_front [OF j])
    have bk: "buckets ht' = (buckets ht)[?b := ?c]"
    proof (cases "j = 0")
      case True
      then have "?c = ?chain" using Cons_nth_drop_Suc [of 0 ?chain] j by simp
      then show ?thesis using True ht' by simp
    qed (use ht' in simp)
    have fields: "same_hooks ht ht'" "shift ht' = shift ht" "nentries ht' = nentries ht" using ht' by (auto simp: same_hooks_def)
    have "\<forall>he \<in> set ?c. BUCKET_HEAD (shift ht) (keyHash he) = ?b"
      using shape b_less mset_eq_setD [OF ms] unfolding shape_ok_def placed_def by blast
    note tu = table_update [OF shape b_less this bk fields(2)]
    have m: "mset (table_entries ht') = mset (table_entries ht)" using tu(2) unfolding ms by (rule add_right_imp_eq)
    have ok': "ht_ok canon ht'"
      using ok tu(1) fields keys_ok_same [OF fields(1), of canon] hash_same [OF fields(1)]
        entries_ok_mset [OF m, of canon "hashFunction ht"] mset_eq_length [OF m]
      by (simp add: ht_ok_def)
    have "buckets ht' ! b = ?c" using bk b_less r by simp
    then show ?thesis using ok' m fields r b_less bk eq by (simp add: entry_of_def)
  qed
  show "ht_ok canon ht'" "mset (table_entries ht') = mset (table_entries ht)" "same_hooks ht ht'"
    "shift ht' = shift ht" "nentries ht' = nentries ht"
    "b = BUCKET_HEAD (shift ht) (hashFunction ht k)" "b < length (buckets ht')"
    "(\<exists>he. entry_of ht' (b, i) = Some he \<and> i < length (buckets ht' ! b) \<and> buckets ht' ! b ! i = he \<and> canon (key he) = canon k) \<or>
     (entry_of ht' (b, i) = None \<and> ht' = ht \<and> i = length (buckets ht' ! b) \<and> ht_map canon ht (canon k) = None)"
    using all by blast+
qed
subsection \<open>Resizing\<close>

lemma relink_chain:
  assumes "s \<le> 32" "length bs = 2 ^ (32 - s)" "placed s bs"
  shows "length (foldl (relink s) bs chain) = length bs \<and> placed s (foldl (relink s) bs chain) \<and>
    mset (concat (foldl (relink s) bs chain)) = mset (concat bs) + mset chain"
  using assms
proof (induction chain arbitrary: bs)
  case (Cons he chain)
  let ?b = "BUCKET_HEAD s (keyHash he)"
  have b: "?b < length bs" using BUCKET_HEAD_less [OF Cons.prems(1)] Cons.prems(2) by simp
  have p: "placed s (relink s bs he)"
    unfolding relink_def Let_def
    by (rule placed_update [OF Cons.prems(3)]) (use Cons.prems(3) b in \<open>auto simp: placed_def\<close>)
  have "mset (concat (relink s bs he)) = add_mset he (mset (concat bs))"
    using mset_concat_update [OF b, of "he # bs ! ?b"] by (simp add: relink_def Let_def)
  moreover have "length (relink s bs he) = length bs" by (simp add: relink_def Let_def)
  ultimately show ?case using Cons.IH [OF Cons.prems(1) _ p] Cons.prems(2) by simp
qed simp

lemma resize_loop_ok:
  assumes "s \<le> 32" "length bs = 2 ^ (32 - s)" "placed s bs" "unat n = length (concat old)"
  shows "\<exists>bs'. resize_loop s old n bs = Some bs' \<and> length bs' = length bs \<and> placed s bs' \<and>
    mset (concat bs') = mset (concat bs) + mset (concat old)"
  using assms
proof (induction old arbitrary: n bs)
  case (Cons chain old)
  let ?bs = "foldl (relink s) bs chain"
  note rc = relink_chain [OF Cons.prems(1-3), of chain]
  show ?case
  proof (cases "n = 0")
    case False
    have le: "length chain \<le> unat n" using Cons.prems(4) by simp
    then have "length chain < 2 ^ 64" using unsigned_less [of n, where ?'a = nat] by simp
    then have c: "unat (word_of_nat (length chain) :: u64) = length chain" by (simp add: unsigned_of_nat take_bit_nat_eq_self)
    then have "word_of_nat (length chain) \<le> n" using le by (simp add: word_le_nat_alt)
    then have "unat (n - word_of_nat (length chain)) = length (concat old)" using Cons.prems(4) c by (simp add: unat_sub)
    then have "\<exists>bs'. resize_loop s old (n - word_of_nat (length chain)) ?bs = Some bs' \<and> length bs' = length ?bs \<and> placed s bs' \<and>
        mset (concat bs') = mset (concat ?bs) + mset (concat old)"
      by (intro Cons.IH) (use Cons.prems rc in auto)
    then show ?thesis using False rc by (auto simp: ac_simps)
  qed (use Cons.prems in auto)
qed (simp add: unat_eq_0 [symmetric])

lemma placed_replicate [simp]: "placed s (replicate n [])"
  by (simp add: placed_def)

lemma concat_replicate_Nil [simp]: "concat (replicate n []) = []"
  by (induction n) auto

lemma table_words: "(2::nat) ^ (JS_HASH_BITS - s) \<le> (2 ^ 64 - 1) div POINTER_BYTES"
proof -
  have "(2::nat) ^ (JS_HASH_BITS - s) \<le> 2 ^ 32" by (rule power_increasing) (simp_all add: JS_HASH_BITS_def)
  also have "\<dots> \<le> (2 ^ 64 - 1) div POINTER_BYTES" by (simp add: POINTER_BYTES_def)
  finally show ?thesis .
qed

text \<open>A resize succeeds unless the allocation fails; then the table is as it was.\<close>

lemma Resize_ok:
  assumes ok: "ht_ok canon ht" and s: "s \<le> 28" "length (table_entries ht) \<le> 2 ^ (32 - s)"
  shows "\<exists>ht'. Resize alloc ht s = Some (ht', alloc (2 ^ (32 - s) * POINTER_BYTES)) \<and> ht_ok canon ht' \<and>
    mset (table_entries ht') = mset (table_entries ht) \<and> same_hooks ht ht' \<and> nentries ht' = nentries ht \<and>
    shift ht' = (if alloc (2 ^ (32 - s) * POINTER_BYTES) then s else shift ht) \<and>
    (\<not> alloc (2 ^ (32 - s) * POINTER_BYTES) \<longrightarrow> ht' = ht)"
proof (cases "alloc (2 ^ (32 - s) * POINTER_BYTES)")
  case True
  have "unat (ucast (nentries ht) :: u64) = length (concat (buckets ht))"
    using ok by (simp add: unat_ucast64 ht_ok_def table_entries_def)
  with resize_loop_ok [of s "replicate (2 ^ (32 - s)) []" "ucast (nentries ht)" "buckets ht"] s obtain bs where
    bs: "resize_loop s (buckets ht) (ucast (nentries ht)) (replicate (2 ^ (32 - s)) []) = Some bs"
      "length bs = 2 ^ (32 - s)" "placed s bs" "mset (concat bs) = mset (concat (buckets ht))" by auto
  let ?ht = "ht\<lparr>buckets := bs, shift := s\<rparr>"
  have m: "mset (table_entries ?ht) = mset (table_entries ht)" using bs(4) by (simp add: table_entries_def)
  have h: "same_hooks ht ?ht" by (simp add: same_hooks_def)
  have "ht_ok canon ?ht"
    using ok s bs keys_ok_same [OF h, of canon] entries_ok_mset [OF m, of canon "hashFunction ht"] mset_eq_length [OF m]
    by (simp add: ht_ok_def shape_ok_def)
  moreover have "Resize alloc ht s = Some (?ht, True)"
    using True bs(1) table_words [of s] by (simp add: Resize_def Let_def JS_HASH_BITS_def)
  ultimately show ?thesis using True m h by auto
next
  case False
  then have "Resize alloc ht s = Some (ht, False)" by (simp add: Resize_def Let_def JS_HASH_BITS_def)
  then show ?thesis using False ok by simp
qed

subsection \<open>Load limits\<close>

lemma unat_NBUCKETS: "1 \<le> shift ht \<Longrightarrow> unat (NBUCKETS ht) = 2 ^ (32 - shift ht)"
  by (simp add: NBUCKETS_def JS_HASH_BITS_def unat_JS_BIT)

lemma unat_OVERLOADED: "unat (OVERLOADED n) = unat n - unat n div 8"
proof -
  have "drop_bit 3 n \<le> n" unfolding word_le_nat_alt unat_drop_bit by simp
  then show ?thesis unfolding OVERLOADED_def by (subst unat_sub_small) (simp_all add: unat_drop_bit)
qed

lemma unat_MINBUCKETS: "unat MINBUCKETS = 16"
  by (simp add: MINBUCKETS_def MINBUCKETSLOG2_def unat_JS_BIT)

lemma unat_UNDERLOADED: "unat (UNDERLOADED n) = (if 16 < unat n then unat n div 4 else 0)"
  by (simp add: UNDERLOADED_def word_less_nat_alt unat_MINBUCKETS unat_drop_bit)

lemma ht_map_entries:
  assumes "mset (table_entries a) = mset (table_entries b)" "ht_ok canon a"
  shows "ht_map canon a = ht_map canon b"
  using emap_mset [OF assms(1)] assms(2) by (auto simp: ht_map_def ht_ok_def)

subsection \<open>Adding\<close>

lemma mset_insert: "mset (take i xs @ x # drop i xs) = add_mset x (mset xs)"
  by (subst (3) append_take_drop_id [of i xs, symmetric]) (simp del: append_take_drop_id)

lemma mset_exchange:
  "X + B = T + C \<Longrightarrow> C + {#h#} = B + {#h'#} \<Longrightarrow> T = add_mset h R \<Longrightarrow> X = add_mset (h' :: 'a) R"
proof -
  assume 1: "X + B = T + C" and 2: "C + {#h#} = B + {#h'#}" and 3: "T = add_mset h R"
  have "X + {#h#} + B = T + (C + {#h#})" using 1 by (simp add: ac_simps)
  also have "\<dots> = add_mset h' R + {#h#} + B" unfolding 2 3 by (simp add: ac_simps)
  finally show "X = add_mset h' R" by simp
qed

lemma insert_at_ok:
  assumes ok: "ht_ok canon ht" and small: "length (table_entries ht) \<le> 2 ^ 31"
    and b: "b = BUCKET_HEAD (shift ht) (hashFunction ht k)"
    and fresh: "ht_map canon ht (canon k) = None" and room: "length (table_entries ht) < 2 ^ (32 - shift ht)"
    and ht': "ht' = insert_at ht (b, i) \<lparr>keyHash = hashFunction ht k, key = k, val = v\<rparr>"
  shows "ht_ok canon ht' \<and> same_hooks ht ht' \<and> ht_map canon ht' = (ht_map canon ht)(canon k \<mapsto> v)
    \<and> length (table_entries ht') = length (table_entries ht) + 1 \<and> shift ht' = shift ht"
proof -
  let ?he = "\<lparr>keyHash = hashFunction ht k, key = k, val = v\<rparr>"
  let ?c = "take i (buckets ht ! b) @ ?he # drop i (buckets ht ! b)"
  have shape: "shape_ok ht" using ok by (simp add: ht_ok_def)
  have b_less: "b < length (buckets ht)"
    using shape BUCKET_HEAD_less [of "shift ht"] b by (simp add: shape_ok_def)
  have bk: "buckets ht' = (buckets ht)[b := ?c]" and f: "shift ht' = shift ht" "nentries ht' = nentries ht + 1" "same_hooks ht ht'"
    using ht' by (simp_all add: insert_at_def Let_def same_hooks_def)
  have "\<forall>he \<in> set ?c. BUCKET_HEAD (shift ht) (keyHash he) = b"
    using shape b_less b unfolding shape_ok_def placed_def by (auto dest: in_set_takeD in_set_dropD)
  note tu = table_update [OF shape b_less this bk f(1)]
  have "mset ?c = add_mset ?he (mset (buckets ht ! b))"
    by (rule mset_insert)
  with tu(2) have m: "mset (table_entries ht') = mset (?he # table_entries ht)" by simp
  have e: "entries_ok canon (hashFunction ht) (?he # table_entries ht)"
    using ok fresh by (simp add: entries_ok_Cons ht_ok_def ht_map_def)
  then have e': "entries_ok canon (hashFunction ht) (table_entries ht')"
    using entries_ok_mset [OF m, of canon "hashFunction ht"] by simp
  have "unat (nentries ht) + 1 < 2 ^ 32" using small ok by (simp add: ht_ok_def)
  then have n: "unat (nentries ht') = unat (nentries ht) + 1" using f by (simp add: unat_inc)
  have "ht_ok canon ht'"
    using ok tu(1) f e' n room mset_eq_length [OF m] keys_ok_same [OF f(3), of canon] hash_same [OF f(3)]
    by (simp add: ht_ok_def)
  moreover have "ht_map canon ht' = emap canon (?he # table_entries ht)"
    unfolding ht_map_def by (rule emap_mset [OF m e'])
  ultimately show ?thesis using f mset_eq_length [OF m] by (simp add: emap_Cons ht_map_def)
qed

lemma replace_value_ok:
  assumes ok: "ht_ok canon ht" and b: "b < length (buckets ht)" and i: "i < length (buckets ht ! b)"
    and he: "buckets ht ! b ! i = he" and k: "canon (key he) = canon k"
  shows "ht_ok canon (set_value ht (b, i) v) \<and> same_hooks ht (set_value ht (b, i) v)
    \<and> ht_map canon (set_value ht (b, i) v) = (ht_map canon ht)(canon k \<mapsto> v) \<and> shift (set_value ht (b, i) v) = shift ht
    \<and> length (table_entries (set_value ht (b, i) v)) = length (table_entries ht)"
proof -
  let ?ht = "set_value ht (b, i) v" let ?he = "he\<lparr>val := v\<rparr>" let ?c = "(buckets ht ! b)[i := ?he]"
  let ?R = "remove1 he (table_entries ht)"
  have shape: "shape_ok ht" using ok by (simp add: ht_ok_def)
  have in_chain: "he \<in> set (buckets ht ! b)" using i he by auto
  have bk: "buckets ?ht = (buckets ht)[b := ?c]" and f: "shift ?ht = shift ht" "nentries ?ht = nentries ht" "same_hooks ht ?ht"
    using he by (simp_all add: set_value_def same_hooks_def)
  have "\<forall>x \<in> set ?c. BUCKET_HEAD (shift ht) (keyHash x) = b"
  proof
    fix x assume "x \<in> set ?c"
    then have "x = ?he \<or> x \<in> set (buckets ht ! b)" using set_update_subset_insert [of "buckets ht ! b" i ?he] by blast
    then show "BUCKET_HEAD (shift ht) (keyHash x) = b" using shape b in_chain by (auto simp: shape_ok_def placed_def)
  qed
  note tu = table_update [OF shape b this bk f(1)]
  have "he \<in> set (table_entries ht)" using in_chain b by (auto simp: table_entries_def)
  then have m0: "mset (table_entries ht) = mset (he # ?R)" by simp
  have mc: "mset ?c + {#he#} = mset (buckets ht ! b) + {#?he#}"
  proof -
    have "mset (buckets ht ! b) = mset (take i (buckets ht ! b) @ he # drop (Suc i) (buckets ht ! b))"
      using id_take_nth_drop [OF i] he by simp
    moreover have "?c = take i (buckets ht ! b) @ ?he # drop (Suc i) (buckets ht ! b)" by (rule upd_conv_take_nth_drop [OF i])
    ultimately show ?thesis by simp
  qed
  have m: "mset (table_entries ?ht) = mset (?he # ?R)"
    using mset_exchange [OF tu(2) mc, of "mset ?R"] m0 unfolding mset.simps by blast
  have e0: "entries_ok canon (hashFunction ht) (he # ?R)"
    using ok entries_ok_mset [OF m0, of canon "hashFunction ht"] unfolding ht_ok_def by blast
  then have "entries_ok canon (hashFunction ht) (?he # ?R)" by (simp add: entries_ok_Cons)
  then have e: "entries_ok canon (hashFunction ht) (table_entries ?ht)"
    using entries_ok_mset [OF m, of canon "hashFunction ht"] by blast
  have len: "length (table_entries ?ht) = length (table_entries ht)" using mset_eq_length [OF m] mset_eq_length [OF m0] by simp
  then have "ht_ok canon ?ht"
    using ok tu(1) f e keys_ok_same [OF f(3), of canon, symmetric] hash_same [OF f(3), symmetric] by (simp add: ht_ok_def)
  moreover have "ht_map canon ?ht = emap canon (?he # ?R)"
    unfolding ht_map_def by (rule emap_mset [OF m e])
  moreover have "ht_map canon ht = emap canon (he # ?R)"
    unfolding ht_map_def by (rule emap_mset [OF m0, where hash = "hashFunction ht"]) (use ok in \<open>simp add: ht_ok_def\<close>)
  ultimately show ?thesis using f k len by (simp add: emap_Cons)
qed
lemma ht_ok_length: "ht_ok canon ht \<Longrightarrow> unat (nentries ht) = length (table_entries ht)"
  by (simp add: ht_ok_def)

lemma ht_ok_shift: "ht_ok canon ht \<Longrightarrow> shift ht \<le> 28"
  by (simp add: ht_ok_def shape_ok_def)

lemma ht_ok_fits: "ht_ok canon ht \<Longrightarrow> length (table_entries ht) \<le> 2 ^ (32 - shift ht)"
  by (simp add: ht_ok_def)

lemma raw_add_ok:
  assumes ok: "ht_ok canon ht" and sh: "1 \<le> shift ht" and b: "b = BUCKET_HEAD (shift ht) (hashFunction ht k)"
    and fresh: "ht_map canon ht (canon k) = None"
  shows "\<exists>ht' added. JS_HashTableRawAdd alloc alloc_entry ht (b, i) (hashFunction ht k) k v = Some (ht', added) \<and>
    ht_ok canon ht' \<and> same_hooks ht ht' \<and>
    length (table_entries ht') \<le> length (table_entries ht) + 1 \<and> (length (table_entries ht) < 2 ^ 30 \<longrightarrow> 1 \<le> shift ht') \<and>
    (added \<longrightarrow> alloc_entry \<and> ht_map canon ht' = (ht_map canon ht)(canon k \<mapsto> v)) \<and>
    (\<not> added \<longrightarrow> ht_map canon ht' = ht_map canon ht \<and>
      (\<not> alloc_entry \<or> \<not> alloc (2 ^ (33 - shift ht) * POINTER_BYTES)))"
proof -
have small: "length (table_entries ht) \<le> 2 ^ 31"
  using ht_ok_fits [OF ok] power_increasing [of "32 - shift ht" 31 "2::nat"] sh by linarith
show ?thesis
proof (cases "nentries ht \<ge> OVERLOADED (NBUCKETS ht)")
  case False
  have "unat (nentries ht) < unat (OVERLOADED (NBUCKETS ht))" using False by (simp add: word_less_nat_alt not_le)
  then have room: "length (table_entries ht) < 2 ^ (32 - shift ht)"
    using ht_ok_length [OF ok] by (simp add: unat_OVERLOADED unat_NBUCKETS [OF sh])
  show ?thesis
    using insert_at_ok [OF ok small b fresh room refl, of i v] False ok sh
    by (cases alloc_entry) (auto simp: JS_HashTableRawAdd_def)
next
  case True
  let ?s = "shift ht - 1"
  have "length (table_entries ht) \<le> 2 ^ (32 - ?s)"
    using ht_ok_fits [OF ok] power_increasing [of "32 - shift ht" "32 - ?s" "2::nat"] sh by linarith
  moreover have "?s \<le> 28" using ht_ok_shift [OF ok] by linarith
  ultimately obtain t where
    rs: "Resize alloc ht ?s = Some (t, alloc (2 ^ (32 - ?s) * POINTER_BYTES))" and t: "ht_ok canon t"
      "mset (table_entries t) = mset (table_entries ht)" "same_hooks ht t" "nentries t = nentries ht"
      "shift t = (if alloc (2 ^ (32 - ?s) * POINTER_BYTES) then ?s else shift ht)"
    using Resize_ok [OF ok, of ?s alloc] by blast
  have e: "32 - ?s = 33 - shift ht" using sh ht_ok_shift [OF ok] by linarith
  have map_t: "ht_map canon t = ht_map canon ht" by (rule ht_map_entries [OF t(2,1)])
  have lim: "length (table_entries ht) < 2 ^ 30 \<longrightarrow> 1 \<le> ?s"
  proof (rule impI, rule ccontr)
    assume lt: "length (table_entries ht) < 2 ^ 30" and "\<not> 1 \<le> ?s"
    then have "shift ht = 1" using sh by linarith
    then have "unat (OVERLOADED (NBUCKETS ht)) = 2 ^ 31 - 2 ^ 28" by (simp add: unat_OVERLOADED unat_NBUCKETS)
    then show False using True lt ht_ok_length [OF ok] by (simp add: word_le_nat_alt)
  qed
  have len_t: "length (table_entries t) = length (table_entries ht)" by (rule mset_eq_length [OF t(2)])
  show ?thesis
  proof (cases "alloc (2 ^ (33 - shift ht) * POINTER_BYTES)")
    case False
    then have "JS_HashTableRawAdd alloc alloc_entry ht (b, i) (hashFunction ht k) k v = Some (t, False)"
      using True rs sh e by (simp add: JS_HashTableRawAdd_def)
    then show ?thesis using t map_t False len_t sh e by auto
  next
    case al: True
    obtain u b' i' where rl: "JS_HashTableRawLookup t (hashFunction t k) k = (u, (b', i'))" by (metis prod.exhaust)
    note rl' = raw_lookup [OF t(1) rl]
    have hash: "hashFunction t = hashFunction ht" using hash_same [OF t(3)] by simp
    have fresh': "ht_map canon u (canon k) = None" using fresh map_t ht_map_entries [OF rl'(2,1)] by simp
    show ?thesis
    proof (cases alloc_entry)
      case False
      then have "JS_HashTableRawAdd alloc alloc_entry ht (b, i) (hashFunction ht k) k v = Some (u, False)"
        using True rs al sh e rl hash by (simp add: JS_HashTableRawAdd_def)
      then show ?thesis using rl' map_t ht_map_entries [OF rl'(2,1)] False same_hooks_trans [OF t(3) rl'(3)] len_t
            mset_eq_length [OF rl'(2)] lim t(5) e al by auto
    next
      case ae: True
      have sh_u: "shift u = shift ht - 1" using rl'(4) t(5) al e by simp
      have len: "length (table_entries u) = length (table_entries ht)"
        using mset_eq_length [OF rl'(2)] mset_eq_length [OF t(2)] by simp
      have pow: "(2::nat) ^ (33 - shift ht) = 2 * 2 ^ (32 - shift ht)"
        using ht_ok_shift [OF ok] by (simp flip: power_Suc add: Suc_diff_le)
      let ?e = "\<lparr>keyHash = hashFunction ht k, key = k, val = v\<rparr>"
      have add: "JS_HashTableRawAdd alloc alloc_entry ht (b, i) (hashFunction ht k) k v = Some (insert_at u (b', i') ?e, True)"
        using True rs al sh e rl hash ae by (simp add: JS_HashTableRawAdd_def)
      have b': "b' = BUCKET_HEAD (shift u) (hashFunction u k)" using rl'(4,6) hash_same [OF rl'(3)] by simp
      have "length (table_entries u) < 2 ^ (32 - shift u)"
        using len ht_ok_fits [OF ok] sh_u e pow less_le_trans [of 0 1 "2 ^ (32 - shift ht) :: nat"]
        by (simp add: le_less_trans)
      from insert_at_ok [OF rl'(1) small [folded len] b' fresh' this refl, of i' v] show ?thesis
        using add map_t ht_map_entries [OF rl'(2,1)] hash hash_same [OF rl'(3)]
          same_hooks_trans [OF same_hooks_trans [OF t(3) rl'(3)]] len lim sh_u ae by auto
    qed
  qed
qed
qed
text \<open>What adding does to the map.\<close>

definition stored :: "('v \<Rightarrow> 'v \<Rightarrow> bool) \<Rightarrow> 'v option \<Rightarrow> 'v \<Rightarrow> 'v" where
  "stored same old v = (case old of Some w \<Rightarrow> if same w v then w else v | None \<Rightarrow> v)"

lemma hit_map:
  assumes "ht_ok canon ht" "b < length (buckets ht)" "i < length (buckets ht ! b)"
  shows "ht_map canon ht (canon (key (buckets ht ! b ! i))) = Some (val (buckets ht ! b ! i))"
proof -
  have "buckets ht ! b ! i \<in> set (table_entries ht)"
    unfolding table_entries_def using nth_mem [OF assms(2)] nth_mem [OF assms(3)] by auto
  then show ?thesis unfolding ht_map_def using assms(1) emap_Some unfolding ht_ok_def by blast
qed

lemma raw_lookup_cases:
  assumes ok: "ht_ok canon ht" and raw: "JS_HashTableRawLookup ht (hashFunction ht k) k = (ht', (b, i))"
  obtains (hit) he where "entry_of ht' (b, i) = Some he" "i < length (buckets ht' ! b)" "buckets ht' ! b ! i = he"
      "canon (key he) = canon k" "ht_map canon ht (canon k) = Some (val he)" "ht_map canon ht' = ht_map canon ht"
    | (miss) "entry_of ht' (b, i) = None" "ht' = ht" "i = length (buckets ht' ! b)" "ht_map canon ht (canon k) = None"
proof -
  note rl = raw_lookup [OF ok raw]
  have same: "ht_map canon ht' = ht_map canon ht" by (rule ht_map_entries [OF rl(2,1)])
  from rl(8) show ?thesis
  proof (elim disjE exE conjE)
    fix he assume a: "entry_of ht' (b, i) = Some he" "i < length (buckets ht' ! b)" "buckets ht' ! b ! i = he"
      "canon (key he) = canon k"
    have "ht_map canon ht' (canon (key he)) = Some (val he)" using hit_map [OF rl(1,7) a(2)] a(3) by simp
    then show ?thesis using hit [OF a] same a(4) by simp
  qed (rule miss)
qed

lemma hash_add_ok:
  assumes ok: "ht_ok canon ht" and sh: "1 \<le> shift ht"
  shows "\<exists>ht' added. JS_HashTableAdd alloc alloc_entry ht k v = Some (ht', added) \<and> ht_ok canon ht' \<and> same_hooks ht ht' \<and>
    length (table_entries ht') \<le> length (table_entries ht) + 1 \<and> (length (table_entries ht) < 2 ^ 30 \<longrightarrow> 1 \<le> shift ht') \<and>
    (added \<longrightarrow> ht_map canon ht' = (ht_map canon ht)(canon k \<mapsto> stored (valueCompare ht) (ht_map canon ht (canon k)) v)) \<and>
    (added \<and> ht_map canon ht (canon k) = None \<longrightarrow> alloc_entry) \<and>
    (\<not> added \<longrightarrow> ht_map canon ht' = ht_map canon ht \<and> ht_map canon ht (canon k) = None \<and>
      (\<not> alloc_entry \<or> \<not> alloc (2 ^ (33 - shift ht) * POINTER_BYTES)))"
proof -
  obtain t b i where raw: "JS_HashTableRawLookup ht (hashFunction ht k) k = (t, (b, i))" by (metis prod.exhaust)
  note rl = raw_lookup [OF ok raw]
  have vc: "valueCompare t = valueCompare ht" using rl(3) by (simp add: same_hooks_def)
  from ok raw show ?thesis
  proof (cases rule: raw_lookup_cases)
    case (hit he)
    show ?thesis
    proof (cases "valueCompare ht (val he) v")
      case True
      then have "JS_HashTableAdd alloc alloc_entry ht k v = Some (t, True)"
        using raw hit(1) vc by (simp add: JS_HashTableAdd_def)
      moreover have "ht_map canon ht = (ht_map canon ht)(canon k \<mapsto> val he)" using hit(5) by (simp add: fun_upd_idem)
      ultimately show ?thesis using rl hit True mset_eq_length [OF rl(2)] sh by (auto simp: stored_def)
    next
      case False
      then have "JS_HashTableAdd alloc alloc_entry ht k v = Some (set_value t (b, i) v, True)"
        using raw hit(1) vc by (simp add: JS_HashTableAdd_def)
      with replace_value_ok [OF rl(1,7) hit(2,3,4), of v] show ?thesis
        using False same_hooks_trans [OF rl(3)] hit rl(4) mset_eq_length [OF rl(2)] sh by (auto simp: stored_def)
    qed
  next
    case miss
    have "b = BUCKET_HEAD (shift ht) (hashFunction ht k)" by (rule rl(6))
    from raw_add_ok [OF ok sh this miss(4), of alloc alloc_entry i v] show ?thesis
      using raw miss by (auto simp: JS_HashTableAdd_def stored_def)
  qed
qed

text \<open>Adding to a table never leaves the invariant and is an update of the finite map.  A value for a
  new key is stored, a value for a key that is present replaces the old one unless the table's value comparison
  holds of the two, and no result is an error unless an allocation failed; then the table represents what it
  represented.  The bucket chains, the move to front and the growth of the table do not show.\<close>

theorem hash_add_refines:
  assumes ok: "ht_ok canon ht" and sh: "1 \<le> shift ht"
  shows "\<exists>ht' added. JS_HashTableAdd alloc alloc_entry ht k v = Some (ht', added) \<and> ht_ok canon ht' \<and> same_hooks ht ht' \<and>
    (added \<longrightarrow> ht_map canon ht' = (ht_map canon ht)(canon k \<mapsto> stored (valueCompare ht) (ht_map canon ht (canon k)) v)) \<and>
    (\<not> added \<longrightarrow> ht_map canon ht' = ht_map canon ht \<and> ht_map canon ht (canon k) = None \<and>
      (\<not> alloc_entry \<or> \<not> alloc (2 ^ (33 - shift ht) * POINTER_BYTES)))"
  using hash_add_ok [OF assms, of alloc alloc_entry k v] by blast

subsection \<open>Looking up and removing\<close>

lemma hash_lookup_ok:
  assumes ok: "ht_ok canon ht"
  shows "snd (JS_HashTableLookup ht k) = ht_map canon ht (canon k)
    \<and> ht_ok canon (fst (JS_HashTableLookup ht k)) \<and> same_hooks ht (fst (JS_HashTableLookup ht k))
    \<and> ht_map canon (fst (JS_HashTableLookup ht k)) = ht_map canon ht
    \<and> length (table_entries (fst (JS_HashTableLookup ht k))) = length (table_entries ht)
    \<and> shift (fst (JS_HashTableLookup ht k)) = shift ht"
proof -
  obtain t b i where raw: "JS_HashTableRawLookup ht (hashFunction ht k) k = (t, (b, i))" by (metis prod.exhaust)
  note rl = raw_lookup [OF ok raw]
  from ok raw show ?thesis
    by (cases rule: raw_lookup_cases) (use rl raw mset_eq_length [OF rl(2)] in \<open>simp_all add: JS_HashTableLookup_def\<close>)
qed

text \<open>Looking up a key returns what the finite map holds for it; the move to front changes the order of a
  chain only.\<close>

theorem hash_lookup_refines:
  assumes ok: "ht_ok canon ht"
  shows "snd (JS_HashTableLookup ht k) = ht_map canon ht (canon k)
    \<and> ht_ok canon (fst (JS_HashTableLookup ht k)) \<and> same_hooks ht (fst (JS_HashTableLookup ht k))
    \<and> ht_map canon (fst (JS_HashTableLookup ht k)) = ht_map canon ht"
  using hash_lookup_ok [OF assms, of k] by blast

lemma unlink_ok:
  assumes ok: "ht_ok canon ht" and b: "b < length (buckets ht)" and i: "i < length (buckets ht ! b)"
    and he: "buckets ht ! b ! i = he" and k: "canon (key he) = canon k"
    and ht': "ht' = (unlink ht (b, i))\<lparr>nentries := nentries ht - 1\<rparr>"
  shows "ht_ok canon ht' \<and> same_hooks ht ht' \<and> ht_map canon ht' = (ht_map canon ht)(canon k := None)
    \<and> shift ht' = shift ht \<and> unat (nentries ht) = unat (nentries ht') + 1"
proof -
  let ?c = "take i (buckets ht ! b) @ drop (i + 1) (buckets ht ! b)"
  have shape: "shape_ok ht" using ok by (simp add: ht_ok_def)
  have bk: "buckets ht' = (buckets ht)[b := ?c]" and f: "shift ht' = shift ht" "nentries ht' = nentries ht - 1" "same_hooks ht ht'"
    by (simp_all add: ht' unlink_def Let_def same_hooks_def)
  have "\<forall>he \<in> set ?c. BUCKET_HEAD (shift ht) (keyHash he) = b"
    using shape b unfolding shape_ok_def placed_def by (auto dest: in_set_takeD in_set_dropD)
  note tu = table_update [OF shape b this bk f(1)]
  have "mset (buckets ht ! b) = mset (take i (buckets ht ! b) @ he # drop (Suc i) (buckets ht ! b))"
    using id_take_nth_drop [OF i] he by simp
  then have "mset (buckets ht ! b) = mset ?c + {#he#}" by simp
  then have m: "mset (table_entries ht) = mset (he # table_entries ht')" using tu(2) by simp
  have e: "entries_ok canon (hashFunction ht) (he # table_entries ht')"
    using ok entries_ok_mset [OF m, of canon "hashFunction ht"] by (simp add: ht_ok_def)
  have len: "length (table_entries ht) = length (table_entries ht') + 1" using mset_eq_length [OF m] by simp
  then have "nentries ht \<noteq> 0" using ok by (auto simp: ht_ok_def)
  then have n: "unat (nentries ht') = unat (nentries ht) - 1" using f by (simp add: unat_dec)
  have "ht_ok canon ht'"
    using ok tu(1) f e n len keys_ok_same [OF f(3), of canon, symmetric] hash_same [OF f(3), symmetric]
    by (simp add: ht_ok_def entries_ok_Cons)
  moreover have "ht_map canon ht = emap canon (he # table_entries ht')"
    unfolding ht_map_def by (rule emap_mset [OF m, where hash = "hashFunction ht"]) (use ok in \<open>simp add: ht_ok_def\<close>)
  moreover have "ht_map canon ht' (canon k) = None" using e k by (simp add: entries_ok_Cons ht_map_def)
  ultimately show ?thesis using f k n ok len by (simp add: emap_Cons ht_map_def ht_ok_def fun_upd_idem)
qed

lemma hash_remove_ok:
  assumes ok: "ht_ok canon ht" and sh: "1 \<le> shift ht"
  shows "\<exists>ht'. JS_HashTableRemove alloc ht k = Some (ht', ht_map canon ht (canon k) \<noteq> None) \<and> ht_ok canon ht' \<and>
    length (table_entries ht') \<le> length (table_entries ht) \<and> 1 \<le> shift ht' \<and>
    same_hooks ht ht' \<and> ht_map canon ht' = (ht_map canon ht)(canon k := None)"
proof -
  obtain t b i where raw: "JS_HashTableRawLookup ht (hashFunction ht k) k = (t, (b, i))" by (metis prod.exhaust)
  note rl = raw_lookup [OF ok raw]
  from ok raw show ?thesis
  proof (cases rule: raw_lookup_cases)
    case (hit he)
    let ?u = "(unlink t (b, i))\<lparr>nentries := nentries t - 1\<rparr>"
    have u: "ht_ok canon ?u" "same_hooks t ?u" "ht_map canon ?u = (ht_map canon t)(canon k := None)"
      "shift ?u = shift t" "unat (nentries t) = unat (nentries ?u) + 1"
      using unlink_ok [OF rl(1,7) hit(2,3,4) refl] by blast+
    have len_u: "length (table_entries ?u) \<le> length (table_entries t)"
      using u(5) ht_ok_length [OF u(1)] ht_ok_length [OF rl(1)] by linarith
    have nb: "unat (NBUCKETS (unlink t (b, i))) = 2 ^ (32 - shift t)"
      using unat_NBUCKETS [of ?u] u(4) rl(4) sh by (simp add: NBUCKETS_def)
    have raw_remove: "JS_HashTableRawRemove alloc t (b, i) =
        (if nentries ?u < UNDERLOADED (NBUCKETS (unlink t (b, i))) then map_option fst (Resize alloc ?u (shift t + 1)) else Some ?u)"
      using rl(4) sh u(4) by (simp add: JS_HashTableRawRemove_def Let_def unlink_def)
    have "\<exists>w. JS_HashTableRawRemove alloc t (b, i) = Some w \<and> ht_ok canon w \<and> same_hooks t w \<and> ht_map canon w = ht_map canon ?u
      \<and> length (table_entries w) \<le> length (table_entries t) \<and> 1 \<le> shift w"
    proof (cases "nentries ?u < UNDERLOADED (NBUCKETS (unlink t (b, i)))")
      case True
      then have "unat (nentries ?u) < (if (16::nat) < 2 ^ (32 - shift t) then 2 ^ (32 - shift t) div 4 else 0)"
        unfolding word_less_nat_alt unat_UNDERLOADED nb .
      then have big: "(16::nat) < 2 ^ (32 - shift t)" "unat (nentries ?u) < 2 ^ (32 - shift t) div 4" by (auto split: if_splits)
      have "shift t \<le> 27"
      proof (rule ccontr)
        assume "\<not> shift t \<le> 27"
        then have "(2::nat) ^ (32 - shift t) \<le> 2 ^ 4" by (intro power_increasing) simp_all
        then show False using big(1) by simp
      qed
      then have "shift t + 1 \<le> 28" by simp
      moreover have "length (table_entries ?u) \<le> 2 ^ (32 - (shift t + 1))"
      proof -
        have "(2::nat) ^ (32 - shift t) = 2 * 2 ^ (32 - (shift t + 1))"
          using \<open>shift t \<le> 27\<close> by (simp flip: power_Suc add: Suc_diff_Suc)
        then show ?thesis using big(2) ht_ok_length [OF u(1)] by linarith
      qed
      ultimately obtain w where "Resize alloc ?u (shift t + 1) = Some (w, alloc (2 ^ (32 - (shift t + 1)) * POINTER_BYTES))"
        and w: "ht_ok canon w" "mset (table_entries w) = mset (table_entries ?u)" "same_hooks ?u w"
          "shift w = (if alloc (2 ^ (32 - (shift t + 1)) * POINTER_BYTES) then shift t + 1 else shift ?u)"
        using Resize_ok [OF u(1), of "shift t + 1" alloc] by blast
      then show ?thesis
        using True raw_remove ht_map_entries [OF w(2,1)] same_hooks_trans [OF u(2) w(3)] len_u mset_eq_length [OF w(2)] w(4) u(4) rl(4) sh
        by simp
    next
      case False
      then show ?thesis using raw_remove u len_u rl(4) sh by simp
    qed
    then obtain w where w: "JS_HashTableRawRemove alloc t (b, i) = Some w" "ht_ok canon w" "same_hooks t w"
      "ht_map canon w = ht_map canon ?u" "length (table_entries w) \<le> length (table_entries t)" "1 \<le> shift w" by blast
    then have "JS_HashTableRemove alloc ht k = Some (w, True)"
      using raw hit(1) by (simp add: JS_HashTableRemove_def)
    then show ?thesis using w u(3) hit(5,6) same_hooks_trans [OF rl(3) w(3)] mset_eq_length [OF rl(2)] by simp
  next
    case miss
    then have "JS_HashTableRemove alloc ht k = Some (ht, False)" using raw by (simp add: JS_HashTableRemove_def)
    then show ?thesis using ok sh miss(4) by (simp add: fun_upd_idem)
  qed
qed
text \<open>Removing a key is its removal from the finite map, and the result tells whether it was there.  A table
  that shrinks keeps its entries, and a failed allocation keeps the table at its size.\<close>

theorem hash_remove_refines:
  assumes ok: "ht_ok canon ht" and sh: "1 \<le> shift ht"
  shows "\<exists>ht'. JS_HashTableRemove alloc ht k = Some (ht', ht_map canon ht (canon k) \<noteq> None) \<and> ht_ok canon ht' \<and>
    same_hooks ht ht' \<and> ht_map canon ht' = (ht_map canon ht)(canon k := None)"
  using hash_remove_ok [OF assms, of alloc k] by blast

subsection \<open>Making a table\<close>

lemma new_table_ok:
  assumes "4 \<le> log2" "log2 \<le> 31" "\<And>a b. cmp a b = (canon a = canon b)" "\<And>a b. canon a = canon b \<Longrightarrow> hash a = hash b"
    "ht = \<lparr>buckets = replicate (unat (JS_BIT log2)) [], nentries = 0, shift = JS_HASH_BITS - log2,
      hashFunction = hash, keyCompare = cmp, valueCompare = vcmp\<rparr>"
  shows "ht_ok canon ht \<and> ht_map canon ht = Map.empty \<and> 1 \<le> shift ht \<and> 2 ^ (32 - shift ht) = (2::nat) ^ log2"
proof -
  have "keyCompare ht = cmp" "hashFunction ht = hash" by (simp_all add: assms(5))
  then have "keys_ok canon ht" unfolding keys_ok_def by (metis assms(3,4))
  then show ?thesis using assms(1,2,5)
    by (simp add: ht_ok_def shape_ok_def entries_ok_def table_entries_def ht_map_def emap_def JS_HASH_BITS_def unat_JS_BIT) arith
qed

lemma log2_least:
  assumes "n \<noteq> 0" shows "unat n \<le> 2 ^ JS_CeilingLog2 n" "unat n \<le> 2 ^ m \<Longrightarrow> JS_CeilingLog2 n \<le> m"
  using JS_CEILING_LOG2_bounds(1) [OF assms] JS_CEILING_LOG2_least [OF assms, of m]
  by (simp_all add: JS_CeilingLog2_def)

text \<open>A table asked for at most \<open>2 ^ 31\<close> entries is either not allocated or a well-formed table that
  represents the empty map and has a bucket for each entry asked for.\<close>

theorem hash_new_empty:
  assumes n: "unat n \<le> 2 ^ 31" and cmp: "\<And>a b. cmp a b = (canon a = canon b)" and hash: "\<And>a b. canon a = canon b \<Longrightarrow> hash a = hash b"
  shows "\<exists>r. JS_NewHashTable alloc n hash cmp vcmp = Some r \<and>
    (\<forall>ht. r = Some ht \<longrightarrow> ht_ok canon ht \<and> ht_map canon ht = Map.empty \<and> 1 \<le> shift ht \<and> unat n \<le> 2 ^ (32 - shift ht)) \<and>
    ((\<forall>size. alloc size) \<longrightarrow> r \<noteq> None)"
proof -
  define log2 where "log2 = (if n \<le> MINBUCKETS then MINBUCKETSLOG2 else JS_CeilingLog2 n)"
  have b: "4 \<le> log2" "log2 \<le> 31" "unat n \<le> 2 ^ log2"
  proof -
    have big: "4 < JS_CeilingLog2 n" "n \<noteq> 0" if "\<not> n \<le> MINBUCKETS"
    proof -
      show nz: "n \<noteq> 0" using that by (auto simp: word_le_nat_alt)
      show "4 < JS_CeilingLog2 n"
      proof (rule ccontr)
        assume "\<not> 4 < JS_CeilingLog2 n"
        then have "(2::nat) ^ JS_CeilingLog2 n \<le> 2 ^ 4" by (intro power_increasing) simp_all
        then show False using log2_least(1) [OF nz] that by (simp add: word_le_nat_alt unat_MINBUCKETS)
      qed
    qed
    show "4 \<le> log2" using big(1) by (auto simp: log2_def MINBUCKETSLOG2_def)
    show "log2 \<le> 31" using log2_least(2) [OF big(2) n] by (auto simp: log2_def MINBUCKETSLOG2_def)
    show "unat n \<le> 2 ^ log2"
      using log2_least(1) [OF big(2)] unat_MINBUCKETS by (auto simp: log2_def MINBUCKETSLOG2_def word_le_nat_alt)
  qed
  let ?ht = "\<lparr>buckets = replicate (unat (JS_BIT log2)) [], nentries = 0, shift = JS_HASH_BITS - log2,
      hashFunction = hash, keyCompare = cmp, valueCompare = vcmp\<rparr>"
  have "JS_NewHashTable alloc n hash cmp vcmp = Some
      (if alloc TABLE_BYTES \<and> alloc (unat (JS_BIT log2) * POINTER_BYTES) then Some ?ht else None)"
    using b(2) unfolding JS_NewHashTable_def log2_def [symmetric] Let_def by (simp add: JS_HASH_BITS_def)
  moreover have "ht_ok canon ?ht \<and> ht_map canon ?ht = Map.empty \<and> 1 \<le> shift ?ht \<and> 2 ^ (32 - shift ?ht) = (2::nat) ^ log2"
    by (rule new_table_ok [OF b(1,2) _ _ refl]) (rule cmp, erule hash)
  ultimately show ?thesis using b(3) by auto
qed

subsection \<open>Enumerating\<close>

text \<open>What the enumerator decides on a list of entries, without the table: the flags of the entries seen, the
  argument and whether it stopped; \<open>kept\<close> drops the entries flagged.\<close>

fun decisions :: "('k, 'v, 'a) JSHashEnumerator \<Rightarrow> ('k, 'v) JSHashEntry list \<Rightarrow> nat \<Rightarrow> 'a \<Rightarrow> bool list \<times> 'a \<times> bool" where
  "decisions f [] n arg = ([], arg, False)"
| "decisions f (he # xs) n arg =
     (case f he n arg of (remove, stop, arg) \<Rightarrow>
        if stop then ([remove], arg, True)
        else case decisions f xs (n + 1) arg of (ds, arg, stop) \<Rightarrow> (remove # ds, arg, stop))"

fun kept :: "bool list \<Rightarrow> 'e list \<Rightarrow> 'e list" where
  "kept ds [] = []"
| "kept [] (x # xs) = x # xs"
| "kept (d # ds) (x # xs) = (if d then kept ds xs else x # kept ds xs)"

lemma kept_Nil [simp]: "kept [] xs = xs"
  by (cases xs) auto

lemma kept_set: "set (kept ds xs) \<subseteq> set xs"
  by (induction ds xs rule: kept.induct) auto

lemma kept_distinct: "distinct (map g xs) \<Longrightarrow> distinct (map g (kept ds xs))"
  by (induction ds xs rule: kept.induct) (use kept_set in \<open>fastforce+\<close>)

lemma kept_append: "length ds = length xs \<Longrightarrow> kept (ds @ ds') (xs @ ys) = kept ds xs @ kept ds' ys"
  by (induction ds xs rule: list_induct2) auto

lemma kept_prefix: "length ds \<le> length xs \<Longrightarrow> kept ds (xs @ ys) = kept ds xs @ ys"
  by (induction ds xs rule: kept.induct) auto

lemma length_kept: "length ds \<le> length xs \<Longrightarrow> length (kept ds xs) + count_list ds True = length xs"
  by (induction ds xs rule: kept.induct) auto

lemma decisions_length:
  "decisions f xs n arg = (ds, arg', stop) \<Longrightarrow> length ds \<le> length xs \<and> (\<not> stop \<longrightarrow> length ds = length xs)"
  by (induction f xs n arg arbitrary: ds rule: decisions.induct) (fastforce split: prod.splits if_splits)+

lemma decisions_append:
  "decisions f (xs @ ys) n arg = (case decisions f xs n arg of (ds, arg, stop) \<Rightarrow>
     if stop then (ds, arg, True) else case decisions f ys (n + length xs) arg of (ds', arg, stop) \<Rightarrow> (ds @ ds', arg, stop))"
  by (induction f xs n arg rule: decisions.induct) (simp_all split: prod.splits)

lemma enum_chain_decisions:
  "decisions f xs n arg = (ds, arg', stop) \<Longrightarrow>
   enum_chain f xs n arg e = (kept ds xs, n + length ds, arg', e - of_nat (count_list ds True), stop)"
  by (induction f xs n arg arbitrary: ds e rule: decisions.induct) (fastforce simp: Let_def split: prod.splits if_splits)+

lemma enum_buckets_decisions:
  assumes "n + length (concat bs) = nlimit" "decisions f (concat bs) n arg = (ds, arg', stop)"
  shows "\<exists>bs'. enum_buckets f nlimit bs n arg e = Some (bs', n + length ds, arg', e - of_nat (count_list ds True)) \<and>
    concat bs' = kept ds (concat bs) \<and> list_all2 (\<lambda>c' c. set c' \<subseteq> set c) bs' bs"
  using assms
proof (induction bs arbitrary: n arg ds e)
  case (Cons chain bs)
  obtain d1 a1 s1 where d1: "decisions f chain n arg = (d1, a1, s1)" by (metis prod.exhaust)
  have sub: "list_all2 (\<lambda>c' c. set c' \<subseteq> set c) (kept d1 chain # bs) (chain # bs)"
    using kept_set [of d1 chain] by (simp add: list_all2_same)
  show ?case
  proof (cases "n = nlimit")
    case True
    then have c: "concat (chain # bs) = []" using Cons.prems(1) by simp
    from Cons.prems(2) have "ds = []" "arg' = arg" unfolding c by simp_all
    then show ?thesis using True c by (simp add: list_all2_same)
  next
    case ne: False
    show ?thesis
    proof (cases s1)
      case True
      then have "ds = d1" "arg' = a1" using Cons.prems(2) d1 by (simp_all add: decisions_append)
      moreover have "length d1 \<le> length chain" using decisions_length [OF d1] by simp
      ultimately show ?thesis using ne enum_chain_decisions [OF d1, of e] True sub by (simp add: kept_prefix)
    next
      case False
      then have len: "length d1 = length chain" using decisions_length [OF d1] by simp
      obtain d2 where d2: "decisions f (concat bs) (n + length chain) a1 = (d2, arg', stop)" and ds: "ds = d1 @ d2"
        using Cons.prems(2) d1 False by (auto simp: decisions_append split: prod.splits)
      obtain bs' where "enum_buckets f nlimit bs (n + length chain) a1 (e - of_nat (count_list d1 True))
            = Some (bs', n + length chain + length d2, arg', e - of_nat (count_list d1 True) - of_nat (count_list d2 True))"
        and "concat bs' = kept d2 (concat bs)" "list_all2 (\<lambda>c' c. set c' \<subseteq> set c) bs' bs"
        using Cons.IH [OF _ d2, of "e - of_nat (count_list d1 True)"] Cons.prems(1) by auto
      then show ?thesis
        using ne enum_chain_decisions [OF d1, of e] False ds len sub by (simp add: kept_append algebra_simps)
    qed
  qed
qed simp

lemma placed_subset: "list_all2 (\<lambda>c' c. set c' \<subseteq> set c) bs' bs \<Longrightarrow> placed s bs \<Longrightarrow> placed s bs'"
  unfolding placed_def
proof (intro allI impI ballI)
  fix b he
  assume sub: "list_all2 (\<lambda>c' c. set c' \<subseteq> set c) bs' bs" and p: "\<forall>b < length bs. \<forall>he \<in> set (bs ! b). BUCKET_HEAD s (keyHash he) = b"
    and b: "b < length bs'" "he \<in> set (bs' ! b)"
  have "b < length bs" "he \<in> set (bs ! b)" using list_all2_lengthD [OF sub] list_all2_nthD [OF sub b(1)] b by auto
  then show "BUCKET_HEAD s (keyHash he) = b" using p by simp
qed

text \<open>C39. Enumerating a table shows every entry once, in table order and with its ordinal, until the enumerator
  says to stop; exactly the entries it flagged are gone, the count is the number of entries it saw, and the
  table is well formed at the size it has after the removals, shrunk or not.\<close>

theorem hash_enumerate_correct:
  assumes ok: "ht_ok canon ht" and sh: "1 \<le> shift ht" and ds: "decisions f (table_entries ht) 0 arg = (ds, arg', stop)"
  shows "\<exists>ht'. JS_HashTableEnumerateEntries alloc ht f arg = Some (ht', length ds, arg') \<and> ht_ok canon ht' \<and> same_hooks ht ht' \<and>
    mset (table_entries ht') = mset (kept ds (table_entries ht)) \<and> ht_map canon ht' = emap canon (kept ds (table_entries ht))"
proof -
  let ?e = "nentries ht - of_nat (count_list ds True)"
  have total: "0 + length (concat (buckets ht)) = unat (nentries ht)"
    using ht_ok_length [OF ok] by (simp add: table_entries_def)
  obtain bs where eb: "enum_buckets f (unat (nentries ht)) (buckets ht) 0 arg (nentries ht) = Some (bs, length ds, arg', ?e)"
    and bs: "concat bs = kept ds (concat (buckets ht))" "list_all2 (\<lambda>c' c. set c' \<subseteq> set c) bs (buckets ht)"
    using enum_buckets_decisions [OF total ds [unfolded table_entries_def], of "nentries ht"] by auto
  let ?t = "ht\<lparr>buckets := bs, nentries := ?e\<rparr>"
  have len: "length (kept ds (table_entries ht)) + count_list ds True = unat (nentries ht)"
    using length_kept decisions_length [OF ds] ht_ok_length [OF ok] by fastforce
  have c_less: "count_list ds True < 2 ^ 32" using len unsigned_less [of "nentries ht", where ?'a = nat] by simp
  then have "of_nat (count_list ds True) \<le> nentries ht" using len by (simp add: word_le_nat_alt unat_of_nat_small)
  then have e: "unat ?e = length (kept ds (table_entries ht))"
    using len c_less by (simp add: unat_sub_small unat_of_nat_small)
  have te: "table_entries ?t = kept ds (table_entries ht)" using bs(1) by (simp add: table_entries_def)
  have eok: "entries_ok canon (hashFunction ht) (table_entries ?t)"
    using ok te kept_set [of ds "table_entries ht"] kept_distinct [of _ "table_entries ht" ds]
    unfolding ht_ok_def entries_ok_def by (metis (no_types, lifting) subsetD)
  have h: "same_hooks ht ?t" by (simp add: same_hooks_def)
  have t_ok: "ht_ok canon ?t"
    using ok eok e te len placed_subset [OF bs(2)] list_all2_lengthD [OF bs(2)] keys_ok_same [OF h, of canon, symmetric]
      ht_ok_length [OF ok]
    by (simp add: ht_ok_def shape_ok_def)
  have map_t: "ht_map canon ?t = emap canon (kept ds (table_entries ht))" using te by (simp add: ht_map_def)
  let ?l = "max MINBUCKETSLOG2 (JS_CeilingLog2 ?e)"
  have run: "JS_HashTableEnumerateEntries alloc ht f arg =
      (if ?e \<noteq> nentries ht \<and> MINBUCKETS < NBUCKETS ?t \<and> ?e < UNDERLOADED (NBUCKETS ?t)
       then map_option (\<lambda>(ht, ok). (ht, length ds, arg')) (Resize alloc ?t (JS_HASH_BITS - ?l)) else Some (?t, length ds, arg'))"
    using eb sh by (simp add: JS_HashTableEnumerateEntries_def Let_def)
  show ?thesis
  proof (cases "?e \<noteq> nentries ht \<and> MINBUCKETS < NBUCKETS ?t \<and> ?e < UNDERLOADED (NBUCKETS ?t)")
    case True
    have cl: "unat ?e \<le> 2 ^ ?l" "?l \<le> 32"
    proof -
      have cl: "unat ?e \<le> 2 ^ JS_CeilingLog2 ?e \<and> JS_CeilingLog2 ?e \<le> 32"
      proof (cases "?e = 0")
        case True
        show ?thesis unfolding True by (simp add: JS_CeilingLog2_def JS_CEILING_LOG2_def log2_cascade_0)
      next
        case False
        then show ?thesis using log2_least(1) [OF False] log2_least(2) [OF False, of 32] unsigned_less [of ?e, where ?'a = nat] by simp
      qed
      have "(2::nat) ^ JS_CeilingLog2 ?e \<le> 2 ^ ?l" by (rule power_increasing) simp_all
      with cl show "unat ?e \<le> 2 ^ ?l" by (blast intro: order_trans)
      show "?l \<le> 32" using cl by (simp add: MINBUCKETSLOG2_def)
    qed
    have "length (table_entries ?t) \<le> 2 ^ (32 - (JS_HASH_BITS - ?l))" using cl e te by (simp add: JS_HASH_BITS_def)
    moreover have "JS_HASH_BITS - ?l \<le> 28" by (simp add: JS_HASH_BITS_def MINBUCKETSLOG2_def max_def) arith
    ultimately obtain w okr where "Resize alloc ?t (JS_HASH_BITS - ?l) = Some (w, okr)"
      and w: "ht_ok canon w" "mset (table_entries w) = mset (table_entries ?t)" "same_hooks ?t w"
      using Resize_ok [OF t_ok, of "JS_HASH_BITS - ?l" alloc] by blast
    then show ?thesis
      using True run map_t te ht_map_entries [OF w(2,1)] same_hooks_trans [OF h w(3)] by simp
  next
    case False
    then have "JS_HashTableEnumerateEntries alloc ht f arg = Some (?t, length ds, arg')"
      using run by (simp only: if_False)
    then show ?thesis using t_ok map_t te h by simp
  qed
qed
subsection \<open>Tables as stores\<close>

text \<open>The contract of a keyed store of bounded size, and what any sequence of calls shows of it.  The calls a
  store gets and what it answers do not depend on how it is implemented.\<close>

datatype ('h, 'k, 'v) call = Put 'h 'k 'v | Drop 'h 'k | Get 'k
datatype 'v answer = Done bool | Found "'v option"

fun run_calls ::
  "('h \<Rightarrow> 's \<Rightarrow> 'k \<Rightarrow> 'v \<Rightarrow> ('s \<times> bool) option) \<Rightarrow> ('h \<Rightarrow> 's \<Rightarrow> 'k \<Rightarrow> ('s \<times> bool) option) \<Rightarrow> ('s \<Rightarrow> 'k \<Rightarrow> 's \<times> 'v option) \<Rightarrow>
   's \<Rightarrow> ('h, 'k, 'v) call list \<Rightarrow> ('s \<times> 'v answer list) option" where
  "run_calls add remove lookup s [] = Some (s, [])"
| "run_calls add remove lookup s (Put h k v # cs) =
     (case add h s k v of None \<Rightarrow> None
      | Some (s, r) \<Rightarrow> map_option (\<lambda>(s, os). (s, Done r # os)) (run_calls add remove lookup s cs))"
| "run_calls add remove lookup s (Drop h k # cs) =
     (case remove h s k of None \<Rightarrow> None
      | Some (s, r) \<Rightarrow> map_option (\<lambda>(s, os). (s, Done r # os)) (run_calls add remove lookup s cs))"
| "run_calls add remove lookup s (Get k # cs) =
     (case lookup s k of (s, v) \<Rightarrow> map_option (\<lambda>(s, os). (s, Found v # os)) (run_calls add remove lookup s cs))"

text \<open>The answers a finite map gives.  Only the addition of a new key may be refused, by a call whose allocator may
  refuse something (\<open>refuses\<close>), and is refused if the allocator does not give an entry (\<open>blocks\<close>).\<close>

fun map_answers ::
  "('h \<Rightarrow> bool) \<Rightarrow> ('h \<Rightarrow> bool) \<Rightarrow> ('k \<Rightarrow> 'c) \<Rightarrow> ('v \<Rightarrow> 'v \<Rightarrow> bool) \<Rightarrow> ('c \<Rightarrow> 'v option) \<Rightarrow>
   ('h, 'k, 'v) call list \<Rightarrow> 'v answer list \<Rightarrow> bool" where
  "map_answers refuses blocks canon same m [] [] = True"
| "map_answers refuses blocks canon same m (Put h k v # cs) (Done r # os) =
     (if r then (m (canon k) = None \<longrightarrow> \<not> blocks h) \<and>
        map_answers refuses blocks canon same (m(canon k \<mapsto> stored same (m (canon k)) v)) cs os
      else m (canon k) = None \<and> refuses h \<and> map_answers refuses blocks canon same m cs os)"
| "map_answers refuses blocks canon same m (Drop h k # cs) (Done r # os) =
     (r = (m (canon k) \<noteq> None) \<and> map_answers refuses blocks canon same (m(canon k := None)) cs os)"
| "map_answers refuses blocks canon same m (Get k # cs) (Found v # os) =
     (v = m (canon k) \<and> map_answers refuses blocks canon same m cs os)"
| "map_answers refuses blocks canon same m _ _ = False"

definition hash_refuses :: "(nat \<Rightarrow> bool) \<times> bool \<Rightarrow> bool" where
  "hash_refuses h \<longleftrightarrow> \<not> snd h \<or> (\<exists>n. \<not> fst h n)"

definition hash_blocks :: "(nat \<Rightarrow> bool) \<times> bool \<Rightarrow> bool" where
  "hash_blocks h \<longleftrightarrow> \<not> snd h"

locale keyed_store =
  fixes inv :: "'s \<Rightarrow> bool"
    and count :: "'s \<Rightarrow> nat"
    and limit :: nat
    and denotes :: "'s \<Rightarrow> 'c \<Rightarrow> 'v option"
    and canon :: "'k \<Rightarrow> 'c"
    and same :: "'v \<Rightarrow> 'v \<Rightarrow> bool"
    and refuses :: "'h \<Rightarrow> bool"
    and blocks :: "'h \<Rightarrow> bool"
    and add :: "'h \<Rightarrow> 's \<Rightarrow> 'k \<Rightarrow> 'v \<Rightarrow> ('s \<times> bool) option"
    and remove :: "'h \<Rightarrow> 's \<Rightarrow> 'k \<Rightarrow> ('s \<times> bool) option"
    and lookup :: "'s \<Rightarrow> 'k \<Rightarrow> 's \<times> 'v option"
  assumes add_law: "inv s \<Longrightarrow> count s < limit \<Longrightarrow> \<exists>s' r. add h s k v = Some (s', r) \<and> inv s' \<and> count s' \<le> count s + 1 \<and>
      (r \<longrightarrow> denotes s' = (denotes s)(canon k \<mapsto> stored same (denotes s (canon k)) v) \<and> (denotes s (canon k) = None \<longrightarrow> \<not> blocks h)) \<and>
      (\<not> r \<longrightarrow> denotes s' = denotes s \<and> denotes s (canon k) = None \<and> refuses h)"
    and remove_law: "inv s \<Longrightarrow> count s < limit \<Longrightarrow> \<exists>s'. remove h s k = Some (s', denotes s (canon k) \<noteq> None) \<and> inv s' \<and>
      count s' \<le> count s \<and> denotes s' = (denotes s)(canon k := None)"
    and lookup_law: "inv s \<Longrightarrow> \<exists>s'. lookup s k = (s', denotes s (canon k)) \<and> inv s' \<and> count s' \<le> count s \<and> denotes s' = denotes s"
begin

lemma run_calls_refine:
  "inv s \<Longrightarrow> count s + length cs \<le> limit \<Longrightarrow>
   \<exists>s' os. run_calls add remove lookup s cs = Some (s', os) \<and> inv s' \<and> map_answers refuses blocks canon same (denotes s) cs os"
proof (induction cs arbitrary: s)
  case (Cons c cs)
  then have room: "count s < limit" "count s + 1 + length cs \<le> limit" by simp_all
  have next_state: "\<exists>s'' os. run_calls add remove lookup s' cs = Some (s'', os) \<and> inv s'' \<and> map_answers refuses blocks canon same (denotes s') cs os"
    if "inv s'" "count s' \<le> count s + 1" for s'
    using Cons.IH [OF that(1)] that(2) room(2) by simp
  show ?case
  proof (cases c)
    case (Put h k v)
    obtain s' r where "add h s k v = Some (s', r) \<and> inv s' \<and> count s' \<le> count s + 1 \<and>
      (r \<longrightarrow> denotes s' = (denotes s)(canon k \<mapsto> stored same (denotes s (canon k)) v) \<and> (denotes s (canon k) = None \<longrightarrow> \<not> blocks h)) \<and>
      (\<not> r \<longrightarrow> denotes s' = denotes s \<and> denotes s (canon k) = None \<and> refuses h)"
      by (rule exE [OF add_law [OF Cons.prems(1) room(1), of h k v]], erule exE, rule that)
    then have a: "add h s k v = Some (s', r)" "inv s'" "count s' \<le> count s + 1"
      "r \<longrightarrow> denotes s' = (denotes s)(canon k \<mapsto> stored same (denotes s (canon k)) v) \<and> (denotes s (canon k) = None \<longrightarrow> \<not> blocks h)"
      "\<not> r \<longrightarrow> denotes s' = denotes s \<and> denotes s (canon k) = None \<and> refuses h" by blast+
    obtain s'' os where "run_calls add remove lookup s' cs = Some (s'', os)" "inv s''" "map_answers refuses blocks canon same (denotes s') cs os"
      using next_state [OF a(2,3)] by blast
    then show ?thesis using Put a by (cases r) simp_all
  next
    case (Drop h k)
    obtain s' where a: "remove h s k = Some (s', denotes s (canon k) \<noteq> None)" "inv s'" "count s' \<le> count s"
      "denotes s' = (denotes s)(canon k := None)" using remove_law [OF Cons.prems(1) room(1), of h k] by blast
    then have "count s' \<le> count s + 1" by simp
    from next_state [OF a(2) this] show ?thesis using Drop a by auto
  next
    case (Get k)
    obtain s' where a: "lookup s k = (s', denotes s (canon k))" "inv s'" "count s' \<le> count s" "denotes s' = denotes s"
      using lookup_law [OF Cons.prems(1), of k] by blast
    then have "count s' \<le> count s + 1" by simp
    from next_state [OF a(2) this] show ?thesis using Get a by auto
  qed
qed simp

end

definition store_inv :: "('k \<Rightarrow> 'c) \<Rightarrow> ('v \<Rightarrow> 'v \<Rightarrow> bool) \<Rightarrow> ('k, 'v) JSHashTable \<Rightarrow> bool" where
  "store_inv canon same ht \<longleftrightarrow> ht_ok canon ht \<and> 1 \<le> shift ht \<and> valueCompare ht = same"

definition store_count :: "('k, 'v) JSHashTable \<Rightarrow> nat" where
  "store_count ht = length (table_entries ht)"

interpretation hash_store: keyed_store "store_inv canon same" store_count "2 ^ 30" "ht_map canon" canon same hash_refuses hash_blocks
  "\<lambda>(alloc, alloc_entry). JS_HashTableAdd alloc alloc_entry" "\<lambda>(alloc, alloc_entry). JS_HashTableRemove alloc" JS_HashTableLookup
  for canon :: "'k \<Rightarrow> 'c" and same :: "'v \<Rightarrow> 'v \<Rightarrow> bool"
proof
  fix s :: "('k, 'v) JSHashTable" and h :: "(nat \<Rightarrow> bool) \<times> bool" and k v
  assume inv: "store_inv canon same s"
  then have ok: "ht_ok canon s" "1 \<le> shift s" "valueCompare s = same" by (simp_all add: store_inv_def)
  show "\<exists>s'. JS_HashTableLookup s k = (s', ht_map canon s (canon k)) \<and> store_inv canon same s' \<and>
      store_count s' \<le> store_count s \<and> ht_map canon s' = ht_map canon s"
    using hash_lookup_ok [OF ok(1), of k] ok
    by (cases "JS_HashTableLookup s k") (simp add: store_inv_def store_count_def same_hooks_def)
  assume lim: "store_count s < 2 ^ 30"
  obtain alloc ae where h: "h = (alloc, ae)" by (metis prod.exhaust)
  show "\<exists>s' r. (case h of (alloc, ae) \<Rightarrow> JS_HashTableAdd alloc ae) s k v = Some (s', r) \<and> store_inv canon same s' \<and>
      store_count s' \<le> store_count s + 1 \<and>
      (r \<longrightarrow> ht_map canon s' = (ht_map canon s)(canon k \<mapsto> stored same (ht_map canon s (canon k)) v) \<and>
        (ht_map canon s (canon k) = None \<longrightarrow> \<not> hash_blocks h)) \<and>
      (\<not> r \<longrightarrow> ht_map canon s' = ht_map canon s \<and> ht_map canon s (canon k) = None \<and> hash_refuses h)"
    using hash_add_ok [OF ok(1,2), of alloc ae k v] ok(3) lim
    unfolding h prod.case store_inv_def store_count_def same_hooks_def hash_refuses_def hash_blocks_def fst_conv snd_conv by metis
  show "\<exists>s'. (case h of (alloc, ae) \<Rightarrow> JS_HashTableRemove alloc) s k = Some (s', ht_map canon s (canon k) \<noteq> None) \<and>
      store_inv canon same s' \<and> store_count s' \<le> store_count s \<and> ht_map canon s' = (ht_map canon s)(canon k := None)"
    using hash_remove_ok [OF ok(1,2), of alloc k] ok(3)
    unfolding h prod.case store_inv_def store_count_def same_hooks_def by metis
qed

text \<open>C8. Any sequence of at most \<open>2 ^ 30\<close> additions, removals and lookups on a well-formed table completes and is
  answered as the finite map answers it, however the table grows, shrinks and reorders its chains.  Only the addition of
  a new key may be refused, only when an allocation hook of that call may fail, and it is refused when the hook for
  entries fails; the map is then unchanged.\<close>

theorem hash_calls_refine:
  assumes ok: "ht_ok canon ht" and sh: "1 \<le> shift ht" and len: "length (table_entries ht) + length cs \<le> 2 ^ 30"
  shows "\<exists>ht' os. run_calls (\<lambda>(alloc, alloc_entry). JS_HashTableAdd alloc alloc_entry)
      (\<lambda>(alloc, alloc_entry). JS_HashTableRemove alloc) JS_HashTableLookup ht cs = Some (ht', os) \<and>
    ht_ok canon ht' \<and> map_answers hash_refuses hash_blocks canon (valueCompare ht) (ht_map canon ht) cs os"
  using hash_store.run_calls_refine [of canon "valueCompare ht" ht cs] assms
  by (simp add: store_inv_def store_count_def) blast

subsection \<open>A table of C strings\<close>

definition string_table :: "(u8 list, u64) JSHashTable" where
  "string_table = \<lparr>buckets = replicate (unat (JS_BIT 4)) [], nentries = 0, shift = JS_HASH_BITS - 4,
     hashFunction = JS_HashString, keyCompare = (=), valueCompare = JS_CompareValues\<rparr>"

lemma string_table_ok: "ht_ok id string_table" "1 \<le> shift string_table"
  using new_table_ok [of 4 "(=)" id JS_HashString string_table JS_CompareValues] by (simp_all add: string_table_def)

theorem hash_new_empty_witness:
  "JS_NewHashTable (\<lambda>_. True) 20 JS_HashString (=) JS_CompareValues \<noteq> Some None
    \<and> (\<exists>r. JS_NewHashTable (\<lambda>_. True) 20 JS_HashString (=) JS_CompareValues = Some r)"
  using hash_new_empty [of 20 "(=)" id JS_HashString "\<lambda>_. True" JS_CompareValues] by auto

theorem hash_add_refines_witness:
  "\<exists>ht' added. JS_HashTableAdd (\<lambda>_. True) True string_table [0x66, 0x6f] 7 = Some (ht', added) \<and> ht_map id ht' [0x66, 0x6f] = Some 7"
proof -
  have "ht_map id string_table = Map.empty"
    by (simp add: string_table_def ht_map_def table_entries_def emap_def)
  then show ?thesis
    using hash_add_refines [OF string_table_ok, of "\<lambda>_. True" True "[0x66, 0x6f]" 7] by (auto simp: stored_def)
qed

theorem hash_lookup_refines_witness: "snd (JS_HashTableLookup string_table [0x66]) = None"
  using hash_lookup_refines [OF string_table_ok(1), of "[0x66]"]
  by (simp add: string_table_def ht_map_def table_entries_def emap_def)

theorem hash_remove_refines_witness:
  "\<exists>ht'. JS_HashTableRemove (\<lambda>_. True) string_table [0x66] = Some (ht', False) \<and> ht_ok id ht'"
  using hash_remove_refines [OF string_table_ok, of "\<lambda>_. True" "[0x66]"]
  by (auto simp: string_table_def ht_map_def table_entries_def emap_def)

theorem hash_enumerate_correct_witness:
  "\<exists>ht'. JS_HashTableEnumerateEntries (\<lambda>_. True) string_table (\<lambda>he n arg. (True, False, arg)) () = Some (ht', 0, ())"
  using hash_enumerate_correct [OF string_table_ok, of "\<lambda>he n arg. (True, False, arg)" "()" "[]" "()" False "\<lambda>_. True"]
  by (auto simp: string_table_def table_entries_def)

theorem hash_calls_refine_witness:
  "\<exists>ht'. run_calls (\<lambda>(alloc, alloc_entry). JS_HashTableAdd alloc alloc_entry) (\<lambda>(alloc, alloc_entry). JS_HashTableRemove alloc)
      JS_HashTableLookup string_table
      [Put (\<lambda>_. True, True) [0x66] 7, Get [0x66], Put (\<lambda>_. True, False) [0x67] 8, Drop (\<lambda>_. True, True) [0x66]] =
    Some (ht', [Done True, Found (Some 7), Done False, Done True])"
proof -
  let ?cs = "[Put (\<lambda>_. True, True) [0x66 :: u8] 7, Get [0x66], Put (\<lambda>_. True, False) [0x67] 8, Drop (\<lambda>_. True, True) [0x66]]"
  have m: "ht_map id string_table = Map.empty" by (simp add: string_table_def ht_map_def table_entries_def emap_def)
  have answers: "os = [Done True, Found (Some 7), Done False, Done True]"
    if "map_answers hash_refuses hash_blocks id (valueCompare string_table) Map.empty ?cs os" for os
    using that
    by (auto simp: stored_def hash_refuses_def hash_blocks_def elim!: map_answers.elims split: if_splits)
  show ?thesis
    using hash_calls_refine [OF string_table_ok, of ?cs] answers unfolding m
    by (auto simp: string_table_def table_entries_def)
qed

end
