(* ===== verification/HeapSort.thy ===== *)
theory HeapSort
  imports Jsval "HOL-Library.Monad_Syntax"
begin

text \<open>
  Array sorting in \<open>js/src/jsarray.c\<close>: the heap sort \<open>js_HeapSort\<close>, the two comparators, the access
  to the elements of an array, and \<open>array_sort\<close>.  The vector is the list of its elements, an access outside it is
  \<open>None\<close>.  A comparator runs in a state of type \<open>'s\<close> (it may call a script function) and its result is \<open>None\<close>
  when it fails.  The result of a sort is the vector, the state and whether it succeeded.
\<close>

type_synonym ('a, 's) JSComparator = "'a \<Rightarrow> 'a \<Rightarrow> 's \<Rightarrow> int option \<times> 's"

definition fetch :: "'a list \<Rightarrow> nat \<Rightarrow> 'a option" where
  "fetch vec i = (if i < length vec then Some (vec ! i) else None)"

definition store :: "'a list \<Rightarrow> nat \<Rightarrow> 'a \<Rightarrow> 'a list option" where
  "store vec i x = (if i < length vec then Some (vec[i := x]) else None)"

subsection \<open>The heap\<close>

text \<open>Node \<open>k\<close> of the heap over \<open>hi\<close> elements is \<open>vec[k - 2]\<close>, and its root, node 1, is \<open>vec[hi - 1]\<close>.  The first
  step of an iteration chooses the greater of the siblings \<open>j\<close> and \<open>j + 1\<close>.\<close>

definition greater_child :: "('a, 's) JSComparator \<Rightarrow> nat \<Rightarrow> nat \<Rightarrow> 'a list \<Rightarrow> 's \<Rightarrow> (nat option \<times> 's) option" where
  "greater_child cmp hi j vec s =
     (if j < hi then
        do { a \<leftarrow> fetch vec (j - 2);
             b \<leftarrow> fetch vec (j - 1);
             case cmp a b s of
               (None, s) \<Rightarrow> Some (None, s)
             | (Some cmp_result, s) \<Rightarrow> Some (Some (if cmp_result < 0 then j + 1 else j), s) }
      else Some (Some j, s))"

text \<open>The loop of \<open>HeapSortHelper\<close> with the final store of the pivot.\<close>

function sift ::
  "('a, 's) JSComparator \<Rightarrow> 'a \<Rightarrow> nat \<Rightarrow> nat \<Rightarrow> 'a list \<Rightarrow> 's \<Rightarrow> ('a list \<times> 's \<times> bool) option" where
  "sift cmp pivot hi lo vec s =
     (if lo = 0 then None
      else if lo \<le> hi div 2 then
        (case greater_child cmp hi (lo + lo) vec s of
           None \<Rightarrow> None
         | Some (None, s) \<Rightarrow> Some (vec, s, False)
         | Some (Some j, s) \<Rightarrow>
             if j < lo + lo then None
             else do { b \<leftarrow> fetch vec (j - 2);
                       case cmp pivot b s of
                         (None, s) \<Rightarrow> Some (vec, s, False)
                       | (Some cmp_result, s) \<Rightarrow>
                           if cmp_result \<ge> 0 then do { vec \<leftarrow> store vec (lo - 2) pivot; Some (vec, s, True) }
                           else do { vec \<leftarrow> store vec (lo - 2) b; sift cmp pivot hi j vec s } })
      else do { vec \<leftarrow> store vec (lo - 2) pivot; Some (vec, s, True) })"
  by pat_completeness auto
termination
  by (relation "measure (\<lambda>(cmp, pivot, hi, lo, vec, s). hi + hi - lo)") auto

declare sift.simps [simp del]

definition HeapSortHelper ::
  "bool \<Rightarrow> ('a, 's) JSComparator \<Rightarrow> nat \<Rightarrow> nat \<Rightarrow> 'a list \<Rightarrow> 's \<Rightarrow> ('a list \<times> 's \<times> bool) option" where
  "HeapSortHelper building cmp lo hi vec s =
     (if lo = 1 then
        (case greater_child cmp hi 2 vec s of
           None \<Rightarrow> None
         | Some (None, s) \<Rightarrow> Some (vec, s, False)
         | Some (Some j, s) \<Rightarrow>
             do { a \<leftarrow> fetch vec (hi - 1);
                  b \<leftarrow> fetch vec (j - 2);
                  case (if building \<or> hi = 2 then cmp a b s else (Some (- 1), s)) of
                    (None, s) \<Rightarrow> Some (vec, s, False)
                  | (Some cmp_result, s) \<Rightarrow>
                      if cmp_result \<ge> 0 then Some (vec, s, True)
                      else do { vec \<leftarrow> store vec (hi - 1) b; sift cmp a hi j vec s } })
      else do { pivot \<leftarrow> fetch vec (lo - 2); sift cmp pivot hi lo vec s })"

fun heapify_loop :: "('a, 's) JSComparator \<Rightarrow> nat \<Rightarrow> nat \<Rightarrow> 'a list \<Rightarrow> 's \<Rightarrow> ('a list \<times> 's \<times> bool) option" where
  "heapify_loop cmp nel 0 vec s = Some (vec, s, True)"
| "heapify_loop cmp nel (Suc i) vec s =
     do { (vec, s, ok) \<leftarrow> HeapSortHelper True cmp (Suc i) nel vec s;
          if ok then heapify_loop cmp nel i vec s else Some (vec, s, False) }"

fun extract_loop :: "('a, 's) JSComparator \<Rightarrow> nat \<Rightarrow> 'a list \<Rightarrow> 's \<Rightarrow> ('a list \<times> 's \<times> bool) option" where
  "extract_loop cmp (Suc nel) vec s =
     (if Suc nel > 2 then
        do { (vec, s, ok) \<leftarrow> HeapSortHelper False cmp 1 nel vec s;
             if ok then extract_loop cmp nel vec s else Some (vec, s, False) }
      else Some (vec, s, True))"
| "extract_loop cmp 0 vec s = Some (vec, s, True)"

definition js_HeapSort :: "('a, 's) JSComparator \<Rightarrow> nat \<Rightarrow> 'a list \<Rightarrow> 's \<Rightarrow> ('a list \<times> 's \<times> bool) option" where
  "js_HeapSort cmp nel vec s =
     do { (vec, s, ok) \<leftarrow> heapify_loop cmp nel (nel div 2) vec s;
          if ok then extract_loop cmp nel vec s else Some (vec, s, False) }"

subsection \<open>Comparators\<close>

text \<open>The script function gives the bits of a double.  Identical values are equal model values: two boxed strings
  or doubles with the same contents convert to the same string and compare equal.\<close>

definition sort_compare ::
  "(jsval \<Rightarrow> 's \<Rightarrow> jschar list option \<times> 's) \<Rightarrow> (jsval \<Rightarrow> jsval \<Rightarrow> 's \<Rightarrow> u64 option \<times> 's) option \<Rightarrow> (jsval, 's) JSComparator" where
  "sort_compare value_to_string fval av bv s =
     (case fval of
        None \<Rightarrow>
          if av \<noteq> bv then
            (case value_to_string av s of
               (None, s) \<Rightarrow> (None, s)
             | (Some astr, s) \<Rightarrow>
                 (case value_to_string bv s of
                    (None, s) \<Rightarrow> (None, s)
                  | (Some bstr, s) \<Rightarrow> (Some (js_CompareStrings astr bstr), s)))
          else (Some 0, s)
      | Some f \<Rightarrow>
          (case f av bv s of
             (None, s) \<Rightarrow> (None, s)
           | (Some cmp, s) \<Rightarrow>
               (Some (if JSDOUBLE_IS_NaN cmp then 0 else if dbl_is_zero cmp then 0 else if bit cmp 63 then - 1 else 1), s)))"

fun JSVAL_TO_STRING :: "jsval \<Rightarrow> jschar list" where
  "JSVAL_TO_STRING (JString s) = s"
| "JSVAL_TO_STRING _ = []"

fun JSVAL_IS_STRING :: "jsval \<Rightarrow> bool" where
  "JSVAL_IS_STRING (JString s) = True"
| "JSVAL_IS_STRING _ = False"

definition sort_compare_strings :: "(jsval, 's) JSComparator" where
  "sort_compare_strings av bv s = (Some (js_CompareStrings (JSVAL_TO_STRING av) (JSVAL_TO_STRING bv)), s)"

subsection \<open>The elements of an array\<close>

text \<open>The object that is sorted lives in the state, and every operation on it is one of the engine that may fail, run a
  script function and change the object: the operations are the fields of a record.  The identifier of a property is an
  integer or an atom, which is its characters.\<close>

datatype jsid = IntId nat | AtomId "jschar list"

datatype SortError = JSMSG_BAD_SORT_ARG | JSMSG_OUT_OF_MEMORY

record 's SortHost =
  indexed_class :: bool
  js_GetExistingStringAtom :: "jschar list \<Rightarrow> 's \<Rightarrow> bool"
  js_AtomizeChars :: "jschar list \<Rightarrow> 's \<Rightarrow> bool \<times> 's"
  OBJ_LOOKUP_PROPERTY :: "jsid \<Rightarrow> 's \<Rightarrow> bool option \<times> 's"
  OBJ_GET_PROPERTY :: "jsid \<Rightarrow> 's \<Rightarrow> jsval option \<times> 's"
  OBJ_SET_PROPERTY :: "jsid \<Rightarrow> jsval \<Rightarrow> 's \<Rightarrow> bool \<times> 's"
  OBJ_DELETE_PROPERTY :: "jsid \<Rightarrow> 's \<Rightarrow> bool \<times> 's"
  js_ValueToECMAUint32 :: "jsval \<Rightarrow> 's \<Rightarrow> u32 option \<times> 's"
  JS_malloc :: "nat \<Rightarrow> 's \<Rightarrow> bool \<times> 's"
  js_IsCallable :: "jsval \<Rightarrow> bool"
  JS_ReportError :: "SortError \<Rightarrow> 's \<Rightarrow> 's"
  js_ValueToString :: "jsval \<Rightarrow> 's \<Rightarrow> jschar list option \<times> 's"
  call_compare :: "jsval \<Rightarrow> jsval \<Rightarrow> jsval \<Rightarrow> 's \<Rightarrow> u64 option \<times> 's"

definition JSVAL_INT_MAX :: nat where "JSVAL_INT_MAX = 2 ^ 30 - 1"

definition lengthAtom :: jsid where "lengthAtom = AtomId [0x6c, 0x65, 0x6e, 0x67, 0x74, 0x68]"

fun index_chars :: "nat \<Rightarrow> jschar list" where
  "index_chars n = (if n div 10 = 0 then [] else index_chars (n div 10)) @ [0x30 + word_of_nat (n mod 10)]"

declare index_chars.simps [simp del]

text \<open>The result is \<open>None\<close> on failure and \<open>Some None\<close> for \<open>JSVAL_VOID\<close>, an index that no property has.\<close>

definition BigIndexToId :: "'s SortHost \<Rightarrow> nat \<Rightarrow> bool \<Rightarrow> 's \<Rightarrow> jsid option option \<times> 's" where
  "BigIndexToId h index createAtom s =
     (if \<not> createAtom \<and> indexed_class h then
        (if js_GetExistingStringAtom h (index_chars index) s then (Some (Some (AtomId (index_chars index))), s)
         else (Some None, s))
      else
        (case js_AtomizeChars h (index_chars index) s of
           (ok, s) \<Rightarrow> (if ok then Some (Some (AtomId (index_chars index))) else None, s)))"

definition index_to_id :: "'s SortHost \<Rightarrow> nat \<Rightarrow> bool \<Rightarrow> 's \<Rightarrow> jsid option option \<times> 's" where
  "index_to_id h index createAtom s =
     (if index \<le> JSVAL_INT_MAX then (Some (Some (IntId index)), s) else BigIndexToId h index createAtom s)"

text \<open>The result of \<open>GetArrayElement\<close> is \<open>None\<close> on failure and \<open>Some None\<close> for a hole.\<close>

definition GetArrayElement :: "'s SortHost \<Rightarrow> nat \<Rightarrow> 's \<Rightarrow> jsval option option \<times> 's" where
  "GetArrayElement h index s =
     (case index_to_id h index False s of
        (None, s) \<Rightarrow> (None, s)
      | (Some None, s) \<Rightarrow> (Some None, s)
      | (Some (Some i), s) \<Rightarrow>
          (case OBJ_LOOKUP_PROPERTY h i s of
             (None, s) \<Rightarrow> (None, s)
           | (Some False, s) \<Rightarrow> (Some None, s)
           | (Some True, s) \<Rightarrow>
               (case OBJ_GET_PROPERTY h i s of
                  (None, s) \<Rightarrow> (None, s)
                | (Some v, s) \<Rightarrow> (Some (Some v), s))))"

definition SetArrayElement :: "'s SortHost \<Rightarrow> nat \<Rightarrow> jsval \<Rightarrow> 's \<Rightarrow> bool \<times> 's" where
  "SetArrayElement h index v s =
     (case index_to_id h index True s of
        (Some (Some i), s) \<Rightarrow> OBJ_SET_PROPERTY h i v s
      | (_, s) \<Rightarrow> (False, s))"

definition DeleteArrayElement :: "'s SortHost \<Rightarrow> nat \<Rightarrow> 's \<Rightarrow> bool \<times> 's" where
  "DeleteArrayElement h index s =
     (case index_to_id h index False s of
        (None, s) \<Rightarrow> (False, s)
      | (Some None, s) \<Rightarrow> (True, s)
      | (Some (Some i), s) \<Rightarrow> OBJ_DELETE_PROPERTY h i s)"

definition js_GetLengthProperty :: "'s SortHost \<Rightarrow> 's \<Rightarrow> u32 option \<times> 's" where
  "js_GetLengthProperty h s =
     (case OBJ_GET_PROPERTY h lengthAtom s of
        (None, s) \<Rightarrow> (None, s)
      | (Some (JInt i), s) \<Rightarrow> (Some i, s)
      | (Some v, s) \<Rightarrow> js_ValueToECMAUint32 h v s)"

fun InitArrayElements :: "'s SortHost \<Rightarrow> nat \<Rightarrow> jsval list \<Rightarrow> 's \<Rightarrow> bool \<times> 's" where
  "InitArrayElements h start [] s = (True, s)"
| "InitArrayElements h start (v # vector) s =
     (case SetArrayElement h start v s of (ok, s) \<Rightarrow> if ok then InitArrayElements h (start + 1) vector s else (False, s))"

subsection \<open>Sorting an array\<close>

text \<open>The first loop gives the values to sort, the number of undefined elements and whether all values are strings.\<close>

fun gather :: "'s SortHost \<Rightarrow> nat list \<Rightarrow> jsval list \<Rightarrow> nat \<Rightarrow> bool \<Rightarrow> 's \<Rightarrow> (jsval list \<times> nat \<times> bool) option \<times> 's" where
  "gather h [] vec undefs all_strings s = (Some (vec, undefs, all_strings), s)"
| "gather h (i # rest) vec undefs all_strings s =
     (case GetArrayElement h i s of
        (None, s) \<Rightarrow> (None, s)
      | (Some None, s) \<Rightarrow> gather h rest vec undefs all_strings s
      | (Some (Some v), s) \<Rightarrow>
          if v = JSVAL_VOID then gather h rest vec (undefs + 1) all_strings s
          else gather h rest (vec @ [v]) undefs (all_strings \<and> JSVAL_IS_STRING v) s)"

text \<open>The two loops that follow the sorted values.\<close>

fun set_undefs :: "'s SortHost \<Rightarrow> nat \<Rightarrow> nat \<Rightarrow> 's \<Rightarrow> bool \<times> 's" where
  "set_undefs h 0 newlen s = (True, s)"
| "set_undefs h (Suc undefs) newlen s =
     (case SetArrayElement h newlen JSVAL_VOID s of (ok, s) \<Rightarrow> if ok then set_undefs h undefs (newlen + 1) s else (False, s))"

fun delete_holes :: "'s SortHost \<Rightarrow> nat \<Rightarrow> nat \<Rightarrow> 's \<Rightarrow> bool \<times> 's" where
  "delete_holes h 0 newlen s = (True, s)"
| "delete_holes h (Suc len) newlen s =
     (if Suc len > newlen then
        (case DeleteArrayElement h len s of (ok, s) \<Rightarrow> if ok then delete_holes h len newlen s else (False, s))
      else (True, s))"

definition write_sorted :: "'s SortHost \<Rightarrow> jsval list \<Rightarrow> nat \<Rightarrow> nat \<Rightarrow> 's \<Rightarrow> bool \<times> 's" where
  "write_sorted h vec undefs len s =
     (case InitArrayElements h 0 vec s of
        (ok, s) \<Rightarrow>
          if \<not> ok then (False, s)
          else
            (case set_undefs h undefs (length vec) s of
               (ok, s) \<Rightarrow> if \<not> ok then (False, s) else delete_holes h len (length vec + undefs) s))"

text \<open>The comparison function, \<open>None\<close> for the default; a value that is not callable is refused.\<close>

definition sort_argument :: "jsval list \<Rightarrow> jsval option" where
  "sort_argument argv = (case argv of [] \<Rightarrow> None | v # _ \<Rightarrow> if v = JSVAL_VOID then None else Some v)"

definition array_sort :: "'s SortHost \<Rightarrow> jsval list \<Rightarrow> 's \<Rightarrow> ('s \<times> bool) option" where
  "array_sort h argv s =
     (let fval = sort_argument argv in
      if \<not> (case fval of None \<Rightarrow> True | Some f \<Rightarrow> js_IsCallable h f) then Some (JS_ReportError h JSMSG_BAD_SORT_ARG s, False)
      else
        case js_GetLengthProperty h s of
          (None, s) \<Rightarrow> Some (s, False)
        | (Some len, s) \<Rightarrow>
            if len = 0 then Some (s, True)
            else if unat len > (2 ^ 64 - 1) div 8 then Some (JS_ReportError h JSMSG_OUT_OF_MEMORY s, False)
            else
              case JS_malloc h (unat len * 8) s of
                (ok, s) \<Rightarrow>
                  if \<not> ok then Some (s, False)
                  else
                    case gather h [0..<unat len] [] 0 (fval = None) s of
                      (None, s) \<Rightarrow> Some (s, False)
                    | (Some (vec, undefs, all_strings), s) \<Rightarrow>
                        do { (vec, s, ok) \<leftarrow> js_HeapSort (if all_strings then sort_compare_strings
                               else sort_compare (js_ValueToString h) (map_option (call_compare h) fval)) (length vec) vec s;
                             if \<not> ok then Some (s, False)
                             else case write_sorted h vec undefs (unat len) s of (ok, s) \<Rightarrow> Some (s, ok) })"

end
