(* ===== verification/HeapSort_Correct.thy ===== *)
theory HeapSort_Correct
  imports HeapSort "HOL-Library.Multiset"
begin

text \<open>
  The heap sort permutes its vector for every comparator, stays inside it and ends; for a comparator that decides
  a total preorder it sorts.  The contract of such a comparator is the locale \<open>total_comparator\<close>, which the string
  comparator of the default sort meets.
\<close>

declare ex_bool_eq [simp]

subsection \<open>Permutation and bounds, for every comparator\<close>

lemma fetch_Some [simp]: "i < length vec \<Longrightarrow> fetch vec i = Some (vec ! i)"
  by (simp add: fetch_def)

lemma store_Some [simp]: "i < length vec \<Longrightarrow> store vec i x = Some (vec[i := x])"
  by (simp add: store_def)

lemma greater_child_cases:
  assumes "2 \<le> j" "j \<le> hi" "hi \<le> length vec"
  obtains s' where "greater_child cmp hi j vec s = Some (None, s')" "j < hi" "cmp (vec ! (j - 2)) (vec ! (j - 1)) s = (None, s')"
    | s' where "greater_child cmp hi j vec s = Some (Some j, s')" "j = hi"
    | s' r where "greater_child cmp hi j vec s = Some (Some j, s')" "j < hi" "cmp (vec ! (j - 2)) (vec ! (j - 1)) s = (Some r, s')" "0 \<le> r"
    | s' r where "greater_child cmp hi j vec s = Some (Some (j + 1), s')" "j < hi" "cmp (vec ! (j - 2)) (vec ! (j - 1)) s = (Some r, s')" "r < 0"
proof (cases "j < hi")
  case True
  obtain r s' where c: "cmp (vec ! (j - 2)) (vec ! (j - 1)) s = (r, s')" by (metis prod.exhaust)
  have g: "greater_child cmp hi j vec s =
      (case r of None \<Rightarrow> Some (None, s') | Some r \<Rightarrow> Some (Some (if r < 0 then j + 1 else j), s'))"
    using True assms c by (simp add: greater_child_def split: option.split)
  show ?thesis
  proof (cases r)
    case None
    then show ?thesis using that(1) True c g by simp
  next
    case (Some x)
    show ?thesis
    proof (cases "x < 0")
      case neg: True
      have "greater_child cmp hi j vec s = Some (Some (j + 1), s')" using g Some neg by simp
      then show ?thesis using that(4) True c Some neg by blast
    next
      case False
      have "greater_child cmp hi j vec s = Some (Some j, s')" using g Some False by simp
      then show ?thesis using that(3) True c Some False by (simp add: not_less)
    qed
  qed
next
  case False
  then show ?thesis using that(2) assms(2) by (simp add: greater_child_def)
qed

lemma greater_child_bound:
  assumes "2 \<le> j" "j \<le> hi" "hi \<le> length vec"
  obtains s' where "greater_child cmp hi j vec s = Some (None, s')"
    | s' j' where "greater_child cmp hi j vec s = Some (Some j', s')" "j \<le> j'" "j' \<le> j + 1" "j' \<le> hi"
  by (rule greater_child_cases [OF assms, of cmp s]) (use assms in \<open>auto intro: that\<close>)

lemma mset_hole_move:
  assumes "i < length vec" "j < length vec" "i \<noteq> j"
  shows "mset (vec[i := vec ! j, j := p]) = mset (vec[i := p])"
proof -
  let ?w = "vec[i := p]"
  have "vec[i := vec ! j, j := p] = ?w[i := ?w ! j, j := ?w ! i]" using assms by simp
  then show ?thesis using mset_swap [of j ?w i] assms by simp
qed

definition keeps :: "nat \<Rightarrow> 'a list \<Rightarrow> 'a list \<Rightarrow> bool" where
  "keeps hi vec vec' \<longleftrightarrow> length vec' = length vec \<and> (\<forall>i \<ge> hi. vec' ! i = vec ! i)"

lemma keeps_refl [simp]: "keeps hi vec vec"
  by (simp add: keeps_def)

lemma keeps_trans: "keeps hi a b \<Longrightarrow> keeps hi b c \<Longrightarrow> keeps hi a c"
  by (simp add: keeps_def)

lemma keeps_update [simp]: "i < hi \<Longrightarrow> keeps hi vec (vec[i := x])"
  by (simp add: keeps_def)

lemma keeps_mono: "keeps lo a b \<Longrightarrow> lo \<le> hi \<Longrightarrow> keeps hi a b"
  by (simp add: keeps_def)

lemma sift_permutes:
  assumes "2 \<le> lo" "lo \<le> hi" "hi \<le> length vec"
  shows "\<exists>vec' s' ok. sift cmp p hi lo vec s = Some (vec', s', ok) \<and> keeps (hi - 1) vec vec' \<and>
    (ok \<longrightarrow> mset vec' = mset (vec[lo - 2 := p]))"
  using assms
proof (induction "hi + hi - lo" arbitrary: lo vec s rule: less_induct)
  case less
  have lo: "lo - 2 < length vec" "lo - 2 < hi - 1" using less.prems by linarith+
  show ?case
  proof (cases "lo \<le> hi div 2")
    case False
    then have "sift cmp p hi lo vec s = Some (vec[lo - 2 := p], s, True)"
      using less.prems lo by (subst sift.simps) simp
    then show ?thesis using lo by simp
  next
    case True
    then have j2: "2 \<le> lo + lo" "lo + lo \<le> hi" using less.prems by linarith+
    show ?thesis
    proof (rule greater_child_bound [OF j2 less.prems(3), of cmp s])
      fix s' assume "greater_child cmp hi (lo + lo) vec s = Some (None, s')"
      then have "sift cmp p hi lo vec s = Some (vec, s', False)" using True less.prems by (subst sift.simps) simp
      then show ?thesis by simp
    next
      fix s' j assume g: "greater_child cmp hi (lo + lo) vec s = Some (Some j, s')" "lo + lo \<le> j" "j \<le> lo + lo + 1" "j \<le> hi"
      have j: "j - 2 < length vec" "j - 2 \<noteq> lo - 2" "lo < j" "2 \<le> j" using g less.prems by linarith+
      let ?b = "vec ! (j - 2)" let ?v = "vec[lo - 2 := ?b]"
      obtain r s2 where c: "cmp p ?b s' = (r, s2)" by (metis prod.exhaust)
      have step: "sift cmp p hi lo vec s =
          (case r of None \<Rightarrow> Some (vec, s2, False)
           | Some r \<Rightarrow> if 0 \<le> r then Some (vec[lo - 2 := p], s2, True) else sift cmp p hi j ?v s2)"
        using True less.prems g c lo j by (subst sift.simps) (simp split: option.split)
      show ?thesis
      proof (cases r)
        case None
        then show ?thesis using step by simp
      next
        case (Some x)
        show ?thesis
        proof (cases "0 \<le> x")
          case True
          then show ?thesis using step Some lo by simp
        next
          case False
          have "hi + hi - j < hi + hi - lo" using j g(4) by linarith
          from less.hyps [OF this j(4) g(4), of ?v s2] less.prems(3) obtain v2 s3 ok where
            ih: "sift cmp p hi j ?v s2 = Some (v2, s3, ok)" "keeps (hi - 1) ?v v2" "ok \<longrightarrow> mset v2 = mset (?v[j - 2 := p])"
            by auto
          have "keeps (hi - 1) vec v2" using keeps_trans [OF _ ih(2)] lo(2) by simp
          moreover have "ok \<longrightarrow> mset v2 = mset (vec[lo - 2 := p])"
            using ih(3) mset_hole_move [OF lo(1) j(1)] j(2) by simp
          ultimately show ?thesis using step Some False ih(1) by simp
        qed
      qed
    qed
  qed
qed

lemma helper_permutes:
  assumes "1 \<le> lo" "lo \<le> hi" "2 \<le> hi" "hi \<le> length vec"
  shows "\<exists>vec' s' ok. HeapSortHelper building cmp lo hi vec s = Some (vec', s', ok) \<and> keeps hi vec vec' \<and>
    (ok \<longrightarrow> mset vec' = mset vec)"
proof (cases "lo = 1")
  case False
  then have lo: "2 \<le> lo" "lo - 2 < length vec" using assms by linarith+
  from sift_permutes [OF lo(1) assms(2,4), of cmp "vec ! (lo - 2)" s] obtain v s' ok where
    "sift cmp (vec ! (lo - 2)) hi lo vec s = Some (v, s', ok)" "keeps (hi - 1) vec v" "ok \<longrightarrow> mset v = mset vec"
    by (auto simp: list_update_id)
  then show ?thesis using False lo(2) keeps_mono [of "hi - 1" vec v hi] by (simp add: HeapSortHelper_def)
next
  case True
  have hi: "hi - 1 < length vec" "hi - 1 < hi" using assms by linarith+
  show ?thesis
  proof (rule greater_child_bound [OF order_refl assms(3,4), of cmp s])
    fix s' assume "greater_child cmp hi 2 vec s = Some (None, s')"
    then show ?thesis using True by (simp add: HeapSortHelper_def)
  next
    fix s' j assume g: "greater_child cmp hi 2 vec s = Some (Some j, s')" "2 \<le> j" "j \<le> 2 + 1" "j \<le> hi"
    have j: "j - 2 < length vec" "j - 2 \<noteq> hi - 1" using g assms by linarith+
    let ?a = "vec ! (hi - 1)" let ?b = "vec ! (j - 2)" let ?v = "vec[hi - 1 := ?b]"
    obtain r s2 where c: "(if building \<or> hi = 2 then cmp ?a ?b s' else (Some (- 1), s')) = (r, s2)" by (metis prod.exhaust)
    have step: "HeapSortHelper building cmp lo hi vec s =
        (case r of None \<Rightarrow> Some (vec, s2, False)
         | Some r \<Rightarrow> if 0 \<le> r then Some (vec, s2, True) else sift cmp ?a hi j ?v s2)"
      unfolding HeapSortHelper_def True
      by (simp only: if_True g(1) option.case prod.case fetch_Some [OF hi(1)] fetch_Some [OF j(1)] store_Some [OF hi(1)]
          Option.bind_lunit c simp_thms if_True)
    from sift_permutes [OF g(2,4), of ?v cmp ?a s2] assms(4) obtain v2 s3 ok where
      ih: "sift cmp ?a hi j ?v s2 = Some (v2, s3, ok)" "keeps (hi - 1) ?v v2" "ok \<longrightarrow> mset v2 = mset (?v[j - 2 := ?a])" by auto
    have "keeps hi vec v2" using keeps_trans [OF _ keeps_mono [OF ih(2)], of hi vec] hi by simp
    moreover have "mset (?v[j - 2 := ?a]) = mset vec"
      using mset_hole_move [OF hi(1) j(1)] j(2) by (simp add: list_update_id)
    ultimately show ?thesis using step ih by (cases r) auto
  qed
qed

lemma heapify_permutes:
  assumes "i \<le> nel div 2" "nel \<le> length vec"
  shows "\<exists>vec' s' ok. heapify_loop cmp nel i vec s = Some (vec', s', ok) \<and> keeps nel vec vec' \<and> (ok \<longrightarrow> mset vec' = mset vec)"
  using assms
proof (induction i arbitrary: vec s)
  case (Suc i)
  then have "1 \<le> Suc i" "Suc i \<le> nel" "2 \<le> nel" by linarith+
  from helper_permutes [OF this Suc.prems(2), of True cmp s] obtain v s' ok where
    h: "HeapSortHelper True cmp (Suc i) nel vec s = Some (v, s', ok)" "keeps nel vec v" "ok \<longrightarrow> mset v = mset vec" by blast
  show ?case
  proof (cases ok)
    case True
    have "i \<le> nel div 2" "nel \<le> length v" using Suc.prems h(2) by (simp_all add: keeps_def)
    from Suc.IH [OF this, of s'] obtain v2 s2 ok2 where "heapify_loop cmp nel i v s' = Some (v2, s2, ok2)"
      "keeps nel v v2" "ok2 \<longrightarrow> mset v2 = mset v" by blast
    then show ?thesis using h True keeps_trans by auto
  next
    case False
    then show ?thesis using h by simp
  qed
qed simp

lemma extract_permutes:
  assumes "nel \<le> length vec"
  shows "\<exists>vec' s' ok. extract_loop cmp nel vec s = Some (vec', s', ok) \<and> length vec' = length vec \<and> (ok \<longrightarrow> mset vec' = mset vec)"
  using assms
proof (induction nel arbitrary: vec s)
  case (Suc nel)
  show ?case
  proof (cases "Suc nel > 2")
    case True
    then have "(1::nat) \<le> 1" "1 \<le> nel" "2 \<le> nel" "nel \<le> length vec" using Suc.prems by linarith+
    from helper_permutes [OF this, of False cmp s] obtain v s' ok where
      h: "HeapSortHelper False cmp 1 nel vec s = Some (v, s', ok)" "keeps nel vec v" "ok \<longrightarrow> mset v = mset vec" by blast
    show ?thesis
    proof (cases ok)
      case ok: True
      have "nel \<le> length v" using Suc.prems h(2) by (simp add: keeps_def)
      from Suc.IH [OF this, of s'] obtain v2 s2 ok2 where "extract_loop cmp nel v s' = Some (v2, s2, ok2)"
        "length v2 = length v" "ok2 \<longrightarrow> mset v2 = mset v" by blast
      then show ?thesis using h True ok by (auto simp: keeps_def)
    next
      case False
      then show ?thesis using h True by (simp add: keeps_def)
    qed
  qed simp
qed simp

lemma heapsort_permutes:
  "\<exists>vec' s' ok. js_HeapSort cmp (length vec) vec s = Some (vec', s', ok) \<and> length vec' = length vec \<and> (ok \<longrightarrow> mset vec' = mset vec)"
proof -
  from heapify_permutes [OF order_refl order_refl, where vec = vec and cmp = cmp and s = s] obtain v s' ok where
    h: "heapify_loop cmp (length vec) (length vec div 2) vec s = Some (v, s', ok)" "length v = length vec" "ok \<longrightarrow> mset v = mset vec"
    by (auto simp: keeps_def)
  from extract_permutes [of "length vec" v cmp s'] h(2) obtain v2 s2 ok2 where
    "extract_loop cmp (length vec) v s' = Some (v2, s2, ok2)" "length v2 = length v" "ok2 \<longrightarrow> mset v2 = mset v" by auto
  then show ?thesis using h by (cases ok) (auto simp: js_HeapSort_def)
qed
subsection \<open>Order\<close>

text \<open>A comparator that decides a total preorder on the values of \<open>A\<close>: it never fails there and its sign is that of
  \<open>c\<close>, whatever the state.\<close>

locale total_comparator =
  fixes cmp :: "('a, 's) JSComparator" and c :: "'a \<Rightarrow> 'a \<Rightarrow> int" and A :: "'a set"
  assumes decides: "a \<in> A \<Longrightarrow> b \<in> A \<Longrightarrow> fst (cmp a b s) = Some (c a b)"
    and sign: "a \<in> A \<Longrightarrow> b \<in> A \<Longrightarrow> (0 \<le> c a b) = (c b a \<le> 0)"
    and trans: "a \<in> A \<Longrightarrow> b \<in> A \<Longrightarrow> d \<in> A \<Longrightarrow> c a b \<le> 0 \<Longrightarrow> c b d \<le> 0 \<Longrightarrow> c a d \<le> 0"
begin

lemma result: "a \<in> A \<Longrightarrow> b \<in> A \<Longrightarrow> cmp a b s = (r, s') \<Longrightarrow> r = Some (c a b)"
  using decides [of a b s] by simp

lemma refl_le: "a \<in> A \<Longrightarrow> c a a \<le> 0"
  using sign [of a a] by linarith

end

text \<open>The node \<open>k\<close> of the heap over \<open>hi\<close> elements; the heap below the nodes from \<open>l\<close> on; and a heap with a hole at
  \<open>lo\<close> that waits for the pivot \<open>p\<close>.\<close>

definition node :: "'a list \<Rightarrow> nat \<Rightarrow> nat \<Rightarrow> 'a" where
  "node vec hi k = vec ! (if k = 1 then hi - 1 else k - 2)"

definition heap_from :: "('a \<Rightarrow> 'a \<Rightarrow> int) \<Rightarrow> (nat \<Rightarrow> 'a) \<Rightarrow> nat \<Rightarrow> nat \<Rightarrow> bool" where
  "heap_from c h hi l \<longleftrightarrow> (\<forall>k. 2 \<le> k \<and> k \<le> hi \<and> l \<le> k div 2 \<longrightarrow> c (h k) (h (k div 2)) \<le> 0)"

definition hole_at :: "('a \<Rightarrow> 'a \<Rightarrow> int) \<Rightarrow> (nat \<Rightarrow> 'a) \<Rightarrow> nat \<Rightarrow> nat \<Rightarrow> 'a \<Rightarrow> nat \<Rightarrow> bool" where
  "hole_at c h hi l p lo \<longleftrightarrow>
     (\<forall>k. 2 \<le> k \<and> k \<le> hi \<and> l \<le> k div 2 \<and> k \<noteq> lo \<and> k div 2 \<noteq> lo \<longrightarrow> c (h k) (h (k div 2)) \<le> 0) \<and>
     (\<forall>k. 2 \<le> k \<and> k \<le> hi \<and> k div 2 = lo \<and> l \<le> lo div 2 \<longrightarrow> c (h k) (h (lo div 2)) \<le> 0) \<and>
     (l \<le> lo div 2 \<longrightarrow> c p (h (lo div 2)) \<le> 0)"

lemma node_update:
  assumes "2 \<le> lo" "lo \<le> hi" "hi \<le> length vec" "1 \<le> k" "k \<le> hi"
  shows "node (vec[lo - 2 := b]) hi k = (if k = lo then b else node vec hi k)"
proof (cases "k = 1 \<or> k = lo")
  case True
  then show ?thesis using assms by (auto simp: node_def)
next
  case False
  then have "lo - 2 \<noteq> k - 2" using assms by linarith
  then show ?thesis using False by (simp add: node_def)
qed

lemma node_root:
  assumes "2 \<le> hi" "hi \<le> length vec" "1 \<le> k" "k \<le> hi"
  shows "node (vec[hi - 1 := b]) hi k = (if k = 1 then b else node vec hi k)"
proof (cases "k = 1")
  case True
  then show ?thesis using assms by (simp add: node_def)
next
  case False
  then have "hi - 1 \<noteq> k - 2" using assms by linarith
  then show ?thesis using False by (simp add: node_def)
qed

lemma fill_hole:
  assumes h: "hole_at c h hi l p lo" and lo: "2 \<le> lo" "lo \<le> hi"
    and h': "\<And>k. 1 \<le> k \<Longrightarrow> k \<le> hi \<Longrightarrow> h' k = (if k = lo then p else h k)"
    and kids: "\<And>k. k \<le> hi \<Longrightarrow> k div 2 = lo \<Longrightarrow> c (h k) p \<le> 0"
  shows "heap_from c h' hi l"
  unfolding heap_from_def
proof (intro allI impI, elim conjE)
  fix k assume k: "2 \<le> k" "k \<le> hi" "l \<le> k div 2"
  have d: "1 \<le> k div 2" "k div 2 \<le> hi" "k div 2 \<noteq> k" using k by linarith+
  show "c (h' k) (h' (k div 2)) \<le> 0"
  proof (cases "k = lo \<or> k div 2 = lo")
    case True
    then show ?thesis using k d h' [OF _ k(2)] h' [OF d(1,2)] kids [OF k(2)] h lo unfolding hole_at_def by auto
  next
    case False
    then show ?thesis using k d h' [OF _ k(2)] h' [OF d(1,2)] h unfolding hole_at_def by auto
  qed
qed

lemma move_hole:
  assumes h: "hole_at c h hi l p lo" and lo: "2 \<le> lo" "l \<le> lo" and j: "j div 2 = lo" "j \<le> hi"
    and h': "\<And>k. 1 \<le> k \<Longrightarrow> k \<le> hi \<Longrightarrow> h' k = (if k = lo then h j else h k)"
    and kids: "\<And>k. k \<le> hi \<Longrightarrow> k div 2 = lo \<Longrightarrow> c (h k) (h j) \<le> 0" and p: "c p (h j) \<le> 0"
  shows "hole_at c h' hi l p j"
proof -
  have lo_hi: "lo \<le> hi" "lo < j" "1 \<le> lo" using j lo by linarith+
  have hlo: "h' lo = h j" using h' [of lo] lo_hi by simp
  have 1: "c (h' k) (h' (k div 2)) \<le> 0" if k: "2 \<le> k" "k \<le> hi" "l \<le> k div 2" "k \<noteq> j" "k div 2 \<noteq> j" for k
  proof -
    have d: "1 \<le> k div 2" "k div 2 \<le> hi" "k div 2 \<noteq> k" "1 \<le> k" using k by linarith+
    consider "k = lo" | "k div 2 = lo" | "k \<noteq> lo" "k div 2 \<noteq> lo" by blast
    then show ?thesis
    proof cases
      case 1
      have "c (h j) (h (lo div 2)) \<le> 0" using h j k 1 lo lo_hi unfolding hole_at_def by auto
      then show ?thesis using h' [OF d(1,2)] d 1 hlo by simp
    next
      case 2
      then show ?thesis using h' [OF d(4) k(2)] kids [OF k(2) 2] d hlo by simp
    next
      case 3
      then show ?thesis using h' [OF d(4) k(2)] h' [OF d(1,2)] h k unfolding hole_at_def by simp
    qed
  qed
  have 2: "c (h' k) (h' (j div 2)) \<le> 0" if k: "2 \<le> k" "k \<le> hi" "k div 2 = j" for k
  proof -
    have "k \<noteq> lo" "k div 2 \<noteq> lo" "1 \<le> k" "l \<le> k div 2" using k lo_hi lo by linarith+
    moreover from this have "c (h k) (h j) \<le> 0" using h k unfolding hole_at_def by auto
    ultimately show ?thesis using h' [OF _ k(2)] j hlo by simp
  qed
  show ?thesis unfolding hole_at_def using 1 2 p hlo j(1) by simp
qed
context total_comparator
begin

text \<open>The child chosen is a greatest one.\<close>

lemma greater_child_max:
  assumes "2 \<le> j" "j \<le> hi" "hi \<le> length vec" "set vec \<subseteq> A"
    and g: "greater_child cmp hi j vec s = Some (r, s')" and even: "even j"
  shows "\<exists>j'. r = Some j' \<and> j' div 2 = j div 2 \<and> j \<le> j' \<and> j' \<le> hi \<and>
    (\<forall>k. k \<le> hi \<and> k div 2 = j div 2 \<longrightarrow> c (node vec hi k) (node vec hi j') \<le> 0)"
proof -
  have in_A: "k < length vec \<Longrightarrow> vec ! k \<in> A" for k using assms(4) by auto
  have ix: "j - 2 < length vec" using assms by linarith
  have n0: "node vec hi j = vec ! (j - 2)" using assms(1) by (simp add: node_def)
  have n1: "node vec hi (j + 1) = vec ! (j - 1)" using assms(1) by (simp add: node_def)
  have kids: "k = j \<or> k = j + 1" if "k div 2 = j div 2" for k using that even by presburger
  show ?thesis
  proof (rule greater_child_cases [OF assms(1-3), of cmp s])
    fix s1 assume a: "j < hi" "cmp (vec ! (j - 2)) (vec ! (j - 1)) s = (None, s1)"
    then have "j - 1 < length vec" using assms by linarith
    then show ?thesis using result [OF in_A in_A a(2)] ix by simp
  next
    fix s1 assume a: "greater_child cmp hi j vec s = Some (Some j, s1)" "j = hi"
    have "c (node vec hi k) (node vec hi j) \<le> 0" if "k \<le> hi" "k div 2 = j div 2" for k
      using kids [OF that(2)] that(1) a(2) refl_le [OF in_A [OF ix]] n0 by auto
    then show ?thesis using a(1) g assms(2) by auto
  next
    fix s1 x assume a: "greater_child cmp hi j vec s = Some (Some j, s1)" "j < hi"
      "cmp (vec ! (j - 2)) (vec ! (j - 1)) s = (Some x, s1)" "0 \<le> x"
    have ix1: "j - 1 < length vec" using a(2) assms by linarith
    have "c (vec ! (j - 1)) (vec ! (j - 2)) \<le> 0"
      using result [OF in_A [OF ix] in_A [OF ix1] a(3)] a(4) sign [OF in_A [OF ix] in_A [OF ix1]] by simp
    then have "c (node vec hi k) (node vec hi j) \<le> 0" if "k \<le> hi" "k div 2 = j div 2" for k
      using kids [OF that(2)] refl_le [OF in_A [OF ix]] n0 n1 by auto
    then show ?thesis using a(1) g assms(2) by auto
  next
    fix s1 x assume a: "greater_child cmp hi j vec s = Some (Some (j + 1), s1)" "j < hi"
      "cmp (vec ! (j - 2)) (vec ! (j - 1)) s = (Some x, s1)" "x < 0"
    have ix1: "j - 1 < length vec" using a(2) assms by linarith
    have "c (vec ! (j - 2)) (vec ! (j - 1)) \<le> 0"
      using result [OF in_A [OF ix] in_A [OF ix1] a(3)] a(4) by simp
    then have "c (node vec hi k) (node vec hi (j + 1)) \<le> 0" if "k \<le> hi" "k div 2 = j div 2" for k
      using kids [OF that(2)] refl_le [OF in_A [OF ix1]] n0 n1 by auto
    moreover have "(j + 1) div 2 = j div 2" using even by presburger
    ultimately show ?thesis using a(1,2) g by auto
  qed
qed

lemma node_in: "1 \<le> k \<Longrightarrow> k \<le> hi \<Longrightarrow> hi \<le> length vec \<Longrightarrow> set vec \<subseteq> A \<Longrightarrow> node vec hi k \<in> A"
  by (auto simp: node_def intro!: subsetD [of "set vec" A] nth_mem)

lemma sift_orders:
  assumes "2 \<le> lo" "lo \<le> hi" "hi \<le> length vec" "l \<le> lo" "set vec \<subseteq> A" "p \<in> A"
    and "hole_at c (node vec hi) hi l p lo" and "sift cmp p hi lo vec s = Some (vec', s', ok)"
  shows "ok \<and> heap_from c (node vec' hi) hi l"
  using assms
proof (induction "hi + hi - lo" arbitrary: lo vec s rule: less_induct)
  case less
  note lo = less.prems(1-3)
  have ix: "lo - 2 < length vec" using lo by linarith
  have filled: "heap_from c (node (vec[lo - 2 := p]) hi) hi l"
    if "\<And>k. k \<le> hi \<Longrightarrow> k div 2 = lo \<Longrightarrow> c (node vec hi k) p \<le> 0"
    using fill_hole [OF less.prems(7) lo(1,2), of "node (vec[lo - 2 := p]) hi"] node_update [OF lo, of _ p] that by blast
  show ?case
  proof (cases "lo \<le> hi div 2")
    case False
    then have "sift cmp p hi lo vec s = Some (vec[lo - 2 := p], s, True)"
      using lo ix by (subst sift.simps) simp
    moreover have "k div 2 \<noteq> lo" if "k \<le> hi" for k using False that div_le_mono [OF that, of 2] by linarith
    ultimately show ?thesis using filled less.prems(8) by auto
  next
    case True
    then have j2: "2 \<le> lo + lo" "lo + lo \<le> hi" using lo by linarith+
    obtain r s1 where g: "greater_child cmp hi (lo + lo) vec s = Some (r, s1)"
      by (rule greater_child_bound [OF j2 lo(3), of cmp s]) auto
    from greater_child_max [OF j2 lo(3) less.prems(5) g] obtain j where
      j: "r = Some j" "j div 2 = lo" "lo + lo \<le> j" "j \<le> hi"
        "\<And>k. k \<le> hi \<Longrightarrow> k div 2 = lo \<Longrightarrow> c (node vec hi k) (node vec hi j) \<le> 0" by auto
    have jx: "j - 2 < length vec" "2 \<le> j" "1 \<le> j" using j lo by linarith+
    let ?b = "vec ! (j - 2)"
    have nj: "node vec hi j = ?b" using jx by (simp add: node_def)
    have b_in: "?b \<in> A" using less.prems(5) jx(1) by auto
    obtain x s2 where cx: "cmp p ?b s1 = (x, s2)" by (metis prod.exhaust)
    have x: "x = Some (c p ?b)" by (rule result [OF less.prems(6) b_in cx])
    have step: "sift cmp p hi lo vec s =
        (if 0 \<le> c p ?b then Some (vec[lo - 2 := p], s2, True) else sift cmp p hi j (vec[lo - 2 := ?b]) s2)"
      using True lo g j cx x ix jx by (subst sift.simps) simp
    show ?thesis
    proof (cases "0 \<le> c p ?b")
      case ge: True
      then have b_le: "c ?b p \<le> 0" using sign [OF less.prems(6) b_in] by simp
      have "c (node vec hi k) p \<le> 0" if k: "k \<le> hi" "k div 2 = lo" for k
      proof -
        have "1 \<le> k" using k lo by (cases k) auto
        then show ?thesis
          using trans [OF node_in [OF _ k(1) lo(3) less.prems(5)] b_in less.prems(6) _ b_le] j(5) [OF k] nj by simp
      qed
      then show ?thesis using filled step ge less.prems(8) by auto
    next
      case False
      let ?v = "vec[lo - 2 := ?b]"
      have hole: "hole_at c (node ?v hi) hi l p j"
        using move_hole [OF less.prems(7) lo(1) less.prems(4) j(2,4), of "node ?v hi"] node_update [OF lo, of _ ?b] nj j(5) False
        by simp
      have "set ?v \<subseteq> A" using less.prems(5) b_in set_update_subset_insert [of vec "lo - 2" ?b] by blast
      moreover have "hi + hi - j < hi + hi - lo" "l \<le> j" using j lo less.prems(4) by linarith+
      ultimately show ?thesis
        using less.hyps [of j ?v s2] jx(2) j(4) lo(3) less.prems(6,8) hole step False by simp
    qed
  qed
qed
lemma helper_orders:
  assumes b: "1 \<le> lo" "lo \<le> hi" "2 \<le> hi" "hi \<le> length vec" and A: "set vec \<subseteq> A"
    and heap: "heap_from c (node vec hi) hi (lo + 1)"
    and below: "lo = 1 \<Longrightarrow> \<not> building \<Longrightarrow> hi \<noteq> 2 \<Longrightarrow> \<exists>k \<in> {2, 3}. k \<le> hi \<and> c (vec ! (hi - 1)) (node vec hi k) \<le> 0"
    and run: "HeapSortHelper building cmp lo hi vec s = Some (vec', s', ok)"
  shows "ok \<and> heap_from c (node vec' hi) hi lo"
proof (cases "lo = 1")
  case False
  then have lo: "2 \<le> lo" "lo - 2 < length vec" using b by linarith+
  let ?p = "vec ! (lo - 2)"
  have p: "?p \<in> A" using A lo(2) by auto
  have "hole_at c (node vec hi) hi lo ?p lo" using heap lo(1) unfolding hole_at_def heap_from_def by auto
  moreover have "sift cmp ?p hi lo vec s = Some (vec', s', ok)" using run False lo(2) by (simp add: HeapSortHelper_def)
  ultimately show ?thesis using sift_orders [OF lo(1) b(2,4) order_refl A p] by blast
next
  case True
  obtain r s1 where g: "greater_child cmp hi 2 vec s = Some (r, s1)"
    by (rule greater_child_bound [OF order_refl b(3,4), of cmp s]) auto
  from greater_child_max [OF order_refl b(3,4) A g] obtain j where
    j: "r = Some j" "j div 2 = 1" "2 \<le> j" "j \<le> hi" "\<And>k. k \<le> hi \<Longrightarrow> k div 2 = 1 \<Longrightarrow> c (node vec hi k) (node vec hi j) \<le> 0"
    by auto
  have ix: "hi - 1 < length vec" "j - 2 < length vec" using j b by linarith+
  let ?a = "vec ! (hi - 1)" let ?b = "vec ! (j - 2)" let ?v = "vec[hi - 1 := ?b]"
  have ab: "?a \<in> A" "?b \<in> A" using A ix by auto
  have nj: "node vec hi j = ?b" and n1: "node vec hi 1 = ?a" using j by (simp_all add: node_def)
  obtain q s2 where cq: "(if building \<or> hi = 2 then cmp ?a ?b s1 else (Some (- 1), s1)) = (q, s2)" by (metis prod.exhaust)
  have q: "\<exists>x. q = Some x \<and> (x < 0 \<longrightarrow> c ?a ?b \<le> 0) \<and> (0 \<le> x \<longrightarrow> c ?b ?a \<le> 0)"
  proof (cases "building \<or> hi = 2")
    case True
    then show ?thesis using result [OF ab, of s1 q s2] cq sign [OF ab] by simp
  next
    case False
    then obtain k where k: "k \<in> {2, 3}" "k \<le> hi" "c ?a (node vec hi k) \<le> 0" using below [OF \<open>lo = 1\<close>] by auto
    have "1 \<le> k" "k div 2 = 1" using k(1) by auto
    then have "c ?a ?b \<le> 0"
      using trans [OF ab(1) node_in [OF _ k(2) b(4) A] ab(2) k(3)] j(5) [OF k(2)] nj by simp
    then show ?thesis using False cq by auto
  qed
  then obtain x where x: "q = Some x" "x < 0 \<longrightarrow> c ?a ?b \<le> 0" "0 \<le> x \<longrightarrow> c ?b ?a \<le> 0" by blast
  have step: "HeapSortHelper building cmp lo hi vec s = (if 0 \<le> x then Some (vec, s2, True) else sift cmp ?a hi j ?v s2)"
    unfolding HeapSortHelper_def True
    by (simp only: if_True g j(1) option.case prod.case fetch_Some [OF ix(1)] fetch_Some [OF ix(2)] store_Some [OF ix(1)]
        Option.bind_lunit cq x(1) simp_thms)
  have high: "c (node vec hi k) (node vec hi (k div 2)) \<le> 0" if "k \<le> hi" "2 \<le> k div 2" for k
    using heap that True unfolding heap_from_def by auto
  have kid_or: "k div 2 = 1 \<or> 2 \<le> k div 2" if "2 \<le> k" for k :: nat using that by linarith
  show ?thesis
  proof (cases "0 \<le> x")
    case ge: True
    have "c (node vec hi k) (node vec hi (k div 2)) \<le> 0" if k: "2 \<le> k" "k \<le> hi" for k
    proof (cases "k div 2 = 1")
      case one: True
      have "1 \<le> k" using k by linarith
      then show ?thesis
        using trans [OF node_in [OF _ k(2) b(4) A] ab(2,1)] j(5) [OF k(2) one] x(3) ge nj n1 one by simp
    next
      case False
      then show ?thesis using high [OF k(2)] kid_or [OF k(1)] by simp
    qed
    then show ?thesis using step run ge unfolding heap_from_def by auto
  next
    case False
    have upd: "node ?v hi k = (if k = 1 then ?b else node vec hi k)" if "1 \<le> k" "k \<le> hi" for k
      using node_root [OF b(3,4) that] .
    have h1: "c (node ?v hi k) (node ?v hi (k div 2)) \<le> 0" if k: "2 \<le> k" "k \<le> hi" for k
    proof -
      have d: "1 \<le> k" "1 \<le> k div 2" "k div 2 \<le> hi" "k \<noteq> 1" using k by linarith+
      show ?thesis
      proof (cases "k div 2 = 1")
        case True
        then show ?thesis using upd [OF d(1) k(2)] upd [OF d(2,3)] j(5) [OF k(2)] nj d(4) by simp
      next
        case False
        then show ?thesis using upd [OF d(1) k(2)] upd [OF d(2,3)] d(4) high [OF k(2)] kid_or [OF k(1)] by simp
      qed
    qed
    have h2: "c (node ?v hi k) (node ?v hi (j div 2)) \<le> 0" if k: "2 \<le> k" "k \<le> hi" "k div 2 = j" for k
    proof -
      have "1 \<le> k" "k \<noteq> 1" "2 \<le> k div 2" using k j by linarith+
      then show ?thesis using upd [of k] upd [of 1] k j(2,3) high [OF k(2)] nj b by simp
    qed
    have h3: "c ?a (node ?v hi (j div 2)) \<le> 0" using upd [of 1] j(2) b x(2) False by simp
    have hole: "hole_at c (node ?v hi) hi 1 ?a j" unfolding hole_at_def using h1 h2 h3 by blast
    have v: "hi \<le> length ?v" "set ?v \<subseteq> A" "1 \<le> j"
      using b A ab set_update_subset_insert [of vec "hi - 1" ?b] j by auto
    have "sift cmp ?a hi j ?v s2 = Some (vec', s', ok)" using step run False by simp
    then show ?thesis using sift_orders [OF j(3,4) v(1,3,2) ab(1) hole] True by blast
  qed
qed

lemma heapify_orders:
  assumes "i \<le> nel div 2" "nel \<le> length vec" "set vec \<subseteq> A" "heap_from c (node vec nel) nel (i + 1)"
    and "heapify_loop cmp nel i vec s = Some (vec', s', ok)"
  shows "ok \<and> heap_from c (node vec' nel) nel 1"
  using assms
proof (induction i arbitrary: vec s)
  case (Suc i)
  then have i: "1 \<le> Suc i" "Suc i \<le> nel" "2 \<le> nel" by linarith+
  from helper_permutes [OF i Suc.prems(2), of True cmp s] obtain v s1 ok1 where
    h: "HeapSortHelper True cmp (Suc i) nel vec s = Some (v, s1, ok1)" "keeps nel vec v" "ok1 \<longrightarrow> mset v = mset vec" by blast
  have o: "ok1 \<and> heap_from c (node v nel) nel (Suc i)"
    by (rule helper_orders [OF i Suc.prems(2-3) _ _ h(1)]) (use Suc.prems(4) in simp_all)
  then have "set v \<subseteq> A" "nel \<le> length v" using h Suc.prems(2,3) mset_eq_setD [of v vec] by (auto simp: keeps_def)
  then show ?case using Suc.IH [of v s1] o h(1) Suc.prems(1,5) by simp
qed simp

lemma root_greatest:
  assumes "heap_from c h hi 1" "\<And>k. 1 \<le> k \<Longrightarrow> k \<le> hi \<Longrightarrow> h k \<in> A" "1 \<le> k" "k \<le> hi"
  shows "c (h k) (h 1) \<le> 0"
  using assms(3,4)
proof (induction k rule: less_induct)
  case (less k)
  show ?case
  proof (cases "k = 1")
    case True
    then show ?thesis using refl_le assms(2) less.prems by simp
  next
    case False
    then have k: "2 \<le> k" "k div 2 < k" "1 \<le> k div 2" "k div 2 \<le> hi" "1 \<le> hi" using less.prems by linarith+
    then have "c (h k) (h (k div 2)) \<le> 0" using assms(1) less.prems unfolding heap_from_def by simp
    then show ?thesis using trans [OF _ _ _ _ less.IH [OF k(2,3,4)]] assms(2) less.prems k by simp
  qed
qed

lemma second_greatest:
  assumes "heap_from c h hi 2" "\<And>k. 1 \<le> k \<Longrightarrow> k \<le> hi \<Longrightarrow> h k \<in> A" "2 \<le> k" "k \<le> hi"
  shows "\<exists>t \<in> {2, 3}. t \<le> k \<and> c (h k) (h t) \<le> 0"
  using assms(3,4)
proof (induction k rule: less_induct)
  case (less k)
  show ?case
  proof (cases "k = 2 \<or> k = 3")
    case True
    then show ?thesis using refl_le assms(2) less.prems by auto
  next
    case False
    then have k: "k div 2 < k" "2 \<le> k div 2" "k div 2 \<le> hi" "1 \<le> k" "1 \<le> k div 2" using less.prems by linarith+
    then have "c (h k) (h (k div 2)) \<le> 0" using assms(1) less.prems unfolding heap_from_def by simp
    moreover obtain t where t: "t \<in> {2, 3}" "t \<le> k div 2" "c (h (k div 2)) (h t) \<le> 0" using less.IH [OF k(1,2,3)] by blast
    moreover have "1 \<le> t" "t \<le> hi" using t k by auto
    ultimately have "c (h k) (h t) \<le> 0" using trans [of "h k" "h (k div 2)" "h t"] assms(2) k less.prems by simp
    then show ?thesis using t k(1) by (meson less_imp_le order_trans)
  qed
qed
lemma sort_step_suffix:
  assumes k: "keeps nel vec v" and m: "mset v = mset vec" and len: "Suc nel \<le> length vec" "1 \<le> nel" and A: "set vec \<subseteq> A"
    and heap: "heap_from c (node vec (Suc nel)) (Suc nel) 1"
    and suffix: "\<And>i j. Suc nel \<le> j \<Longrightarrow> j < length vec \<Longrightarrow> i < j \<Longrightarrow> c (vec ! i) (vec ! j) \<le> 0"
    and j: "nel \<le> j" "j < length v" "i < j"
  shows "c (v ! i) (v ! j) \<le> 0"
proof -
  have lv: "length v = length vec" and vj: "v ! j = vec ! j" using k j by (simp_all add: keeps_def)
  have "drop nel v = drop nel vec" by (rule nth_equalityI) (use k in \<open>simp_all add: keeps_def\<close>)
  moreover have "mset (take nel v) + mset (drop nel v) = mset (take nel vec) + mset (drop nel vec)"
    using m by (simp flip: mset_append)
  ultimately have tk: "set (take nel v) = set (take nel vec)" by (metis add_right_imp_eq set_mset_mset)
  show ?thesis
  proof (cases "nel \<le> i")
    case True
    then have "v ! i = vec ! i" using k by (simp add: keeps_def)
    moreover have "Suc nel \<le> j" using True j by linarith
    ultimately show ?thesis using suffix [of j i] vj j lv by simp
  next
    case False
    then have "v ! i \<in> set (take nel v)" using j lv by (auto simp: in_set_conv_nth intro!: exI [of _ i])
    then obtain i' where i': "i' < nel" "v ! i = vec ! i'" using tk by (auto simp: in_set_conv_nth)
    show ?thesis
    proof (cases "j = nel")
      case True
      have "c (node vec (Suc nel) (i' + 2)) (node vec (Suc nel) 1) \<le> 0"
        by (rule root_greatest [OF heap]) (use node_in [OF _ _ len(1) A] i' in auto)
      then show ?thesis using i' vj True by (simp add: node_def)
    next
      case False
      then show ?thesis using suffix [of j i'] i' vj j lv by simp
    qed
  qed
qed

lemma extract_orders:
  assumes "nel \<le> length vec" "set vec \<subseteq> A" "heap_from c (node vec nel) nel 1"
    and "\<And>i j. nel \<le> j \<Longrightarrow> j < length vec \<Longrightarrow> i < j \<Longrightarrow> c (vec ! i) (vec ! j) \<le> 0"
    and "extract_loop cmp nel vec s = Some (vec', s', ok)"
  shows "ok \<and> sorted_wrt (\<lambda>a b. c a b \<le> 0) vec'"
  using assms
proof (induction nel arbitrary: vec s)
  case (Suc nel)
  show ?case
  proof (cases "Suc nel > 2")
    case False
    have "c (vec ! i) (vec ! j) \<le> 0" if ij: "j < length vec" "i < j" for i j
    proof (cases "Suc nel \<le> j")
      case True
      then show ?thesis using Suc.prems(4) ij by simp
    next
      case low: False
      then have "nel = 1" "j = 1" "i = 0" using ij False by linarith+
      then show ?thesis using Suc.prems(3) unfolding heap_from_def node_def by (auto dest: spec [of _ 2])
    qed
    then show ?thesis using Suc.prems(5) False by (auto simp: sorted_wrt_iff_nth_less)
  next
    case True
    then have n: "(1::nat) \<le> 1" "1 \<le> nel" "2 \<le> nel" "nel \<le> length vec" using Suc.prems by linarith+
    have same: "node vec nel k = node vec (Suc nel) k" if "2 \<le> k" for k using that by (simp add: node_def)
    have heap2: "heap_from c (node vec nel) nel (1 + 1)"
      using Suc.prems(3) same unfolding heap_from_def by auto
    have below: "\<exists>k \<in> {2, 3}. k \<le> nel \<and> c (vec ! (nel - 1)) (node vec nel k) \<le> 0" if "nel \<noteq> 2"
    proof -
      have "heap_from c (node vec (Suc nel)) (Suc nel) 2" using Suc.prems(3) unfolding heap_from_def by auto
      then obtain t where t: "t \<in> {2, 3}" "c (node vec (Suc nel) (Suc nel)) (node vec (Suc nel) t) \<le> 0"
        using second_greatest [of "node vec (Suc nel)" "Suc nel" "Suc nel"] node_in [OF _ _ Suc.prems(1,2)] n by auto
      have "node vec (Suc nel) (Suc nel) = vec ! (nel - 1)" using n by (simp add: node_def)
      then show ?thesis using t same [of t] n that by (intro bexI [of _ t]) auto
    qed
    from helper_permutes [OF n, of False cmp s] obtain v s1 ok1 where
      h: "HeapSortHelper False cmp 1 nel vec s = Some (v, s1, ok1)" "keeps nel vec v" "ok1 \<longrightarrow> mset v = mset vec" by blast
    have o: "ok1 \<and> heap_from c (node v nel) nel 1"
      by (rule helper_orders [OF n Suc.prems(2) heap2 _ h(1)]) (use below in blast)
    have v: "nel \<le> length v" "set v \<subseteq> A" using h o n Suc.prems(2) mset_eq_setD [of v vec] by (auto simp: keeps_def)
    have run: "extract_loop cmp nel v s1 = Some (vec', s', ok)" using Suc.prems(5) h(1) o True by simp
    show ?thesis
      by (rule Suc.IH [OF v _ _ run]) (use o sort_step_suffix [OF h(2) _ Suc.prems(1) n(2) Suc.prems(2,3,4)] h(3) in blast)+
  qed
qed (auto simp: sorted_wrt_iff_nth_less)

lemma heapsort_orders:
  assumes "set vec \<subseteq> A"
  shows "\<exists>vec' s'. js_HeapSort cmp (length vec) vec s = Some (vec', s', True) \<and> mset vec' = mset vec \<and> sorted_wrt (\<lambda>a b. c a b \<le> 0) vec'"
proof -
  let ?n = "length vec"
  obtain vec' s' ok where run: "js_HeapSort cmp ?n vec s = Some (vec', s', ok)" "ok \<longrightarrow> mset vec' = mset vec"
    using heapsort_permutes [of cmp vec s] by blast
  obtain v s1 ok1 where h: "heapify_loop cmp ?n (?n div 2) vec s = Some (v, s1, ok1)" "keeps ?n vec v" "ok1 \<longrightarrow> mset v = mset vec"
    using heapify_permutes [OF order_refl order_refl, where vec = vec and cmp = cmp and s = s] by blast
  have "heap_from c (node vec ?n) ?n (?n div 2 + 1)"
    unfolding heap_from_def using div_le_mono [of _ ?n 2] by fastforce
  from heapify_orders [OF order_refl order_refl assms this h(1)] have o: "ok1" "heap_from c (node v ?n) ?n 1" by simp_all
  have v: "?n \<le> length v" "length v = ?n" "set v \<subseteq> A" using h o assms mset_eq_setD [of v vec] by (auto simp: keeps_def)
  have "extract_loop cmp ?n v s1 = Some (vec', s', ok)" using run(1) h(1) o(1) by (simp add: js_HeapSort_def)
  from extract_orders [OF v(1,3) o(2) _ this] v(2) have "ok \<and> sorted_wrt (\<lambda>a b. c a b \<le> 0) vec'" by simp
  then show ?thesis using run by simp
qed

end

subsection \<open>The string comparator\<close>

lemma js_CompareStrings_sign: "js_CompareStrings t s = - js_CompareStrings s t"
  by (induction s t rule: js_CompareStrings.induct) (auto simp: Let_def)

lemma js_CompareStrings_zero: "js_CompareStrings s t = 0 \<longleftrightarrow> s = t"
proof (induction s t rule: js_CompareStrings.induct)
  case (1 c s d t)
  have "uint c - uint d = 0 \<longleftrightarrow> c = d" by (simp add: word_uint_eq_iff)
  then show ?case using 1 by (simp add: Let_def)
qed auto

lemma js_CompareStrings_trans:
  "js_CompareStrings s t \<le> 0 \<Longrightarrow> js_CompareStrings t u \<le> 0 \<Longrightarrow> js_CompareStrings s u \<le> 0"
proof (induction s arbitrary: t u)
  case Nil
  then show ?case by (cases u) auto
next
  case (Cons c s)
  note prems = Cons.prems and IH = Cons.IH
  obtain d t' where t: "t = d # t'" using prems(1) by (cases t) auto
  show ?case
  proof (cases u)
    case Nil
    then show ?thesis using prems t by simp
  next
    case (Cons e v)
    have st: "uint c - uint d = 0 \<Longrightarrow> js_CompareStrings s t' \<le> 0" "uint c \<le> uint d"
      using prems(1) t by (auto simp: Let_def split: if_splits)
    have tu: "uint d - uint e = 0 \<Longrightarrow> js_CompareStrings t' v \<le> 0" "uint d \<le> uint e"
      using prems(2) t Cons by (auto simp: Let_def split: if_splits)
    show ?thesis
    proof (cases "uint c = uint e")
      case True
      then have "uint c - uint d = 0" "uint d - uint e = 0" using st(2) tu(2) by linarith+
      then have "js_CompareStrings s v \<le> 0" using IH [of t' v] st(1) tu(1) by simp
      then show ?thesis using Cons True by (simp add: Let_def)
    next
      case False
      then show ?thesis using Cons st(2) tu(2) by (simp add: Let_def)
    qed
  qed
qed

interpretation string_order: total_comparator sort_compare_strings
  "\<lambda>a b. js_CompareStrings (JSVAL_TO_STRING a) (JSVAL_TO_STRING b)" UNIV
proof
  fix a b d :: jsval and s :: 's
  show "fst (sort_compare_strings a b s) = Some (js_CompareStrings (JSVAL_TO_STRING a) (JSVAL_TO_STRING b))"
    by (simp add: sort_compare_strings_def)
  show "(0 \<le> js_CompareStrings (JSVAL_TO_STRING a) (JSVAL_TO_STRING b)) = (js_CompareStrings (JSVAL_TO_STRING b) (JSVAL_TO_STRING a) \<le> 0)"
    using js_CompareStrings_sign [of "JSVAL_TO_STRING a" "JSVAL_TO_STRING b"] by simp
  assume "js_CompareStrings (JSVAL_TO_STRING a) (JSVAL_TO_STRING b) \<le> 0" "js_CompareStrings (JSVAL_TO_STRING b) (JSVAL_TO_STRING d) \<le> 0"
  then show "js_CompareStrings (JSVAL_TO_STRING a) (JSVAL_TO_STRING d) \<le> 0" by (rule js_CompareStrings_trans)
qed
subsection \<open>Sorting\<close>

text \<open>C11. The heap sort never leaves its vector and ends for every comparator, even an inconsistent one or one
  that fails, and when no comparison failed its result is a permutation.  If the comparator decides a total
  preorder on the elements, the sort succeeds and the result is in order.\<close>

theorem heapsort_sorts:
  "\<exists>vec' s' ok. js_HeapSort cmp (length vec) vec s = Some (vec', s', ok) \<and> length vec' = length vec \<and>
     (ok \<longrightarrow> mset vec' = mset vec) \<and>
     (\<forall>c. total_comparator cmp c (set vec) \<longrightarrow> ok \<and> sorted_wrt (\<lambda>a b. c a b \<le> 0) vec')"
proof -
  obtain vec' s' ok where run: "js_HeapSort cmp (length vec) vec s = Some (vec', s', ok)" "length vec' = length vec"
    "ok \<longrightarrow> mset vec' = mset vec" using heapsort_permutes [of cmp vec s] by blast
  have "ok \<and> sorted_wrt (\<lambda>a b. c a b \<le> 0) vec'" if "total_comparator cmp c (set vec)" for c
    using total_comparator.heapsort_orders [OF that order_refl, of s] run(1) by auto
  then show ?thesis using run by blast
qed

theorem heapsort_sorts_witness:
  "\<exists>vec'. js_HeapSort sort_compare_strings 3 [JString [3], JString [1], JString [2, 1]] () = Some (vec', (), True)
     \<and> sorted_wrt (\<lambda>a b. js_CompareStrings (JSVAL_TO_STRING a) (JSVAL_TO_STRING b) \<le> 0) vec'"
proof -
  let ?v = "[JString [3], JString [1], JString [2, 1]]"
  have "total_comparator sort_compare_strings (\<lambda>a b. js_CompareStrings (JSVAL_TO_STRING a) (JSVAL_TO_STRING b)) (set ?v)"
    by (rule total_comparator.intro)
      (simp_all add: string_order.decides string_order.sign, rule string_order.trans, simp_all)
  then show ?thesis
    using heapsort_sorts [of sort_compare_strings ?v "()"] by (auto simp: eval_nat_numeral)
qed

end
