(* ===== verification/HeapSort_Array.thy ===== *)
theory HeapSort_Array
  imports HeapSort_Correct
begin

text \<open>
  Sorting an array object.  The locale \<open>quiet_comparator\<close> says that comparisons do not change what is seen of the state,
  and the heap sort does not either; both comparators of the code are interpreted.  \<open>plain_array\<close> is what the engine's
  operations do on an array without getters, setters, inherited or read-only elements: they may fail at any time.
\<close>

subsection \<open>What a sort of the vector does to the state\<close>

definition keeps_state :: "('s \<Rightarrow> 'v) \<Rightarrow> ('a list \<times> 's \<times> bool) option \<Rightarrow> 's \<Rightarrow> bool" where
  "keeps_state view r s \<longleftrightarrow> (\<forall>vec s' ok. r = Some (vec, s', ok) \<longrightarrow> view s' = view s)"

lemma keeps_state_simps [simp]:
  "keeps_state view None s" "keeps_state view (Some (vec, s', ok)) s \<longleftrightarrow> view s' = view s"
  by (simp_all add: keeps_state_def)








subsection \<open>Indices and identifiers\<close>

definition index_id :: "nat \<Rightarrow> jsid" where
  "index_id i = (if i \<le> JSVAL_INT_MAX then IntId i else AtomId (index_chars i))"

definition chars_index :: "jschar list \<Rightarrow> nat" where
  "chars_index cs = foldl (\<lambda>n c. n * 10 + unat (c - 0x30)) 0 cs"

lemma chars_index_chars: "chars_index (index_chars n) = n"
proof (induction n rule: index_chars.induct)
  case (1 n)
  have d: "unat (word_of_nat (n mod 10) :: jschar) = n mod 10"
    using mod_less_divisor [of 10 n] by (simp add: unsigned_of_nat take_bit_nat_eq_self del: mod_less_divisor)
  have "chars_index (if n div 10 = 0 then [] else index_chars (n div 10)) = n div 10"
    using 1 by (cases "n div 10 = 0") (simp_all add: chars_index_def)
  then show ?case
    by (subst index_chars.simps) (simp add: chars_index_def d)
qed

lemma index_id_inj [simp]: "index_id i = index_id j \<longleftrightarrow> i = j"
  using chars_index_chars by (auto simp: index_id_def) metis

subsection \<open>Arrays\<close>








subsection \<open>Reading the array\<close>

definition defined_values :: "jsval option list \<Rightarrow> jsval list" where
  "defined_values elems = [v. Some v \<leftarrow> elems, v \<noteq> JSVAL_VOID]"

lemma defined_values_simps [simp]:
  "defined_values [] = []" "defined_values (None # es) = defined_values es"
  "defined_values (Some v # es) = (if v = JSVAL_VOID then defined_values es else v # defined_values es)"
  by (simp_all add: defined_values_def)




subsection \<open>Writing the array\<close>

definition overwrites :: "nat \<Rightarrow> jsval option list \<Rightarrow> (jsid \<Rightarrow> jsval option) \<Rightarrow> (jsid \<Rightarrow> jsval option) \<Rightarrow> bool" where
  "overwrites a xs v v' \<longleftrightarrow>
     (\<forall>i. v' (index_id i) = (if a \<le> i \<and> i < a + length xs then xs ! (i - a) else v (index_id i))) \<and>
     (\<forall>x. x \<notin> range index_id \<longrightarrow> v' x = v x)"

lemma overwrites_Nil [simp]: "overwrites a [] v v' \<longleftrightarrow> v' = v"
proof
  assume o: "overwrites a [] v v'"
  have "v' x = v x" for x
    using o by (cases "x \<in> range index_id") (auto simp: overwrites_def)
  then show "v' = v" by blast
qed (auto simp: overwrites_def)














subsection \<open>The sort\<close>




text \<open>On any object, with operations and comparisons that do anything, the sort ends and never leaves its vector.\<close>

lemma array_sort_ends: "\<exists>s' ok. array_sort h argv s = Some (s', ok)"
proof -
  have "\<exists>s' ok. (do { (vec, s, ok) \<leftarrow> js_HeapSort cmp (length vec) vec s;
      if \<not> ok then Some (s, False) else case write_sorted h vec undefs len s of (ok, s) \<Rightarrow> Some (s, ok) }) = Some (s', ok)" for cmp vec undefs len s
    using heapsort_permutes [of cmp vec s] by (auto split: prod.split)
  then show ?thesis by (simp add: array_sort_def Let_def split: option.split prod.split)
qed





lemma string_defined [simp]: "JString x \<noteq> JSVAL_VOID"
  by (simp add: JSVAL_VOID_def)


end
