(* ===== verification/Jobs.thy ===== *)
theory Jobs
  imports Prelude
begin

text \<open>
  The ECMAScript job queue of \<open>js/src/jsjobs.c\<close> and \<open>js/src/jsjobs.h\<close>.  Job objects live in a store and refer to
  the next job by its address, \<open>None\<close> being the null reference; a larger state may extend the queue, which is
  how the promises use it.  A callback is a value of the parameter type \<open>'c\<close>; what running one does, and what the
  branch callback does, are arguments of the drain loop.  Each fallible engine operation asks \<open>alloc\<close>, in order.
\<close>

record 'c Job =
  callback :: 'c
  next_job :: "nat option"

record 'c JSJobQueue =
  job_store :: "nat \<Rightarrow> 'c Job"
  job_count :: nat
  head :: "nat option"
  tail :: "nat option"
  draining :: bool

definition js_ClearJobs :: "('c, 'w) JSJobQueue_scheme \<Rightarrow> ('c, 'w) JSJobQueue_scheme" where
  "js_ClearJobs q = q\<lparr>head := None, tail := None\<rparr>"

definition JS_HasPendingJobs :: "('c, 'w) JSJobQueue_scheme \<Rightarrow> bool" where
  "JS_HasPendingJobs q \<longleftrightarrow> head q \<noteq> None"

definition link_next :: "nat \<Rightarrow> nat \<Rightarrow> ('c, 'w) JSJobQueue_scheme \<Rightarrow> ('c, 'w) JSJobQueue_scheme" where
  "link_next t job q = q\<lparr>job_store := (job_store q)(t := (job_store q t)\<lparr>next_job := Some job\<rparr>)\<rparr>"

text \<open>The fallible operations are the prototype lookup, the allocation of the job, its two slots and the link from
  the old tail.\<close>

definition JS_EnqueueJob ::
  "(nat \<Rightarrow> bool) \<Rightarrow> bool \<Rightarrow> 'c \<Rightarrow> ('c, 'w) JSJobQueue_scheme \<Rightarrow> bool \<times> ('c, 'w) JSJobQueue_scheme" where
  "JS_EnqueueJob alloc callable cb q =
     (if \<not> callable then (False, q)
      else if \<not> alloc 0 then (False, q)
      else if \<not> alloc 1 then (False, q)
      else
        let job = job_count q;
            q = q\<lparr>job_store := (job_store q)(job := \<lparr>callback = cb, next_job = None\<rparr>), job_count := job + 1\<rparr>
        in if \<not> alloc 2 \<or> \<not> alloc 3 then (False, q)
           else if tail q \<noteq> None \<and> \<not> alloc 4 then (False, q)
           else
             let q = (case tail q of Some t \<Rightarrow> link_next t job q | None \<Rightarrow> q);
                 q = (if head q = None then q\<lparr>head := Some job\<rparr> else q)
             in (True, q\<lparr>tail := Some job\<rparr>))"

subsection \<open>Draining\<close>

definition unlink_head :: "nat \<Rightarrow> ('c, 'w) JSJobQueue_scheme \<Rightarrow> ('c, 'w) JSJobQueue_scheme" where
  "unlink_head job q =
     (let q = q\<lparr>head := next_job (job_store q job)\<rparr> in if head q = None then q\<lparr>tail := None\<rparr> else q)"

text \<open>The loop may not end: a job may always enqueue another one.  Then the result is \<open>None\<close>.\<close>

partial_function (option) run_loop ::
  "(('c, 'w) JSJobQueue_scheme \<Rightarrow> bool \<times> ('c, 'w) JSJobQueue_scheme) \<Rightarrow>
   ('c \<Rightarrow> ('c, 'w) JSJobQueue_scheme \<Rightarrow> bool \<times> ('c, 'w) JSJobQueue_scheme) \<Rightarrow>
   ('c, 'w) JSJobQueue_scheme \<Rightarrow> (bool \<times> ('c, 'w) JSJobQueue_scheme) option" where
  "run_loop branch invoke q =
     (case head q of
        None \<Rightarrow> Some (True, q)
      | Some job \<Rightarrow>
          (case branch q of
             (go, q) \<Rightarrow>
               if \<not> go then Some (False, q)
               else
                 (case invoke (callback (job_store q job)) (unlink_head job q) of
                    (ok, q) \<Rightarrow> if \<not> ok then Some (False, q) else run_loop branch invoke q)))"

definition JS_RunJobs ::
  "(('c, 'w) JSJobQueue_scheme \<Rightarrow> bool \<times> ('c, 'w) JSJobQueue_scheme) \<Rightarrow>
   ('c \<Rightarrow> ('c, 'w) JSJobQueue_scheme \<Rightarrow> bool \<times> ('c, 'w) JSJobQueue_scheme) \<Rightarrow>
   bool \<Rightarrow> ('c, 'w) JSJobQueue_scheme \<Rightarrow> (bool \<times> ('c, 'w) JSJobQueue_scheme) option" where
  "JS_RunJobs branch invoke exception_pending q =
     (if draining q then Some (True, q)
      else if exception_pending then Some (False, q)
      else map_option (\<lambda>(ok, q). (ok, q\<lparr>draining := False\<rparr>)) (run_loop branch invoke (q\<lparr>draining := True\<rparr>)))"

subsection \<open>The queue as a list\<close>

text \<open>\<open>jobs_from q a js\<close>: the jobs linked from \<open>a\<close> are those at the addresses \<open>js\<close>.\<close>

fun jobs_from :: "('c, 'w) JSJobQueue_scheme \<Rightarrow> nat option \<Rightarrow> nat list \<Rightarrow> bool" where
  "jobs_from q a [] = (a = None)"
| "jobs_from q a (j # js) = (a = Some j \<and> j < job_count q \<and> jobs_from q (next_job (job_store q j)) js)"

definition queue_ok :: "('c, 'w) JSJobQueue_scheme \<Rightarrow> nat list \<Rightarrow> bool" where
  "queue_ok q js \<longleftrightarrow> jobs_from q (head q) js \<and> distinct js \<and> tail q = (if js = [] then None else Some (last js))"

text \<open>The callbacks pending, in order.\<close>

definition pending :: "('c, 'w) JSJobQueue_scheme \<Rightarrow> 'c list \<Rightarrow> bool" where
  "pending q cs \<longleftrightarrow> (\<exists>js. queue_ok q js \<and> cs = map (\<lambda>j. callback (job_store q j)) js)"

lemma jobs_from_bound: "jobs_from q a js \<Longrightarrow> j \<in> set js \<Longrightarrow> j < job_count q"
  by (induction q a js rule: jobs_from.induct) auto

lemma jobs_from_cong:
  assumes "jobs_from q a js" "\<And>j. j \<in> set js \<Longrightarrow> job_store q' j = job_store q j" "job_count q \<le> job_count q'"
  shows "jobs_from q' a js"
  using assms by (induction q a js rule: jobs_from.induct) auto

lemma jobs_from_unique: "jobs_from q a js \<Longrightarrow> jobs_from q a js' \<Longrightarrow> js = js'"
proof (induction q a js arbitrary: js' rule: jobs_from.induct)
  case (1 q a)
  then show ?case by (cases js') auto
next
  case (2 q a j js)
  then show ?case by (cases js') auto
qed

lemma pending_unique: "pending q cs \<Longrightarrow> pending q cs' \<Longrightarrow> cs = cs'"
  unfolding pending_def queue_ok_def using jobs_from_unique by blast

lemma jobs_from_snoc:
  assumes "jobs_from q a js" "distinct js" "js \<noteq> []" "job \<notin> set js" "job < job_count q'"
    and "\<And>j. j \<in> set js \<Longrightarrow> job_store q' j = (if j = last js then (job_store q j)\<lparr>next_job := Some job\<rparr> else job_store q j)"
    and "next_job (job_store q' job) = None" "job_count q \<le> job_count q'"
  shows "jobs_from q' a (js @ [job])"
  using assms
proof (induction q a js rule: jobs_from.induct)
  case (2 q a j js)
  show ?case
  proof (cases "js = []")
    case True
    then show ?thesis using 2 by simp
  next
    case False
    then have "j \<noteq> last js" using 2 by auto
    then have "job_store q' j = job_store q j" using 2 False by simp
    moreover have "jobs_from q' (next_job (job_store q j)) (js @ [job])"
      by (rule "2.IH") (use 2 False in auto)
    ultimately show ?thesis using 2 by simp
  qed
qed simp

text \<open>Everything of the state but the queue, its store and its count is kept.\<close>

definition only_queue :: "('c, 'w) JSJobQueue_scheme \<Rightarrow> ('c, 'w) JSJobQueue_scheme \<Rightarrow> bool" where
  "only_queue q q' \<longleftrightarrow>
     q' = q\<lparr>job_store := job_store q', job_count := job_count q', head := head q', tail := tail q'\<rparr>"

lemma enqueue_pending:
  assumes p: "pending q cs" and run: "JS_EnqueueJob alloc callable cb q = (ok, q')"
  shows "pending q' (if ok then cs @ [cb] else cs) \<and> only_queue q q' \<and> (callable \<and> (\<forall>i. alloc i) \<longrightarrow> ok)"
proof -
  obtain js where js: "queue_ok q js" and cs: "cs = map (\<lambda>j. callback (job_store q j)) js" using p by (auto simp: pending_def)
  have jf: "jobs_from q (head q) js" and d: "distinct js" and tl: "tail q = (if js = [] then None else Some (last js))"
    using js by (simp_all add: queue_ok_def)
  let ?job = "job_count q" let ?new = "\<lparr>callback = cb, next_job = None\<rparr>"
  let ?q1 = "q\<lparr>job_store := (job_store q)(?job := ?new), job_count := ?job + 1\<rparr>"
  have fresh: "?job \<notin> set js" using jobs_from_bound [OF jf] by auto
  have j1: "jobs_from ?q1 (head q) js" by (rule jobs_from_cong [OF jf]) (use fresh in auto)
  have p1: "pending ?q1 cs"
    unfolding pending_def queue_ok_def
    by (rule exI [of _ js]) (use j1 fresh d tl cs in auto)
  have o1: "only_queue q ?q1" by (simp add: only_queue_def)
  show ?thesis
  proof (cases "callable \<and> alloc 0 \<and> alloc 1 \<and> alloc 2 \<and> alloc 3 \<and> (tail q \<noteq> None \<longrightarrow> alloc 4)")
    case False
    then have "ok = False \<and> (q' = q \<or> q' = ?q1)" using run by (auto simp: JS_EnqueueJob_def Let_def split: if_splits)
    then show ?thesis using p p1 o1 False by (auto simp: only_queue_def)
  next
    case True
    show ?thesis
    proof (cases "js = []")
      case empty: True
      then have h: "head q = None" "tail q = None" using jf tl by simp_all
      then have "ok \<and> q' = ?q1\<lparr>head := Some ?job, tail := Some ?job\<rparr>"
        using run True by (auto simp: JS_EnqueueJob_def Let_def)
      then show ?thesis using empty cs by (auto simp: pending_def queue_ok_def only_queue_def intro!: exI [of _ "[?job]"])
    next
      case False
      then have h: "head q \<noteq> None" "tail q = Some (last js)" using jf tl by (cases js; auto)+
      then have q': "ok \<and> q' = (link_next (last js) ?job ?q1)\<lparr>tail := Some ?job\<rparr>"
        using run True by (auto simp: JS_EnqueueJob_def Let_def link_next_def)
      have store: "job_store q' j = (if j = last js then (job_store q j)\<lparr>next_job := Some ?job\<rparr> else job_store q j)" if "j \<in> set js" for j
        using q' that fresh by (auto simp: link_next_def)
      have new: "job_store q' ?job = ?new" using q' fresh False by (auto simp: link_next_def)
      have "jobs_from q' (head q) (js @ [?job])"
        by (rule jobs_from_snoc [OF jf d False fresh _ store]) (use new q' in \<open>auto simp: link_next_def\<close>)
      moreover have "head q' = head q" using q' by (simp add: link_next_def)
      ultimately have "queue_ok q' (js @ [?job])" using q' d fresh by (simp add: queue_ok_def)
      moreover have "cs @ [cb] = map (\<lambda>j. callback (job_store q' j)) (js @ [?job])" using cs store new by auto
      ultimately show ?thesis using q' unfolding pending_def only_queue_def by (auto simp: link_next_def)
    qed
  qed
qed

lemma unlink_pending:
  assumes "pending q cs" "head q = Some job"
  shows "\<exists>rest. cs = callback (job_store q job) # rest \<and> pending (unlink_head job q) rest \<and> only_queue q (unlink_head job q)"
proof -
  obtain js where js: "queue_ok q js" and cs: "cs = map (\<lambda>j. callback (job_store q j)) js" using assms(1) by (auto simp: pending_def)
  then obtain js' where e: "js = job # js'" using assms(2) by (cases js) (auto simp: queue_ok_def)
  have keep: "jobs_from (unlink_head job q) a js' = jobs_from q a js'" for a
    by (rule iffI; erule jobs_from_cong) (auto simp: unlink_head_def Let_def)
  have "head (unlink_head job q) = next_job (job_store q job)" by (simp add: unlink_head_def Let_def)
  then have "queue_ok (unlink_head job q) js'"
    using js e keep by (cases js') (auto simp: queue_ok_def unlink_head_def Let_def)
  then show ?thesis
    using cs e by (auto simp: pending_def only_queue_def unlink_head_def Let_def)
qed

lemma pending_Nil: "pending q [] \<longleftrightarrow> head q = None \<and> tail q = None"
  by (auto simp: pending_def queue_ok_def)

lemma pending_head: "pending q cs \<Longrightarrow> (head q = None) = (cs = [])"
  by (cases cs) (auto simp: pending_def queue_ok_def)

end
