(* ===== verification/Promise.thy ===== *)
theory Promise
  imports Jobs
begin

text \<open>
  Promises (\<open>js/src/jspromise.c\<close>) over the job queue.  Each kind of record the code keeps in an object with
  reserved slots is a record with one field for each slot used, in a store of its own; addresses are natural
  numbers and \<open>None\<close> is the null reference.  The captured closures are values: \<open>ResolveFn i\<close> and \<open>RejectFn i\<close> are
  the two resolving functions of the record \<open>i\<close>, \<open>ExecutorFn k\<close> the executor of the capability \<open>k\<close>; the two job
  closures cannot be reached by scripts and are only the callbacks of jobs.  Every operation of the engine that can
  fail for lack of memory asks \<open>allowed\<close> at the next tick of \<open>clock\<close>.  Realms are not modelled.
\<close>

datatype val = Void | Null | Prim u64 | PromiseVal nat | ResolveFn nat | RejectFn nat | ExecutorFn nat | TypeErrorVal | Object nat

datatype PJob = ReactionJob nat nat val | ThenableJob nat val val | HostJob nat

text \<open>The states are 0 (pending), 1 (fulfilled) and 2 (rejected).\<close>

record Promise =
  pstate :: nat
  presult :: val
  first_reaction :: "nat option"
  last_reaction :: "nat option"

record Reaction =
  capability :: nat
  on_fulfilled :: val
  on_rejected :: val
  next_reaction :: "nat option"

record Resolving =
  target :: nat
  called :: bool

record PCapability =
  cpromise :: val
  cresolve :: val
  creject :: val

record world = "PJob JSJobQueue" +
  promises :: "nat \<Rightarrow> Promise"
  promise_count :: nat
  reactions :: "nat \<Rightarrow> Reaction"
  reaction_count :: nat
  resolvings :: "nat \<Rightarrow> Resolving"
  resolving_count :: nat
  capabilities :: "nat \<Rightarrow> PCapability"
  capability_count :: nat
  exception :: "val option"
  allowed :: "nat \<Rightarrow> bool"
  clock :: nat
  script_callable :: "nat \<Rightarrow> bool"

type_synonym operation = "world \<Rightarrow> bool \<times> world"

fun is_primitive :: "val \<Rightarrow> bool" where
  "is_primitive Void = True"
| "is_primitive Null = True"
| "is_primitive (Prim _) = True"
| "is_primitive _ = False"

fun js_IsCallable :: "world \<Rightarrow> val \<Rightarrow> bool" where
  "js_IsCallable w (ResolveFn i) = True"
| "js_IsCallable w (RejectFn i) = True"
| "js_IsCallable w (ExecutorFn k) = True"
| "js_IsCallable w (Object n) = script_callable w n"
| "js_IsCallable w _ = False"

subsection \<open>Fallible steps\<close>

definition attempt :: operation where
  "attempt w = (allowed w (clock w), w\<lparr>clock := clock w + 1\<rparr>)"

definition and_then :: "operation \<Rightarrow> operation \<Rightarrow> operation" where
  "and_then f g w = (case f w of (ok, w) \<Rightarrow> if ok then g w else (False, w))"

fun attempts :: "nat \<Rightarrow> operation" where
  "attempts 0 = (\<lambda>w. (True, w))"
| "attempts (Suc n) = and_then attempt (attempts n)"

definition SET :: "(world \<Rightarrow> world) \<Rightarrow> operation" where
  "SET f w = (case attempt w of (ok, w) \<Rightarrow> (ok, if ok then f w else w))"

text \<open>The error object may itself fail to be made; then no exception is pending.\<close>

definition PromiseTypeError :: operation where
  "PromiseTypeError w = (case attempt w of (ok, w) \<Rightarrow> (False, if ok then w\<lparr>exception := Some TypeErrorVal\<rparr> else w))"

text \<open>The prototype, the object and its eight slots; the function, its capture and its properties; and the lookup of
  a callback's realm.\<close>

definition Record :: operation where "Record = attempts 10"
definition Closure :: operation where "Closure = attempts 4"
definition JobGlobal :: operation where "JobGlobal = attempt"

definition enqueue :: "PJob \<Rightarrow> operation" where
  "enqueue job w =
     (case JS_EnqueueJob (\<lambda>i. allowed w (clock w + i)) True job w of (ok, w') \<Rightarrow> (ok, w'\<lparr>clock := clock w + 5\<rparr>))"

subsection \<open>Settling\<close>

definition update_promise :: "nat \<Rightarrow> (Promise \<Rightarrow> Promise) \<Rightarrow> world \<Rightarrow> world" where
  "update_promise p f w = w\<lparr>promises := (promises w)(p := f (promises w p))\<rparr>"

definition update_reaction :: "nat \<Rightarrow> (Reaction \<Rightarrow> Reaction) \<Rightarrow> world \<Rightarrow> world" where
  "update_reaction r f w = w\<lparr>reactions := (reactions w)(r := f (reactions w r))\<rparr>"

definition QueueReaction :: "nat \<Rightarrow> nat \<Rightarrow> val \<Rightarrow> operation" where
  "QueueReaction reaction state argument =
     and_then JobGlobal (and_then Record (and_then (attempts 3) (and_then Closure (enqueue (ReactionJob reaction state argument)))))"

text \<open>The walk over the reactions visits each at most once, so their number bounds it; a longer walk is \<open>None\<close>.\<close>

fun settle_loop :: "nat \<Rightarrow> nat option \<Rightarrow> nat \<Rightarrow> val \<Rightarrow> world \<Rightarrow> (bool \<times> world) option" where
  "settle_loop n None state argument w = Some (True, w)"
| "settle_loop 0 (Some r) state argument w = None"
| "settle_loop (Suc n) (Some r) state argument w =
     (case QueueReaction r state argument w of
        (ok, w) \<Rightarrow> if ok then settle_loop n (next_reaction (reactions w r)) state argument w else Some (False, w))"

text \<open>The code asserts that the promise is pending, in debug builds only, so there is no test here: settling a settled
  promise would overwrite its state and its result.\<close>

definition Settle :: "nat \<Rightarrow> nat \<Rightarrow> val \<Rightarrow> world \<Rightarrow> (bool \<times> world) option" where
  "Settle p state argument w =
     (let r = first_reaction (promises w p) in
      case and_then (SET (update_promise p (\<lambda>x. x\<lparr>pstate := state\<rparr>)))
             (and_then (SET (update_promise p (\<lambda>x. x\<lparr>presult := argument\<rparr>)))
               (and_then (SET (update_promise p (\<lambda>x. x\<lparr>first_reaction := None\<rparr>)))
                 (SET (update_promise p (\<lambda>x. x\<lparr>last_reaction := None\<rparr>))))) w of
        (ok, w) \<Rightarrow> if ok then settle_loop (reaction_count w) r state argument w else Some (False, w))"

definition RejectException :: "nat \<Rightarrow> world \<Rightarrow> (bool \<times> world) option" where
  "RejectException p w =
     (case exception w of None \<Rightarrow> Some (False, w) | Some e \<Rightarrow> Settle p 2 e (w\<lparr>exception := None\<rparr>))"

subsection \<open>Resolving functions\<close>

definition mark_called :: "nat \<Rightarrow> world \<Rightarrow> world" where
  "mark_called i w = w\<lparr>resolvings := (resolvings w)(i := (resolvings w i)\<lparr>called := True\<rparr>)\<rparr>"

text \<open>\<open>Resolve\<close> up to the lookup of \<open>then\<close>, which may run a script, and from there on; a failed lookup is \<open>None\<close>.\<close>

datatype resolve_result = Returned bool | LookUpThen nat

definition Resolve :: "nat \<Rightarrow> val \<Rightarrow> world \<Rightarrow> (resolve_result \<times> world) option" where
  "Resolve i v w =
     (if called (resolvings w i) then Some (Returned True, w)
      else
        case SET (mark_called i) w of
          (ok, w) \<Rightarrow>
            if \<not> ok then Some (Returned False, w)
            else
              let p = target (resolvings w i) in
              if v = PromiseVal p then
                map_option (\<lambda>(ok, w). (Returned ok, w)) (RejectException p (snd (PromiseTypeError w)))
              else if is_primitive v then map_option (\<lambda>(ok, w). (Returned ok, w)) (Settle p 1 v w)
              else Some (LookUpThen p, w))"

definition Resolve_then :: "nat \<Rightarrow> val \<Rightarrow> val option \<Rightarrow> world \<Rightarrow> (bool \<times> world) option" where
  "Resolve_then p v thn w =
     (case thn of
        None \<Rightarrow> RejectException p w
      | Some t \<Rightarrow>
          if \<not> js_IsCallable w t then Settle p 1 v w
          else Some (and_then JobGlobal (and_then Record (and_then (attempts 3)
                       (and_then Closure (enqueue (ThenableJob p v t))))) w))"

definition Reject :: "nat \<Rightarrow> val \<Rightarrow> world \<Rightarrow> (bool \<times> world) option" where
  "Reject i v w =
     (if called (resolvings w i) then Some (True, w)
      else case SET (mark_called i) w of
             (ok, w) \<Rightarrow> if ok then Settle (target (resolvings w i)) 2 v w else Some (False, w))"

text \<open>The address of the new record, both of whose functions capture it.\<close>

definition ResolvingFunctions :: "nat \<Rightarrow> world \<Rightarrow> nat option \<times> world" where
  "ResolvingFunctions p w =
     (case and_then Record (and_then (attempts 2) (and_then Closure Closure)) w of
        (ok, w) \<Rightarrow>
          if ok then
            (Some (resolving_count w),
             w\<lparr>resolvings := (resolvings w)(resolving_count w := \<lparr>target = p, called = False\<rparr>),
               resolving_count := resolving_count w + 1\<rparr>)
          else (None, w))"

subsection \<open>Capabilities\<close>

definition CapabilityExecutor :: "nat \<Rightarrow> val \<Rightarrow> val \<Rightarrow> operation" where
  "CapabilityExecutor k a b w =
     (if cresolve (capabilities w k) \<noteq> Void \<or> creject (capabilities w k) \<noteq> Void then PromiseTypeError w
      else and_then (SET (\<lambda>w. w\<lparr>capabilities := (capabilities w)(k := (capabilities w k)\<lparr>cresolve := a\<rparr>)\<rparr>))
             (SET (\<lambda>w. w\<lparr>capabilities := (capabilities w)(k := (capabilities w k)\<lparr>creject := b\<rparr>)\<rparr>)) w)"

text \<open>\<open>Capability\<close> up to the construction of its promise and from there on.\<close>

definition Capability_begin :: "bool \<Rightarrow> world \<Rightarrow> nat option \<times> world" where
  "Capability_begin is_constructor w =
     (if \<not> is_constructor then (None, snd (PromiseTypeError w))
      else
        case and_then Record Closure w of
          (ok, w) \<Rightarrow>
            if ok then
              (Some (capability_count w),
               w\<lparr>capabilities := (capabilities w)(capability_count w := \<lparr>cpromise = Void, cresolve = Void, creject = Void\<rparr>),
                 capability_count := capability_count w + 1\<rparr>)
            else (None, w))"

definition Capability_end :: "nat \<Rightarrow> val \<Rightarrow> operation" where
  "Capability_end k promise w =
     (if \<not> js_IsCallable w (cresolve (capabilities w k)) \<or> \<not> js_IsCallable w (creject (capabilities w k)) then PromiseTypeError w
      else SET (\<lambda>w. w\<lparr>capabilities := (capabilities w)(k := (capabilities w k)\<lparr>cpromise := promise\<rparr>)\<rparr>) w)"

subsection \<open>Reactions\<close>

text \<open>\<open>Then\<close> from the reaction record on: the capability is made and the source promise may have been settled.\<close>

definition Then_end :: "nat \<Rightarrow> nat \<Rightarrow> val \<Rightarrow> val \<Rightarrow> operation" where
  "Then_end p k f g w =
     (case and_then Record (attempts 4) w of
        (ok, w) \<Rightarrow>
          if \<not> ok then (False, w)
          else
            let r = reaction_count w;
                w = w\<lparr>reactions := (reactions w)(r := \<lparr>capability = k, on_fulfilled = (if js_IsCallable w f then f else Void),
                         on_rejected = (if js_IsCallable w g then g else Void), next_reaction = None\<rparr>),
                       reaction_count := r + 1\<rparr>
            in if pstate (promises w p) = 0 then
                 and_then (case last_reaction (promises w p) of
                             None \<Rightarrow> (\<lambda>w. (True, w))
                           | Some t \<Rightarrow> SET (update_reaction t (\<lambda>x. x\<lparr>next_reaction := Some r\<rparr>)))
                   (and_then (if first_reaction (promises w p) = None
                              then SET (update_promise p (\<lambda>x. x\<lparr>first_reaction := Some r\<rparr>)) else (\<lambda>w. (True, w)))
                     (SET (update_promise p (\<lambda>x. x\<lparr>last_reaction := Some r\<rparr>)))) w
               else QueueReaction r (pstate (promises w p)) (presult (promises w p)) w)"

text \<open>The promise object of the constructor, with its four slots.\<close>

definition new_promise :: "world \<Rightarrow> nat option \<times> world" where
  "new_promise w =
     (case attempts 5 w of
        (ok, w) \<Rightarrow>
          if ok then
            (Some (promise_count w),
             w\<lparr>promises := (promises w)(promise_count w :=
                 \<lparr>pstate = 0, presult = Void, first_reaction = None, last_reaction = None\<rparr>),
               promise_count := promise_count w + 1\<rparr>)
          else (None, w))"
subsection \<open>Calls and scripts\<close>

text \<open>What runs between the native steps is a script: any sequence of calls it can make.  \<open>invoke f a b w ok r w'\<close>: the
  call of \<open>f\<close> with the arguments \<open>a\<close> and \<open>b\<close> takes \<open>w\<close> to \<open>w'\<close>, and its success is \<open>ok\<close> and its value \<open>r\<close>; a
  construction or a method that fails has the result \<open>None\<close>.  Scripts may throw and catch, which sets the pending
  exception, and hosts may enqueue jobs of their own.\<close>

inductive
  invoke :: "val \<Rightarrow> val \<Rightarrow> val \<Rightarrow> world \<Rightarrow> bool \<Rightarrow> val \<Rightarrow> world \<Rightarrow> bool" and
  construct :: "val \<Rightarrow> world \<Rightarrow> val option \<Rightarrow> world \<Rightarrow> bool" and
  with_capability :: "world \<Rightarrow> nat option \<Rightarrow> world \<Rightarrow> bool" and
  then_call :: "nat \<Rightarrow> val \<Rightarrow> val \<Rightarrow> world \<Rightarrow> val option \<Rightarrow> world \<Rightarrow> bool" and
  static_resolution :: "bool \<Rightarrow> val \<Rightarrow> world \<Rightarrow> val option \<Rightarrow> world \<Rightarrow> bool" and
  script :: "world \<Rightarrow> world \<Rightarrow> bool"
where
  invoke_resolve: "i < resolving_count w \<Longrightarrow> Resolve i a w = Some (Returned ok, w') \<Longrightarrow> invoke (ResolveFn i) a b w ok Void w'"
| invoke_resolve_then: "i < resolving_count w \<Longrightarrow> Resolve i a w = Some (LookUpThen p, w1) \<Longrightarrow> script w1 w2 \<Longrightarrow>
    Resolve_then p a thn w2 = Some (ok, w') \<Longrightarrow> invoke (ResolveFn i) a b w ok Void w'"
| invoke_reject: "i < resolving_count w \<Longrightarrow> Reject i a w = Some (ok, w') \<Longrightarrow> invoke (RejectFn i) a b w ok Void w'"
| invoke_executor: "k < capability_count w \<Longrightarrow> CapabilityExecutor k a b w = (ok, w') \<Longrightarrow> invoke (ExecutorFn k) a b w ok Void w'"
| invoke_script: "script w w' \<Longrightarrow> invoke (Object n) a b w ok r w'"
| invoke_not_callable: "\<not> js_IsCallable w f \<Longrightarrow> invoke f a b w False Void (w\<lparr>exception := e\<rparr>)"
| construct_refused: "\<not> js_IsCallable w f \<Longrightarrow> construct f w None (snd (PromiseTypeError w))"
| construct_unmade: "script w w1 \<Longrightarrow> new_promise w1 = (None, w2) \<Longrightarrow> construct f w None w2"
| construct_bare: "script w w1 \<Longrightarrow> new_promise w1 = (Some p, w2) \<Longrightarrow> ResolvingFunctions p w2 = (None, w3) \<Longrightarrow> construct f w None w3"
| construct_done: "script w w1 \<Longrightarrow> new_promise w1 = (Some p, w2) \<Longrightarrow> ResolvingFunctions p w2 = (Some i, w3) \<Longrightarrow>
    invoke f (ResolveFn i) (RejectFn i) w3 True r w4 \<Longrightarrow> construct f w (Some (PromiseVal p)) w4"
| construct_thrown: "script w w1 \<Longrightarrow> new_promise w1 = (Some p, w2) \<Longrightarrow> ResolvingFunctions p w2 = (Some i, w3) \<Longrightarrow>
    invoke f (ResolveFn i) (RejectFn i) w3 False r w4 \<Longrightarrow> exception w4 = Some x \<Longrightarrow>
    invoke (RejectFn i) x Void (w4\<lparr>exception := None\<rparr>) ok r' w5 \<Longrightarrow> construct f w (if ok then Some (PromiseVal p) else None) w5"
| construct_failed: "script w w1 \<Longrightarrow> new_promise w1 = (Some p, w2) \<Longrightarrow> ResolvingFunctions p w2 = (Some i, w3) \<Longrightarrow>
    invoke f (ResolveFn i) (RejectFn i) w3 False r w4 \<Longrightarrow> exception w4 = None \<Longrightarrow> construct f w None w4"
| capability_refused: "Capability_begin c w = (None, w1) \<Longrightarrow> with_capability w None w1"
| capability_builtin: "Capability_begin True w = (Some k, w1) \<Longrightarrow> construct (ExecutorFn k) w1 (Some v) w2 \<Longrightarrow>
    Capability_end k v w2 = (ok, w3) \<Longrightarrow> with_capability w (if ok then Some k else None) w3"
| capability_builtin_failed: "Capability_begin True w = (Some k, w1) \<Longrightarrow> construct (ExecutorFn k) w1 None w2 \<Longrightarrow> with_capability w None w2"
| capability_script: "Capability_begin True w = (Some k, w1) \<Longrightarrow> script w1 w2 \<Longrightarrow>
    Capability_end k v w2 = (ok, w3) \<Longrightarrow> with_capability w (if ok then Some k else None) w3"
| capability_script_failed: "Capability_begin True w = (Some k, w1) \<Longrightarrow> script w1 w2 \<Longrightarrow> with_capability w None w2"
| then_lookup_failed: "script w w1 \<Longrightarrow> then_call p f g w None w1"
| then_capability_failed: "script w w1 \<Longrightarrow> with_capability w1 None w2 \<Longrightarrow> then_call p f g w None w2"
| then_done: "p < promise_count w \<Longrightarrow> script w w1 \<Longrightarrow> with_capability w1 (Some k) w2 \<Longrightarrow> Then_end p k f g w2 = (ok, w3) \<Longrightarrow>
    then_call p f g w (if ok then Some (cpromise (capabilities w3 k)) else None) w3"
| static_same: "script w w1 \<Longrightarrow> static_resolution False (PromiseVal p) w (Some (PromiseVal p)) w1"
| static_failed: "script w w1 \<Longrightarrow> static_resolution reject v w None w1"
| static_capability_failed: "script w w1 \<Longrightarrow> with_capability w1 None w2 \<Longrightarrow> static_resolution reject v w None w2"
| static_done: "script w w1 \<Longrightarrow> with_capability w1 (Some k) w2 \<Longrightarrow>
    invoke (if reject then creject (capabilities w2 k) else cresolve (capabilities w2 k)) v Void w2 ok r w3 \<Longrightarrow>
    static_resolution reject v w (if ok then Some (cpromise (capabilities w3 k)) else None) w3"
| script_end: "script w w"
| script_exception: "script (w\<lparr>exception := e\<rparr>) w' \<Longrightarrow> script w w'"
| script_invoke: "invoke f a b w ok r w1 \<Longrightarrow> script w1 w' \<Longrightarrow> script w w'"
| script_construct: "construct f w r w1 \<Longrightarrow> script w1 w' \<Longrightarrow> script w w'"
| script_then: "then_call p f g w r w1 \<Longrightarrow> script w1 w' \<Longrightarrow> script w w'"
| script_static: "static_resolution reject v w r w1 \<Longrightarrow> script w1 w' \<Longrightarrow> script w w'"
| script_enqueue: "enqueue (HostJob n) w = (ok, w1) \<Longrightarrow> script w1 w' \<Longrightarrow> script w w'"

subsection \<open>Jobs\<close>

definition handler :: "nat \<Rightarrow> nat \<Rightarrow> world \<Rightarrow> val" where
  "handler r state w = (if state = 2 then on_rejected (reactions w r) else on_fulfilled (reactions w r))"

definition settle_function :: "nat \<Rightarrow> bool \<Rightarrow> world \<Rightarrow> val" where
  "settle_function r rejected w =
     (let k = capability (reactions w r) in if rejected then creject (capabilities w k) else cresolve (capabilities w k))"

inductive run_job :: "PJob \<Rightarrow> world \<Rightarrow> bool \<Rightarrow> world \<Rightarrow> bool" where
  thenable_bare: "ResolvingFunctions p w = (None, w1) \<Longrightarrow> run_job (ThenableJob p v t) w False w1"
| thenable_done: "ResolvingFunctions p w = (Some i, w1) \<Longrightarrow> invoke t (ResolveFn i) (RejectFn i) w1 True r w2 \<Longrightarrow>
    run_job (ThenableJob p v t) w True w2"
| thenable_thrown: "ResolvingFunctions p w = (Some i, w1) \<Longrightarrow> invoke t (ResolveFn i) (RejectFn i) w1 False r w2 \<Longrightarrow>
    exception w2 = Some x \<Longrightarrow> invoke (RejectFn i) x Void (w2\<lparr>exception := None\<rparr>) ok r' w3 \<Longrightarrow> run_job (ThenableJob p v t) w ok w3"
| thenable_failed: "ResolvingFunctions p w = (Some i, w1) \<Longrightarrow> invoke t (ResolveFn i) (RejectFn i) w1 False r w2 \<Longrightarrow>
    exception w2 = None \<Longrightarrow> run_job (ThenableJob p v t) w False w2"
| reaction_direct: "handler r state w = Void \<Longrightarrow> invoke (settle_function r (state = 2) w) arg Void w ok x w1 \<Longrightarrow>
    run_job (ReactionJob r state arg) w ok w1"
| reaction_handled: "handler r state w \<noteq> Void \<Longrightarrow> invoke (handler r state w) arg Void w True y w1 \<Longrightarrow>
    invoke (settle_function r False w1) y Void w1 ok x w2 \<Longrightarrow> run_job (ReactionJob r state arg) w ok w2"
| reaction_thrown: "handler r state w \<noteq> Void \<Longrightarrow> invoke (handler r state w) arg Void w False y w1 \<Longrightarrow> exception w1 = Some e \<Longrightarrow>
    invoke (settle_function r True w1) e Void (w1\<lparr>exception := None\<rparr>) ok x w2 \<Longrightarrow> run_job (ReactionJob r state arg) w ok w2"
| reaction_failed: "handler r state w \<noteq> Void \<Longrightarrow> invoke (handler r state w) arg Void w False y w1 \<Longrightarrow> exception w1 = None \<Longrightarrow>
    run_job (ReactionJob r state arg) w False w1"
| host_job: "script w w' \<Longrightarrow> run_job (HostJob n) w ok w'"

text \<open>One turn of the host: it runs a script, runs the first job of the queue, or clears the queue.\<close>

inductive turn :: "world \<Rightarrow> world \<Rightarrow> bool" where
  turn_script: "script w w' \<Longrightarrow> turn w w'"
| turn_job: "head w = Some j \<Longrightarrow> run_job (callback (job_store w j)) (unlink_head j w) ok w' \<Longrightarrow> turn w w'"
| turn_clear: "turn w (js_ClearJobs w)"

definition initial :: "world \<Rightarrow> bool" where
  "initial w \<longleftrightarrow> head w = None \<and> tail w = None \<and> promise_count w = 0 \<and> reaction_count w = 0 \<and> resolving_count w = 0"

inductive reachable :: "world \<Rightarrow> bool" where
  start: "initial w \<Longrightarrow> reachable w"
| turns: "reachable w \<Longrightarrow> turn w w' \<Longrightarrow> reachable w'"

end
