(* ===== verification/Promise_Correct.thy ===== *)
theory Promise_Correct
  imports Promise "HOL-Library.Multiset"
begin

text \<open>
  Why a promise settles at most once.  The right to settle a pending promise is held by one resolving record whose
  functions were not called yet, or by one job that waits to call a thenable, or by a native call in progress that
  has consumed one of the two; never by two of them, and by none once the promise is settled.  \<open>world_ok H w\<close> is
  this invariant, where the multiset \<open>H\<close> names the promises whose rights calls in progress hold.  It also says that
  reactions are linked from older to newer ones, so every walk over them ends.
\<close>

subsection \<open>The invariant\<close>

definition live :: "world \<Rightarrow> nat \<Rightarrow> nat" where
  "live w p = card {i. i < resolving_count w \<and> target (resolvings w i) = p \<and> \<not> called (resolvings w i)}"

fun thenable_for :: "nat \<Rightarrow> PJob \<Rightarrow> bool" where
  "thenable_for p (ThenableJob q v t) = (q = p)"
| "thenable_for p _ = False"

definition allowance :: "world \<Rightarrow> nat \<Rightarrow> nat" where
  "allowance w p = (if p < promise_count w \<and> pstate (promises w p) = 0 then 1 else 0)"

definition rights_ok :: "nat multiset \<Rightarrow> world \<Rightarrow> bool" where
  "rights_ok H w \<longleftrightarrow>
     (\<exists>cs. pending w cs \<and> (\<forall>p. live w p + length (filter (thenable_for p) cs) + count H p \<le> allowance w p))"

definition links_ok :: "world \<Rightarrow> bool" where
  "links_ok w \<longleftrightarrow>
     (\<forall>r < reaction_count w. \<forall>r'. next_reaction (reactions w r) = Some r' \<longrightarrow> r < r' \<and> r' < reaction_count w) \<and>
     (\<forall>p < promise_count w. \<forall>r. first_reaction (promises w p) = Some r \<or> last_reaction (promises w p) = Some r \<longrightarrow> r < reaction_count w)"

definition world_ok :: "nat multiset \<Rightarrow> world \<Rightarrow> bool" where
  "world_ok H w \<longleftrightarrow> rights_ok H w \<and> links_ok w"

text \<open>Promises stay, and a settled one keeps its state and its result; counts only grow.\<close>

definition keeps_settled :: "world \<Rightarrow> world \<Rightarrow> bool" where
  "keeps_settled w w' \<longleftrightarrow> promise_count w \<le> promise_count w' \<and> resolving_count w \<le> resolving_count w' \<and>
     (\<forall>p < promise_count w. pstate (promises w p) \<noteq> 0 \<longrightarrow>
        pstate (promises w' p) = pstate (promises w p) \<and> presult (promises w' p) = presult (promises w p))"

lemma keeps_settled_refl [simp]: "keeps_settled w w"
  by (simp add: keeps_settled_def)

lemma keeps_settled_trans: "keeps_settled a b \<Longrightarrow> keeps_settled b c \<Longrightarrow> keeps_settled a c"
  unfolding keeps_settled_def by (fastforce dest: order_trans)

text \<open>The parts the invariant looks at.\<close>

definition same_parts :: "world \<Rightarrow> world \<Rightarrow> bool" where
  "same_parts w w' \<longleftrightarrow> job_store w' = job_store w \<and> job_count w' = job_count w \<and> head w' = head w \<and> tail w' = tail w \<and>
     promises w' = promises w \<and> promise_count w' = promise_count w \<and> resolvings w' = resolvings w \<and>
     resolving_count w' = resolving_count w"

definition same_links :: "world \<Rightarrow> world \<Rightarrow> bool" where
  "same_links w w' \<longleftrightarrow> reactions w' = reactions w \<and> reaction_count w' = reaction_count w"

lemma pending_cong:
  assumes "job_store w' = job_store w" "job_count w' = job_count w" "head w' = head w" "tail w' = tail w"
  shows "pending w' cs = pending w cs"
proof -
  have "jobs_from w' a js = jobs_from w a js" for a js
    by (rule iffI; erule jobs_from_cong) (use assms in simp_all)
  then show ?thesis using assms by (simp add: pending_def queue_ok_def)
qed

lemma rights_ok_cong: "same_parts w w' \<Longrightarrow> rights_ok H w' = rights_ok H w"
  unfolding rights_ok_def using pending_cong [of w' w] by (simp add: same_parts_def live_def allowance_def)

lemma links_ok_cong: "promises w' = promises w \<Longrightarrow> promise_count w' = promise_count w \<Longrightarrow> same_links w w' \<Longrightarrow> links_ok w' = links_ok w"
  unfolding links_ok_def same_links_def by (elim conjE) (simp only:)

lemma world_okD: "world_ok H w \<Longrightarrow> rights_ok H w" "world_ok H w \<Longrightarrow> links_ok w"
  by (simp_all add: world_ok_def)

lemma world_okI: "rights_ok H w \<Longrightarrow> links_ok w \<Longrightarrow> world_ok H w"
  by (simp add: world_ok_def)

lemma links_okD:
  assumes "links_ok w"
  shows "r < reaction_count w \<Longrightarrow> next_reaction (reactions w r) = Some r' \<Longrightarrow> r < r' \<and> r' < reaction_count w"
    "p < promise_count w \<Longrightarrow> first_reaction (promises w p) = Some r \<Longrightarrow> r < reaction_count w"
    "p < promise_count w \<Longrightarrow> last_reaction (promises w p) = Some r \<Longrightarrow> r < reaction_count w"
  using assms unfolding links_ok_def by blast+

lemma links_okI:
  assumes "\<And>r r'. r < reaction_count w \<Longrightarrow> next_reaction (reactions w r) = Some r' \<Longrightarrow> r < r' \<and> r' < reaction_count w"
    "\<And>p r. p < promise_count w \<Longrightarrow> first_reaction (promises w p) = Some r \<or> last_reaction (promises w p) = Some r \<Longrightarrow> r < reaction_count w"
  shows "links_ok w"
  using assms unfolding links_ok_def by blast

lemma world_ok_cong: "same_parts w w' \<Longrightarrow> same_links w w' \<Longrightarrow> world_ok H w' = world_ok H w"
  using rights_ok_cong [of w w' H] links_ok_cong [of w' w] by (simp add: world_ok_def same_parts_def)

lemma keeps_same: "same_parts w w' \<Longrightarrow> keeps_settled w w'"
  by (simp add: same_parts_def keeps_settled_def)

lemma world_ok_weaken: "world_ok (add_mset p H) w \<Longrightarrow> world_ok H w"
proof -
  assume ok: "world_ok (add_mset p H) w"
  then obtain cs where "pending w cs" and b: "\<And>q. live w q + length (filter (thenable_for q) cs) + count (add_mset p H) q \<le> allowance w q"
    by (auto simp: world_ok_def rights_ok_def)
  moreover have "live w q + length (filter (thenable_for q) cs) + count H q \<le> allowance w q" for q
    using b [of q] by (simp split: if_splits)
  ultimately show ?thesis using ok unfolding world_ok_def rights_ok_def by blast
qed

subsection \<open>Operations that do not touch the promises\<close>

definition tick_only :: "operation \<Rightarrow> bool" where
  "tick_only f \<longleftrightarrow> (\<forall>w. \<exists>c. snd (f w) = w\<lparr>clock := c\<rparr>)"

named_theorems ticks \<open>operations that only ask for memory\<close>

lemma tick_attempt [ticks]: "tick_only attempt"
  by (auto simp: tick_only_def attempt_def)

lemma tick_then [ticks]: "tick_only f \<Longrightarrow> tick_only g \<Longrightarrow> tick_only (and_then f g)"
  unfolding tick_only_def and_then_def
proof (intro allI)
  fix w assume f: "\<forall>w. \<exists>c. snd (f w) = w\<lparr>clock := c\<rparr>" and g: "\<forall>w. \<exists>c. snd (g w) = w\<lparr>clock := c\<rparr>"
  obtain ok w1 where fw: "f w = (ok, w1)" by (metis prod.exhaust)
  obtain c where "w1 = w\<lparr>clock := c\<rparr>" using f [THEN spec, of w] fw by auto
  moreover obtain d where "snd (g w1) = w1\<lparr>clock := d\<rparr>" using g by blast
  ultimately show "\<exists>c. snd (case f w of (ok, w) \<Rightarrow> if ok then g w else (False, w)) = w\<lparr>clock := c\<rparr>"
    using fw by (cases ok) auto
qed

lemma tick_attempts [ticks]: "tick_only (attempts n)"
proof (induction n)
  case 0
  have "w = w\<lparr>clock := clock w\<rparr>" for w :: world by simp
  then show ?case unfolding tick_only_def attempts.simps snd_conv by blast
next
  case (Suc n)
  then show ?case by (simp add: ticks)
qed

lemma tick_Record [ticks]: "tick_only Record" by (simp add: Record_def ticks)
lemma tick_Closure [ticks]: "tick_only Closure" by (simp add: Closure_def ticks)
lemma tick_JobGlobal [ticks]: "tick_only JobGlobal" by (simp add: JobGlobal_def ticks)

lemma tick_onlyD: "tick_only f \<Longrightarrow> f w = (ok, w') \<Longrightarrow> \<exists>c. w' = w\<lparr>clock := c\<rparr>"
  unfolding tick_only_def by (metis snd_conv)

lemma same_clock [simp]: "same_parts w (w\<lparr>clock := c\<rparr>)" "same_links w (w\<lparr>clock := c\<rparr>)"
  by (simp_all add: same_parts_def same_links_def)

lemma same_exception [simp]: "same_parts w (w\<lparr>exception := e\<rparr>)" "same_links w (w\<lparr>exception := e\<rparr>)"
  by (simp_all add: same_parts_def same_links_def)

lemma ok_clock [simp]: "world_ok H (w\<lparr>clock := c\<rparr>) = world_ok H w"
  by (rule world_ok_cong) simp_all

lemma ok_exception [simp]: "world_ok H (w\<lparr>exception := e\<rparr>) = world_ok H w"
  by (rule world_ok_cong) simp_all

lemma keeps_clock [simp]: "keeps_settled w (w\<lparr>clock := c\<rparr>)"
  by (rule keeps_same) simp

lemma keeps_exception [simp]: "keeps_settled w (w\<lparr>exception := e\<rparr>)"
  by (rule keeps_same) simp

lemma SET_cases: "SET f w = (ok, w') \<Longrightarrow> \<exists>c. w' = (if ok then f (w\<lparr>clock := c\<rparr>) else w\<lparr>clock := c\<rparr>)"
  by (auto simp: SET_def attempt_def split: if_splits)

lemma type_error_ok: "world_ok H w \<Longrightarrow> world_ok H (snd (PromiseTypeError w)) \<and> keeps_settled w (snd (PromiseTypeError w))"
proof -
  assume ok: "world_ok H w"
  let ?w = "snd (PromiseTypeError w)"
  have "same_parts w ?w" "same_links w ?w"
    by (auto simp: PromiseTypeError_def attempt_def same_parts_def same_links_def)
  then show ?thesis using world_ok_cong [of w ?w H] keeps_same ok by blast
qed

subsection \<open>Jobs hold rights\<close>

lemma enqueue_ok:
  assumes ok: "world_ok (if thenable_for p job then add_mset p H else H) w" and job: "\<And>q. q \<noteq> p \<Longrightarrow> \<not> thenable_for q job"
    and run: "enqueue job w = (ok', w')"
  shows "world_ok H w' \<and> keeps_settled w w' \<and> same_links w w'"
proof -
  obtain w1 where e: "JS_EnqueueJob (\<lambda>i. allowed w (clock w + i)) True job w = (ok', w1)" and w': "w' = w1\<lparr>clock := clock w + 5\<rparr>"
    using run by (auto simp: enqueue_def split: prod.splits)
  obtain cs where cs: "pending w cs" and bound: "\<And>q. live w q + length (filter (thenable_for q) cs) +
      count (if thenable_for p job then add_mset p H else H) q \<le> allowance w q"
    using ok by (auto simp: world_ok_def rights_ok_def)
  note ep = enqueue_pending [OF cs e]
  have o: "only_queue w w1" using ep by blast
  have same: "promises w1 = promises w" "promise_count w1 = promise_count w" "resolvings w1 = resolvings w"
    "resolving_count w1 = resolving_count w" "reactions w1 = reactions w" "reaction_count w1 = reaction_count w"
    by (subst o [unfolded only_queue_def], simp)+
  have p1: "pending w1 (if ok' then cs @ [job] else cs)" using ep by blast
  have b1: "live w1 q + length (filter (thenable_for q) (if ok' then cs @ [job] else cs)) + count H q \<le> allowance w1 q" for q
  proof -
    have a: "allowance w1 q = allowance w q" "live w1 q = live w q" using same by (simp_all add: allowance_def live_def)
    show ?thesis using bound [of q] job [of q] unfolding a by (cases "q = p") (auto split: if_splits)
  qed
  have "rights_ok H w1" unfolding rights_ok_def using p1 b1 by blast
  moreover have "links_ok w1"
    using links_ok_cong [of w1 w] world_okD(2) [OF ok] same by (simp add: same_links_def)
  ultimately have "world_ok H w1" by (rule world_okI)
  then show ?thesis using w' same by (simp add: keeps_settled_def same_links_def)
qed

lemma enqueue_other_ok:
  assumes "world_ok H w" "\<And>q. \<not> thenable_for q job" "enqueue job w = (ok, w')"
  shows "world_ok H w' \<and> keeps_settled w w' \<and> same_links w w'"
  using enqueue_ok [of 0 job H w ok w'] assms by simp

lemma seq_enqueue:
  assumes "tick_only f" "and_then f (enqueue job) w = (ok, w')"
  obtains c where "ok = False \<and> w' = w\<lparr>clock := c\<rparr> \<or> enqueue job (w\<lparr>clock := c\<rparr>) = (ok, w')"
proof -
  obtain o1 w1 where f: "f w = (o1, w1)" by (metis prod.exhaust)
  obtain c where "w1 = w\<lparr>clock := c\<rparr>" using tick_onlyD [OF assms(1) f] by blast
  then show ?thesis using that [of c] assms(2) f by (cases o1) (auto simp: and_then_def)
qed

lemma and_then_assoc: "and_then f (and_then g h) = and_then (and_then f g) h"
  by (rule ext) (simp add: and_then_def split: prod.split)

lemma queue_reaction_ok:
  assumes "world_ok H w" "QueueReaction r st arg w = (ok, w')"
  shows "world_ok H w' \<and> keeps_settled w w' \<and> same_links w w'"
proof -
  let ?f = "and_then (and_then (and_then JobGlobal Record) (attempts 3)) Closure"
  have t: "tick_only ?f" by (simp add: ticks)
  have "and_then ?f (enqueue (ReactionJob r st arg)) w = (ok, w')"
    using assms(2) by (simp add: QueueReaction_def and_then_assoc)
  then obtain c where c: "ok = False \<and> w' = w\<lparr>clock := c\<rparr> \<or> enqueue (ReactionJob r st arg) (w\<lparr>clock := c\<rparr>) = (ok, w')"
    by (rule seq_enqueue [OF t])
  then show ?thesis
  proof
    assume "enqueue (ReactionJob r st arg) (w\<lparr>clock := c\<rparr>) = (ok, w')"
    from enqueue_other_ok [OF _ _ this, of H] assms(1) show ?thesis
      using keeps_settled_trans [OF keeps_clock [of w c]] by (simp add: same_links_def)
  qed (use assms(1) in simp)
qed

lemma settle_loop_ok:
  assumes "world_ok H w" "settle_loop n r st arg w = Some (ok, w')"
  shows "world_ok H w' \<and> keeps_settled w w' \<and> same_links w w'"
  using assms
proof (induction n r st arg w rule: settle_loop.induct)
  case (3 n r st arg w)
  obtain o1 w1 where q: "QueueReaction r st arg w = (o1, w1)" by (metis prod.exhaust)
  note q' = queue_reaction_ok [OF "3.prems"(1) q]
  show ?case
  proof (cases o1)
    case True
    then show ?thesis
      using "3.IH" [OF q [symmetric]] q' "3.prems"(2) q keeps_settled_trans by (fastforce simp: same_links_def)
  next
    case False
    then show ?thesis using q' "3.prems"(2) q by auto
  qed
qed (simp_all add: same_links_def)

lemma settle_loop_ends:
  assumes "links_ok w" "\<And>r'. r = Some r' \<Longrightarrow> r' < reaction_count w \<and> reaction_count w \<le> n + r'" "world_ok H w"
  shows "settle_loop n r st arg w \<noteq> None"
  using assms
proof (induction n r st arg w rule: settle_loop.induct)
  case (3 n r st arg w)
  obtain o1 w1 where q: "QueueReaction r st arg w = (o1, w1)" by (metis prod.exhaust)
  note q' = queue_reaction_ok [OF "3.prems"(3) q]
  show ?case
  proof (cases o1)
    case True
    have l: "reactions w1 = reactions w" "reaction_count w1 = reaction_count w" using q' by (simp_all add: same_links_def)
    have "settle_loop n (next_reaction (reactions w1 r)) st arg w1 \<noteq> None"
    proof (rule "3.IH" [OF q [symmetric] True])
      show "links_ok w1" "world_ok H w1" using q' by (simp_all add: world_ok_def)
      fix r' assume "next_reaction (reactions w1 r) = Some r'"
      then show "r' < reaction_count w1 \<and> reaction_count w1 \<le> n + r'"
        using "3.prems"(2) [OF refl] links_okD(1) [OF "3.prems"(1), of r r'] unfolding l by linarith
    qed
    then show ?thesis using q True by simp
  qed (use q in simp)
next
  case (2 r st arg w)
  then show ?case using "2.prems"(2) [OF refl] by linarith
qed simp
subsection \<open>Consuming a right\<close>

lemma rights_okE:
  assumes "rights_ok H w"
  obtains cs where "pending w cs" "\<And>q. live w q + length (filter (thenable_for q) cs) + count H q \<le> allowance w q"
  using assms unfolding rights_ok_def by blast

lemma rights_okI:
  "pending w cs \<Longrightarrow> (\<And>q. live w q + length (filter (thenable_for q) cs) + count H q \<le> allowance w q) \<Longrightarrow> rights_ok H w"
  unfolding rights_ok_def by blast

lemma held_pending:
  assumes "world_ok (add_mset p H) w" shows "p < promise_count w" "pstate (promises w p) = 0"
proof -
  obtain cs where "live w p + length (filter (thenable_for p) cs) + count (add_mset p H) p \<le> allowance w p"
    using rights_okE [OF world_okD(1) [OF assms]] by blast
  then show "p < promise_count w" "pstate (promises w p) = 0" by (auto simp: allowance_def split: if_splits)
qed

text \<open>An update of the promise \<open>p\<close> whose right is held keeps the rights of the others.\<close>

lemma update_held:
  assumes ok: "world_ok (add_mset p H) w" and w': "w' = update_promise p f w"
    and links: "\<And>r. first_reaction (f (promises w p)) = Some r \<or> last_reaction (f (promises w p)) = Some r \<Longrightarrow> r < reaction_count w"
  shows "world_ok H w'" "keeps_settled w w'" "same_links w w'"
proof -
  note held = held_pending [OF ok]
  obtain cs where cs: "pending w cs" "\<And>q. live w q + length (filter (thenable_for q) cs) + count (add_mset p H) q \<le> allowance w q"
    using rights_okE [OF world_okD(1) [OF ok]] by blast
  have parts: "pending w' cs" "live w' q = live w q" "q \<noteq> p \<Longrightarrow> allowance w' q = allowance w q" for q
    using cs(1) pending_cong [of w' w cs] by (simp_all add: w' update_promise_def live_def allowance_def)
  have "live w' q + length (filter (thenable_for q) cs) + count H q \<le> allowance w' q" for q
  proof (cases "q = p")
    case True
    have "allowance w p \<le> 1" by (simp add: allowance_def)
    then show ?thesis using cs(2) [of p] parts(2) [of p] True by simp
  next
    case False
    then show ?thesis using cs(2) [of q] parts(2,3) [of q] by simp
  qed
  then have "rights_ok H w'" using rights_okI [OF parts(1)] by blast
  moreover have "links_ok w'"
  proof (rule links_okI)
    fix r r' assume "r < reaction_count w'" "next_reaction (reactions w' r) = Some r'"
    then show "r < r' \<and> r' < reaction_count w'" using links_okD(1) [OF world_okD(2) [OF ok], of r r'] by (simp add: w' update_promise_def)
  next
    have same: "promise_count w' = promise_count w" "reaction_count w' = reaction_count w"
      "promises w' q = (if q = p then f (promises w p) else promises w q)" for q
      by (simp_all add: w' update_promise_def)
    fix q r assume q: "q < promise_count w'" "first_reaction (promises w' q) = Some r \<or> last_reaction (promises w' q) = Some r"
    show "r < reaction_count w'"
    proof (cases "q = p")
      case True
      then show ?thesis using links [of r] q(2) unfolding same by simp
    next
      case False
      then show ?thesis using links_okD(2,3) [OF world_okD(2) [OF ok], of q r] q unfolding same by auto
    qed
  qed
  ultimately show "world_ok H w'" by (rule world_okI)
  show "keeps_settled w w'" using held by (simp add: keeps_settled_def w' update_promise_def)
  show "same_links w w'" by (simp add: same_links_def w' update_promise_def)
qed

text \<open>The four stores of \<open>Settle\<close>: the first one consumes the right, and none of the other three touches the state.\<close>

definition settle_stores :: "nat \<Rightarrow> nat \<Rightarrow> val \<Rightarrow> operation" where
  "settle_stores p state argument =
     and_then (SET (update_promise p (\<lambda>x. x\<lparr>pstate := state\<rparr>)))
       (and_then (SET (update_promise p (\<lambda>x. x\<lparr>presult := argument\<rparr>)))
         (and_then (SET (update_promise p (\<lambda>x. x\<lparr>first_reaction := None\<rparr>)))
           (SET (update_promise p (\<lambda>x. x\<lparr>last_reaction := None\<rparr>)))))"

lemma SET_then:
  assumes "and_then (SET (update_promise p f)) g w = (ok, w')"
  obtains (failed) c where "\<not> ok" "w' = w\<lparr>clock := c\<rparr>"
    | (stored) c where "g (update_promise p f (w\<lparr>clock := c\<rparr>)) = (ok, w')"
  using assms by (auto simp: and_then_def SET_def attempt_def split: if_splits)

lemma update_update: "update_promise p g ((update_promise p f w)\<lparr>clock := c\<rparr>) = update_promise p (g \<circ> f) (w\<lparr>clock := c\<rparr>)"
  by (simp add: update_promise_def)

lemma update_twice: "update_promise p g (update_promise p f w) = update_promise p (g \<circ> f) w"
  by (simp add: update_promise_def)

lemma update_clock: "(update_promise p f w)\<lparr>clock := c\<rparr> = update_promise p f (w\<lparr>clock := c\<rparr>)"
  by (simp add: update_promise_def)

lemma clock_clock: "w\<lparr>clock := a\<rparr>\<lparr>clock := b\<rparr> = w\<lparr>clock := b\<rparr>" for w :: world
  by simp

lemma no_update: "w = update_promise p id w"
  by (simp add: update_promise_def)

definition shrinks :: "(Promise \<Rightarrow> Promise) \<Rightarrow> bool" where
  "shrinks f \<longleftrightarrow> (\<forall>x r. (first_reaction (f x) = Some r \<longrightarrow> first_reaction x = Some r) \<and> (last_reaction (f x) = Some r \<longrightarrow> last_reaction x = Some r))"

lemma settle_stores_shape:
  assumes run: "settle_stores p state argument w = (ok, w')"
  shows "\<exists>f c. w' = update_promise p f (w\<lparr>clock := c\<rparr>) \<and> shrinks f \<and> (ok \<longrightarrow> (\<forall>x. pstate (f x) = state \<and> presult (f x) = argument))"
proof -
  let ?s = "\<lambda>x :: Promise. x\<lparr>pstate := state\<rparr>" let ?a = "\<lambda>x :: Promise. x\<lparr>presult := argument\<rparr>"
  let ?h = "\<lambda>x :: Promise. x\<lparr>first_reaction := None\<rparr>" let ?l = "\<lambda>x :: Promise. x\<lparr>last_reaction := None\<rparr>"
  note upd = update_update update_clock clock_clock update_twice
  have thesis_if: "w' = update_promise p f (w\<lparr>clock := c\<rparr>) \<Longrightarrow> shrinks f \<Longrightarrow>
      (ok \<longrightarrow> (\<forall>x. pstate (f x) = state \<and> presult (f x) = argument)) \<Longrightarrow> ?thesis" for f c by blast
  from run show ?thesis unfolding settle_stores_def
  proof (cases rule: SET_then)
    case (failed c)
    then show ?thesis using thesis_if [of id c] no_update by (simp add: shrinks_def)
  next
    case (stored c1)
    then show ?thesis
    proof (cases rule: SET_then)
      case (failed c)
      then show ?thesis by (intro thesis_if [of ?s c]) (simp_all add: upd shrinks_def)
    next
      case (stored c2)
      then show ?thesis
      proof (cases rule: SET_then)
        case (failed c)
        then show ?thesis by (intro thesis_if [of "?a \<circ> ?s" c]) (simp_all only: upd, simp_all add: shrinks_def)
      next
        case (stored c3)
        let ?f = "?h \<circ> (?a \<circ> ?s)"
        obtain c where c: "w' = (if ok then update_promise p ?l ((update_promise p ?f (w\<lparr>clock := c3\<rparr>))\<lparr>clock := c\<rparr>)
            else (update_promise p ?f (w\<lparr>clock := c3\<rparr>))\<lparr>clock := c\<rparr>)"
          using SET_cases [OF stored] unfolding upd by blast
        show ?thesis
        proof (cases ok)
          case True
          then show ?thesis using c by (intro thesis_if [of "?l \<circ> ?f" c]) (simp_all only: upd if_True, simp_all add: shrinks_def)
        next
          case False
          then show ?thesis using c by (intro thesis_if [of ?f c]) (simp_all only: upd if_False, simp_all add: shrinks_def)
        qed
      qed
    qed
  qed
qed
lemma shrinksD:
  "shrinks f \<Longrightarrow> first_reaction (f x) = Some r \<or> last_reaction (f x) = Some r \<Longrightarrow> first_reaction x = Some r \<or> last_reaction x = Some r"
  unfolding shrinks_def by blast

lemma settle_stores_ok:
  assumes ok: "world_ok (add_mset p H) w" and s: "settle_stores p st arg w = (o1, w1)"
  shows "world_ok H w1 \<and> keeps_settled w w1 \<and> reaction_count w1 = reaction_count w"
proof -
  obtain f c where f: "w1 = update_promise p f (w\<lparr>clock := c\<rparr>)" "shrinks f" using settle_stores_shape [OF s] by blast
  have okc: "world_ok (add_mset p H) (w\<lparr>clock := c\<rparr>)" using ok by simp
  have links: "r < reaction_count (w\<lparr>clock := c\<rparr>)"
    if "first_reaction (f (promises (w\<lparr>clock := c\<rparr>) p)) = Some r \<or> last_reaction (f (promises (w\<lparr>clock := c\<rparr>) p)) = Some r" for r
    using shrinksD [OF f(2) that] links_okD(2,3) [OF world_okD(2) [OF okc] held_pending(1) [OF okc], of r] by blast
  note u = update_held [OF okc f(1) links]
  have "keeps_settled w w1" using keeps_settled_trans [OF keeps_clock u(2)] .
  then show ?thesis using u(1,3) by (simp add: same_links_def)
qed

lemma Settle_ok:
  assumes ok: "world_ok (add_mset p H) w" and run: "Settle p st arg w = Some (ok', w')"
  shows "world_ok H w' \<and> keeps_settled w w'"
proof -
  obtain o1 w1 where s: "settle_stores p st arg w = (o1, w1)" by (metis prod.exhaust)
  have run': "(if o1 then settle_loop (reaction_count w1) (first_reaction (promises w p)) st arg w1 else Some (False, w1)) = Some (ok', w')"
    using run s held_pending [OF ok] by (simp add: Settle_def settle_stores_def Let_def)
  note u = settle_stores_ok [OF ok s]
  show ?thesis
  proof (cases o1)
    case True
    then have loop: "settle_loop (reaction_count w1) (first_reaction (promises w p)) st arg w1 = Some (ok', w')" using run' by simp
    show ?thesis using settle_loop_ok [OF _ loop, of H] u keeps_settled_trans by blast
  next
    case False
    then show ?thesis using run' u by simp
  qed
qed

text \<open>The loop of \<open>Settle\<close> ends.\<close>

lemma Settle_defined:
  assumes ok: "world_ok (add_mset p H) w"
  shows "Settle p st arg w \<noteq> None"
proof -
  obtain o1 w1 where s: "settle_stores p st arg w = (o1, w1)" by (metis prod.exhaust)
  note u = settle_stores_ok [OF ok s]
  have "settle_loop (reaction_count w1) (first_reaction (promises w p)) st arg w1 \<noteq> None"
  proof (rule settle_loop_ends)
    show "links_ok w1" "world_ok H w1" using u world_okD(2) by blast+
    fix r assume "first_reaction (promises w p) = Some r"
    then show "r < reaction_count w1 \<and> reaction_count w1 \<le> reaction_count w1 + r"
      using links_okD(2) [OF world_okD(2) [OF ok] held_pending(1) [OF ok], of r] u by simp
  qed
  then show ?thesis using s held_pending [OF ok] by (cases o1) (simp_all add: Settle_def settle_stores_def Let_def)
qed

lemma RejectException_ok:
  assumes "world_ok (add_mset p H) w" "RejectException p w = Some (ok, w')"
  shows "world_ok H w' \<and> keeps_settled w w'"
proof (cases "exception w")
  case None
  then show ?thesis using assms world_ok_weaken by (auto simp: RejectException_def)
next
  case (Some e)
  then have "Settle p 2 e (w\<lparr>exception := None\<rparr>) = Some (ok, w')" using assms(2) by (simp add: RejectException_def)
  from Settle_ok [OF _ this, of H] assms(1) show ?thesis using keeps_settled_trans [OF keeps_exception] by auto
qed

lemma RejectException_defined: "world_ok (add_mset p H) w \<Longrightarrow> RejectException p w \<noteq> None"
  using Settle_defined [of p H "w\<lparr>exception := None\<rparr>"] by (cases "exception w") (simp_all add: RejectException_def)

lemma mark_called_ok:
  assumes ok: "world_ok H w" and i: "i < resolving_count w" "\<not> called (resolvings w i)"
  shows "world_ok (add_mset (target (resolvings w i)) H) (mark_called i w)" "keeps_settled w (mark_called i w)"
proof -
  let ?w = "mark_called i w" let ?p = "target (resolvings w i)"
  obtain cs where cs: "pending w cs" "\<And>q. live w q + length (filter (thenable_for q) cs) + count H q \<le> allowance w q"
    using rights_okE [OF world_okD(1) [OF ok]] by blast
  have pend: "pending ?w cs" using cs(1) pending_cong [of ?w w cs] by (simp add: mark_called_def)
  have allow: "allowance ?w q = allowance w q" for q by (simp add: allowance_def mark_called_def)
  have other: "live ?w q = live w q" if "q \<noteq> ?p" for q
  proof -
    have "{j. j < resolving_count ?w \<and> target (resolvings ?w j) = q \<and> \<not> called (resolvings ?w j)} =
        {j. j < resolving_count w \<and> target (resolvings w j) = q \<and> \<not> called (resolvings w j)}"
      using that by (auto simp: mark_called_def)
    then show ?thesis by (simp add: live_def)
  qed
  have this_one: "live ?w ?p + 1 = live w ?p"
  proof -
    let ?S = "{j. j < resolving_count w \<and> target (resolvings w j) = ?p \<and> \<not> called (resolvings w j)}"
    have "{j. j < resolving_count ?w \<and> target (resolvings ?w j) = ?p \<and> \<not> called (resolvings ?w j)} = ?S - {i}"
      by (auto simp: mark_called_def)
    moreover have "Suc (card (?S - {i})) = card ?S" by (rule card_Suc_Diff1) (use i in simp_all)
    ultimately show ?thesis by (simp only: live_def Suc_eq_plus1)
  qed
  have "live ?w q + length (filter (thenable_for q) cs) + count (add_mset ?p H) q \<le> allowance ?w q" for q
    using cs(2) [of q] allow [of q] other [of q] this_one by (cases "q = ?p") simp_all
  then have "rights_ok (add_mset ?p H) ?w" using rights_okI [OF pend] by blast
  moreover have "links_ok ?w"
    using links_ok_cong [of ?w w] world_okD(2) [OF ok] by (simp add: mark_called_def same_links_def)
  ultimately show "world_ok (add_mset ?p H) ?w" by (rule world_okI)
  show "keeps_settled w ?w" by (simp add: keeps_settled_def mark_called_def)
qed

lemma new_promise_ok:
  assumes ok: "world_ok H w" and run: "new_promise w = (r, w')"
  shows "keeps_settled w w' \<and> (case r of None \<Rightarrow> world_ok H w' | Some p \<Rightarrow> world_ok (add_mset p H) w')"
proof -
  obtain o1 w1 where a: "attempts 5 w = (o1, w1)" by (metis prod.exhaust)
  obtain c where c: "w1 = w\<lparr>clock := c\<rparr>" using tick_onlyD [OF tick_attempts a] by blast
  show ?thesis
  proof (cases o1)
    case False
    then show ?thesis using run a c ok by (auto simp: new_promise_def)
  next
    case True
    let ?p = "promise_count w"
    have r: "r = Some ?p" and w': "w' = w\<lparr>clock := c, promises := (promises w)(?p :=
          \<lparr>pstate = 0, presult = Void, first_reaction = None, last_reaction = None\<rparr>), promise_count := ?p + 1\<rparr>"
      using run a c True by (auto simp: new_promise_def)
    obtain cs where cs: "pending w cs" "\<And>q. live w q + length (filter (thenable_for q) cs) + count H q \<le> allowance w q"
      using rights_okE [OF world_okD(1) [OF ok]] by blast
    have pend: "pending w' cs" using cs(1) pending_cong [of w' w cs] by (simp add: w')
    have "live w' q + length (filter (thenable_for q) cs) + count (add_mset ?p H) q \<le> allowance w' q" for q
      using cs(2) [of q] by (cases "q = ?p") (auto simp: w' live_def allowance_def split: if_splits)
    then have "rights_ok (add_mset ?p H) w'" using rights_okI [OF pend] by blast
    moreover have "links_ok w'"
    proof (rule links_okI)
      fix q r' assume "q < promise_count w'" "first_reaction (promises w' q) = Some r' \<or> last_reaction (promises w' q) = Some r'"
      then show "r' < reaction_count w'"
        using links_okD(2,3) [OF world_okD(2) [OF ok], of q r'] by (cases "q = ?p") (auto simp: w')
    next
      fix x r' assume "x < reaction_count w'" "next_reaction (reactions w' x) = Some r'"
      then show "x < r' \<and> r' < reaction_count w'" using links_okD(1) [OF world_okD(2) [OF ok], of x r'] by (simp add: w')
    qed
    ultimately show ?thesis using r world_okI by (auto simp: w' keeps_settled_def)
  qed
qed

lemma ResolvingFunctions_ok:
  assumes ok: "world_ok (add_mset p H) w" and run: "ResolvingFunctions p w = (r, w')"
  shows "world_ok H w' \<and> keeps_settled w w' \<and> (\<forall>i. r = Some i \<longrightarrow> i < resolving_count w')"
proof -
  let ?f = "and_then Record (and_then (attempts 2) (and_then Closure Closure))"
  obtain o1 w1 where a: "?f w = (o1, w1)" by (metis prod.exhaust)
  have t: "tick_only ?f" by (simp add: ticks)
  obtain c where c: "w1 = w\<lparr>clock := c\<rparr>" using tick_onlyD [OF t a] by blast
  show ?thesis
  proof (cases o1)
    case False
    then show ?thesis using run a c world_ok_weaken [OF ok] by (auto simp: ResolvingFunctions_def)
  next
    case True
    let ?i = "resolving_count w"
    have r: "r = Some ?i" and w': "w' = w\<lparr>clock := c, resolvings := (resolvings w)(?i := \<lparr>target = p, called = False\<rparr>), resolving_count := ?i + 1\<rparr>"
      using run a c True by (auto simp: ResolvingFunctions_def)
    obtain cs where cs: "pending w cs" "\<And>q. live w q + length (filter (thenable_for q) cs) + count (add_mset p H) q \<le> allowance w q"
      using rights_okE [OF world_okD(1) [OF ok]] by blast
    have pend: "pending w' cs" using cs(1) pending_cong [of w' w cs] by (simp add: w')
    have live: "live w' q = live w q + (if q = p then 1 else 0)" for q
    proof -
      let ?S = "{j. j < ?i \<and> target (resolvings w j) = q \<and> \<not> called (resolvings w j)}"
      have "{j. j < resolving_count w' \<and> target (resolvings w' j) = q \<and> \<not> called (resolvings w' j)} = (if q = p then insert ?i ?S else ?S)"
        by (auto simp: w' less_Suc_eq)
      moreover have "?i \<notin> ?S" "finite ?S" by simp_all
      ultimately show ?thesis by (simp add: live_def)
    qed
    have "live w' q + length (filter (thenable_for q) cs) + count H q \<le> allowance w' q" for q
      using cs(2) [of q] live [of q] by (cases "q = p") (simp_all add: w' allowance_def split: if_splits)
    then have "rights_ok H w'" using rights_okI [OF pend] by blast
    moreover have "links_ok w'" using links_ok_cong [of w' w] world_okD(2) [OF ok] by (simp add: w' same_links_def)
    ultimately show ?thesis using r world_okI by (auto simp: w' keeps_settled_def)
  qed
qed
subsection \<open>The native functions\<close>

lemma SET_mark:
  assumes "SET (mark_called i) w = (ok, w')"
  obtains (failed) c where "\<not> ok" "w' = w\<lparr>clock := c\<rparr>"
    | (marked) c where "ok" "w' = mark_called i (w\<lparr>clock := c\<rparr>)"
  using SET_cases [OF assms] by (cases ok) auto

lemma mark_ok:
  assumes ok: "world_ok H w" and i: "i < resolving_count w" "\<not> called (resolvings w i)" and s: "SET (mark_called i) w = (o1, w1)"
  shows "keeps_settled w w1" "\<not> o1 \<Longrightarrow> world_ok H w1" "o1 \<Longrightarrow> world_ok (add_mset (target (resolvings w i)) H) w1"
    "o1 \<Longrightarrow> target (resolvings w1 i) = target (resolvings w i)"
proof -
  note m = mark_called_ok [of H "w\<lparr>clock := c\<rparr>" i for c]
  show "keeps_settled w w1" "\<not> o1 \<Longrightarrow> world_ok H w1" "o1 \<Longrightarrow> world_ok (add_mset (target (resolvings w i)) H) w1"
    "o1 \<Longrightarrow> target (resolvings w1 i) = target (resolvings w i)"
    using s ok i keeps_settled_trans [OF keeps_clock m(2)] m(1)
    by (cases rule: SET_mark; simp add: mark_called_def)+
qed

lemma Resolve_ok:
  assumes ok: "world_ok H w" and i: "i < resolving_count w" and run: "Resolve i v w = Some (r, w')"
  shows "keeps_settled w w' \<and> (case r of Returned b \<Rightarrow> world_ok H w' | LookUpThen p \<Rightarrow> world_ok (add_mset p H) w')"
proof (cases "called (resolvings w i)")
  case True
  then show ?thesis using run ok by (auto simp: Resolve_def)
next
  case False
  obtain o1 w1 where s: "SET (mark_called i) w = (o1, w1)" by (metis prod.exhaust)
  note m = mark_ok [OF ok i False s]
  let ?p = "target (resolvings w i)"
  have run': "(if \<not> o1 then Some (Returned False, w1)
      else if v = PromiseVal ?p then map_option (\<lambda>(ok, w). (Returned ok, w)) (RejectException ?p (snd (PromiseTypeError w1)))
      else if is_primitive v then map_option (\<lambda>(ok, w). (Returned ok, w)) (Settle ?p 1 v w1)
      else Some (LookUpThen ?p, w1)) = Some (r, w')"
  proof (cases o1)
    case True
    show ?thesis using run False s True unfolding Resolve_def Let_def by (simp only: prod.case if_False not_True_eq_False m(4) [OF True])
  qed (use run False s in \<open>simp add: Resolve_def\<close>)
  consider "\<not> o1" | "o1" "v = PromiseVal ?p" | "o1" "v \<noteq> PromiseVal ?p" "is_primitive v" | "o1" "v \<noteq> PromiseVal ?p" "\<not> is_primitive v"
    by blast
  then show ?thesis
  proof cases
    case 1
    then show ?thesis using run' m by auto
  next
    case 2
    then obtain b where b: "RejectException ?p (snd (PromiseTypeError w1)) = Some (b, w')" "r = Returned b" using run' by auto
    note t = type_error_ok [OF m(3) [OF 2(1)]]
    show ?thesis using RejectException_ok [OF _ b(1), of H] t m(1) b(2) keeps_settled_trans by (metis resolve_result.case(1))
  next
    case 3
    then obtain b where b: "Settle ?p 1 v w1 = Some (b, w')" "r = Returned b" using run' by auto
    show ?thesis using Settle_ok [OF m(3) [OF 3(1)] b(1)] m(1) b(2) keeps_settled_trans by (metis resolve_result.case(1))
  next
    case 4
    then show ?thesis using run' m by auto
  qed
qed

lemma Resolve_defined:
  assumes ok: "world_ok H w" and i: "i < resolving_count w"
  shows "Resolve i v w \<noteq> None"
proof (cases "called (resolvings w i)")
  case True
  then show ?thesis by (simp add: Resolve_def)
next
  case False
  obtain o1 w1 where s: "SET (mark_called i) w = (o1, w1)" by (metis prod.exhaust)
  note m = mark_ok [OF ok i False s]
  show ?thesis
  proof (cases o1)
    case True
    note h = m(3) [OF True]
    have "RejectException (target (resolvings w i)) (snd (PromiseTypeError w1)) \<noteq> None" "Settle (target (resolvings w i)) 1 v w1 \<noteq> None"
      using RejectException_defined [OF type_error_ok [OF h, THEN conjunct1]] Settle_defined [OF h] by blast+
    then show ?thesis using False s m(4) True by (auto simp add: Resolve_def Let_def)
  qed (use False s in \<open>simp add: Resolve_def\<close>)
qed

lemma thenable_enqueue_ok:
  assumes ok: "world_ok (add_mset p H) w" and f: "tick_only f" and run: "and_then f (enqueue (ThenableJob p v t)) w = (ok', w')"
  shows "world_ok H w' \<and> keeps_settled w w'"
proof -
  obtain c where c: "ok' = False \<and> w' = w\<lparr>clock := c\<rparr> \<or> enqueue (ThenableJob p v t) (w\<lparr>clock := c\<rparr>) = (ok', w')"
    by (rule seq_enqueue [OF f run])
  then show ?thesis
  proof
    assume e: "enqueue (ThenableJob p v t) (w\<lparr>clock := c\<rparr>) = (ok', w')"
    have "world_ok (if thenable_for p (ThenableJob p v t) then add_mset p H else H) (w\<lparr>clock := c\<rparr>)" using ok by simp
    from enqueue_ok [OF this _ e] show ?thesis using keeps_settled_trans [OF keeps_clock] by auto
  qed (use world_ok_weaken [OF ok] in simp)
qed

lemma Resolve_then_ok:
  assumes ok: "world_ok (add_mset p H) w" and run: "Resolve_then p v thn w = Some (ok', w')"
  shows "world_ok H w' \<and> keeps_settled w w'"
proof (cases thn)
  case None
  then show ?thesis using run RejectException_ok [OF ok] by (simp add: Resolve_then_def)
next
  case (Some t)
  let ?f = "and_then (and_then (and_then JobGlobal Record) (attempts 3)) Closure"
  have f: "tick_only ?f" by (simp add: ticks)
  show ?thesis
  proof (cases "js_IsCallable w t")
    case True
    then have "and_then ?f (enqueue (ThenableJob p v t)) w = (ok', w')"
      using run Some by (simp add: Resolve_then_def and_then_assoc)
    then show ?thesis by (rule thenable_enqueue_ok [OF ok f])
  next
    case False
    then show ?thesis using run Some Settle_ok [OF ok] by (simp add: Resolve_then_def)
  qed
qed

lemma Resolve_then_defined: "world_ok (add_mset p H) w \<Longrightarrow> Resolve_then p v thn w \<noteq> None"
  using RejectException_defined Settle_defined by (simp add: Resolve_then_def split: option.split)

lemma Reject_ok:
  assumes ok: "world_ok H w" and i: "i < resolving_count w" and run: "Reject i v w = Some (ok', w')"
  shows "world_ok H w' \<and> keeps_settled w w'"
proof (cases "called (resolvings w i)")
  case True
  then show ?thesis using run ok by (auto simp: Reject_def)
next
  case False
  obtain o1 w1 where s: "SET (mark_called i) w = (o1, w1)" by (metis prod.exhaust)
  note m = mark_ok [OF ok i False s]
  show ?thesis
  proof (cases o1)
    case True
    then have "Settle (target (resolvings w i)) 2 v w1 = Some (ok', w')" using run False s m(4) by (simp add: Reject_def)
    from Settle_ok [OF m(3) [OF True] this] show ?thesis using keeps_settled_trans [OF m(1)] by blast
  qed (use run False s m in \<open>simp add: Reject_def\<close>)
qed

lemma Reject_defined:
  assumes ok: "world_ok H w" and i: "i < resolving_count w"
  shows "Reject i v w \<noteq> None"
proof (cases "called (resolvings w i)")
  case False
  obtain o1 w1 where s: "SET (mark_called i) w = (o1, w1)" by (metis prod.exhaust)
  note m = mark_ok [OF ok i False s]
  show ?thesis using False s m(4) Settle_defined [OF m(3)] by (cases o1) (simp_all add: Reject_def)
qed (simp add: Reject_def)
subsection \<open>Reactions and capabilities\<close>

definition ok_step :: "nat multiset \<Rightarrow> nat \<Rightarrow> nat \<Rightarrow> operation \<Rightarrow> bool" where
  "ok_step H p r f \<longleftrightarrow> (\<forall>w ok w'. world_ok H w \<longrightarrow> p < promise_count w \<longrightarrow> r < reaction_count w \<longrightarrow> f w = (ok, w') \<longrightarrow>
     world_ok H w' \<and> keeps_settled w w' \<and> p < promise_count w' \<and> r < reaction_count w')"

lemma ok_stepI:
  "(\<And>w ok w'. world_ok H w \<Longrightarrow> p < promise_count w \<Longrightarrow> r < reaction_count w \<Longrightarrow> f w = (ok, w') \<Longrightarrow>
     world_ok H w' \<and> keeps_settled w w' \<and> p < promise_count w' \<and> r < reaction_count w') \<Longrightarrow> ok_step H p r f"
  unfolding ok_step_def by blast

lemma ok_stepD:
  "ok_step H p r f \<Longrightarrow> world_ok H w \<Longrightarrow> p < promise_count w \<Longrightarrow> r < reaction_count w \<Longrightarrow> f w = (ok, w') \<Longrightarrow>
     world_ok H w' \<and> keeps_settled w w' \<and> p < promise_count w' \<and> r < reaction_count w'"
  unfolding ok_step_def by blast

lemma ok_step_then:
  assumes f: "ok_step H p r f" and g: "ok_step H p r g" shows "ok_step H p r (and_then f g)"
proof (rule ok_stepI)
  fix w ok w' assume w: "world_ok H w" "p < promise_count w" "r < reaction_count w" and run: "and_then f g w = (ok, w')"
  obtain o1 w1 where fw: "f w = (o1, w1)" by (metis prod.exhaust)
  note a = ok_stepD [OF f w fw]
  show "world_ok H w' \<and> keeps_settled w w' \<and> p < promise_count w' \<and> r < reaction_count w'"
  proof (cases o1)
    case True
    then have "g w1 = (ok, w')" using run fw by (simp add: and_then_def)
    from ok_stepD [OF g, OF _ _ _ this] a show ?thesis using keeps_settled_trans by blast
  next
    case False
    then show ?thesis using run fw a by (simp add: and_then_def)
  qed
qed

lemma ok_step_skip: "ok_step H p r (\<lambda>w. (True, w))"
  by (rule ok_stepI) simp

lemma ok_step_SET:
  assumes "\<And>w. world_ok H w \<Longrightarrow> p < promise_count w \<Longrightarrow> r < reaction_count w \<Longrightarrow>
     world_ok H (f w) \<and> keeps_settled w (f w) \<and> p < promise_count (f w) \<and> r < reaction_count (f w)"
  shows "ok_step H p r (SET f)"
proof (rule ok_stepI)
  fix w ok w' assume w: "world_ok H w" "p < promise_count w" "r < reaction_count w" and run: "SET f w = (ok, w')"
  obtain c where c: "w' = (if ok then f (w\<lparr>clock := c\<rparr>) else w\<lparr>clock := c\<rparr>)" using SET_cases [OF run] by blast
  have "world_ok H (w\<lparr>clock := c\<rparr>)" "p < promise_count (w\<lparr>clock := c\<rparr>)" "r < reaction_count (w\<lparr>clock := c\<rparr>)" using w by simp_all
  from assms [OF this] show "world_ok H w' \<and> keeps_settled w w' \<and> p < promise_count w' \<and> r < reaction_count w'"
    using c w keeps_settled_trans [OF keeps_clock] by (cases ok) auto
qed

lemma link_reaction_ok:
  assumes w: "world_ok H w" "t < r" "r < reaction_count w"
  shows "world_ok H (update_reaction t (\<lambda>x. x\<lparr>next_reaction := Some r\<rparr>) w)"
proof (rule world_okI)
  let ?w = "update_reaction t (\<lambda>x. x\<lparr>next_reaction := Some r\<rparr>) w"
  have "same_parts w ?w" by (simp add: same_parts_def update_reaction_def)
  then show "rights_ok H ?w" using rights_ok_cong world_okD(1) [OF w(1)] by blast
  show "links_ok ?w"
  proof (rule links_okI)
    fix x r' assume x: "x < reaction_count ?w" "next_reaction (reactions ?w x) = Some r'"
    show "x < r' \<and> r' < reaction_count ?w"
    proof (cases "x = t")
      case True
      then show ?thesis using x w by (simp add: update_reaction_def)
    next
      case False
      then show ?thesis using x links_okD(1) [OF world_okD(2) [OF w(1)], of x r'] by (simp add: update_reaction_def)
    qed
  next
    fix q r' assume "q < promise_count ?w" "first_reaction (promises ?w q) = Some r' \<or> last_reaction (promises ?w q) = Some r'"
    then show "r' < reaction_count ?w"
      using links_okD(2,3) [OF world_okD(2) [OF w(1)], of q r'] by (auto simp: update_reaction_def)
  qed
qed

lemma update_chain_ok:
  assumes w: "world_ok H w" "p < promise_count w" and f: "pstate (f (promises w p)) = pstate (promises w p)"
      "presult (f (promises w p)) = presult (promises w p)"
    and links: "\<And>r. first_reaction (f (promises w p)) = Some r \<or> last_reaction (f (promises w p)) = Some r \<Longrightarrow> r < reaction_count w"
  shows "world_ok H (update_promise p f w) \<and> keeps_settled w (update_promise p f w)"
proof -
  let ?w = "update_promise p f w"
  obtain cs where cs: "pending w cs" "\<And>q. live w q + length (filter (thenable_for q) cs) + count H q \<le> allowance w q"
    using rights_okE [OF world_okD(1) [OF w(1)]] by blast
  have pend: "pending ?w cs" using cs(1) pending_cong [of ?w w cs] by (simp add: update_promise_def)
  have "live ?w q = live w q" "allowance ?w q = allowance w q" for q
    using f(1) by (simp_all add: update_promise_def live_def allowance_def)
  then have "rights_ok H ?w" using rights_okI [OF pend] cs(2) by simp
  moreover have "links_ok ?w"
  proof (rule links_okI)
    have same: "promise_count ?w = promise_count w" "reaction_count ?w = reaction_count w"
      "promises ?w q = (if q = p then f (promises w p) else promises w q)" for q
      by (simp_all add: update_promise_def)
    fix q r assume q: "q < promise_count ?w" "first_reaction (promises ?w q) = Some r \<or> last_reaction (promises ?w q) = Some r"
    show "r < reaction_count ?w"
    proof (cases "q = p")
      case True
      then show ?thesis using links [of r] q(2) unfolding same by simp
    next
      case False
      then show ?thesis using links_okD(2,3) [OF world_okD(2) [OF w(1)], of q r] q unfolding same by auto
    qed
  next
    fix x r' assume "x < reaction_count ?w" "next_reaction (reactions ?w x) = Some r'"
    then show "x < r' \<and> r' < reaction_count ?w"
      using links_okD(1) [OF world_okD(2) [OF w(1)], of x r'] by (simp add: update_promise_def)
  qed
  moreover have "keeps_settled w ?w" using f by (simp add: keeps_settled_def update_promise_def)
  ultimately show ?thesis using world_okI by blast
qed

lemma Then_end_ok:
  assumes ok: "world_ok H w" and p: "p < promise_count w" and run: "Then_end p k f g w = (ok', w')"
  shows "world_ok H w' \<and> keeps_settled w w'"
proof -
  obtain o1 w1 where a: "and_then Record (attempts 4) w = (o1, w1)" by (metis prod.exhaust)
  have t: "tick_only (and_then Record (attempts 4))" by (simp add: ticks)
  obtain c where c: "w1 = w\<lparr>clock := c\<rparr>" using tick_onlyD [OF t a] by blast
  let ?r = "reaction_count w1"
  let ?new = "\<lparr>capability = k, on_fulfilled = (if js_IsCallable w1 f then f else Void),
      on_rejected = (if js_IsCallable w1 g then g else Void), next_reaction = None\<rparr>"
  let ?w2 = "w1\<lparr>reactions := (reactions w1)(?r := ?new), reaction_count := ?r + 1\<rparr>"
  have same: "same_parts w ?w2" by (simp add: c same_parts_def)
  have w2: "world_ok H ?w2"
  proof (rule world_okI)
    show "rights_ok H ?w2" using rights_ok_cong [OF same] world_okD(1) [OF ok] by blast
    show "links_ok ?w2"
    proof (rule links_okI)
      fix x r' assume "x < reaction_count ?w2" "next_reaction (reactions ?w2 x) = Some r'"
      then show "x < r' \<and> r' < reaction_count ?w2"
        using links_okD(1) [OF world_okD(2) [OF ok], of x r'] by (cases "x = ?r") (auto simp: c)
    next
      fix q r' assume "q < promise_count ?w2" "first_reaction (promises ?w2 q) = Some r' \<or> last_reaction (promises ?w2 q) = Some r'"
      then show "r' < reaction_count ?w2" using links_okD(2,3) [OF world_okD(2) [OF ok], of q r'] by (auto simp: c)
    qed
  qed
  have k2: "keeps_settled w ?w2" by (rule keeps_same [OF same])
  have p2: "p < promise_count ?w2" "?r < reaction_count ?w2" using p by (simp_all add: c)
  let ?link = "case last_reaction (promises ?w2 p) of None \<Rightarrow> (\<lambda>w. (True, w))
      | Some t \<Rightarrow> SET (update_reaction t (\<lambda>x. x\<lparr>next_reaction := Some ?r\<rparr>))"
  let ?first = "if first_reaction (promises ?w2 p) = None then SET (update_promise p (\<lambda>x. x\<lparr>first_reaction := Some ?r\<rparr>)) else (\<lambda>w. (True, w))"
  let ?last = "SET (update_promise p (\<lambda>x. x\<lparr>last_reaction := Some ?r\<rparr>))"
  have link: "ok_step H p ?r ?link"
  proof (cases "last_reaction (promises ?w2 p)")
    case None
    then show ?thesis by (simp add: ok_step_skip)
  next
    case (Some t)
    then have "t < ?r" using links_okD(3) [OF world_okD(2) [OF ok] p, of t] by (simp add: c)
    then have "ok_step H p ?r (SET (update_reaction t (\<lambda>x. x\<lparr>next_reaction := Some ?r\<rparr>)))"
      using link_reaction_ok by (intro ok_step_SET) (simp add: update_reaction_def keeps_settled_def)
    then show ?thesis using Some by simp
  qed
  have set_p: "ok_step H p ?r (SET (update_promise p h))"
    if h: "\<And>x. pstate (h x) = pstate x" "\<And>x. presult (h x) = presult x"
      "\<And>x r. first_reaction (h x) = Some r \<or> last_reaction (h x) = Some r \<Longrightarrow> r = ?r \<or> first_reaction x = Some r \<or> last_reaction x = Some r" for h
  proof (rule ok_step_SET)
    fix u assume u: "world_ok H u" "p < promise_count u" "?r < reaction_count u"
    have "r < reaction_count u" if "first_reaction (h (promises u p)) = Some r \<or> last_reaction (h (promises u p)) = Some r" for r
      using h(3) [OF that] u(3) links_okD(2,3) [OF world_okD(2) [OF u(1)] u(2), of r] by blast
    from update_chain_ok [where f = h, OF u(1,2) h(1,2) this] u
    show "world_ok H (update_promise p h u) \<and> keeps_settled u (update_promise p h u) \<and> p < promise_count (update_promise p h u)
        \<and> ?r < reaction_count (update_promise p h u)" by (simp add: update_promise_def)
  qed
  have "ok_step H p ?r (SET (update_promise p (\<lambda>x. x\<lparr>first_reaction := Some ?r\<rparr>)))" by (rule set_p) auto
  then have first: "ok_step H p ?r ?first" by (simp add: ok_step_skip)
  have last: "ok_step H p ?r ?last" by (rule set_p) auto
  have all: "ok_step H p ?r (and_then ?link (and_then ?first ?last))" by (rule ok_step_then [OF link ok_step_then [OF first last]])
  show ?thesis
  proof (cases o1)
    case False
    then show ?thesis using run a c ok by (auto simp: Then_end_def)
  next
    case True
    have run2: "(if pstate (promises ?w2 p) = 0 then and_then ?link (and_then ?first ?last) ?w2
        else QueueReaction ?r (pstate (promises ?w2 p)) (presult (promises ?w2 p)) ?w2) = (ok', w')"
      using run True unfolding Then_end_def a prod.case Let_def by (simp only: not_True_eq_False if_False)
    show ?thesis
    proof (cases "pstate (promises ?w2 p) = 0")
      case True
      have "and_then ?link (and_then ?first ?last) ?w2 = (ok', w')" using run2 unfolding if_P [OF True] .
      from ok_stepD [OF all, OF w2 p2 this] show ?thesis
        using keeps_settled_trans [OF k2] by blast
    next
      case False
      have "QueueReaction ?r (pstate (promises ?w2 p)) (presult (promises ?w2 p)) ?w2 = (ok', w')"
        using run2 unfolding if_not_P [OF False] .
      from queue_reaction_ok [OF w2 this] show ?thesis using keeps_settled_trans [OF k2] by blast
    qed
  qed
qed

lemma capability_begin_ok:
  assumes ok: "world_ok H w" and run: "Capability_begin c w = (r, w')"
  shows "world_ok H w' \<and> keeps_settled w w'"
proof (cases c)
  case False
  then show ?thesis using run type_error_ok [OF ok] by (auto simp: Capability_begin_def)
next
  case True
  obtain o1 w1 where a: "and_then Record Closure w = (o1, w1)" by (metis prod.exhaust)
  have t: "tick_only (and_then Record Closure)" by (simp add: ticks)
  obtain d where d: "w1 = w\<lparr>clock := d\<rparr>" using tick_onlyD [OF t a] by blast
  have "same_parts w w'" "same_links w w'"
    using run a d True by (auto simp: Capability_begin_def same_parts_def same_links_def split: if_splits)
  then show ?thesis using world_ok_cong [of w w' H] keeps_same ok by blast
qed

lemma SET_same:
  assumes "\<And>w. same_parts w (f w)" "\<And>w. same_links w (f w)" "SET f w = (ok, w')"
  shows "same_parts w w' \<and> same_links w w'"
proof -
  obtain c where "w' = (if ok then f (w\<lparr>clock := c\<rparr>) else w\<lparr>clock := c\<rparr>)" using SET_cases [OF assms(3)] by blast
  then show ?thesis using assms(1,2) [of "w\<lparr>clock := c\<rparr>"] by (cases ok) (simp_all add: same_parts_def same_links_def)
qed

lemma same_ok: "same_parts w w' \<and> same_links w w' \<Longrightarrow> world_ok H w \<Longrightarrow> world_ok H w' \<and> keeps_settled w w'"
  using world_ok_cong keeps_same by blast

lemma type_error_ok': "world_ok H w \<Longrightarrow> PromiseTypeError w = (ok, w') \<Longrightarrow> world_ok H w' \<and> keeps_settled w w'"
  using type_error_ok [of H w] by simp

lemma same_capabilities: "same_parts w (w\<lparr>capabilities := c\<rparr>)" "same_links w (w\<lparr>capabilities := c\<rparr>)"
  by (simp_all add: same_parts_def same_links_def)

lemma SET_capabilities_ok:
  assumes "world_ok H w" and run: "SET (\<lambda>w. w\<lparr>capabilities := h w\<rparr>) w = (ok, w')"
  shows "world_ok H w' \<and> keeps_settled w w'"
proof -
  have "same_parts w w' \<and> same_links w w'" by (rule SET_same [OF _ _ run]) (rule same_capabilities)+
  then show ?thesis using same_ok assms(1) by blast
qed

lemma capability_end_ok:
  assumes ok: "world_ok H w" and run: "Capability_end k v w = (ok', w')"
  shows "world_ok H w' \<and> keeps_settled w w'"
proof (cases "js_IsCallable w (cresolve (capabilities w k)) \<and> js_IsCallable w (creject (capabilities w k))")
  case True
  then have "SET (\<lambda>w. w\<lparr>capabilities := (capabilities w)(k := (capabilities w k)\<lparr>cpromise := v\<rparr>)\<rparr>) w = (ok', w')"
    using run by (simp add: Capability_end_def)
  then show ?thesis by (rule SET_capabilities_ok [OF ok])
next
  case False
  then have "PromiseTypeError w = (ok', w')" using run by (auto simp: Capability_end_def)
  then show ?thesis by (rule type_error_ok' [OF ok])
qed

lemma executor_ok:
  assumes ok: "world_ok H w" and run: "CapabilityExecutor k a b w = (ok', w')"
  shows "world_ok H w' \<and> keeps_settled w w'"
proof (cases "cresolve (capabilities w k) \<noteq> Void \<or> creject (capabilities w k) \<noteq> Void")
  case True
  then have "PromiseTypeError w = (ok', w')" using run by (auto simp: CapabilityExecutor_def)
  then show ?thesis by (rule type_error_ok' [OF ok])
next
  case False
  let ?f = "SET (\<lambda>w. w\<lparr>capabilities := (capabilities w)(k := (capabilities w k)\<lparr>cresolve := a\<rparr>)\<rparr>)"
  let ?g = "SET (\<lambda>w. w\<lparr>capabilities := (capabilities w)(k := (capabilities w k)\<lparr>creject := b\<rparr>)\<rparr>)"
  have run': "and_then ?f ?g w = (ok', w')" using run unfolding CapabilityExecutor_def if_not_P [OF False] .
  obtain o1 w1 where f: "?f w = (o1, w1)" by (rule prod.exhaust [of "?f w"])
  note 1 = SET_capabilities_ok [OF ok f]
  show ?thesis
  proof (cases o1)
    case True
    then have "?g w1 = (ok', w')" using run' f by (simp add: and_then_def)
    from SET_capabilities_ok [OF conjunct1 [OF 1] this] show ?thesis using 1 keeps_settled_trans by blast
  next
    case False
    then show ?thesis using run' f 1 by (simp add: and_then_def)
  qed
qed

subsection \<open>Scripts keep the invariant\<close>

definition good :: "world \<Rightarrow> world \<Rightarrow> bool" where
  "good w w' \<longleftrightarrow> (\<forall>H. world_ok H w \<longrightarrow> world_ok H w' \<and> keeps_settled w w')"

lemma goodI: "(\<And>H. world_ok H w \<Longrightarrow> world_ok H w' \<and> keeps_settled w w') \<Longrightarrow> good w w'"
  by (simp add: good_def)

lemma goodD: "good w w' \<Longrightarrow> world_ok H w \<Longrightarrow> world_ok H w' \<and> keeps_settled w w'"
  by (simp add: good_def)

lemma good_trans: "good a b \<Longrightarrow> good b c \<Longrightarrow> good a c"
  unfolding good_def using keeps_settled_trans by blast

lemma good_exception: "good w (w\<lparr>exception := e\<rparr>)"
  by (rule goodI) simp

lemma construct_good:
  assumes s: "good w w1" and n: "new_promise w1 = (r, w2)"
    and rest: "case r of None \<Rightarrow> w' = w2 | Some p \<Rightarrow> \<exists>q w3. ResolvingFunctions p w2 = (q, w3) \<and> good w3 w'"
  shows "good w w'"
proof (rule goodI)
  fix H assume "world_ok H w"
  then have 1: "world_ok H w1" "keeps_settled w w1" using goodD [OF s] by blast+
  note 2 = new_promise_ok [OF 1(1) n]
  show "world_ok H w' \<and> keeps_settled w w'"
  proof (cases r)
    case None
    then show ?thesis using 2 rest keeps_settled_trans [OF 1(2)] by simp
  next
    case (Some p)
    then obtain q w3 where 3: "ResolvingFunctions p w2 = (q, w3)" "good w3 w'" using rest by auto
    have "world_ok (add_mset p H) w2" "keeps_settled w1 w2" using 2 Some by simp_all
    then have "world_ok H w3" "keeps_settled w w3"
      using ResolvingFunctions_ok [OF _ 3(1)] keeps_settled_trans 1(2) by blast+
    then show ?thesis using goodD [OF 3(2)] keeps_settled_trans by blast
  qed
qed

lemma capability_good:
  assumes "Capability_begin c w = (r, w1)" "good w1 w2" "Capability_end k v w2 = (ok, w3)"
  shows "good w w3"
proof -
  have "good w w1" by (rule goodI) (rule capability_begin_ok [OF _ assms(1)])
  moreover have "good w2 w3" by (rule goodI) (rule capability_end_ok [OF _ assms(3)])
  ultimately show ?thesis using assms(2) good_trans by blast
qed

lemma calls_good:
  "invoke f a b w ok r w' \<Longrightarrow> good w w'"
  "construct f w r1 w' \<Longrightarrow> good w w'"
  "with_capability w r2 w' \<Longrightarrow> good w w'"
  "then_call p f' g w r3 w' \<Longrightarrow> good w w'"
  "static_resolution reject v w r4 w' \<Longrightarrow> good w w'"
  "script w w' \<Longrightarrow> good w w'"
proof (induction rule: invoke_construct_with_capability_then_call_static_resolution_script.inducts)
  case (invoke_resolve i w a ok w' b)
  show ?case by (rule goodI) (use Resolve_ok [OF _ invoke_resolve.hyps] in fastforce)
next
  case (invoke_resolve_then i w a p w1 w2 thn ok w' b)
  show ?case
  proof (rule goodI)
    fix H assume "world_ok H w"
    from Resolve_ok [OF this invoke_resolve_then.hyps(1,2)] have 1: "keeps_settled w w1" "world_ok (add_mset p H) w1" by simp_all
    from goodD [OF invoke_resolve_then.IH this(2)] have 2: "keeps_settled w1 w2" "world_ok (add_mset p H) w2" by simp_all
    from Resolve_then_ok [OF this(2) invoke_resolve_then.hyps(4)] show "world_ok H w' \<and> keeps_settled w w'"
      using 1 2 keeps_settled_trans by blast
  qed
next
  case (invoke_reject i w a ok w' b)
  show ?case by (rule goodI) (rule Reject_ok [OF _ invoke_reject.hyps])
next
  case (invoke_executor k w a b ok w')
  show ?case by (rule goodI) (rule executor_ok [OF _ invoke_executor.hyps(2)])
next
  case (construct_refused w f)
  show ?case by (rule goodI) (rule type_error_ok)
next
  case (construct_unmade w w1 w2 f)
  show ?case by (rule construct_good [OF construct_unmade.IH construct_unmade.hyps(2)]) simp
next
  case (construct_bare w w1 p w2 w3 f)
  show ?case by (rule construct_good [OF construct_bare.IH construct_bare.hyps(2)]) (use construct_bare.hyps(3) in \<open>auto intro: goodI\<close>)
next
  case (construct_done w w1 p w2 i w3 f r w4)
  show ?case
    by (rule construct_good [OF construct_done.IH(1) construct_done.hyps(2)]) (use construct_done.hyps(3) construct_done.IH(2) in auto)
next
  case (construct_thrown w w1 p w2 i w3 f r w4 x ok r' w5)
  have "good w3 w5"
    using good_trans [OF construct_thrown.IH(2) good_trans [OF good_exception construct_thrown.IH(3)]] .
  then show ?case
    by (intro construct_good [OF construct_thrown.IH(1) construct_thrown.hyps(2)]) (use construct_thrown.hyps(3) in auto)
next
  case (construct_failed w w1 p w2 i w3 f r w4)
  show ?case
    by (rule construct_good [OF construct_failed.IH(1) construct_failed.hyps(2)]) (use construct_failed.hyps(3) construct_failed.IH(2) in auto)
next
  case (then_done p w w1 k w2 f g ok w3)
  show ?case
  proof (rule goodI)
    fix H assume w: "world_ok H w"
    have 1: "world_ok H w2" "keeps_settled w w2" using goodD [OF good_trans [OF then_done.IH] w] by blast+
    then have "p < promise_count w2" using then_done.hyps(1) by (auto simp: keeps_settled_def)
    from Then_end_ok [OF 1(1) this then_done.hyps(4)] show "world_ok H w3 \<and> keeps_settled w w3" using 1(2) keeps_settled_trans by blast
  qed
next
  case (script_enqueue n w ok w1 w')
  have "good w w1" by (rule goodI) (use enqueue_other_ok [OF _ _ script_enqueue.hyps(1)] in auto)
  then show ?case using script_enqueue.IH good_trans by blast
next
  case (invoke_script w w' n a b ok r)
  show ?case by (rule invoke_script.IH)
next
  case (invoke_not_callable w f a b e)
  show ?case by (rule good_exception)
next
  case (capability_refused c w w1)
  show ?case by (rule goodI) (rule capability_begin_ok [OF _ capability_refused.hyps])
next
  case (capability_builtin w k w1 v w2 ok w3)
  show ?case by (rule capability_good [OF capability_builtin.hyps(1) capability_builtin.IH capability_builtin.hyps(3)])
next
  case (capability_builtin_failed w k w1 w2)
  show ?case by (rule good_trans [OF _ capability_builtin_failed.IH]) (rule goodI, rule capability_begin_ok [OF _ capability_builtin_failed.hyps(1)])
next
  case (capability_script w k w1 w2 v ok w3)
  show ?case by (rule capability_good [OF capability_script.hyps(1) capability_script.IH capability_script.hyps(3)])
next
  case (capability_script_failed w k w1 w2)
  show ?case by (rule good_trans [OF _ capability_script_failed.IH]) (rule goodI, rule capability_begin_ok [OF _ capability_script_failed.hyps(1)])
next
  case (then_lookup_failed w w1 p f g)
  show ?case by (rule then_lookup_failed.IH)
next
  case (then_capability_failed w w1 w2 p f g)
  show ?case by (rule good_trans [OF then_capability_failed.IH])
next
  case (static_same w w1 p)
  show ?case by (rule static_same.IH)
next
  case (static_failed w w1 reject v)
  show ?case by (rule static_failed.IH)
next
  case (static_capability_failed w w1 w2 reject v)
  show ?case by (rule good_trans [OF static_capability_failed.IH])
next
  case (static_done w w1 k w2 reject v ok r w3)
  show ?case by (rule good_trans [OF static_done.IH(1) good_trans [OF static_done.IH(2,3)]])
next
  case (script_end w)
  show ?case by (rule goodI) simp
next
  case (script_exception w e w')
  show ?case by (rule good_trans [OF good_exception script_exception.IH])
next
  case (script_invoke f a b w ok r w1 w')
  show ?case by (rule good_trans [OF script_invoke.IH])
next
  case (script_construct f w r w1 w')
  show ?case by (rule good_trans [OF script_construct.IH])
next
  case (script_then p f g w r w1 w')
  show ?case by (rule good_trans [OF script_then.IH])
next
  case (script_static reject v w r w1 w')
  show ?case by (rule good_trans [OF script_static.IH])
qed
subsection \<open>Turns of the host\<close>

lemma pop_ok:
  assumes ok: "world_ok H w" and h: "head w = Some j"
  shows "keeps_settled w (unlink_head j w)"
    "world_ok (case callback (job_store w j) of ThenableJob p v t \<Rightarrow> add_mset p H | _ \<Rightarrow> H) (unlink_head j w)"
proof -
  let ?u = "unlink_head j w" let ?cb = "callback (job_store w j)"
  let ?H = "case ?cb of ThenableJob p v t \<Rightarrow> add_mset p H | _ \<Rightarrow> H"
  obtain cs where cs: "pending w cs" "\<And>q. live w q + length (filter (thenable_for q) cs) + count H q \<le> allowance w q"
    using rights_okE [OF world_okD(1) [OF ok]] by blast
  obtain rest where rest: "cs = ?cb # rest" "pending ?u rest" using unlink_pending [OF cs(1) h] by blast
  have same: "live ?u q = live w q" "allowance ?u q = allowance w q" for q
    by (simp_all add: unlink_head_def Let_def live_def allowance_def)
  have "length (filter (thenable_for q) rest) + count ?H q = length (filter (thenable_for q) cs) + count H q" for q
    unfolding rest(1) by (cases ?cb) auto
  then have "live ?u q + length (filter (thenable_for q) rest) + count ?H q \<le> allowance ?u q" for q
    using cs(2) [of q] unfolding same by (simp add: add.assoc)
  then have "rights_ok ?H ?u" using rights_okI [OF rest(2)] by blast
  moreover have "links_ok ?u"
    using links_ok_cong [of ?u w] world_okD(2) [OF ok] by (simp add: unlink_head_def Let_def same_links_def)
  ultimately show "world_ok ?H ?u" by (rule world_okI)
  show "keeps_settled w ?u" by (simp add: unlink_head_def Let_def keeps_settled_def)
qed

lemma thenable_job_ok:
  assumes u: "world_ok (add_mset p H) u" and r: "ResolvingFunctions p u = (q, u1)" and g: "good u1 w'"
  shows "world_ok H w' \<and> keeps_settled u w'"
  using ResolvingFunctions_ok [OF u r] goodD [OF g] keeps_settled_trans by blast

lemma job_ok:
  assumes "run_job job u ok w'" "world_ok (case job of ThenableJob p v t \<Rightarrow> add_mset p H | _ \<Rightarrow> H) u"
  shows "world_ok H w' \<and> keeps_settled u w'"
  using assms
proof (cases rule: run_job.cases)
  case (thenable_bare p v t)
  then show ?thesis using assms(2) ResolvingFunctions_ok [of p H u None w'] by simp
next
  case (thenable_done p i w1 t r v)
  show ?thesis by (rule thenable_job_ok [OF _ thenable_done(3) calls_good(1) [OF thenable_done(4)]]) (use assms(2) thenable_done in simp)
next
  case (thenable_thrown p i w1 t r w2 x r' v)
  have "good w1 w'"
    by (rule good_trans [OF calls_good(1) [OF thenable_thrown(3)] good_trans [OF good_exception calls_good(1) [OF thenable_thrown(5)]]])
  from thenable_job_ok [OF _ thenable_thrown(2) this] show ?thesis using assms(2) thenable_thrown(1) by simp
next
  case (thenable_failed p i w1 t r v)
  show ?thesis by (rule thenable_job_ok [OF _ thenable_failed(3) calls_good(1) [OF thenable_failed(4)]]) (use assms(2) thenable_failed in simp)
next
  case (reaction_direct r state arg x)
  show ?thesis by (rule goodD [OF calls_good(1) [OF reaction_direct(3)]]) (use assms(2) reaction_direct in simp)
next
  case (reaction_handled r state arg y w1 x)
  show ?thesis
    by (rule goodD [OF good_trans [OF calls_good(1) [OF reaction_handled(3)] calls_good(1) [OF reaction_handled(4)]]])
      (use assms(2) reaction_handled in simp)
next
  case (reaction_thrown r state arg y w1 e x)
  show ?thesis
    by (rule goodD [OF good_trans [OF calls_good(1) [OF reaction_thrown(3)] good_trans [OF good_exception calls_good(1) [OF reaction_thrown(5)]]]])
      (use assms(2) reaction_thrown in simp)
next
  case (reaction_failed r state arg y)
  show ?thesis by (rule goodD [OF calls_good(1) [OF reaction_failed(4)]]) (use assms(2) reaction_failed in simp)
next
  case (host_job n)
  show ?thesis by (rule goodD [OF calls_good(6) [OF host_job(2)]]) (use assms(2) host_job in simp)
qed

lemma clear_ok: "world_ok H w \<Longrightarrow> world_ok H (js_ClearJobs w) \<and> keeps_settled w (js_ClearJobs w)"
proof -
  assume ok: "world_ok H w"
  let ?w = "js_ClearJobs w"
  obtain cs where cs: "\<And>q. live w q + length (filter (thenable_for q) cs) + count H q \<le> allowance w q"
    using rights_okE [OF world_okD(1) [OF ok]] by blast
  have "pending ?w []" by (simp add: pending_Nil js_ClearJobs_def)
  moreover have "live ?w q + length (filter (thenable_for q) []) + count H q \<le> allowance ?w q" for q
    using cs [of q] by (simp add: js_ClearJobs_def live_def allowance_def)
  ultimately have "rights_ok H ?w" by (rule rights_okI)
  moreover have "links_ok ?w"
    using links_ok_cong [of ?w w] world_okD(2) [OF ok] by (simp add: js_ClearJobs_def same_links_def)
  ultimately show ?thesis using world_okI by (simp add: js_ClearJobs_def keeps_settled_def)
qed

lemma turn_ok:
  assumes "turn w w'" "world_ok {#} w" shows "world_ok {#} w' \<and> keeps_settled w w'"
  using assms
proof (induction rule: turn.induct)
  case (turn_script w w')
  show ?case by (rule goodD [OF calls_good(6) [OF turn_script(1)] turn_script(2)])
next
  case (turn_job w j ok w')
  note p = pop_ok [OF turn_job(3) turn_job(1)]
  show ?case using job_ok [OF turn_job(2) p(2)] keeps_settled_trans [OF p(1)] by blast
next
  case (turn_clear w)
  then show ?case by (rule clear_ok)
qed

lemma initial_ok: "initial w \<Longrightarrow> world_ok {#} w"
proof -
  assume i: "initial w"
  have "pending w []" using i by (simp add: pending_Nil initial_def)
  moreover have "live w q + length (filter (thenable_for q) []) + count {#} q \<le> allowance w q" for q
    using i by (simp add: live_def initial_def)
  ultimately have "rights_ok {#} w" by (rule rights_okI)
  then show ?thesis using i by (simp add: world_ok_def links_ok_def initial_def)
qed

lemma reachable_ok: "reachable w \<Longrightarrow> world_ok {#} w"
  by (induction rule: reachable.induct) (use initial_ok turn_ok in blast)+

lemma turns_keep: "turn\<^sup>*\<^sup>* w w' \<Longrightarrow> world_ok {#} w \<Longrightarrow> world_ok {#} w' \<and> keeps_settled w w'"
proof (induction rule: rtranclp_induct)
  case (step y z)
  then show ?case using turn_ok [of y z] keeps_settled_trans by blast
qed simp
subsection \<open>Settled once\<close>

text \<open>C1. Whatever scripts and jobs run, in whatever order and with whatever failures, a promise that is settled
  keeps its state and its result for ever.\<close>

theorem promise_settles_once:
  assumes "reachable w" "turn\<^sup>*\<^sup>* w w'" "p < promise_count w" "pstate (promises w p) \<noteq> 0"
  shows "p < promise_count w' \<and> pstate (promises w' p) = pstate (promises w p) \<and> presult (promises w' p) = presult (promises w p)"
  using turns_keep [OF assms(2) reachable_ok [OF assms(1)]] assms(3,4) by (auto simp: keeps_settled_def)

text \<open>C2. The assertion that a promise about to be settled is pending never fails, neither in a resolving function
  that was not called yet nor in one that goes on after the script that looked up \<open>then\<close> has run, and the walk over
  the reactions of the promise ends.\<close>

theorem promise_assertion_holds:
  assumes "reachable w" "i < resolving_count w"
  shows "(\<not> called (resolvings w i) \<longrightarrow> pstate (promises w (target (resolvings w i))) = 0) \<and>
    Resolve i v w \<noteq> None \<and> Reject i v w \<noteq> None \<and>
    (\<forall>p w1 w2 thn. Resolve i v w = Some (LookUpThen p, w1) \<and> script w1 w2 \<longrightarrow>
       pstate (promises w2 p) = 0 \<and> Resolve_then p v thn w2 \<noteq> None)"
proof -
  have ok: "world_ok {#} w" by (rule reachable_ok [OF assms(1)])
  have "pstate (promises w2 p) = 0 \<and> Resolve_then p v thn w2 \<noteq> None"
    if r: "Resolve i v w = Some (LookUpThen p, w1)" and s: "script w1 w2" for p w1 w2 thn
  proof -
    have "world_ok (add_mset p {#}) w1" using Resolve_ok [OF ok assms(2) r] by simp
    then have "world_ok (add_mset p {#}) w2" using goodD [OF calls_good(6) [OF s]] by blast
    then show ?thesis using held_pending Resolve_then_defined by blast
  qed
  moreover have "pstate (promises w (target (resolvings w i))) = 0" if "\<not> called (resolvings w i)"
    using held_pending(2) [OF mark_called_ok(1) [OF ok assms(2) that]] by (simp add: mark_called_def)
  ultimately show ?thesis using Resolve_defined [OF ok assms(2)] Reject_defined [OF ok assms(2)] by blast
qed

subsection \<open>A world with one promise\<close>

definition empty_world :: world where
  "empty_world = \<lparr>job_store = \<lambda>_. \<lparr>callback = HostJob 0, next_job = None\<rparr>, job_count = 0, head = None, tail = None, draining = False,
     promises = \<lambda>_. \<lparr>pstate = 0, presult = Void, first_reaction = None, last_reaction = None\<rparr>, promise_count = 0,
     reactions = \<lambda>_. \<lparr>capability = 0, on_fulfilled = Void, on_rejected = Void, next_reaction = None\<rparr>, reaction_count = 0,
     resolvings = \<lambda>_. \<lparr>target = 0, called = False\<rparr>, resolving_count = 0,
     capabilities = \<lambda>_. \<lparr>cpromise = Void, cresolve = Void, creject = Void\<rparr>, capability_count = 0,
     exception = None, allowed = \<lambda>_. True, clock = 0, script_callable = \<lambda>_. True\<rparr>"

definition one_promise :: world where
  "one_promise = snd (ResolvingFunctions 0 (snd (new_promise empty_world)))"

definition one_settled :: world where
  "one_settled = snd (the (Resolve 0 (Prim 5) one_promise))"

lemma one_promise_made: "fst (new_promise empty_world) = Some 0"
  "fst (ResolvingFunctions 0 (snd (new_promise empty_world))) = Some 0"
  "resolving_count one_promise = 1" "promise_count one_promise = 1"
  by code_simp+

lemma one_settled_made: "map_option fst (Resolve 0 (Prim 5) one_promise) = Some (Returned True)"
  "pstate (promises one_settled 0) = 1" "presult (promises one_settled 0) = Prim 5" "promise_count one_settled = 1"
  by code_simp+

lemma one_promise_reachable: "reachable one_promise"
proof -
  have "new_promise empty_world = (Some 0, snd (new_promise empty_world))"
    "ResolvingFunctions 0 (snd (new_promise empty_world)) = (Some 0, one_promise)"
    using one_promise_made(1,2) by (metis prod.collapse one_promise_def)+
  from construct_done [OF script_end this invoke_script [OF script_end]] script_construct [OF _ script_end]
  have "script empty_world one_promise" by blast
  moreover have "reachable empty_world" by (rule start) (simp add: initial_def empty_world_def)
  ultimately show ?thesis using turns turn_script by blast
qed

lemma one_settled_reachable: "reachable one_settled"
proof -
  have "Resolve 0 (Prim 5) one_promise = Some (Returned True, one_settled)"
    using one_settled_made(1) by (auto simp: one_settled_def)
  then have "script one_promise one_settled"
    using invoke_resolve [of 0 one_promise "Prim 5" True one_settled Void] script_invoke [OF _ script_end] one_promise_made(3) by simp
  then show ?thesis using turns [OF one_promise_reachable] turn_script by blast
qed

theorem promise_settles_once_witness:
  "presult (promises (js_ClearJobs one_settled) 0) = Prim 5"
  using promise_settles_once [OF one_settled_reachable r_into_rtranclp [where r = turn, OF turn_clear], of 0] one_settled_made by simp

theorem promise_assertion_holds_witness: "Reject 0 (Prim 1) one_promise \<noteq> None"
  using promise_assertion_holds [OF one_promise_reachable, of 0 "Prim 1"] one_promise_made by simp

end
