(* ===== verification/Promise_Order.thy ===== *)
theory Promise_Order
  imports Promise_Correct
begin

text \<open>
  The reactions of a promise: \<open>Then\<close> appends to their list, and settling the promise queues one job for each of them in
  the order of the list.
\<close>

fun reactions_from :: "world \<Rightarrow> nat option \<Rightarrow> nat list \<Rightarrow> bool" where
  "reactions_from w a [] = (a = None)"
| "reactions_from w a (r # rs) = (a = Some r \<and> reactions_from w (next_reaction (reactions w r)) rs)"

lemma reactions_from_cong: "reactions w' = reactions w \<Longrightarrow> reactions_from w' a rs = reactions_from w a rs"
  by (induction w a rs rule: reactions_from.induct) auto

lemma enqueue_order:
  assumes "pending w cs" "enqueue job w = (ok, w')"
  shows "pending w' (if ok then cs @ [job] else cs) \<and> same_links w w' \<and> promises w' = promises w"
proof -
  obtain w1 where e: "JS_EnqueueJob (\<lambda>i. allowed w (clock w + i)) True job w = (ok, w1)" and w': "w' = w1\<lparr>clock := clock w + 5\<rparr>"
    using assms(2) by (auto simp: enqueue_def split: prod.splits)
  note ep = enqueue_pending [OF assms(1) e]
  have "reactions w1 = reactions w" "reaction_count w1 = reaction_count w" "promises w1 = promises w"
    using ep by (subst conjunct1 [OF conjunct2 [OF ep], unfolded only_queue_def], simp)+
  then show ?thesis using ep w' pending_cong [of w' w1] by (simp add: same_links_def)
qed

lemma queue_reaction_order:
  assumes "pending w cs" "QueueReaction r st arg w = (ok, w')"
  shows "pending w' (if ok then cs @ [ReactionJob r st arg] else cs) \<and> same_links w w' \<and> promises w' = promises w"
proof -
  let ?f = "and_then (and_then (and_then JobGlobal Record) (attempts 3)) Closure"
  have t: "tick_only ?f" by (simp add: ticks)
  have "and_then ?f (enqueue (ReactionJob r st arg)) w = (ok, w')"
    using assms(2) by (simp add: QueueReaction_def and_then_assoc)
  then obtain c where c: "ok = False \<and> w' = w\<lparr>clock := c\<rparr> \<or> enqueue (ReactionJob r st arg) (w\<lparr>clock := c\<rparr>) = (ok, w')"
    by (rule seq_enqueue [OF t])
  have pc: "pending (w\<lparr>clock := c\<rparr>) cs" using assms(1) pending_cong [of "w\<lparr>clock := c\<rparr>" w] by simp
  from c show ?thesis
  proof
    assume e: "enqueue (ReactionJob r st arg) (w\<lparr>clock := c\<rparr>) = (ok, w')"
    from enqueue_order [OF pc e] show ?thesis by (simp add: same_links_def)
  qed (use pc in simp)
qed

lemma settle_loop_order:
  assumes "pending w cs" "reactions_from w a rs" "length rs \<le> n"
  shows "\<exists>ok w' k. settle_loop n a st arg w = Some (ok, w') \<and> pending w' (cs @ map (\<lambda>r. ReactionJob r st arg) (take k rs)) \<and>
    promises w' = promises w \<and> (ok \<longrightarrow> length rs \<le> k)"
  using assms
proof (induction n a st arg w arbitrary: cs rs rule: settle_loop.induct)
  case (1 n st arg w)
  then show ?case by (cases rs) auto
next
  case (2 r st arg w)
  then show ?case by (cases rs) auto
next
  case (3 n r st arg w)
  obtain rs' where rs: "rs = r # rs'" "reactions_from w (next_reaction (reactions w r)) rs'" using "3.prems"(2) by (cases rs) auto
  obtain o1 w1 where q: "QueueReaction r st arg w = (o1, w1)" by (metis prod.exhaust)
  note qo = queue_reaction_order [OF "3.prems"(1) q]
  show ?case
  proof (cases o1)
    case False
    then show ?thesis using qo q by (auto intro!: exI [of _ 0])
  next
    case True
    have same: "reactions w1 = reactions w" using qo by (simp add: same_links_def)
    have "reactions_from w1 (next_reaction (reactions w1 r)) rs'"
      unfolding reactions_from_cong [OF same] unfolding same by (rule rs(2))
    from "3.IH" [OF q [symmetric] True _ this, of "cs @ [ReactionJob r st arg]"] qo True rs(1) "3.prems"(3)
    obtain ok w' k where k: "settle_loop n (next_reaction (reactions w1 r)) st arg w1 = Some (ok, w')"
      "pending w' (cs @ map (\<lambda>r. ReactionJob r st arg) (take (Suc k) rs))" "promises w' = promises w" "ok \<longrightarrow> length rs \<le> Suc k" by auto
    have "settle_loop (Suc n) (Some r) st arg w = Some (ok, w')" using q True k(1) by simp
    then show ?thesis using k(2-4) by blast
  qed
qed

text \<open>Operations that fail only when something they ask for is not allowed.\<close>

definition sure :: "operation \<Rightarrow> bool" where
  "sure f \<longleftrightarrow> (\<forall>w. (\<forall>i. allowed w i) \<longrightarrow> fst (f w) \<and> allowed (snd (f w)) = allowed w)"

lemma sure_attempt: "sure attempt"
  by (simp add: sure_def attempt_def)

lemma sure_and_then: "sure f \<Longrightarrow> sure g \<Longrightarrow> sure (and_then f g)"
  unfolding sure_def and_then_def by (auto split: prod.split)

lemma sure_attempts: "sure (attempts n)"
proof (induction n)
  case (Suc n)
  then show ?case using sure_and_then [OF sure_attempt] by simp
qed (simp add: sure_def)

lemma sure_enqueue: "sure (enqueue job)"
  by (auto simp: sure_def enqueue_def JS_EnqueueJob_def link_next_def Let_def split: option.split)

lemma sure_store: "sure (SET (update_promise p f))"
  by (simp add: sure_def SET_def attempt_def update_promise_def)

lemma sure_queue: "sure (QueueReaction r st arg)"
  unfolding QueueReaction_def JobGlobal_def Record_def Closure_def
  by (intro sure_and_then sure_attempt sure_attempts sure_enqueue)

lemma sure_stores: "sure (settle_stores p st arg)"
  unfolding settle_stores_def by (intro sure_and_then sure_store)

lemma settle_loop_sure:
  "(\<forall>i. allowed w i) \<Longrightarrow> settle_loop n a st arg w = Some (ok, w') \<Longrightarrow> ok"
proof (induction n a st arg w rule: settle_loop.induct)
  case (3 n r st arg w)
  obtain o1 w1 where q: "QueueReaction r st arg w = (o1, w1)" by (metis prod.exhaust)
  have "o1 \<and> allowed w1 = allowed w" using sure_queue [of r st arg] 3(2) q unfolding sure_def by (metis fst_conv snd_conv)
  then show ?case using "3.IH" [OF q [symmetric]] 3(2,3) q by simp
qed simp_all

text \<open>\<open>registered w p rs\<close>: the reactions registered on the promise \<open>p\<close> are \<open>rs\<close>, in this order.\<close>

definition registered :: "world \<Rightarrow> nat \<Rightarrow> nat list \<Rightarrow> bool" where
  "registered w p rs \<longleftrightarrow> reactions_from w (first_reaction (promises w p)) rs \<and> distinct rs \<and>
     (\<forall>r \<in> set rs. r < reaction_count w) \<and> last_reaction (promises w p) = (if rs = [] then None else Some (last rs))"

lemma registered_length: "registered w p rs \<Longrightarrow> length rs \<le> reaction_count w"
  using distinct_card [of rs] card_mono [of "{..<reaction_count w}" "set rs"] by (fastforce simp: registered_def)

text \<open>C15. Settling a promise ends.  It puts jobs for the reactions registered on the promise at the end of the queue, in
  the order in which they were registered: on success one for each of them, and the state and the result are stored; when
  a step fails on the way, one for each of the first few.  It fails only when an allocation or a store fails.\<close>

theorem settle_queues_in_order:
  assumes q: "pending w cs" and rs: "registered w p rs"
  shows "\<exists>ok w' k. Settle p st arg w = Some (ok, w') \<and> pending w' (cs @ map (\<lambda>r. ReactionJob r st arg) (take k rs)) \<and>
    (ok \<longrightarrow> length rs \<le> k \<and> pstate (promises w' p) = st \<and> presult (promises w' p) = arg) \<and> ((\<forall>i. allowed w i) \<longrightarrow> ok)"
proof -
  obtain o1 w1 where s: "settle_stores p st arg w = (o1, w1)" by (metis prod.exhaust)
  have run: "Settle p st arg w =
      (if o1 then settle_loop (reaction_count w1) (first_reaction (promises w p)) st arg w1 else Some (False, w1))"
    using s by (simp add: Settle_def settle_stores_def Let_def)
  have sure: "(\<forall>i. allowed w i) \<longrightarrow> o1 \<and> allowed w1 = allowed w"
    using sure_stores [of p st arg] s unfolding sure_def by (metis fst_conv snd_conv)
  obtain f c where f: "w1 = update_promise p f (w\<lparr>clock := c\<rparr>)" "o1 \<longrightarrow> (\<forall>x. pstate (f x) = st \<and> presult (f x) = arg)"
    using settle_stores_shape [OF s] by blast
  have p1: "pending w1 cs" using q pending_cong [of w1 w] f(1) by (simp add: update_promise_def)
  show ?thesis
  proof (cases o1)
    case False
    then show ?thesis using run p1 sure by (auto intro!: exI [of _ 0])
  next
    case True
    have stored: "pstate (promises w1 p) = st \<and> presult (promises w1 p) = arg" using f True by (simp add: update_promise_def)
    have "reactions_from w1 (first_reaction (promises w p)) rs"
      using rs reactions_from_cong [of w1 w] f(1) by (simp add: update_promise_def registered_def)
    moreover have "length rs \<le> reaction_count w1" using registered_length [OF rs] f(1) by (simp add: update_promise_def)
    ultimately obtain ok w' k where k: "settle_loop (reaction_count w1) (first_reaction (promises w p)) st arg w1 = Some (ok, w')"
      "pending w' (cs @ map (\<lambda>r. ReactionJob r st arg) (take k rs))" "promises w' = promises w1" "ok \<longrightarrow> length rs \<le> k"
      using settle_loop_order [OF p1] by blast
    have "(\<forall>i. allowed w i) \<longrightarrow> ok" using sure settle_loop_sure [OF _ k(1)] by auto
    then show ?thesis using run True k stored by auto
  qed
qed

subsection \<open>Registering\<close>

lemma reactions_from_snoc:
  assumes "reactions_from w a rs" "distinct rs" "rs \<noteq> []" "new \<notin> set rs"
    and "\<And>r. r \<in> set rs \<Longrightarrow> next_reaction (reactions w' r) = (if r = last rs then Some new else next_reaction (reactions w r))"
    and "next_reaction (reactions w' new) = None"
  shows "reactions_from w' a (rs @ [new])"
  using assms
proof (induction w a rs rule: reactions_from.induct)
  case (2 w a r rs)
  show ?case
  proof (cases "rs = []")
    case True
    then show ?thesis using 2 by simp
  next
    case False
    then have "r \<noteq> last rs" using 2 by auto
    then have "next_reaction (reactions w' r) = next_reaction (reactions w r)" using 2 False by simp
    moreover have "reactions_from w' (next_reaction (reactions w r)) (rs @ [new])"
      by (rule "2.IH") (use 2 False in auto)
    ultimately show ?thesis using 2 by simp
  qed
qed simp

lemma SET_done: "SET f w = (True, w') \<Longrightarrow> \<exists>c. w' = f (w\<lparr>clock := c\<rparr>)"
  by (auto simp: SET_def attempt_def split: if_splits)

lemma and_then_done: "and_then f g w = (True, w') \<Longrightarrow> \<exists>w1. f w = (True, w1) \<and> g w1 = (True, w')"
  by (auto simp: and_then_def split: prod.splits if_splits)

lemma callable_clock: "js_IsCallable (w\<lparr>clock := c\<rparr>) v = js_IsCallable w v"
  by (cases v) simp_all

text \<open>C16. A successful \<open>then\<close> on a pending promise puts its reaction, with the callable ones of the two handlers, at the end
  of the reactions registered on the promise, and starts no job.\<close>

theorem then_registers:
  assumes reg: "registered w p rs" and pend: "pstate (promises w p) = 0"
    and run: "Then_end p k f g w = (True, w')"
  shows "registered w' p (rs @ [reaction_count w]) \<and>
    reactions w' (reaction_count w) = \<lparr>capability = k, on_fulfilled = (if js_IsCallable w f then f else Void),
      on_rejected = (if js_IsCallable w g then g else Void), next_reaction = None\<rparr> \<and> head w' = head w"
proof -
  let ?r = "reaction_count w"
  define new where "new = \<lparr>capability = k, on_fulfilled = (if js_IsCallable w f then f else Void),
      on_rejected = (if js_IsCallable w g then g else Void), next_reaction = None\<rparr>"
  obtain o1 w1 where a: "and_then Record (attempts 4) w = (o1, w1)" by (metis prod.exhaust)
  have "tick_only (and_then Record (attempts 4))" by (simp add: ticks)
  from tick_onlyD [OF this a] obtain c where w1: "w1 = w\<lparr>clock := c\<rparr>" by blast
  define w2 where "w2 = w\<lparr>clock := c, reactions := (reactions w)(?r := new), reaction_count := ?r + 1\<rparr>"
  let ?first = "if first_reaction (promises w p) = None
      then SET (update_promise p (\<lambda>x. x\<lparr>first_reaction := Some ?r\<rparr>)) else (\<lambda>w. (True, w))"
  let ?last = "SET (update_promise p (\<lambda>x. x\<lparr>last_reaction := Some ?r\<rparr>))"
  have body: "and_then (case last_reaction (promises w p) of None \<Rightarrow> (\<lambda>w. (True, w))
      | Some t \<Rightarrow> SET (update_reaction t (\<lambda>x. x\<lparr>next_reaction := Some ?r\<rparr>))) (and_then ?first ?last) w2 = (True, w')"
    using run a pend unfolding Then_end_def w2_def new_def by (cases o1) (simp_all add: w1 callable_clock Let_def cong: if_cong option.case_cong split del: if_split)
  show ?thesis
  proof (cases "rs = []")
    case True
    then have e: "first_reaction (promises w p) = None" "last_reaction (promises w p) = None" using reg by (simp_all add: registered_def)
    from body have "and_then ?first ?last w2 = (True, w')" by (simp add: e and_then_def)
    then obtain c1 c2 where "w' = update_promise p (\<lambda>x. x\<lparr>last_reaction := Some ?r\<rparr>)
        ((update_promise p (\<lambda>x. x\<lparr>first_reaction := Some ?r\<rparr>) (w2\<lparr>clock := c1\<rparr>))\<lparr>clock := c2\<rparr>)"
      using and_then_done [of ?first ?last w2 w'] by (auto simp: e dest!: SET_done)
    then show ?thesis using True unfolding w2_def by (simp add: registered_def update_promise_def new_def)
  next
    case False
    then have e: "first_reaction (promises w p) \<noteq> None" "last_reaction (promises w p) = Some (last rs)"
      using reg by (cases rs; auto simp: registered_def)+
    let ?link = "SET (update_reaction (last rs) (\<lambda>x. x\<lparr>next_reaction := Some ?r\<rparr>))"
    have "and_then ?link ?last w2 = (True, w')" using body e by (auto simp: and_then_def split: prod.splits if_splits)
    then obtain c1 c2 where w': "w' = update_promise p (\<lambda>x. x\<lparr>last_reaction := Some ?r\<rparr>)
        ((update_reaction (last rs) (\<lambda>x. x\<lparr>next_reaction := Some ?r\<rparr>) (w2\<lparr>clock := c1\<rparr>))\<lparr>clock := c2\<rparr>)"
      by (auto dest!: and_then_done SET_done)
    have ok: "reactions_from w (first_reaction (promises w p)) rs" "distinct rs" "\<forall>r \<in> set rs. r < ?r"
      using reg by (simp_all add: registered_def)
    then have fresh: "?r \<notin> set rs" "last rs \<noteq> ?r" using last_in_set [OF False] by auto
    have "reactions_from w' (first_reaction (promises w p)) (rs @ [?r])"
      by (rule reactions_from_snoc [OF ok(1,2) False fresh(1)])
        (use fresh in \<open>auto simp: w' w2_def new_def update_promise_def update_reaction_def\<close>)
    then show ?thesis
      using ok fresh False unfolding w' w2_def
      by (simp add: registered_def update_promise_def update_reaction_def new_def less_Suc_eq)
  qed
qed

definition two_reactions :: world where
  "two_reactions = snd (Then_end 0 0 Void Void (snd (Then_end 0 0 Void Void one_promise)))"

lemma two_made: "fst (Then_end 0 0 Void Void one_promise)" "fst (Then_end 0 0 Void Void (snd (Then_end 0 0 Void Void one_promise)))"
  by code_simp+

lemma two_registered: "registered two_reactions 0 [0, 1]"
  by code_simp

theorem settle_queues_in_order_witness:
  "\<exists>w'. Settle 0 1 (Prim 5) two_reactions = Some (True, w') \<and> pending w' [ReactionJob 0 1 (Prim 5), ReactionJob 1 1 (Prim 5)]"
proof -
  have "head two_reactions = None" "tail two_reactions = None" by code_simp+
  then have "pending two_reactions []" by (simp add: pending_Nil)
  moreover have "allowed two_reactions i" for i by code_simp
  ultimately show ?thesis using settle_queues_in_order [OF _ two_registered, of "[]" 1 "Prim 5"] by fastforce
qed

theorem then_registers_witness: "registered two_reactions 0 [0, 1]"
proof -
  let ?w = "snd (Then_end 0 0 Void Void one_promise)"
  have "registered one_promise 0 []" by code_simp
  moreover have "Then_end 0 0 Void Void one_promise = (True, ?w)" "Then_end 0 0 Void Void ?w = (True, two_reactions)"
    using two_made by (simp_all add: two_reactions_def prod_eq_iff)
  moreover have "pstate (promises one_promise 0) = 0" "pstate (promises ?w 0) = 0" "reaction_count one_promise = 0" "reaction_count ?w = 1"
    by code_simp+
  ultimately show ?thesis
    using then_registers [of one_promise 0 "[]" 0 Void Void ?w] then_registers [of ?w 0 "[0]" 0 Void Void two_reactions] by simp
qed

end
