(* ===== verification/Jobs_Correct.thy ===== *)
theory Jobs_Correct
  imports Jobs
begin

text \<open>
  The job queue is first in, first out, and draining it ends with an empty queue when the jobs that jobs enqueue
  become fewer.
\<close>

text \<open>C16. A job enqueued goes to the end of the pending jobs, or the call fails and they are unchanged; the job run
  next is the first of them, and it leaves the queue before it runs.\<close>

theorem jobs_fifo:
  assumes "pending q cs"
  shows "(\<forall>alloc callable cb ok q'. JS_EnqueueJob alloc callable cb q = (ok, q') \<longrightarrow>
      pending q' (if ok then cs @ [cb] else cs) \<and> (callable \<and> (\<forall>i. alloc i) \<longrightarrow> ok)) \<and>
    (\<forall>job. head q = Some job \<longrightarrow> (\<exists>rest. cs = callback (job_store q job) # rest \<and> pending (unlink_head job q) rest)) \<and>
    JS_HasPendingJobs q = (cs \<noteq> [])"
proof (intro conjI allI impI)
  fix alloc callable cb ok q' assume e: "JS_EnqueueJob alloc callable cb q = (ok, q')"
  show "pending q' (if ok then cs @ [cb] else cs)" using enqueue_pending [OF assms e] by blast
  show "ok" if "callable \<and> (\<forall>i. alloc i)" using enqueue_pending [OF assms e] that by blast
next
  fix job assume "head q = Some job"
  from unlink_pending [OF assms this]
  show "\<exists>rest. cs = callback (job_store q job) # rest \<and> pending (unlink_head job q) rest" by blast
next
  show "JS_HasPendingJobs q = (cs \<noteq> [])" using pending_head [OF assms] by (simp add: JS_HasPendingJobs_def)
qed

lemma pending_draining:
  assumes "pending q cs"
  shows "pending (q\<lparr>draining := d\<rparr>) cs"
proof -
  obtain js where js: "queue_ok q js" "cs = map (\<lambda>j. callback (job_store q j)) js" using assms by (auto simp: pending_def)
  then have "jobs_from (q\<lparr>draining := d\<rparr>) (head q) js"
    using jobs_from_cong [of q "head q" js "q\<lparr>draining := d\<rparr>"] by (simp add: queue_ok_def)
  then show ?thesis using js unfolding pending_def queue_ok_def by (intro exI [of _ js]) simp
qed

text \<open>The loop ends when each job enqueues jobs that weigh less than it, also when the branch callback stops it or a job
  fails; then what is left of the queue is still a queue.\<close>

lemma drain_ends:
  fixes weight :: "'c \<Rightarrow> nat"
  assumes branch: "\<And>q cs. pending q cs \<Longrightarrow> \<exists>go q'. branch q = (go, q') \<and> pending q' cs \<and> head q' = head q"
    and invoke: "\<And>c q cs. pending q cs \<Longrightarrow> \<exists>ok q' new. invoke c q = (ok, q') \<and> pending q' (cs @ new) \<and> sum_list (map weight new) < weight c"
    and "pending q cs"
  shows "\<exists>ok q' rest. run_loop branch invoke q = Some (ok, q') \<and> pending q' rest \<and> (ok \<longrightarrow> rest = []) \<and>
    ((\<forall>q. fst (branch q)) \<and> (\<forall>c q. fst (invoke c q)) \<longrightarrow> ok)"
  using assms(3)
proof (induction "sum_list (map weight cs)" arbitrary: q cs rule: less_induct)
  case less
  show ?case
  proof (cases "head q")
    case None
    then have "cs = []" using pending_head [OF less.prems] by simp
    then show ?thesis using None less.prems by (subst run_loop.simps) auto
  next
    case (Some job)
    obtain go q1 where b: "branch q = (go, q1)" "pending q1 cs" "head q1 = Some job" using branch [OF less.prems] Some by auto
    show ?thesis
    proof (cases go)
      case False
      then have "run_loop branch invoke q = Some (False, q1)" by (subst run_loop.simps) (simp add: Some b(1))
      moreover have "\<not> fst (branch q)" using b(1) False by simp
      ultimately show ?thesis using b(2) by blast
    next
      case True
      obtain rest where rest: "cs = callback (job_store q1 job) # rest" "pending (unlink_head job q1) rest"
        using unlink_pending [OF b(2,3)] by blast
      obtain ok q2 new where i: "invoke (callback (job_store q1 job)) (unlink_head job q1) = (ok, q2)" "pending q2 (rest @ new)"
        "sum_list (map weight new) < weight (callback (job_store q1 job))" using invoke [OF rest(2)] by blast
      have "sum_list (map weight (rest @ new)) < sum_list (map weight cs)" using rest(1) i(3) by simp
      note more = less.hyps [OF this i(2)]
      have loop: "run_loop branch invoke q = (if \<not> ok then Some (False, q2) else run_loop branch invoke q2)"
        by (subst run_loop.simps) (simp add: Some b(1) i(1) True)
      show ?thesis
      proof (cases ok)
        case False
        then have "\<not> (\<forall>c q. fst (invoke c q))" using i(1) by (metis fst_conv)
        moreover have "run_loop branch invoke q = Some (False, q2)" using loop False by simp
        ultimately show ?thesis using i(2) by blast
      next
        case True
        then have "run_loop branch invoke q = run_loop branch invoke q2" using loop by simp
        then show ?thesis using more by (simp only:)
      qed
    qed
  qed
qed

text \<open>C17. A checkpoint inside a checkpoint does nothing and succeeds, and one with an exception pending does nothing and
  fails.  Otherwise, when the jobs that each job enqueues weigh less than it, the checkpoint ends, whatever the branch
  callback answers and whichever jobs fail, and it is not draining afterwards.  On success no job is left, after a stop
  or a failure the queue is still well formed, and without either the checkpoint succeeds.\<close>

theorem jobs_drain:
  fixes weight :: "'c \<Rightarrow> nat"
  assumes branch: "\<And>q cs. pending q cs \<Longrightarrow> \<exists>go q'. branch q = (go, q') \<and> pending q' cs \<and> head q' = head q"
    and invoke: "\<And>c q cs. pending q cs \<Longrightarrow> \<exists>ok q' new. invoke c q = (ok, q') \<and> pending q' (cs @ new) \<and> sum_list (map weight new) < weight c"
    and q: "pending q cs"
  shows "\<exists>ok q' rest. JS_RunJobs branch invoke exc q = Some (ok, q') \<and> pending q' rest \<and> draining q' = draining q \<and>
    (draining q \<longrightarrow> ok \<and> q' = q) \<and>
    (\<not> draining q \<and> exc \<longrightarrow> \<not> ok \<and> q' = q) \<and>
    (\<not> draining q \<and> ok \<longrightarrow> \<not> JS_HasPendingJobs q' \<and> rest = []) \<and>
    (\<not> exc \<and> (\<forall>q. fst (branch q)) \<and> (\<forall>c q. fst (invoke c q)) \<longrightarrow> ok)"
proof (cases "draining q \<or> exc")
  case True
  then show ?thesis using q by (auto simp: JS_RunJobs_def)
next
  case False
  have "pending (q\<lparr>draining := True\<rparr>) cs" using q by (rule pending_draining)
  then have "\<exists>ok q' rest. run_loop branch invoke (q\<lparr>draining := True\<rparr>) = Some (ok, q') \<and> pending q' rest \<and> (ok \<longrightarrow> rest = []) \<and>
      ((\<forall>q. fst (branch q)) \<and> (\<forall>c q. fst (invoke c q)) \<longrightarrow> ok)"
    by (rule drain_ends [where weight = weight, rotated -1]) (assumption | rule branch invoke)+
  then obtain ok q' rest where r: "run_loop branch invoke (q\<lparr>draining := True\<rparr>) = Some (ok, q')" "pending q' rest" "ok \<longrightarrow> rest = []"
    "(\<forall>q. fst (branch q)) \<and> (\<forall>c q. fst (invoke c q)) \<longrightarrow> ok" by blast
  have "pending (q'\<lparr>draining := False\<rparr>) rest" using r(2) by (rule pending_draining)
  moreover have "JS_HasPendingJobs (q'\<lparr>draining := False\<rparr>) = (rest \<noteq> [])" using pending_head [OF r(2)] by (simp add: JS_HasPendingJobs_def)
  moreover have "JS_RunJobs branch invoke exc q = Some (ok, q'\<lparr>draining := False\<rparr>)" using False r(1) by (simp add: JS_RunJobs_def)
  ultimately show ?thesis using False r(3,4) by auto
qed

subsection \<open>Jobs that count down\<close>

text \<open>The job \<open>n + 1\<close> enqueues the job \<open>n\<close>.\<close>

definition count_down :: "nat \<Rightarrow> nat JSJobQueue \<Rightarrow> bool \<times> nat JSJobQueue" where
  "count_down n q = (case n of 0 \<Rightarrow> (True, q) | Suc m \<Rightarrow> (True, snd (JS_EnqueueJob (\<lambda>_. True) True m q)))"

definition no_jobs :: "nat JSJobQueue" where
  "no_jobs = \<lparr>job_store = \<lambda>_. \<lparr>callback = 0, next_job = None\<rparr>, job_count = 0, head = None, tail = None, draining = False\<rparr>"

theorem jobs_fifo_witness:
  "pending (snd (JS_EnqueueJob (\<lambda>_. True) True 5 no_jobs)) [5]"
proof -
  have "pending no_jobs []" by (simp add: pending_Nil no_jobs_def)
  moreover obtain ok q' where "JS_EnqueueJob (\<lambda>_. True) True 5 no_jobs = (ok, q')" by (metis prod.exhaust)
  ultimately show ?thesis using jobs_fifo [of no_jobs "[]"] by fastforce
qed

theorem jobs_drain_witness:
  "\<exists>q'. JS_RunJobs (\<lambda>q. (True, q)) count_down False (snd (JS_EnqueueJob (\<lambda>_. True) True 5 no_jobs)) = Some (True, q')
     \<and> \<not> draining q' \<and> \<not> JS_HasPendingJobs q'"
proof -
  let ?q = "snd (JS_EnqueueJob (\<lambda>_. True) True 5 no_jobs)"
  have "pending no_jobs []" by (simp add: pending_Nil no_jobs_def)
  then have "pending ?q [5]" using enqueue_pending [of no_jobs "[]" "\<lambda>_. True" True 5] by (cases "JS_EnqueueJob (\<lambda>_. True) True 5 no_jobs") auto
  moreover have "\<not> draining ?q" by code_simp
  moreover have "\<exists>ok q' new. count_down c q = (ok, q') \<and> pending q' (cs @ new) \<and> sum_list (map Suc new) < Suc c"
    if p: "pending q cs" for c q cs
  proof (cases c)
    case 0
    then show ?thesis using p by (auto simp: count_down_def intro!: exI [of _ "[]"])
  next
    case (Suc m)
    obtain ok q' where e: "JS_EnqueueJob (\<lambda>_. True) True m q = (ok, q')" by (metis prod.exhaust)
    have "pending q' (cs @ [m])" using enqueue_pending [OF p e] by (cases ok) auto
    then show ?thesis using Suc e by (auto simp: count_down_def intro!: exI [of _ "[m]"])
  qed
  moreover have "fst (count_down c q)" for c q by (simp add: count_down_def split: nat.split)
  ultimately show ?thesis using jobs_drain [of "\<lambda>q. (True, q)" count_down Suc ?q "[5]" False] by fastforce
qed

end
