(* ===== verification/Module.thy ===== *)
theory Module
  imports Prelude
begin

text \<open>
  ES2015 module records (\<open>js/src/jsmodule.c\<close>): their requests and entries, the resolution of exports, the namespace,
  linking and evaluation.  Module objects are addresses into a store of records; \<open>None\<close> is the null reference.  An
  atom is interned, so it is its characters.  Values are of a parameter type; the environment of a module maps atoms to
  bindings, with the rules of \<open>js/src/jsrealm.c\<close> for lexical bindings.  The native stack is the number of frames
  left, every fallible engine operation asks \<open>allowed\<close> at the next tick of \<open>clock\<close>, and \<open>reported\<close> says which errors
  become pending exceptions.
\<close>

type_synonym atom = "jschar list"

datatype ModuleState =
  MODULE_UNLINKED | MODULE_LINKING | MODULE_LINKED | MODULE_EVALUATING | MODULE_EVALUATED | MODULE_FAILED

text \<open>\<open>Undefined\<close> is not an error of the code: a null pointer or an index past its array, which has no result in C.\<close>

datatype ModuleError = NotAModule | StrictSyntax | OutOfMemory | CannotReplace | NotRequested | OverRecursed |
  Unresolved | Uninitialized | UnknownBinding | BadDescriptor | UnexpectedOpcode | Undefined

record ModuleRequest =
  specifier :: atom
  dependency :: "nat option"

record ModuleEntry =
  exportName :: "atom option"
  localName :: "atom option"
  importName :: "atom option"
  request :: u32
  resolvedModule :: "nat option"
  resolvedName :: "atom option"

text \<open>A lexical binding holds whether it is immutable, and its value once it is initialized.\<close>

datatype 'v Binding = ImportBinding | Lexical bool "'v option"

text \<open>What linking reads of a script: the lexical declarations and the declaration bytecode.\<close>

datatype 'v Declaration = DEFVAR atom | DEFFUN atom 'v | OtherOpcode | NoLength

record 'v ModuleScript =
  lexicals :: "(atom \<times> bool) list"
  declarations :: "'v Declaration list"

record 'v ModuleRecord =
  script :: "'v ModuleScript option"
  environment :: "atom \<rightharpoonup> 'v Binding"
  owner :: "nat option"
  state :: ModuleState
  failure :: 'v
  requests :: "ModuleRequest list"
  import_entries :: "ModuleEntry list"
  export_entries :: "ModuleEntry list"
  namespaceObject :: "nat option"
  namespaceBindings :: "ModuleEntry list"

record 'v Modules =
  records :: "nat \<Rightarrow> 'v ModuleRecord"
  record_count :: nat
  exception :: "'v option"
  reported :: "ModuleError \<Rightarrow> 'v option"
  allowed :: "nat \<Rightarrow> bool"
  clock :: nat
  objects :: nat

definition JS_MODULE_LOCAL :: u32 where "JS_MODULE_LOCAL = - 1"

definition raise :: "ModuleError \<Rightarrow> ('v, 'x) Modules_scheme \<Rightarrow> ('v, 'x) Modules_scheme" where
  "raise e w = (case reported w e of None \<Rightarrow> w | Some v \<Rightarrow> w\<lparr>exception := Some v\<rparr>)"

definition tick :: "('v, 'x) Modules_scheme \<Rightarrow> bool \<times> ('v, 'x) Modules_scheme" where
  "tick w = (allowed w (clock w), w\<lparr>clock := clock w + 1\<rparr>)"

fun ticks_of :: "nat \<Rightarrow> ('v, 'x) Modules_scheme \<Rightarrow> bool \<times> ('v, 'x) Modules_scheme" where
  "ticks_of 0 w = (True, w)"
| "ticks_of (Suc n) w = (case tick w of (ok, w) \<Rightarrow> if ok then ticks_of n w else (False, w))"

definition update_record :: "nat \<Rightarrow> ('v ModuleRecord \<Rightarrow> 'v ModuleRecord) \<Rightarrow> ('v, 'x) Modules_scheme \<Rightarrow> ('v, 'x) Modules_scheme" where
  "update_record m f w = w\<lparr>records := (records w)(m := f (records w m))\<rparr>"

definition GetModule :: "('v, 'x) Modules_scheme \<Rightarrow> nat option \<Rightarrow> nat option" where
  "GetModule w obj = (case obj of None \<Rightarrow> None | Some m \<Rightarrow> if m < record_count w then Some m else None)"

subsection \<open>Requests and entries\<close>

text \<open>The sizes are those of a 64-bit build.\<close>

definition SIZE_MAX :: nat where "SIZE_MAX = 2 ^ 64 - 1"

fun find_index :: "('a \<Rightarrow> bool) \<Rightarrow> 'a list \<Rightarrow> nat option" where
  "find_index P [] = None"
| "find_index P (x # xs) = (if P x then Some 0 else map_option Suc (find_index P xs))"

definition js_AddModuleRequest :: "nat option \<Rightarrow> atom \<Rightarrow> ('v, 'x) Modules_scheme \<Rightarrow> u32 option \<times> ('v, 'x) Modules_scheme" where
  "js_AddModuleRequest obj spec w =
     (case GetModule w obj of
        None \<Rightarrow> (None, raise NotAModule w)
      | Some m \<Rightarrow>
          let rs = requests (records w m) in
          case find_index (\<lambda>r. specifier r = spec) rs of
            Some i \<Rightarrow> (Some (word_of_nat i), w)
          | None \<Rightarrow>
              if length rs \<ge> SIZE_MAX div 16 - 1 \<or> length rs = 2 ^ 32 - 1 then (None, raise OutOfMemory w)
              else
                case tick w of
                  (ok, w) \<Rightarrow>
                    if ok then
                      (Some (word_of_nat (length rs)),
                       update_record m (\<lambda>r. r\<lparr>requests := requests r @ [\<lparr>specifier = spec, dependency = None\<rparr>]\<rparr>) w)
                    else (None, w))"

definition AddModuleEntry ::
  "ModuleEntry list \<Rightarrow> atom option \<Rightarrow> atom option \<Rightarrow> u32 \<Rightarrow> atom option \<Rightarrow> ('v, 'x) Modules_scheme \<Rightarrow> ModuleEntry list option \<times> ('v, 'x) Modules_scheme" where
  "AddModuleEntry entries ename lname req iname w =
     (if length entries \<ge> SIZE_MAX div 48 - 1 \<or> length entries = 2 ^ 32 - 1 then (None, raise OutOfMemory w)
      else
        case tick w of
          (ok, w) \<Rightarrow>
            (if ok then Some (entries @ [\<lparr>exportName = ename, localName = lname, importName = iname, request = req,
               resolvedModule = None, resolvedName = None\<rparr>]) else None, w))"

definition js_AddModuleImport :: "nat option \<Rightarrow> u32 \<Rightarrow> atom option \<Rightarrow> atom \<Rightarrow> ('v, 'x) Modules_scheme \<Rightarrow> bool \<times> ('v, 'x) Modules_scheme" where
  "js_AddModuleImport obj req iname lname w =
     (case GetModule w obj of
        None \<Rightarrow> (False, raise NotAModule w)
      | Some m \<Rightarrow>
          (case AddModuleEntry (import_entries (records w m)) None (Some lname) req iname w of
             (None, w) \<Rightarrow> (False, w)
           | (Some es, w) \<Rightarrow> (True, update_record m (\<lambda>r. r\<lparr>import_entries := es\<rparr>) w)))"

definition js_AddModuleExport ::
  "nat option \<Rightarrow> atom option \<Rightarrow> atom option \<Rightarrow> u32 \<Rightarrow> atom option \<Rightarrow> ('v, 'x) Modules_scheme \<Rightarrow> bool \<times> ('v, 'x) Modules_scheme" where
  "js_AddModuleExport obj ename lname req iname w =
     (case GetModule w obj of
        None \<Rightarrow> (False, raise NotAModule w)
      | Some m \<Rightarrow>
          if ename \<noteq> None \<and> (\<exists>e \<in> set (export_entries (records w m)). exportName e = ename) then (False, raise StrictSyntax w)
          else
            (case AddModuleEntry (export_entries (records w m)) ename lname req iname w of
               (None, w) \<Rightarrow> (False, w)
             | (Some es, w) \<Rightarrow> (True, update_record m (\<lambda>r. r\<lparr>export_entries := es\<rparr>) w)))"

text \<open>\<open>lexical_decls\<close> and \<open>var_decls\<close> are the declarations the parser has recorded.\<close>

definition js_ValidateModuleExports ::
  "nat option \<Rightarrow> atom option list \<Rightarrow> atom option list \<Rightarrow> ('v, 'x) Modules_scheme \<Rightarrow> bool \<times> ('v, 'x) Modules_scheme" where
  "js_ValidateModuleExports obj lexical_decls var_decls w =
     (case GetModule w obj of
        None \<Rightarrow> (False, raise NotAModule w)
      | Some m \<Rightarrow>
          if \<exists>e \<in> set (export_entries (records w m)). request e = JS_MODULE_LOCAL \<and>
               localName e \<notin> set lexical_decls \<and> localName e \<notin> set var_decls
          then (False, raise StrictSyntax w) else (True, w))"

definition js_SetModuleDependency :: "nat option \<Rightarrow> jschar list \<Rightarrow> nat option \<Rightarrow> ('v, 'x) Modules_scheme \<Rightarrow> bool \<times> ('v, 'x) Modules_scheme" where
  "js_SetModuleDependency obj spec dep w =
     (case GetModule w obj of
        None \<Rightarrow> (False, raise NotAModule w)
      | Some m \<Rightarrow>
          if GetModule w dep = None then (False, raise NotAModule w)
          else if state (records w m) \<noteq> MODULE_UNLINKED then (False, raise CannotReplace w)
          else
            (case find_index (\<lambda>r. specifier r = spec) (requests (records w m)) of
               Some i \<Rightarrow>
                 (True, update_record m (\<lambda>r. r\<lparr>requests := (requests r)[i := (requests r ! i)\<lparr>dependency := dep\<rparr>]\<rparr>) w)
             | None \<Rightarrow> (False, raise NotRequested w)))"

subsection \<open>Resolving exports\<close>

record ResolvedBinding =
  rmodule :: "nat option"
  rname :: "atom option"
  ambiguous :: bool

definition unresolved :: ResolvedBinding where
  "unresolved = \<lparr>rmodule = None, rname = None, ambiguous = False\<rparr>"

definition IsDefaultExport :: "atom \<Rightarrow> bool" where
  "IsDefaultExport name \<longleftrightarrow> name = [0x64, 0x65, 0x66, 0x61, 0x75, 0x6C, 0x74]"

text \<open>\<open>record->requests[i].module\<close>.\<close>

definition requested :: "'v ModuleRecord \<Rightarrow> u32 \<Rightarrow> nat option option" where
  "requested r i = (if unat i < length (requests r) then Some (dependency (requests r ! unat i)) else None)"

text \<open>The loop over the entries without an export name, \<open>export * from\<close>.\<close>

fun star_loop ::
  "(nat option \<Rightarrow> ModuleError + ResolvedBinding) \<Rightarrow> 'v ModuleRecord \<Rightarrow> ModuleEntry list \<Rightarrow> ResolvedBinding \<Rightarrow>
   ModuleError + ResolvedBinding" where
  "star_loop resolve r [] result = Inr result"
| "star_loop resolve r (e # es) result =
     (if exportName e \<noteq> None then star_loop resolve r es result
      else
        case requested r (request e) of
          None \<Rightarrow> Inl Undefined
        | Some dep \<Rightarrow>
            (case resolve dep of
               Inl err \<Rightarrow> Inl err
             | Inr candidate \<Rightarrow>
                 if ambiguous candidate \<or>
                   (rmodule result \<noteq> None \<and> rmodule candidate \<noteq> None \<and>
                    (rmodule result \<noteq> rmodule candidate \<or> rname result \<noteq> rname candidate))
                 then Inr (result\<lparr>rmodule := None, ambiguous := True\<rparr>)
                 else star_loop resolve r es (if rmodule candidate \<noteq> None then candidate else result)))"

text \<open>The first import that binds the local name of an export, and import_entries a name rather than a namespace.\<close>

definition reexport :: "'v ModuleRecord \<Rightarrow> ModuleEntry \<Rightarrow> ModuleEntry option" where
  "reexport r e = find (\<lambda>i. localName i = localName e \<and> importName i \<noteq> None) (import_entries r)"

primrec ResolveExport ::
  "nat \<Rightarrow> ('v, 'x) Modules_scheme \<Rightarrow> nat option \<Rightarrow> atom option \<Rightarrow> (nat \<times> atom option) list \<Rightarrow> ModuleError + ResolvedBinding" where
  "ResolveExport 0 = (\<lambda>w obj name previous. Inl (if GetModule w obj = None then NotAModule else OverRecursed))"
| "ResolveExport (Suc d) = (\<lambda>w obj name previous.
     case GetModule w obj of
       None \<Rightarrow> Inl NotAModule
     | Some m \<Rightarrow>
         if (m, name) \<in> set previous then Inr unresolved
         else
           let r = records w m; entry = (m, name) # previous in
           case find (\<lambda>e. exportName e = name) (export_entries r) of
             Some e \<Rightarrow>
               if request e \<noteq> JS_MODULE_LOCAL then
                 (case requested r (request e) of
                    None \<Rightarrow> Inl Undefined | Some dep \<Rightarrow> ResolveExport d w dep (importName e) entry)
               else
                 (case reexport r e of
                    Some i \<Rightarrow>
                      (case requested r (request i) of
                         None \<Rightarrow> Inl Undefined | Some dep \<Rightarrow> ResolveExport d w dep (importName i) entry)
                  | None \<Rightarrow> Inr \<lparr>rmodule = Some m, rname = localName e, ambiguous = False\<rparr>)
           | None \<Rightarrow>
               (case name of
                  None \<Rightarrow> Inl Undefined
                | Some s \<Rightarrow>
                    if IsDefaultExport s then Inr unresolved
                    else star_loop (\<lambda>dep. ResolveExport d w dep name entry) r (export_entries r) unresolved))"

end
