(* ===== verification/Module_Link.thy ===== *)
theory Module_Link
  imports Module
begin

text \<open>
  The namespace object, the import accessors, linking and evaluation of modules (\<open>js/src/jsmodule.c\<close>).  Running the body
  of a module, \<open>js_Execute\<close>, is an argument.  Linking a module and making its namespace call one another; the
  namespace takes linking as an argument, and the frames left bound the recursion.
\<close>

subsection \<open>Export names\<close>

text \<open>The loop of \<open>CollectExportNames\<close>; \<open>collect\<close> visits another module.\<close>

fun collect_loop ::
  "(nat option \<Rightarrow> atom list \<Rightarrow> ('v, 'x) Modules_scheme \<Rightarrow> bool \<times> atom list \<times> ('v, 'x) Modules_scheme) \<Rightarrow> bool \<Rightarrow> 'v ModuleRecord \<Rightarrow>
   ModuleEntry list \<Rightarrow> atom list \<Rightarrow> ('v, 'x) Modules_scheme \<Rightarrow> bool \<times> atom list \<times> ('v, 'x) Modules_scheme" where
  "collect_loop collect includeDefault r [] names w = (True, names, w)"
| "collect_loop collect includeDefault r (e # es) names w =
     (case exportName e of
        None \<Rightarrow>
          (case requested r (request e) of
             None \<Rightarrow> (False, names, raise Undefined w)
           | Some dep \<Rightarrow>
               (case collect dep names w of
                  (ok, names, w) \<Rightarrow> if ok then collect_loop collect includeDefault r es names w else (False, names, w)))
      | Some name \<Rightarrow>
          if \<not> includeDefault \<and> IsDefaultExport name then collect_loop collect includeDefault r es names w
          else if name \<in> set names then collect_loop collect includeDefault r es names w
          else if length names \<ge> SIZE_MAX div 8 - 1 then (False, names, raise OutOfMemory w)
          else
            case tick w of
              (ok, w) \<Rightarrow> if ok then collect_loop collect includeDefault r es (names @ [name]) w else (False, names, w))"

primrec CollectExportNames ::
  "nat \<Rightarrow> nat list \<Rightarrow> bool \<Rightarrow> nat option \<Rightarrow> atom list \<Rightarrow> ('v, 'x) Modules_scheme \<Rightarrow> bool \<times> atom list \<times> ('v, 'x) Modules_scheme" where
  "CollectExportNames 0 = (\<lambda>previous includeDefault obj names w.
     (False, names, raise (if GetModule w obj = None then NotAModule else OverRecursed) w))"
| "CollectExportNames (Suc d) = (\<lambda>previous includeDefault obj names w.
     case GetModule w obj of
       None \<Rightarrow> (False, names, raise NotAModule w)
     | Some m \<Rightarrow>
         if m \<in> set previous then (True, names, w)
         else collect_loop (CollectExportNames d (m # previous) False) includeDefault (records w m)
                (export_entries (records w m)) names w)"

fun CompareExportNames :: "atom \<Rightarrow> atom \<Rightarrow> int" where
  "CompareExportNames (x # xs) (y # ys) = (if x \<noteq> y then (if x < y then -1 else 1) else CompareExportNames xs ys)"
| "CompareExportNames [] [] = 0"
| "CompareExportNames [] (y # ys) = -1"
| "CompareExportNames (x # xs) [] = 1"

text \<open>\<open>qsort\<close>: the order of elements that compare equal is not specified; export names are distinct.\<close>

fun qsort_insert :: "('a \<Rightarrow> 'a \<Rightarrow> int) \<Rightarrow> 'a \<Rightarrow> 'a list \<Rightarrow> 'a list" where
  "qsort_insert cmp x [] = [x]"
| "qsort_insert cmp x (y # ys) = (if cmp x y \<le> 0 then x # y # ys else y # qsort_insert cmp x ys)"

definition qsort :: "('a \<Rightarrow> 'a \<Rightarrow> int) \<Rightarrow> 'a list \<Rightarrow> 'a list" where
  "qsort cmp xs = foldr (qsort_insert cmp) xs []"

subsection \<open>The namespace\<close>

text \<open>The loop that resolves each name and defines a property for it on the target object.\<close>

fun namespace_loop :: "nat \<Rightarrow> nat \<Rightarrow> atom list \<Rightarrow> ModuleEntry list \<Rightarrow> ('v, 'x) Modules_scheme \<Rightarrow> ModuleEntry list option \<times> ('v, 'x) Modules_scheme" where
  "namespace_loop d m [] entries w = (Some entries, w)"
| "namespace_loop d m (name # names) entries w =
     (case ResolveExport d w (Some m) (Some name) [] of
        Inl err \<Rightarrow> (None, raise err w)
      | Inr resolved \<Rightarrow>
          if rmodule resolved = None \<or> ambiguous resolved then namespace_loop d m names entries w
          else
            let entry = \<lparr>exportName = Some name, localName = None, importName = None, request = 0,
                         resolvedModule = rmodule resolved, resolvedName = rname resolved\<rparr>
            in case tick w of
                 (ok, w) \<Rightarrow> if ok then namespace_loop d m names (entries @ [entry]) w else (None, w))"

text \<open>The fallible steps after the loop are the tag (3), the iterator function and its properties (5), and the handler
  with its prototype, slot and six functions, and the proxy (10).\<close>

definition js_GetModuleNamespace ::
  "(nat option \<Rightarrow> ('v, 'x) Modules_scheme \<Rightarrow> bool \<times> ('v, 'x) Modules_scheme) \<Rightarrow> nat \<Rightarrow> nat option \<Rightarrow> ('v, 'x) Modules_scheme \<Rightarrow> nat option \<times> ('v, 'x) Modules_scheme" where
  "js_GetModuleNamespace instantiate d obj w =
     (case GetModule w obj of
        None \<Rightarrow> (None, raise NotAModule w)
      | Some m \<Rightarrow>
          (case (if state (records w m) = MODULE_UNLINKED then instantiate obj w else (True, w)) of
             (linked, w) \<Rightarrow>
               if \<not> linked then (None, w)
               else if namespaceObject (records w m) \<noteq> None then (namespaceObject (records w m), w)
               else
                 (case CollectExportNames d [] True obj [] w of
                    (ok, names, w) \<Rightarrow>
                      if \<not> ok then (None, w)
                      else
                        let names = (if length names > 1 then qsort CompareExportNames names else names) in
                        if length names > 2 ^ 32 - 1 \<or> length names > SIZE_MAX div 48 then (None, raise OutOfMemory w)
                        else
                          (case ticks_of (if names = [] then 2 else 3) w of
                             (ok, w) \<Rightarrow>
                               if \<not> ok then (None, w)
                               else
                                 (case namespace_loop d m names [] w of
                                    (None, w) \<Rightarrow> (None, w)
                                  | (Some entries, w) \<Rightarrow>
                                      (case ticks_of 18 w of
                                         (ok, w) \<Rightarrow>
                                           if \<not> ok then (None, w)
                                           else
                                             (Some (objects w),
                                              update_record m (\<lambda>r. r\<lparr>namespaceBindings := entries, namespaceObject := Some (objects w)\<rparr>)
                                                (w\<lparr>objects := objects w + 1\<rparr>))))))))"

subsection \<open>Environments\<close>

text \<open>\<open>js_DefineNativeProperty\<close> with the import accessors, and \<open>js_DefineLexicalBinding\<close>, \<open>js_InitializeLexicalBinding\<close>
  and \<open>OBJ_SET_PROPERTY\<close> on the environment of a module.\<close>

definition bind :: "nat \<Rightarrow> atom \<Rightarrow> 'v Binding \<Rightarrow> ('v, 'x) Modules_scheme \<Rightarrow> ('v, 'x) Modules_scheme" where
  "bind m a b w = update_record m (\<lambda>r. r\<lparr>environment := (environment r)(a \<mapsto> b)\<rparr>) w"

definition define_import :: "nat \<Rightarrow> atom \<Rightarrow> ('v, 'x) Modules_scheme \<Rightarrow> bool \<times> ('v, 'x) Modules_scheme" where
  "define_import m a w = (case tick w of (ok, w) \<Rightarrow> (ok, if ok then bind m a ImportBinding w else w))"

definition js_DefineLexicalBinding :: "nat \<Rightarrow> atom \<Rightarrow> bool \<Rightarrow> ('v, 'x) Modules_scheme \<Rightarrow> bool \<times> ('v, 'x) Modules_scheme" where
  "js_DefineLexicalBinding m a immutable w =
     (if environment (records w m) a \<noteq> None then (False, raise StrictSyntax w)
      else case tick w of (ok, w) \<Rightarrow> (ok, if ok then bind m a (Lexical immutable None) w else w))"

definition js_InitializeLexicalBinding :: "nat \<Rightarrow> atom \<Rightarrow> 'v \<Rightarrow> ('v, 'x) Modules_scheme \<Rightarrow> bool \<times> ('v, 'x) Modules_scheme" where
  "js_InitializeLexicalBinding m a v w =
     (case environment (records w m) a of
        Some (Lexical immutable None) \<Rightarrow> (True, bind m a (Lexical immutable (Some v)) w)
      | _ \<Rightarrow> (False, raise BadDescriptor w))"

text \<open>The setters \<open>ModuleImportSet\<close> and \<open>GlobalLexicalSet\<close>.\<close>

definition set_binding :: "nat \<Rightarrow> atom \<Rightarrow> 'v \<Rightarrow> ('v, 'x) Modules_scheme \<Rightarrow> bool \<times> ('v, 'x) Modules_scheme" where
  "set_binding m a v w =
     (case environment (records w m) a of
        Some (Lexical immutable (Some old)) \<Rightarrow>
          if immutable then (False, raise BadDescriptor w) else (True, bind m a (Lexical immutable (Some v)) w)
      | Some (Lexical immutable None) \<Rightarrow> (False, raise Uninitialized w)
      | _ \<Rightarrow> (False, raise BadDescriptor w))"

subsection \<open>Reading imports\<close>

datatype 'v Reading = Value 'v | Namespace nat | NoProperty

text \<open>A read of a name in the environment of a module: an import is read through \<open>ModuleImportGet\<close>, which reads the
  binding it was resolved to or makes a namespace.\<close>

primrec ModuleImportGet ::
  "nat \<Rightarrow> (nat option \<Rightarrow> ('v, 'x) Modules_scheme \<Rightarrow> nat option \<times> ('v, 'x) Modules_scheme) \<Rightarrow> nat \<Rightarrow> atom \<Rightarrow> ('v, 'x) Modules_scheme \<Rightarrow> 'v Reading option \<times> ('v, 'x) Modules_scheme" where
  "ModuleImportGet 0 = (\<lambda>namespace m a w. (None, raise OverRecursed w))"
| "ModuleImportGet (Suc d) = (\<lambda>namespace m a w.
     case environment (records w m) a of
       None \<Rightarrow> (Some NoProperty, w)
     | Some (Lexical immutable None) \<Rightarrow> (None, raise Uninitialized w)
     | Some (Lexical immutable (Some v)) \<Rightarrow> (Some (Value v), w)
     | Some ImportBinding \<Rightarrow>
         (case GetModule w (owner (records w m)) of
            None \<Rightarrow> (None, if owner (records w m) = None then w else raise NotAModule w)
          | Some q \<Rightarrow>
              (case find (\<lambda>e. localName e = Some a) (import_entries (records w q)) of
                 None \<Rightarrow> (None, raise UnknownBinding w)
               | Some e \<Rightarrow>
                   if importName e = None then
                     (case requested (records w q) (request e) of
                        None \<Rightarrow> (None, raise Undefined w)
                      | Some dep \<Rightarrow>
                          (case namespace dep w of
                             (None, w) \<Rightarrow> (None, w)
                           | (Some n, w) \<Rightarrow> (Some (Namespace n), w)))
                   else
                     (case (resolvedModule e, resolvedName e) of
                        (Some t, Some b) \<Rightarrow> ModuleImportGet d namespace t b w
                      | _ \<Rightarrow> (None, raise Uninitialized w)))))"

text \<open>The traps of a namespace object on the record of its module; \<open>otherwise\<close> is what the handler does for names the
  module does not export.  Setting and defining always report failure.\<close>

definition NamespaceBinding :: "'v ModuleRecord \<Rightarrow> atom \<Rightarrow> ModuleEntry option" where
  "NamespaceBinding r key = find (\<lambda>e. exportName e = Some key) (namespaceBindings r)"

definition NamespaceRead ::
  "nat \<Rightarrow> (nat option \<Rightarrow> ('v, 'x) Modules_scheme \<Rightarrow> nat option \<times> ('v, 'x) Modules_scheme) \<Rightarrow> ModuleEntry \<Rightarrow>
   ('v, 'x) Modules_scheme \<Rightarrow> 'v Reading option \<times> ('v, 'x) Modules_scheme" where
  "NamespaceRead d namespace e w =
     (case (resolvedModule e, resolvedName e) of
        (Some t, Some b) \<Rightarrow> ModuleImportGet d namespace t b w
      | _ \<Rightarrow> (None, raise Undefined w))"

definition NamespaceGet ::
  "nat \<Rightarrow> (nat option \<Rightarrow> ('v, 'x) Modules_scheme \<Rightarrow> nat option \<times> ('v, 'x) Modules_scheme) \<Rightarrow>
   (atom \<Rightarrow> ('v, 'x) Modules_scheme \<Rightarrow> 'v Reading option \<times> ('v, 'x) Modules_scheme) \<Rightarrow> nat \<Rightarrow> atom \<Rightarrow>
   ('v, 'x) Modules_scheme \<Rightarrow> 'v Reading option \<times> ('v, 'x) Modules_scheme" where
  "NamespaceGet d namespace otherwise m key w =
     (case NamespaceBinding (records w m) key of Some e \<Rightarrow> NamespaceRead d namespace e w | None \<Rightarrow> otherwise key w)"

definition NamespaceDelete :: "nat \<Rightarrow> atom \<Rightarrow> ('v, 'x) Modules_scheme \<Rightarrow> bool" where
  "NamespaceDelete m key w = (NamespaceBinding (records w m) key = None)"

definition NamespaceSet :: bool where "NamespaceSet = False"

subsection \<open>Linking\<close>

text \<open>The loops of \<open>js_InstantiateModule\<close>: the dependencies, the re-exports, the imports, the lexical declarations and the
  declaration bytecode.\<close>

fun link_requests ::
  "(nat option \<Rightarrow> ('v, 'x) Modules_scheme \<Rightarrow> bool \<times> ('v, 'x) Modules_scheme) \<Rightarrow> ModuleRequest list \<Rightarrow> ('v, 'x) Modules_scheme \<Rightarrow> bool \<times> ('v, 'x) Modules_scheme" where
  "link_requests instantiate [] w = (True, w)"
| "link_requests instantiate (r # rs) w =
     (case instantiate (dependency r) w of (ok, w) \<Rightarrow> if ok then link_requests instantiate rs w else (False, w))"

fun link_exports :: "nat \<Rightarrow> nat \<Rightarrow> ModuleEntry list \<Rightarrow> ('v, 'x) Modules_scheme \<Rightarrow> bool \<times> ('v, 'x) Modules_scheme" where
  "link_exports d m [] w = (True, w)"
| "link_exports d m (e # es) w =
     (if request e \<noteq> JS_MODULE_LOCAL \<and> exportName e \<noteq> None then
        (case ResolveExport d w (Some m) (exportName e) [] of
           Inl err \<Rightarrow> (False, raise StrictSyntax (raise err w))
         | Inr resolution \<Rightarrow>
             if rmodule resolution = None \<or> ambiguous resolution then (False, raise StrictSyntax w) else link_exports d m es w)
      else link_exports d m es w)"

definition set_import :: "nat \<Rightarrow> nat \<Rightarrow> ResolvedBinding \<Rightarrow> ('v, 'x) Modules_scheme \<Rightarrow> ('v, 'x) Modules_scheme" where
  "set_import m i resolution w = update_record m (\<lambda>r. r\<lparr>import_entries :=
     (import_entries r)[i := (import_entries r ! i)\<lparr>resolvedModule := rmodule resolution, resolvedName := rname resolution\<rparr>]\<rparr>) w"

definition link_import ::
  "(nat option \<Rightarrow> ('v, 'x) Modules_scheme \<Rightarrow> nat option \<times> ('v, 'x) Modules_scheme) \<Rightarrow> nat \<Rightarrow> nat \<Rightarrow> nat \<Rightarrow> ('v, 'x) Modules_scheme \<Rightarrow> bool \<times> ('v, 'x) Modules_scheme" where
  "link_import namespace d m i w =
     (let e = import_entries (records w m) ! i in
      case requested (records w m) (request e) of
        None \<Rightarrow> (False, raise Undefined w)
      | Some dep \<Rightarrow>
          (case (if importName e = None then (case namespace dep w of (n, w) \<Rightarrow> (n \<noteq> None, w))
                 else
                   case ResolveExport d w dep (importName e) [] of
                     Inl err \<Rightarrow> (False, raise err w)
                   | Inr resolution \<Rightarrow>
                       if rmodule resolution = None \<or> ambiguous resolution then (False, raise StrictSyntax w)
                       else (True, set_import m i resolution w)) of
             (ok, w) \<Rightarrow>
               if \<not> ok then (False, w)
               else case localName e of None \<Rightarrow> (False, raise Undefined w) | Some a \<Rightarrow> define_import m a w))"

fun link_imports ::
  "(nat option \<Rightarrow> ('v, 'x) Modules_scheme \<Rightarrow> nat option \<times> ('v, 'x) Modules_scheme) \<Rightarrow> nat \<Rightarrow> nat \<Rightarrow> nat list \<Rightarrow> ('v, 'x) Modules_scheme \<Rightarrow> bool \<times> ('v, 'x) Modules_scheme" where
  "link_imports namespace d m [] w = (True, w)"
| "link_imports namespace d m (i # rest) w =
     (case link_import namespace d m i w of (ok, w) \<Rightarrow> if ok then link_imports namespace d m rest w else (False, w))"

fun define_lexicals :: "nat \<Rightarrow> (atom \<times> bool) list \<Rightarrow> ('v, 'x) Modules_scheme \<Rightarrow> bool \<times> ('v, 'x) Modules_scheme" where
  "define_lexicals m [] w = (True, w)"
| "define_lexicals m ((a, immutable) # rest) w =
     (case js_DefineLexicalBinding m a immutable w of (ok, w) \<Rightarrow> if ok then define_lexicals m rest w else (False, w))"

text \<open>Without an initial value a variable is undefined; the value of a function is its clone.\<close>

definition declare_name :: "'v \<Rightarrow> nat \<Rightarrow> atom \<Rightarrow> 'v option \<Rightarrow> ('v, 'x) Modules_scheme \<Rightarrow> bool \<times> ('v, 'x) Modules_scheme" where
  "declare_name undefined_value m a fn w =
     (case tick w of
        (ok, w) \<Rightarrow>
          if \<not> ok then (False, w)
          else if environment (records w m) a = None then
            (case js_DefineLexicalBinding m a False w of
               (ok, w) \<Rightarrow>
                 if ok then js_InitializeLexicalBinding m a (case fn of None \<Rightarrow> undefined_value | Some v \<Rightarrow> v) w else (False, w))
          else (case fn of None \<Rightarrow> (True, w) | Some v \<Rightarrow> set_binding m a v w))"

fun run_declarations :: "'v \<Rightarrow> nat \<Rightarrow> 'v Declaration list \<Rightarrow> ('v, 'x) Modules_scheme \<Rightarrow> bool \<times> ('v, 'x) Modules_scheme" where
  "run_declarations u m [] w = (True, w)"
| "run_declarations u m (NoLength # ds) w = (False, w)"
| "run_declarations u m (OtherOpcode # ds) w = (False, raise UnexpectedOpcode w)"
| "run_declarations u m (DEFVAR a # ds) w =
     (case declare_name u m a None w of (ok, w) \<Rightarrow> if ok then run_declarations u m ds w else (False, w))"
| "run_declarations u m (DEFFUN a v # ds) w =
     (case tick w of
        (ok, w) \<Rightarrow>
          if \<not> ok then (False, w)
          else case declare_name u m a (Some v) w of (ok, w) \<Rightarrow> if ok then run_declarations u m ds w else (False, w))"

definition set_state :: "nat \<Rightarrow> ModuleState \<Rightarrow> ('v, 'x) Modules_scheme \<Rightarrow> ('v, 'x) Modules_scheme" where
  "set_state m s w = update_record m (\<lambda>r. r\<lparr>state := s\<rparr>) w"

definition module_failed :: "nat \<Rightarrow> ('v, 'x) Modules_scheme \<Rightarrow> ('v, 'x) Modules_scheme" where
  "module_failed m w =
     update_record m (\<lambda>r. r\<lparr>state := MODULE_FAILED, failure := (case exception w of None \<Rightarrow> failure r | Some v \<Rightarrow> v)\<rparr>) w"

definition link_body ::
  "'v \<Rightarrow> (nat option \<Rightarrow> ('v, 'x) Modules_scheme \<Rightarrow> nat option \<times> ('v, 'x) Modules_scheme) \<Rightarrow> nat \<Rightarrow> nat \<Rightarrow> 'v ModuleScript \<Rightarrow> ('v, 'x) Modules_scheme \<Rightarrow> bool \<times> ('v, 'x) Modules_scheme" where
  "link_body u namespace d m scr w =
     (case tick w of
        (ok, w) \<Rightarrow>
          if \<not> ok then (False, w)
          else
            let w = update_record m (\<lambda>r. r\<lparr>owner := Some m\<rparr>) w in
            case link_exports d m (export_entries (records w m)) w of
              (ok, w) \<Rightarrow>
                if \<not> ok then (False, w)
                else
                  case link_imports namespace d m [0..<length (import_entries (records w m))] w of
                    (ok, w) \<Rightarrow>
                      if \<not> ok then (False, w)
                      else
                        case define_lexicals m (lexicals scr) w of
                          (ok, w) \<Rightarrow> if \<not> ok then (False, w) else run_declarations u m (declarations scr) w)"

primrec js_InstantiateModule :: "nat \<Rightarrow> 'v \<Rightarrow> nat option \<Rightarrow> ('v, 'x) Modules_scheme \<Rightarrow> bool \<times> ('v, 'x) Modules_scheme" where
  "js_InstantiateModule 0 = (\<lambda>u obj w. (False, raise OverRecursed (if GetModule w obj = None then raise NotAModule w else w)))"
| "js_InstantiateModule (Suc d) = (\<lambda>u obj w.
     case GetModule w obj of
       None \<Rightarrow> (False, raise NotAModule w)
     | Some m \<Rightarrow>
         (case script (records w m) of
            None \<Rightarrow> (False, w)
          | Some scr \<Rightarrow>
              if state (records w m) = MODULE_FAILED then (False, w\<lparr>exception := Some (failure (records w m))\<rparr>)
              else if state (records w m) \<noteq> MODULE_UNLINKED then (True, w)
              else if \<exists>r \<in> set (requests (records w m)). dependency r = None then (False, raise Unresolved w)
              else
                case link_requests (js_InstantiateModule d u) (requests (records w m)) (set_state m MODULE_LINKING w) of
                  (ok, w) \<Rightarrow>
                    (case (if ok then link_body u (js_GetModuleNamespace (js_InstantiateModule d u) d) d m scr w else (False, w)) of
                       (ok, w) \<Rightarrow> if ok then (True, set_state m MODULE_LINKED w) else (False, module_failed m w))))"

subsection \<open>Evaluation\<close>

primrec js_EvaluateModule ::
  "nat \<Rightarrow> 'v \<Rightarrow> (nat \<Rightarrow> ('v, 'x) Modules_scheme \<Rightarrow> bool \<times> ('v, 'x) Modules_scheme) \<Rightarrow> nat option \<Rightarrow> ('v, 'x) Modules_scheme \<Rightarrow> bool \<times> ('v, 'x) Modules_scheme" where
  "js_EvaluateModule 0 = (\<lambda>u execute obj w. (False, raise OverRecursed (if GetModule w obj = None then raise NotAModule w else w)))"
| "js_EvaluateModule (Suc d) = (\<lambda>u execute obj w.
     case GetModule w obj of
       None \<Rightarrow> (False, raise NotAModule w)
     | Some m \<Rightarrow>
         (case js_InstantiateModule d u obj w of
            (linked, w) \<Rightarrow>
              if \<not> linked then (False, w)
              else if state (records w m) = MODULE_EVALUATING \<or> state (records w m) = MODULE_EVALUATED then (True, w)
              else
                case link_requests (js_EvaluateModule d u execute) (requests (records w m)) (set_state m MODULE_EVALUATING w) of
                  (ok, w) \<Rightarrow>
                    (case (if ok then execute m w else (False, w)) of
                       (ok, w) \<Rightarrow> if ok then (True, set_state m MODULE_EVALUATED w) else (False, module_failed m w))))"

end
