(* ===== verification/Module_Correct.thy ===== *)
theory Module_Correct
  imports Module_Link
begin

text \<open>
  What resolving an export finds.  The export a name stands for is forwarded along a graph whose nodes are modules with
  names: to one node by an indirect export or a re-exported import, and to one for each \<open>export *\<close> otherwise.  The code
  walks this graph depth first, with the path walked so far as the only memory, and merges what the stars give.  The
  result sums up the set of all bindings reachable in the graph, cycles included, whatever the order of the entries.
\<close>

subsection \<open>The graph\<close>

type_synonym node = "nat \<times> atom option"

definition dep_of :: "('v, 'x) Modules_scheme \<Rightarrow> nat \<Rightarrow> u32 \<Rightarrow> nat" where
  "dep_of w m i = the (the (requested (records w m) i))"

definition export_of :: "'v ModuleRecord \<Rightarrow> atom option \<Rightarrow> ModuleEntry option" where
  "export_of r name = find (\<lambda>e. exportName e = name) (export_entries r)"

fun forwards :: "('v, 'x) Modules_scheme \<Rightarrow> node \<Rightarrow> node set" where
  "forwards w (m, name) =
     (case export_of (records w m) name of
        Some e \<Rightarrow>
          if request e \<noteq> JS_MODULE_LOCAL then {(dep_of w m (request e), importName e)}
          else (case reexport (records w m) e of None \<Rightarrow> {} | Some i \<Rightarrow> {(dep_of w m (request i), importName i)})
      | None \<Rightarrow>
          if IsDefaultExport (the name) then {}
          else {(dep_of w m (request e), name) | e. e \<in> set (export_entries (records w m)) \<and> exportName e = None})"

fun bound :: "('v, 'x) Modules_scheme \<Rightarrow> node \<Rightarrow> node set" where
  "bound w (m, name) =
     (case export_of (records w m) name of
        Some e \<Rightarrow> if request e = JS_MODULE_LOCAL \<and> reexport (records w m) e = None then {(m, localName e)} else {}
      | None \<Rightarrow> {})"

definition forward_edges :: "('v, 'x) Modules_scheme \<Rightarrow> (node \<times> node) set" where
  "forward_edges w = {(s, t). t \<in> forwards w s}"

text \<open>All the bindings a node stands for.\<close>

definition targets :: "('v, 'x) Modules_scheme \<Rightarrow> node \<Rightarrow> node set" where
  "targets w s = (\<Union>t \<in> (forward_edges w)\<^sup>* `` {s}. bound w t)"

text \<open>A result sums up a set of bindings: none, the only one, or ambiguity.\<close>

definition sums_up :: "ResolvedBinding \<Rightarrow> node set \<Rightarrow> bool" where
  "sums_up b T \<longleftrightarrow>
     (if ambiguous b then rmodule b = None \<and> (\<exists>x \<in> T. \<exists>y \<in> T. x \<noteq> y)
      else case rmodule b of None \<Rightarrow> T = {} | Some m \<Rightarrow> T = {(m, rname b)})"

subsection \<open>Well-formed records\<close>

definition entry_ok :: "('v, 'x) Modules_scheme \<Rightarrow> nat set \<Rightarrow> nat \<Rightarrow> u32 \<Rightarrow> bool" where
  "entry_ok w S m i \<longleftrightarrow> (\<exists>k \<in> S. requested (records w m) i = Some (Some k))"

definition record_ok :: "('v, 'x) Modules_scheme \<Rightarrow> nat set \<Rightarrow> nat \<Rightarrow> bool" where
  "record_ok w S m \<longleftrightarrow>
     (\<forall>e \<in> set (export_entries (records w m)).
        (exportName e = None \<or> request e \<noteq> JS_MODULE_LOCAL \<longrightarrow> entry_ok w S m (request e)) \<and>
        (exportName e \<noteq> None \<and> request e \<noteq> JS_MODULE_LOCAL \<longrightarrow> importName e \<noteq> None)) \<and>
     (\<forall>e \<in> set (import_entries (records w m)). entry_ok w S m (request e))"

text \<open>\<open>S\<close> is a set of modules whose dependencies are set and lie in it.\<close>

definition closed_modules :: "('v, 'x) Modules_scheme \<Rightarrow> nat set \<Rightarrow> bool" where
  "closed_modules w S \<longleftrightarrow> (\<forall>m \<in> S. m < record_count w \<and> record_ok w S m)"

lemma closed_record: "closed_modules w S \<Longrightarrow> m \<in> S \<Longrightarrow> record_ok w S m"
  by (simp add: closed_modules_def)

lemma closed_less: "closed_modules w S \<Longrightarrow> m \<in> S \<Longrightarrow> m < record_count w"
  by (simp add: closed_modules_def)

lemma entry_okE:
  assumes "entry_ok w S m i"
  obtains k where "k \<in> S" "requested (records w m) i = Some (Some k)" "dep_of w m i = k"
  using assms by (auto simp: entry_ok_def dep_of_def)

lemma export_of_in: "export_of r name = Some e \<Longrightarrow> e \<in> set (export_entries r) \<and> exportName e = name"
  by (auto simp: export_of_def find_Some_iff)

lemma reexport_in: "reexport r e = Some i \<Longrightarrow> i \<in> set (import_entries r) \<and> importName i \<noteq> None"
  by (auto simp: reexport_def find_Some_iff)

text \<open>The names a walk can look for.\<close>

definition entry_names :: "'v ModuleRecord \<Rightarrow> atom option set" where
  "entry_names r = importName ` (set (import_entries r) \<union> set (export_entries r))"

definition walk_names :: "('v, 'x) Modules_scheme \<Rightarrow> nat set \<Rightarrow> atom option set" where
  "walk_names w S = (\<Union>m \<in> S. entry_names (records w m)) - {None}"

definition walk_nodes :: "('v, 'x) Modules_scheme \<Rightarrow> nat set \<Rightarrow> atom \<Rightarrow> node set" where
  "walk_nodes w S a = S \<times> insert (Some a) (walk_names w S)"

lemma walk_name: "(m, name) \<in> walk_nodes w S a \<Longrightarrow> \<exists>s. name = Some s"
  by (cases name) (auto simp: walk_nodes_def walk_names_def)

lemma forwards_in_nodes:
  assumes "closed_modules w S" "s \<in> walk_nodes w S a" "t \<in> forwards w s"
  shows "t \<in> walk_nodes w S a"
proof -
  obtain m name where s: "s = (m, name)" "m \<in> S" "name \<in> insert (Some a) (walk_names w S)"
    using assms(2) by (auto simp: walk_nodes_def)
  have r: "record_ok w S m" using closed_record [OF assms(1) s(2)] .
  show ?thesis
  proof (cases "export_of (records w m) name")
    case None
    then obtain e where e: "t = (dep_of w m (request e), name)" "e \<in> set (export_entries (records w m))" "exportName e = None"
      using assms(3) s(1) by (auto split: if_splits)
    then have "entry_ok w S m (request e)" using r by (simp add: record_ok_def)
    then show ?thesis using e(1) s(3) by (auto simp: walk_nodes_def elim!: entry_okE)
  next
    case (Some e)
    note e = export_of_in [OF Some]
    have name: "name \<noteq> None" using walk_name [of m name] assms(2) s(1) by blast
    show ?thesis
    proof (cases "request e = JS_MODULE_LOCAL")
      case False
      then have "entry_ok w S m (request e)" "importName e \<noteq> None" using r e name by (auto simp: record_ok_def)
      moreover have "importName e \<in> entry_names (records w m)" using e by (simp add: entry_names_def)
      ultimately show ?thesis
        using assms(3) s(1,2) Some False by (auto simp: walk_nodes_def walk_names_def elim!: entry_okE)
    next
      case True
      then obtain i where i: "reexport (records w m) e = Some i" "t = (dep_of w m (request i), importName i)"
        using assms(3) s(1) Some by (auto split: option.splits)
      note ii = reexport_in [OF i(1)]
      have "entry_ok w S m (request i)" using r ii by (simp add: record_ok_def)
      moreover have "importName i \<in> entry_names (records w m)" using ii by (simp add: entry_names_def)
      ultimately show ?thesis using i(2) s(2) ii by (auto simp: walk_nodes_def walk_names_def elim!: entry_okE)
    qed
  qed
qed

subsection \<open>Paths without a node\<close>

declare forwards.simps [simp del] bound.simps [simp del]

definition outside :: "('a \<times> 'a) set \<Rightarrow> 'a set \<Rightarrow> ('a \<times> 'a) set" where
  "outside R P = {(s, t) \<in> R. t \<notin> P}"

text \<open>What is reachable from a node without entering \<open>P\<close>.\<close>

definition reach_outside :: "('a \<times> 'a) set \<Rightarrow> 'a set \<Rightarrow> 'a \<Rightarrow> 'a set" where
  "reach_outside R P s = (if s \<in> P then {} else (outside R P)\<^sup>* `` {s})"

lemma out_edge: "(s, t) \<in> outside R P \<longleftrightarrow> (s, t) \<in> R \<and> t \<notin> P"
  by (simp add: outside_def)

text \<open>A path can leave its first node for good.\<close>

lemma leave_first:
  assumes "(s, t) \<in> (outside R P)\<^sup>*"
  shows "s = t \<or> (\<exists>u. (s, u) \<in> outside R (insert s P) \<and> (u, t) \<in> (outside R (insert s P))\<^sup>*)"
  using assms
proof (induction rule: rtrancl_induct)
  case (step t v)
  show ?case
  proof (cases "v = s")
    case False
    then have tv: "(t, v) \<in> outside R (insert s P)" using step.hyps(2) by (simp add: outside_def)
    from step.IH show ?thesis
    proof
      assume "s = t"
      then show ?thesis using tv by blast
    next
      assume "\<exists>u. (s, u) \<in> outside R (insert s P) \<and> (u, t) \<in> (outside R (insert s P))\<^sup>*"
      then show ?thesis using tv by (meson rtrancl.rtrancl_into_rtrancl)
    qed
  qed simp
qed simp

lemma outside_mono: "(s, t) \<in> (outside R (insert u P))\<^sup>* \<Longrightarrow> (s, t) \<in> (outside R P)\<^sup>*"
  by (erule rtrancl_mono [THEN subsetD, rotated]) (auto simp: outside_def)

lemma reach_outside_step:
  assumes "s \<notin> P"
  shows "reach_outside R P s = {s} \<union> (\<Union>u \<in> R `` {s}. reach_outside R (insert s P) u)"
proof (rule set_eqI)
  fix t
  have "(s, t) \<in> (outside R P)\<^sup>* \<longleftrightarrow> t = s \<or> (\<exists>u. (s, u) \<in> R \<and> u \<notin> insert s P \<and> (u, t) \<in> (outside R (insert s P))\<^sup>*)"
  proof
    assume t: "(s, t) \<in> (outside R P)\<^sup>*"
    show "t = s \<or> (\<exists>u. (s, u) \<in> R \<and> u \<notin> insert s P \<and> (u, t) \<in> (outside R (insert s P))\<^sup>*)"
    proof (cases "s = t")
      case False
      then obtain u where "(s, u) \<in> outside R (insert s P)" "(u, t) \<in> (outside R (insert s P))\<^sup>*"
        using leave_first [OF t] by blast
      then show ?thesis using out_edge [of s u R "insert s P"] by (intro disjI2 exI [of _ u]) simp
    qed simp
  next
    assume "t = s \<or> (\<exists>u. (s, u) \<in> R \<and> u \<notin> insert s P \<and> (u, t) \<in> (outside R (insert s P))\<^sup>*)"
    then show "(s, t) \<in> (outside R P)\<^sup>*"
    proof
      assume "\<exists>u. (s, u) \<in> R \<and> u \<notin> insert s P \<and> (u, t) \<in> (outside R (insert s P))\<^sup>*"
      then obtain u where "(s, u) \<in> R" "u \<notin> P" "(u, t) \<in> (outside R (insert s P))\<^sup>*" by blast
      then have "(s, u) \<in> outside R P" "(u, t) \<in> (outside R P)\<^sup>*" using outside_mono [of u t R s P] by (simp_all add: out_edge)
      then show ?thesis by (rule converse_rtrancl_into_rtrancl)
    qed simp
  qed
  then show "t \<in> reach_outside R P s \<longleftrightarrow> t \<in> {s} \<union> (\<Union>u \<in> R `` {s}. reach_outside R (insert s P) u)"
    using assms by (auto simp: reach_outside_def split: if_splits)
qed

lemma reach_outside_empty: "reach_outside R {} s = R\<^sup>* `` {s}"
  by (simp add: reach_outside_def outside_def)

definition targets_outside :: "('v, 'x) Modules_scheme \<Rightarrow> node set \<Rightarrow> node \<Rightarrow> node set" where
  "targets_outside w P s = (\<Union>t \<in> reach_outside (forward_edges w) P s. bound w t)"

lemma targets_outside_in: "s \<in> P \<Longrightarrow> targets_outside w P s = {}"
  by (simp add: targets_outside_def reach_outside_def)

lemma targets_outside_step:
  assumes "s \<notin> P"
  shows "targets_outside w P s = bound w s \<union> (\<Union>u \<in> forwards w s. targets_outside w (insert s P) u)"
  unfolding targets_outside_def reach_outside_step [OF assms] by (auto simp: forward_edges_def)

lemma targets_outside_empty: "targets_outside w {} s = targets w s"
  by (simp add: targets_outside_def targets_def reach_outside_empty)

subsection \<open>What the code finds\<close>

lemma sums_up_unresolved: "sums_up unresolved T \<longleftrightarrow> T = {}"
  by (simp add: sums_up_def unresolved_def)

lemma sums_up_ambiguous: "ambiguous b \<Longrightarrow> sums_up b T \<longleftrightarrow> rmodule b = None \<and> (\<exists>x \<in> T. \<exists>y \<in> T. x \<noteq> y)"
  by (simp add: sums_up_def)

lemma two_differ: "x \<in> V \<Longrightarrow> y \<in> V \<Longrightarrow> x \<noteq> y \<Longrightarrow> sums_up (b\<lparr>rmodule := None, ambiguous := True\<rparr>) V"
  by (simp add: sums_up_def) blast

text \<open>Merging the result of one star.\<close>

lemma merge_ambiguous:
  assumes "sums_up b T" "\<not> ambiguous b" "sums_up c U"
    and "ambiguous c \<or> (rmodule b \<noteq> None \<and> rmodule c \<noteq> None \<and> (rmodule b \<noteq> rmodule c \<or> rname b \<noteq> rname c))" "T \<union> U \<subseteq> V"
  shows "sums_up (b\<lparr>rmodule := None, ambiguous := True\<rparr>) V"
proof (cases "ambiguous c")
  case True
  then obtain x y where "x \<in> U" "y \<in> U" "x \<noteq> y" using assms(3) by (auto simp: sums_up_def)
  then show ?thesis using assms(5) by (intro two_differ [of x V y]) auto
next
  case False
  then obtain m n where "rmodule b = Some m" "rmodule c = Some n" "m \<noteq> n \<or> rname b \<noteq> rname c" using assms(4) by auto
  then have "(m, rname b) \<in> V" "(n, rname c) \<in> V" "(m, rname b) \<noteq> (n, rname c)"
    using assms(1,2,3,5) False by (auto simp: sums_up_def)
  then show ?thesis by (rule two_differ)
qed

lemma merge_plain:
  assumes "sums_up b T" "\<not> ambiguous b" "sums_up c U" "\<not> ambiguous c"
    and "\<not> (rmodule b \<noteq> None \<and> rmodule c \<noteq> None \<and> (rmodule b \<noteq> rmodule c \<or> rname b \<noteq> rname c))"
  shows "sums_up (if rmodule c \<noteq> None then c else b) (T \<union> U)"
  using assms by (cases "rmodule b"; cases "rmodule c") (auto simp: sums_up_def)

lemma star_loop_sums:
  assumes "sums_up b T" "\<not> ambiguous b" "star_loop resolve r es b = Inr b'"
    and "\<And>e dep c. e \<in> set es \<Longrightarrow> exportName e = None \<Longrightarrow> requested r (request e) = Some dep \<Longrightarrow> resolve dep = Inr c \<Longrightarrow>
      sums_up c (F (request e))"
  shows "sums_up b' (T \<union> (\<Union>e \<in> {e \<in> set es. exportName e = None}. F (request e)))"
  using assms
proof (induction es arbitrary: b T)
  case (Cons e es)
  let ?V = "T \<union> (\<Union>e' \<in> {e' \<in> set (e # es). exportName e' = None}. F (request e'))"
  let ?W = "\<Union>e' \<in> {e' \<in> set es. exportName e' = None}. F (request e')"
  have later: "sums_up c (F (request e'))"
    if "e' \<in> set es" "exportName e' = None" "requested r (request e') = Some dep" "resolve dep = Inr c" for e' dep c
    using Cons.prems(4) [of e' dep c] that by simp
  show ?case
  proof (cases "exportName e = None")
    case False
    then have "{e' \<in> set (e # es). exportName e' = None} = {e' \<in> set es. exportName e' = None}" by auto
    moreover have rest: "star_loop resolve r es b = Inr b'" using Cons.prems(3) False by simp
    have "sums_up b' (T \<union> ?W)" by (rule Cons.IH [OF Cons.prems(1,2) rest later])
    ultimately show ?thesis by simp
  next
    case True
    obtain dep where dep: "requested r (request e) = Some dep" using Cons.prems(3) True by (cases "requested r (request e)") auto
    obtain c where c: "resolve dep = Inr c" using Cons.prems(3) True dep by (cases "resolve dep") auto
    have kc: "sums_up c (F (request e))" using Cons.prems(4) [of e dep c] True dep c by simp
    let ?clash = "ambiguous c \<or> (rmodule b \<noteq> None \<and> rmodule c \<noteq> None \<and> (rmodule b \<noteq> rmodule c \<or> rname b \<noteq> rname c))"
    show ?thesis
    proof (cases ?clash)
      case clash: True
      have "sums_up (b\<lparr>rmodule := None, ambiguous := True\<rparr>) ?V"
        by (rule merge_ambiguous [OF Cons.prems(1,2) kc clash]) (use True in auto)
      moreover have "star_loop resolve r (e # es) b = Inr (b\<lparr>rmodule := None, ambiguous := True\<rparr>)"
        using True dep c clash by simp
      ultimately show ?thesis using Cons.prems(3) by simp
    next
      case False
      let ?b = "if rmodule c \<noteq> None then c else b"
      have m: "sums_up ?b (T \<union> F (request e))" by (rule merge_plain [OF Cons.prems(1,2) kc]) (use False in auto)
      have "star_loop resolve r (e # es) b = star_loop resolve r es ?b" using True
        by (simp only: star_loop.simps dep c option.case sum.case if_not_P [OF False] not_True_eq_False if_False simp_thms)
      then have rest: "star_loop resolve r es ?b = Inr b'" using Cons.prems(3) by simp
      have "sums_up b' (T \<union> F (request e) \<union> ?W)"
        by (rule Cons.IH [OF m _ rest later]) (use False Cons.prems(2) in simp_all)
      moreover have "T \<union> F (request e) \<union> ?W = ?V" using True by auto
      ultimately show ?thesis by simp
    qed
  qed
qed simp

text \<open>Whatever result there is sums up the bindings, also when some dependencies are not set.\<close>

lemma ResolveExport_sums:
  "m < record_count w \<Longrightarrow> ResolveExport d w (Some m) name previous = Inr b \<Longrightarrow>
    sums_up b (targets_outside w (set previous) (m, name))"
proof (induction d arbitrary: m name previous b)
  case (Suc d)
  let ?r = "records w m" let ?P = "set previous" let ?node = "(m, name)"
  have get: "GetModule w (Some m) = Some m" using Suc.prems(1) by (simp add: GetModule_def)
  have IH: "sums_up c (targets_outside w (insert ?node ?P) (dep_of w m i, nm))"
    if i: "requested ?r i = Some dep" and c: "ResolveExport d w dep nm (?node # previous) = Inr c" for i dep nm c
  proof -
    obtain k where k: "dep = Some k" "k < record_count w"
      using c by (cases d; cases dep) (auto simp: GetModule_def split: if_splits)
    moreover have "dep_of w m i = k" using i k(1) by (simp add: dep_of_def)
    ultimately show ?thesis using Suc.IH [of k nm "?node # previous" c] c by simp
  qed
  show ?case
  proof (cases "?node \<in> ?P")
    case True
    then show ?thesis using get Suc.prems(2) by (auto simp: sums_up_unresolved targets_outside_in)
  next
    case False
    note step = targets_outside_step [OF False, of w]
    note run = Suc.prems(2) get
    show ?thesis
    proof (cases "export_of ?r name")
      case (Some e)
      have forward: ?thesis
        if "(case requested ?r i of None \<Rightarrow> Inl Undefined | Some dep \<Rightarrow> ResolveExport d w dep nm (?node # previous)) = Inr b"
          and "forwards w ?node = {(dep_of w m i, nm)}" "bound w ?node = {}" for i nm
        using IH [of i _ nm b] step that by (cases "requested ?r i") auto
      show ?thesis
      proof (cases "request e = JS_MODULE_LOCAL")
        case remote: False
        show ?thesis
          by (rule forward [where i = "request e" and nm = "importName e"])
            (use Some remote False run in \<open>simp_all add: forwards.simps bound.simps export_of_def Let_def\<close>)
      next
        case local: True
        show ?thesis
        proof (cases "reexport ?r e")
          case None
          have "b = \<lparr>rmodule = Some m, rname = localName e, ambiguous = False\<rparr>"
            using Some local None False run by (simp add: export_of_def Let_def)
          moreover have "forwards w ?node = {}" "bound w ?node = {(m, localName e)}"
            using Some local None by (simp_all add: forwards.simps bound.simps)
          ultimately show ?thesis using step by (simp add: sums_up_def)
        next
          case (Some i)
          show ?thesis
            by (rule forward [where i = "request i" and nm = "importName i"])
              (use \<open>export_of ?r name = Some e\<close> local Some False run in \<open>simp_all add: forwards.simps bound.simps export_of_def Let_def\<close>)
        qed
      qed
    next
      case None
      have b0: "bound w ?node = {}" using None by (simp add: bound.simps)
      obtain s where s: "name = Some s" using None False run by (cases name) (simp_all add: export_of_def Let_def)
      show ?thesis
      proof (cases "IsDefaultExport s")
        case True
        then have "b = unresolved" using None False s run by (simp add: export_of_def Let_def)
        moreover have "forwards w ?node = {}" using True None s by (simp add: forwards.simps)
        ultimately show ?thesis using step b0 by (simp add: sums_up_unresolved)
      next
        case plain: False
        let ?F = "\<lambda>i. targets_outside w (insert ?node ?P) (dep_of w m i, name)"
        have fw: "forwards w ?node = {(dep_of w m (request e), name) | e. e \<in> set (export_entries ?r) \<and> exportName e = None}"
          using plain None s by (simp add: forwards.simps)
        have loop: "star_loop (\<lambda>dep. ResolveExport d w dep name (?node # previous)) ?r (export_entries ?r) unresolved = Inr b"
          using plain None False s run by (simp add: export_of_def Let_def)
        have u: "sums_up unresolved {}" "\<not> ambiguous unresolved" by (simp add: sums_up_unresolved, simp add: unresolved_def)
        have "sums_up b ({} \<union> (\<Union>e \<in> {e \<in> set (export_entries ?r). exportName e = None}. ?F (request e)))"
          by (rule star_loop_sums [OF u loop]) (rule IH)
        moreover have "targets_outside w ?P ?node = (\<Union>e \<in> {e \<in> set (export_entries ?r). exportName e = None}. ?F (request e))"
          unfolding step b0 fw by auto
        ultimately show ?thesis by simp
      qed
    qed
  qed
qed (simp split: if_splits)

lemma star_loop_total:
  assumes "\<And>e. e \<in> set es \<Longrightarrow> exportName e = None \<Longrightarrow> \<exists>k c. requested r (request e) = Some (Some k) \<and> resolve (Some k) = Inr c"
  shows "\<exists>b'. star_loop resolve r es b = Inr b'"
  using assms
proof (induction es arbitrary: b)
  case (Cons e es)
  have "\<exists>b'. star_loop resolve r es b = Inr b'" for b using Cons by simp
  then show ?case using Cons.prems [of e] by (cases "exportName e") auto
qed simp

lemma ResolveExport_total:
  assumes cl: "closed_modules w S" and fin: "finite S"
  shows "(m, name) \<in> walk_nodes w S a \<Longrightarrow> card (walk_nodes w S a - set previous) < d \<Longrightarrow>
    \<exists>b. ResolveExport d w (Some m) name previous = Inr b"
proof (induction d arbitrary: m name previous)
  case (Suc d)
  let ?U = "walk_nodes w S a" let ?r = "records w m" let ?P = "set previous" let ?node = "(m, name)"
  have mS: "m \<in> S" using Suc.prems(1) by (simp add: walk_nodes_def)
  have get: "GetModule w (Some m) = Some m" using closed_less [OF cl mS] by (simp add: GetModule_def)
  have rok: "record_ok w S m" using closed_record [OF cl mS] .
  obtain s where s: "name = Some s" using walk_name [OF Suc.prems(1)] by blast
  show ?case
  proof (cases "?node \<in> ?P")
    case False
    have "finite ?U" using fin by (simp add: walk_nodes_def walk_names_def entry_names_def)
    moreover have "?U - set (?node # previous) \<subset> ?U - ?P" using Suc.prems(1) False by auto
    ultimately have "card (?U - set (?node # previous)) < card (?U - ?P)" by (intro psubset_card_mono) simp_all
    then have small: "card (?U - set (?node # previous)) < d" using Suc.prems(2) by simp
    have IH: "\<exists>b. ResolveExport d w (Some k) nm (?node # previous) = Inr b" if "(k, nm) \<in> forwards w ?node" for k nm
      using Suc.IH [OF forwards_in_nodes [OF cl Suc.prems(1) that] small] .
    show ?thesis
    proof (cases "export_of ?r name")
      case (Some e)
      note e = export_of_in [OF Some]
      show ?thesis
      proof (cases "request e = JS_MODULE_LOCAL")
        case remote: False
        have "entry_ok w S m (request e)" using rok e remote by (simp add: record_ok_def)
        then obtain k where k: "requested ?r (request e) = Some (Some k)" "dep_of w m (request e) = k" by (rule entry_okE)
        have "(k, importName e) \<in> forwards w ?node" using Some remote k by (simp add: forwards.simps)
        then show ?thesis using IH Some remote False k get by (auto simp: export_of_def Let_def)
      next
        case local: True
        show ?thesis
        proof (cases "reexport ?r e")
          case None
          then show ?thesis using Some local False get by (simp add: export_of_def Let_def)
        next
          case i: (Some i)
          have "entry_ok w S m (request i)" using rok reexport_in [OF i] by (simp add: record_ok_def)
          then obtain k where k: "requested ?r (request i) = Some (Some k)" "dep_of w m (request i) = k" by (rule entry_okE)
          have "(k, importName i) \<in> forwards w ?node" using Some local i k by (simp add: forwards.simps)
          then show ?thesis using IH Some local i False k get by (auto simp: export_of_def Let_def)
        qed
      qed
    next
      case None
      show ?thesis
      proof (cases "IsDefaultExport s")
        case True
        then show ?thesis using None s False get by (simp add: export_of_def Let_def)
      next
        case plain: False
        have "\<exists>b. star_loop (\<lambda>dep. ResolveExport d w dep name (?node # previous)) ?r (export_entries ?r) unresolved = Inr b"
        proof (rule star_loop_total)
          fix e assume e: "e \<in> set (export_entries ?r)" "exportName e = None"
          have "entry_ok w S m (request e)" using rok e by (simp add: record_ok_def)
          then obtain k where k: "requested ?r (request e) = Some (Some k)" "dep_of w m (request e) = k" by (rule entry_okE)
          moreover have "(k, name) \<in> forwards w ?node" using plain None s e k(2) by (auto simp: forwards.simps)
          ultimately show "\<exists>k c. requested ?r (request e) = Some (Some k) \<and> ResolveExport d w (Some k) name (?node # previous) = Inr c"
            using IH by blast
        qed
        then show ?thesis using plain None s False get by (simp add: export_of_def Let_def)
      qed
    qed
  qed (use get in auto)
qed simp

lemma module_resolution:
  assumes "closed_modules w S" "finite S" "m \<in> S" "card (walk_nodes w S a) < d"
  shows "\<exists>b. ResolveExport d w (Some m) (Some a) [] = Inr b \<and> sums_up b (targets w (m, Some a))"
proof -
  have "(m, Some a) \<in> walk_nodes w S a" using assms(3) by (simp add: walk_nodes_def)
  then obtain b where b: "ResolveExport d w (Some m) (Some a) [] = Inr b"
    using ResolveExport_total [OF assms(1,2), of m "Some a" a "[]" d] assms(4) by auto
  then show ?thesis using ResolveExport_sums [OF closed_less [OF assms(1,3)] b] by (simp add: targets_outside_empty)
qed

text \<open>C3. With enough stack the resolution of an export always ends, cycles included, and its result sums up all the
  bindings the export is forwarded to: the only one, none, or an ambiguity when there are at least two.\<close>

theorem module_resolution_correct:
  assumes "closed_modules w S" "finite S" "m \<in> S" "card (walk_nodes w S a) < d"
  shows "\<exists>b. ResolveExport d w (Some m) (Some a) [] = Inr b \<and> sums_up b (targets w (m, Some a))"
  using assms by (rule module_resolution)

end
