(* ===== verification/Module_Names.thy ===== *)
theory Module_Names
  imports Module_Correct "HOL-Library.List_Lexorder"
begin

text \<open>
  The names a module exports and its namespace object: the names found along the star exports are those of the modules
  reachable by stars, without duplicates; the comparison is the lexicographic order of the characters; and the namespace
  binds, in that order, exactly the exported names that have a single binding.
\<close>

subsection \<open>Steps that leave the records alone\<close>

definition same_records :: "('v, 'x) Modules_scheme \<Rightarrow> ('v, 'x) Modules_scheme \<Rightarrow> bool" where
  "same_records w w' \<longleftrightarrow> records w' = records w \<and> record_count w' = record_count w \<and> allowed w' = allowed w \<and>
     objects w' = objects w \<and> Modules.more w' = Modules.more w"

lemma same_records_refl [simp]: "same_records w w"
  by (simp add: same_records_def)

lemma same_records_trans: "same_records a b \<Longrightarrow> same_records b c \<Longrightarrow> same_records a c"
  by (simp add: same_records_def)

lemma same_raise [simp]: "same_records w (raise e w)"
  by (simp add: same_records_def raise_def split: option.split)

lemma same_tick: "tick w = (ok, w') \<Longrightarrow> same_records w w'"
  by (auto simp: tick_def same_records_def)

lemma same_ticks: "ticks_of n w = (ok, w') \<Longrightarrow> same_records w w'"
proof (induction n arbitrary: w)
  case (Suc n)
  obtain b w1 where t: "tick w = (b, w1)" by (metis prod.exhaust)
  show ?case
  proof (cases b)
    case True
    then have "same_records w1 w'" using Suc t by simp
    then show ?thesis using same_tick [OF t] same_records_trans by blast
  next
    case False
    then show ?thesis using Suc.prems t same_tick [OF t] by simp
  qed
qed simp

lemma tick_allowed: "\<forall>i. allowed w i \<Longrightarrow> tick w = (ok, w') \<Longrightarrow> ok"
  by (simp add: tick_def)

lemma same_records_get: "same_records w w' \<Longrightarrow> GetModule w' obj = GetModule w obj"
  by (simp add: same_records_def GetModule_def split: option.split)

subsection \<open>The graph of stars\<close>

definition own_names :: "bool \<Rightarrow> 'v ModuleRecord \<Rightarrow> atom set" where
  "own_names includeDefault r = {a. Some a \<in> exportName ` set (export_entries r) \<and> (includeDefault \<or> \<not> IsDefaultExport a)}"

definition star_edges :: "('v, 'x) Modules_scheme \<Rightarrow> (nat \<times> nat) set" where
  "star_edges w = {(m, dep_of w m (request e)) | m e. e \<in> set (export_entries (records w m)) \<and> exportName e = None}"

text \<open>The names a module exports: its own, and those of the modules reachable by stars but for \<open>default\<close>.\<close>

definition exported_names :: "('v, 'x) Modules_scheme \<Rightarrow> nat \<Rightarrow> atom set" where
  "exported_names w m =
     own_names True (records w m) \<union> (\<Union>k \<in> (star_edges w)\<^sup>* `` {m}. own_names False (records w k))"

definition names_outside :: "('v, 'x) Modules_scheme \<Rightarrow> nat set \<Rightarrow> bool \<Rightarrow> nat \<Rightarrow> atom set" where
  "names_outside w P includeDefault m =
     (if m \<in> P then {} else own_names includeDefault (records w m)) \<union>
     (\<Union>k \<in> reach_outside (star_edges w) P m. own_names False (records w k))"

lemma own_names_mono: "own_names False r \<subseteq> own_names b r"
  by (auto simp: own_names_def)

lemma names_outside_in: "m \<in> P \<Longrightarrow> names_outside w P b m = {}"
  by (simp add: names_outside_def reach_outside_def)

lemma names_outside_step:
  assumes "m \<notin> P"
  shows "names_outside w P b m = own_names b (records w m) \<union>
    (\<Union>k \<in> star_edges w `` {m}. names_outside w (insert m P) False k)"
proof -
  have "(\<Union>k \<in> reach_outside (star_edges w) P m. own_names False (records w k)) = own_names False (records w m) \<union>
      (\<Union>k \<in> star_edges w `` {m}. \<Union>j \<in> reach_outside (star_edges w) (insert m P) k. own_names False (records w j))"
    unfolding reach_outside_step [OF assms] by auto
  moreover have "names_outside w (insert m P) False k = (\<Union>j \<in> reach_outside (star_edges w) (insert m P) k. own_names False (records w j))" for k
    by (cases "k \<in> insert m P") (auto simp: names_outside_def reach_outside_def)
  ultimately show ?thesis using assms own_names_mono [of "records w m" b] by (auto simp: names_outside_def)
qed

subsection \<open>Collecting\<close>

text \<open>What a visit of another module does to the names.\<close>

definition collects :: "('v, 'x) Modules_scheme \<Rightarrow> (nat option \<Rightarrow> atom list \<Rightarrow> ('v, 'x) Modules_scheme \<Rightarrow> bool \<times> atom list \<times> ('v, 'x) Modules_scheme) \<Rightarrow> nat \<Rightarrow> atom set \<Rightarrow> bool" where
  "collects w0 f k A \<longleftrightarrow>
     (\<forall>names w ok names' w'. same_records w0 w \<and> distinct names \<and> f (Some k) names w = (ok, names', w') \<longrightarrow>
        same_records w0 w' \<and> distinct names' \<and> set names \<subseteq> set names' \<and> set names' \<subseteq> set names \<union> A \<and>
        (ok \<longrightarrow> set names' = set names \<union> A) \<and>
        (\<not> ok \<longrightarrow> \<not> (\<forall>i. allowed w0 i) \<or> SIZE_MAX div 8 - 1 \<le> card (set names \<union> A)))"

lemma collectsD:
  assumes "collects w0 f k A" "same_records w0 w" "distinct names" "f (Some k) names w = (ok, names', w')"
  shows "same_records w0 w'" "distinct names'" "set names \<subseteq> set names'" "set names' \<subseteq> set names \<union> A"
    "ok \<Longrightarrow> set names' = set names \<union> A"
    "\<not> ok \<Longrightarrow> \<not> (\<forall>i. allowed w0 i) \<or> SIZE_MAX div 8 - 1 \<le> card (set names \<union> A)"
  using assms unfolding collects_def by blast+

lemma finite_own [simp]: "finite (own_names b r)"
proof -
  have "own_names b r \<subseteq> the ` exportName ` set (export_entries r)"
  proof
    fix a assume "a \<in> own_names b r"
    then have "Some a \<in> exportName ` set (export_entries r)" by (simp add: own_names_def)
    from imageI [OF this, of the] show "a \<in> the ` exportName ` set (export_entries r)" by simp
  qed
  then show ?thesis by (rule finite_subset) simp
qed

definition loop_names :: "bool \<Rightarrow> (u32 \<Rightarrow> atom set) \<Rightarrow> ModuleEntry list \<Rightarrow> atom set" where
  "loop_names b F es = {a. Some a \<in> exportName ` set es \<and> (b \<or> \<not> IsDefaultExport a)} \<union>
     (\<Union>e \<in> {e \<in> set es. exportName e = None}. F (request e))"

lemma loop_names_simps [simp]:
  "loop_names b F [] = {}"
  "exportName e = None \<Longrightarrow> loop_names b F (e # es) = F (request e) \<union> loop_names b F es"
  "exportName e = Some a \<Longrightarrow> loop_names b F (e # es) = (if b \<or> \<not> IsDefaultExport a then {a} else {}) \<union> loop_names b F es"
  by (auto simp: loop_names_def)

lemma finite_loop_names:
  "(\<And>e. e \<in> set es \<Longrightarrow> exportName e = None \<Longrightarrow> finite (F (request e))) \<Longrightarrow> finite (loop_names b F es)"
proof (induction es)
  case (Cons e es)
  then show ?case by (cases "exportName e") auto
qed simp

lemma collect_loop_names:
  assumes "\<And>e. e \<in> set es \<Longrightarrow> exportName e = None \<Longrightarrow>
      \<exists>k. requested r (request e) = Some (Some k) \<and> collects w0 collect k (F (request e))"
    and fin: "\<And>e. e \<in> set es \<Longrightarrow> exportName e = None \<Longrightarrow> finite (F (request e))"
    and "same_records w0 w" "distinct names" "collect_loop collect b r es names w = (ok, names', w')"
  shows "same_records w0 w' \<and> distinct names' \<and> set names \<subseteq> set names' \<and> set names' \<subseteq> set names \<union> loop_names b F es \<and>
    (ok \<longrightarrow> set names' = set names \<union> loop_names b F es) \<and>
    (\<not> ok \<longrightarrow> \<not> (\<forall>i. allowed w0 i) \<or> SIZE_MAX div 8 - 1 \<le> card (set names \<union> loop_names b F es))"
  using assms
proof (induction es arbitrary: names w)
  case (Cons e es)
  let ?A = "loop_names b F (e # es)" let ?B = "loop_names b F es"
  have fin: "finite (set names \<union> ?A)" for names
  proof -
    have "finite ?A" by (rule finite_loop_names) (rule Cons.prems(2))
    then show ?thesis by simp
  qed
  have rest: ?case
    if "set names1 = set names \<union> A1" "?A = A1 \<union> ?B" "same_records w0 w1" "distinct names1" "collect_loop collect b r es names1 w1 = (ok, names', w')"
    for names1 w1 A1
  proof -
    have "same_records w0 w' \<and> distinct names' \<and> set names1 \<subseteq> set names' \<and> set names' \<subseteq> set names1 \<union> ?B \<and>
        (ok \<longrightarrow> set names' = set names1 \<union> ?B) \<and>
        (\<not> ok \<longrightarrow> \<not> (\<forall>i. allowed w0 i) \<or> SIZE_MAX div 8 - 1 \<le> card (set names1 \<union> ?B))"
      by (rule Cons.IH [OF _ _ that(3,4,5)]) (use Cons.prems(1,2) in simp_all)
    moreover have "set names1 \<union> ?B = set names \<union> ?A" using that(1,2) by auto
    ultimately show ?thesis using that(1) by auto
  qed
  show ?case
  proof (cases "exportName e")
    case None
    obtain k where k: "requested r (request e) = Some (Some k)" "collects w0 collect k (F (request e))"
      using Cons.prems(1) [of e] None by auto
    obtain ok1 names1 w1 where c: "collect (Some k) names w = (ok1, names1, w1)" by (metis prod.exhaust)
    note cd = collectsD [OF k(2) Cons.prems(3,4) c]
    show ?thesis
    proof (cases ok1)
      case True
      show ?thesis
        by (rule rest [of names1 "F (request e)" w1]) (use True cd Cons.prems(5) None k(1) c in simp_all)
    next
      case False
      have "card (set names \<union> F (request e)) \<le> card (set names \<union> ?A)" by (rule card_mono [OF fin]) (use None in auto)
      moreover have "ok = False \<and> names' = names1 \<and> w' = w1" using Cons.prems(5) None k(1) c False by simp
      ultimately show ?thesis using cd(1-4) cd(6) [OF False] None by auto
    qed
  next
    case (Some a)
    show ?thesis
    proof (cases "\<not> b \<and> IsDefaultExport a \<or> a \<in> set names")
      case True
      then have eq: "collect_loop collect b r es names w = (ok, names', w')" using Cons.prems(5) Some by (auto split: if_splits)
      show ?thesis
        by (rule rest [of names "if b \<or> \<not> IsDefaultExport a then {a} else {}" w]) (use True Some eq Cons.prems(3,4) in auto)
    next
      case False
      then have A: "?A = {a} \<union> ?B" using Some by auto
      show ?thesis
      proof (cases "length names \<ge> SIZE_MAX div 8 - 1")
        case True
        have "card (set names) \<le> card (set names \<union> ?A)" by (rule card_mono [OF fin]) auto
        then have "SIZE_MAX div 8 - 1 \<le> card (set names \<union> ?A)" using True distinct_card [OF Cons.prems(4)] by simp
        moreover have "ok = False \<and> names' = names \<and> w' = raise OutOfMemory w"
          using Cons.prems(5) Some False True by (auto split: if_splits)
        ultimately show ?thesis using Cons.prems(3,4) same_records_trans [OF _ same_raise] by auto
      next
        case room: False
        obtain ok1 w1 where t: "tick w = (ok1, w1)" by (metis prod.exhaust)
        have same: "same_records w0 w1" using same_records_trans [OF Cons.prems(3) same_tick [OF t]] .
        show ?thesis
        proof (cases ok1)
          case True
          show ?thesis
            by (rule rest [of "names @ [a]" "{a}" w1]) (use True A same False room t Some Cons.prems(4,5) in auto)
        next
          case refused: False
          have "\<not> (\<forall>i. allowed w0 i)" using tick_allowed [OF _ t] refused Cons.prems(3) by (auto simp: same_records_def)
          moreover have "ok = False \<and> names' = names \<and> w' = w1"
            using Cons.prems(5) Some False room t refused by (auto split: if_splits)
          ultimately show ?thesis using same Cons.prems(4) by auto
        qed
      qed
    qed
  qed
qed simp

lemma star_edge_closed:
  assumes "closed_modules w S" "m \<in> S" "(m, k) \<in> star_edges w"
  shows "k \<in> S"
proof -
  obtain e where e: "k = dep_of w m (request e)" "e \<in> set (export_entries (records w m))" "exportName e = None"
    using assms(3) by (auto simp: star_edges_def)
  then have "entry_ok w S m (request e)" using closed_record [OF assms(1,2)] by (simp add: record_ok_def)
  then show ?thesis using e(1) by (auto elim: entry_okE)
qed

lemma reach_closed:
  assumes "closed_modules w S" "m \<in> S"
  shows "reach_outside (star_edges w) P m \<subseteq> S"
proof
  fix k assume "k \<in> reach_outside (star_edges w) P m"
  then have "(m, k) \<in> (outside (star_edges w) P)\<^sup>*" by (auto simp: reach_outside_def split: if_splits)
  then show "k \<in> S"
    by (induction rule: rtrancl_induct) (use assms star_edge_closed in \<open>auto simp: outside_def\<close>)
qed

lemma finite_names_outside: "closed_modules w S \<Longrightarrow> finite S \<Longrightarrow> m \<in> S \<Longrightarrow> finite (names_outside w P b m)"
  unfolding names_outside_def using finite_subset [OF reach_closed [of w S m P]] by auto

lemma CollectExportNames_collects:
  assumes cl: "closed_modules w0 S" and fin: "finite S"
  shows "m \<in> S \<Longrightarrow> card (S - set previous) < d \<Longrightarrow>
    collects w0 (CollectExportNames d previous b) m (names_outside w0 (set previous) b m)"
proof (induction d arbitrary: m previous b)
  case (Suc d)
  let ?P = "set previous" let ?r = "records w0 m"
  show ?case
    unfolding collects_def
  proof (intro allI impI)
    fix names w ok names' w'
    assume a: "same_records w0 w \<and> distinct names \<and> CollectExportNames (Suc d) previous b (Some m) names w = (ok, names', w')"
    have get: "GetModule w (Some m) = Some m"
      using closed_less [OF cl Suc.prems(1)] a by (simp add: GetModule_def same_records_def)
    have rec: "records w m = ?r" using a by (simp add: same_records_def)
    show "same_records w0 w' \<and> distinct names' \<and> set names \<subseteq> set names' \<and>
        set names' \<subseteq> set names \<union> names_outside w0 ?P b m \<and>
        (ok \<longrightarrow> set names' = set names \<union> names_outside w0 ?P b m) \<and>
        (\<not> ok \<longrightarrow> \<not> (\<forall>i. allowed w0 i) \<or> SIZE_MAX div 8 - 1 \<le> card (set names \<union> names_outside w0 ?P b m))"
    proof (cases "m \<in> ?P")
      case True
      then show ?thesis using a get by (auto simp: names_outside_in)
    next
      case False
      have "S - set (m # previous) \<subset> S - ?P" using Suc.prems(1) False by auto
      then have "card (S - set (m # previous)) < card (S - ?P)" by (intro psubset_card_mono) (use fin in simp_all)
      then have small: "card (S - set (m # previous)) < d" using Suc.prems(2) by simp
      let ?F = "\<lambda>i. names_outside w0 (insert m ?P) False (dep_of w0 m i)"
      have star: "\<exists>k \<in> S. requested ?r (request e) = Some (Some k) \<and> dep_of w0 m (request e) = k"
        if "e \<in> set (export_entries ?r)" "exportName e = None" for e
      proof -
        have "entry_ok w0 S m (request e)" using closed_record [OF cl Suc.prems(1)] that by (simp add: record_ok_def)
        then show ?thesis by (blast elim: entry_okE)
      qed
      have visits: "\<exists>k. requested ?r (request e) = Some (Some k) \<and> collects w0 (CollectExportNames d (m # previous) False) k (?F (request e))"
        if "e \<in> set (export_entries ?r)" "exportName e = None" for e
        using star [OF that] Suc.IH [OF _ small, of _ False] by fastforce
      have finite: "finite (?F (request e))" if "e \<in> set (export_entries ?r)" "exportName e = None" for e
        using star [OF that] finite_names_outside [OF cl fin] by auto
      have run: "collect_loop (CollectExportNames d (m # previous) False) b ?r (export_entries ?r) names w = (ok, names', w')"
        using a get rec False by simp
      have all: "loop_names b ?F (export_entries ?r) = names_outside w0 ?P b m"
      proof -
        have "star_edges w0 `` {m} = (\<lambda>e. dep_of w0 m (request e)) ` {e \<in> set (export_entries ?r). exportName e = None}"
          by (auto simp: star_edges_def)
        then show ?thesis unfolding names_outside_step [OF False] by (auto simp: loop_names_def own_names_def)
      qed
      have w: "same_records w0 w" "distinct names" using a by blast+
      from collect_loop_names [where F = ?F, OF visits finite w run] show ?thesis unfolding all .
    qed
  qed
qed simp

text \<open>From an empty list, with enough stack.\<close>

lemma CollectExportNames_all:
  assumes "closed_modules w S" "finite S" "m \<in> S" "card S < d" "CollectExportNames d [] True (Some m) [] w = (ok, names, w')"
  shows "same_records w w'" "distinct names" "ok \<Longrightarrow> set names = exported_names w m"
    "\<not> ok \<Longrightarrow> \<not> (\<forall>i. allowed w i) \<or> SIZE_MAX div 8 - 1 \<le> card (exported_names w m)"
proof -
  have e: "names_outside w {} True m = exported_names w m"
    by (simp add: names_outside_def exported_names_def reach_outside_empty)
  have "collects w (CollectExportNames d [] True) m (exported_names w m)"
    using CollectExportNames_collects [OF assms(1,2,3), of "[]" d True] assms(4) e by simp
  note c = collectsD [OF this same_records_refl _ assms(5)]
  show "same_records w w'" "distinct names" using c(1,2) by simp_all
  show "ok \<Longrightarrow> set names = exported_names w m" using c(5) by simp
  show "\<not> ok \<Longrightarrow> \<not> (\<forall>i. allowed w i) \<or> SIZE_MAX div 8 - 1 \<le> card (exported_names w m)" using c(6) by simp
qed

subsection \<open>Sorting\<close>

lemma CompareExportNames_order: "CompareExportNames a b = (if a = b then 0 else if a < b then -1 else 1)"
  by (induction a b rule: CompareExportNames.induct) auto

lemma qsort_insert_insort: "qsort_insert CompareExportNames a xs = insort a xs"
  by (induction xs) (auto simp: CompareExportNames_order)

lemma qsort_sort: "qsort CompareExportNames xs = sort xs"
  unfolding qsort_def by (induction xs) (simp_all add: qsort_insert_insort)

subsection \<open>The namespace\<close>

definition single_names :: "('v, 'x) Modules_scheme \<Rightarrow> nat \<Rightarrow> atom set" where
  "single_names w m = {a \<in> exported_names w m. \<exists>x. targets w (m, Some a) = {x}}"

lemma card_walk_nodes: "finite S \<Longrightarrow> card (walk_nodes w S a) \<le> card S * Suc (card (walk_names w S))"
  unfolding walk_nodes_def card_cartesian_product by (simp add: card_insert_le_m1 card_insert_if walk_names_def entry_names_def)

text \<open>An entry of the namespace and the binding it stands for.\<close>

definition binds :: "('v, 'x) Modules_scheme \<Rightarrow> nat \<Rightarrow> ModuleEntry \<Rightarrow> bool" where
  "binds w m e \<longleftrightarrow> (\<exists>t. resolvedModule e = Some t \<and> targets w (m, exportName e) = {(t, resolvedName e)})"

lemma same_records_targets: "same_records w w' \<Longrightarrow> targets w' = targets w"
proof -
  assume "same_records w w'"
  then have r: "records w' = records w" by (simp add: same_records_def)
  have "forwards w' x = forwards w x" "bound w' x = bound w x" for x
    by (cases x, simp only: forwards.simps bound.simps dep_of_def r)+
  then have f: "forwards w' = forwards w" and b: "bound w' = bound w" by blast+
  show ?thesis by (rule ext) (simp add: targets_def forward_edges_def f b)
qed

lemma same_records_closed: "same_records w w' \<Longrightarrow> closed_modules w' S = closed_modules w S"
  by (simp add: same_records_def closed_modules_def record_ok_def entry_ok_def)

lemma same_records_walk: "same_records w w' \<Longrightarrow> walk_nodes w' S a = walk_nodes w S a"
  by (simp add: same_records_def walk_nodes_def walk_names_def)

lemma namespace_loop_binds:
  assumes cl: "closed_modules w0 S" and fin: "finite S" and m: "m \<in> S"
    and d: "\<And>a. card (walk_nodes w0 S a) < d"
    and "same_records w0 w" "namespace_loop d m names es w = (res, w')"
  shows "same_records w0 w' \<and> (res = None \<longrightarrow> \<not> (\<forall>i. allowed w0 i)) \<and>
    (\<forall>es'. res = Some es' \<longrightarrow> (\<exists>new. es' = es @ new \<and>
       map exportName new = map Some (filter (\<lambda>a. \<exists>x. targets w0 (m, Some a) = {x}) names) \<and> (\<forall>e \<in> set new. binds w0 m e)))"
  using assms(5,6)
proof (induction names arbitrary: es w)
  case (Cons a names)
  have "\<exists>b. ResolveExport d w (Some m) (Some a) [] = Inr b \<and> sums_up b (targets w (m, Some a))"
    by (rule module_resolution [of w S])
      (use same_records_closed [OF Cons.prems(1)] same_records_walk [OF Cons.prems(1)] cl fin m d in simp_all)
  then obtain b where b: "ResolveExport d w (Some m) (Some a) [] = Inr b" "sums_up b (targets w0 (m, Some a))"
    using same_records_targets [OF Cons.prems(1)] by auto
  show ?case
  proof (cases "rmodule b = None \<or> ambiguous b")
    case True
    then have "\<not> (\<exists>x. targets w0 (m, Some a) = {x})" using b(2) by (auto simp: sums_up_def split: if_splits)
    then show ?thesis using Cons.IH [OF Cons.prems(1), of es] Cons.prems(2) b(1) True by simp
  next
    case False
    then obtain t where t: "rmodule b = Some t" "targets w0 (m, Some a) = {(t, rname b)}" using b(2) by (auto simp: sums_up_def)
    define entry where "entry = \<lparr>exportName = Some a, localName = None, importName = None, request = 0,
      resolvedModule = rmodule b, resolvedName = rname b\<rparr>"
    have e: "exportName entry = Some a" "binds w0 m entry" using t by (simp_all add: entry_def binds_def)
    obtain ok w1 where tk: "tick w = (ok, w1)" by (metis prod.exhaust)
    have same: "same_records w0 w1" using same_records_trans [OF Cons.prems(1) same_tick [OF tk]] .
    show ?thesis
    proof (cases ok)
      case True
      then have "namespace_loop d m names (es @ [entry]) w1 = (res, w')"
        using Cons.prems(2) b(1) False tk by (simp add: entry_def Let_def)
      note ih = Cons.IH [OF same this]
      let ?single = "\<lambda>a. \<exists>x. targets w0 (m, Some a) = {x}"
      have one: "?single a" using t(2) by blast
      have ends: "\<exists>new. es' = es @ new \<and> map exportName new = map Some (filter ?single (a # names)) \<and> (\<forall>e \<in> set new. binds w0 m e)"
        if "res = Some es'" for es'
      proof -
        from ih that have "\<exists>new. es' = (es @ [entry]) @ new \<and> map exportName new = map Some (filter ?single names) \<and> (\<forall>e \<in> set new. binds w0 m e)"
          by (elim conjE allE [of _ es']) (erule mp)
        then obtain new where new: "es' = (es @ [entry]) @ new" "map exportName new = map Some (filter ?single names)" "\<forall>e \<in> set new. binds w0 m e"
          by (elim exE conjE)
        have "filter ?single (a # names) = a # filter ?single names" by (simp only: filter.simps one if_True)
        then have "map exportName (entry # new) = map Some (filter ?single (a # names))" using new(2) e(1) by simp
        moreover have "es' = es @ (entry # new)" using new(1) by simp
        ultimately show ?thesis using new(3) e(2) by (intro exI [of _ "entry # new"] conjI) simp_all
      qed
      show ?thesis
        by (intro conjI allI impI) (rule conjunct1 [OF ih], erule mp [OF conjunct1 [OF conjunct2 [OF ih]]], erule ends)
    next
      case refused: False
      have "\<not> (\<forall>i. allowed w0 i)" using tick_allowed [OF _ tk] refused Cons.prems(1) by (auto simp: same_records_def)
      then show ?thesis using Cons.prems(2) b(1) False tk refused same by (auto simp: Let_def)
    qed
  qed
qed auto

lemma filter_sorted_list:
  "finite A \<Longrightarrow> filter P (sorted_list_of_set A) = sorted_list_of_set {a \<in> A. P a}" for A :: "'a::linorder set"
  by (rule sorted_distinct_set_unique) (auto simp: sorted_wrt_filter)

lemma ticks_allowed: "\<forall>i. allowed w i \<Longrightarrow> ticks_of n w = (ok, w') \<Longrightarrow> ok"
proof (induction n arbitrary: w)
  case (Suc n)
  obtain b w1 where t: "tick w = (b, w1)" by (metis prod.exhaust)
  have "b" using tick_allowed [OF Suc.prems(1) t] .
  moreover have "\<forall>i. allowed w1 i" using same_tick [OF t] Suc.prems(1) by (simp add: same_records_def)
  ultimately show ?case using Suc.IH [of w1] Suc.prems(2) t by simp
qed simp

lemma same_records_allowed: "same_records w w' \<Longrightarrow> \<forall>i. allowed w i \<Longrightarrow> \<forall>i. allowed w' i"
  by (simp add: same_records_def)

text \<open>C18. The namespace of a linked module is made unless an allocation fails or the module exports 2^32 names; its entries
  are the exported names that have exactly one binding, in lexicographic order, each with that binding, and asking
  again gives the same object.\<close>

theorem module_namespace_correct:
  assumes "closed_modules w S" "finite S" "m \<in> S" "card S * Suc (card (walk_names w S)) < d"
    and "state (records w m) \<noteq> MODULE_UNLINKED" "namespaceObject (records w m) = None"
    and "js_GetModuleNamespace link d (Some m) w = (obj, w')"
  shows "(obj = None \<longrightarrow> \<not> (\<forall>i. allowed w i) \<or> 2 ^ 32 \<le> card (exported_names w m)) \<and>
    (obj \<noteq> None \<longrightarrow>
       map exportName (namespaceBindings (records w' m)) = map Some (sorted_list_of_set (single_names w m)) \<and>
       (\<forall>e \<in> set (namespaceBindings (records w' m)). binds w m e) \<and>
       js_GetModuleNamespace link d (Some m) w' = (obj, w'))"
proof -
  have get: "GetModule w (Some m) = Some m" using closed_less [OF assms(1,3)] by (simp add: GetModule_def)
  have walk: "card (walk_nodes w S a) < d" for a using card_walk_nodes [OF assms(2), of w a] assms(4) by linarith
  have "card S \<le> card S * Suc (card (walk_names w S))" by simp
  then have "card S < d" using assms(4) by linarith
  note collected = CollectExportNames_all [OF assms(1-3) this]
  obtain ok1 names w1 where c: "CollectExportNames d [] True (Some m) [] w = (ok1, names, w1)" by (metis prod.exhaust)
  note cd = collected [OF c]
  define sn where "sn = (if length names > 1 then qsort CompareExportNames names else names)"
  note run = assms(7) [unfolded js_GetModuleNamespace_def]
  show ?thesis
  proof (cases ok1)
    case False
    have "obj = None" using run get assms(5,6) c False by simp
    then show ?thesis using cd(4) [OF False] by (auto simp: SIZE_MAX_def)
  next
    case True
    have "sn = sort names" by (cases names; cases "tl names") (auto simp: sn_def qsort_sort)
    then have sn: "sn = sorted_list_of_set (exported_names w m)"
      using sorted_list_of_set_sort_remdups [of names] distinct_remdups_id [OF cd(2)] cd(3) [OF True] by simp
    have len: "length sn = card (exported_names w m)" by (simp add: sn)
    show ?thesis
    proof (cases "length sn > 2 ^ 32 - 1 \<or> length sn > SIZE_MAX div 48")
      case big: True
      have "obj = None" using run get assms(5,6) c True big by (simp add: sn_def [symmetric] Let_def del: One_nat_def)
      then show ?thesis using big len by (auto simp: SIZE_MAX_def)
    next
      case fits: False
      obtain ok2 w2 where t: "ticks_of (if sn = [] then 2 else 3) w1 = (ok2, w2)" by (metis prod.exhaust)
      obtain res w3 where l: "namespace_loop d m sn [] w2 = (res, w3)" by (metis prod.exhaust)
      obtain ok4 w4 where t4: "ticks_of 18 w3 = (ok4, w4)" by (metis prod.exhaust)
      have s2: "same_records w w2" using same_records_trans [OF cd(1) same_ticks [OF t]] .
      note nl = namespace_loop_binds [OF assms(1-3) walk s2 l]
      have s4: "same_records w w4" using same_records_trans [OF conjunct1 [OF nl] same_ticks [OF t4]] .
      have run2: "(if \<not> ok2 then (None, w2) else case res of None \<Rightarrow> (None, w3)
          | Some es \<Rightarrow> if \<not> ok4 then (None, w4) else (Some (objects w4),
              update_record m (\<lambda>r. r\<lparr>namespaceBindings := es, namespaceObject := Some (objects w4)\<rparr>) (w4\<lparr>objects := objects w4 + 1\<rparr>))) = (obj, w')"
        using run get assms(5,6) c True fits t l t4 by (cases res) (simp_all add: sn_def [symmetric] Let_def del: One_nat_def cong: if_cong)
      show ?thesis
      proof (cases "ok2 \<and> res \<noteq> None \<and> ok4")
        case False
        have "\<not> (\<forall>i. allowed w i)"
        proof
          assume all: "\<forall>i. allowed w i"
          have "ok2" using ticks_allowed [OF same_records_allowed [OF cd(1) all] t] .
          moreover have "res \<noteq> None" using nl all by blast
          moreover have "ok4" using ticks_allowed [OF same_records_allowed [OF conjunct1 [OF nl] all] t4] .
          ultimately show False using False by blast
        qed
        moreover have "obj = None" using run2 False by (auto split: if_splits option.splits)
        ultimately show ?thesis by simp
      next
        case made: True
        then obtain es where es: "res = Some es" by auto
        then have obj: "obj = Some (objects w4)"
          and w': "w' = update_record m (\<lambda>r. r\<lparr>namespaceBindings := es, namespaceObject := Some (objects w4)\<rparr>) (w4\<lparr>objects := objects w4 + 1\<rparr>)"
          using run2 made by auto
        have b: "map exportName es = map Some (filter (\<lambda>a. \<exists>x. targets w (m, Some a) = {x}) sn)" "\<forall>e \<in> set es. binds w m e"
          using nl es by auto
        have finE: "finite (exported_names w m)" using cd(3) [OF True] by (metis finite_set)
        have "filter (\<lambda>a. \<exists>x. targets w (m, Some a) = {x}) sn = sorted_list_of_set (single_names w m)"
          unfolding sn single_names_def by (rule filter_sorted_list [OF finE])
        moreover have "namespaceBindings (records w' m) = es" "namespaceObject (records w' m) = obj"
          "state (records w' m) = state (records w m)" "GetModule w' (Some m) = Some m"
          using s4 get by (simp_all add: w' obj update_record_def same_records_def GetModule_def)
        ultimately show ?thesis using b obj assms(5) by (simp add: js_GetModuleNamespace_def)
      qed
    qed
  qed
qed

text \<open>Exactly the names with a single binding can be read through the namespace, and cannot be deleted from it.\<close>

lemma namespace_keys:
  assumes "map exportName (namespaceBindings (records w m)) = map Some (sorted_list_of_set A)" "finite A"
  shows "NamespaceDelete m key w \<longleftrightarrow> key \<notin> A"
proof -
  have "Some key \<in> set (map exportName (namespaceBindings (records w m))) \<longleftrightarrow> key \<in> A" unfolding assms(1) using assms(2) by auto
  moreover have "NamespaceDelete m key w \<longleftrightarrow> Some key \<notin> set (map exportName (namespaceBindings (records w m)))"
    unfolding NamespaceDelete_def NamespaceBinding_def find_None_iff set_map image_iff by (metis (mono_tags))
  ultimately show ?thesis by simp
qed

end
