(* ===== verification/Module_Linked.thy ===== *)
theory Module_Linked
  imports Module_Names
begin

text \<open>
  What linking does to a graph of modules, cycles, shared dependencies and failures included: a module that was linked,
  is being linked or has failed keeps its record, but for a namespace object made for a module that has none; one that
  was not linked is unchanged, is linked or fails; and one that becomes linked has dependencies that are no longer
  unlinked, imports bound and resolved to the only binding of their name, indirect exports with a single binding, and
  the bindings its script declares in its own environment.
\<close>

subsection \<open>The shape of records\<close>

text \<open>What linking never changes.\<close>

definition strip :: "ModuleEntry \<Rightarrow> ModuleEntry" where
  "strip e = e\<lparr>resolvedModule := None, resolvedName := None\<rparr>"

definition shape ::
  "'v ModuleRecord \<Rightarrow> 'v ModuleScript option \<times> ModuleRequest list \<times> ModuleEntry list \<times> ModuleEntry list" where
  "shape r = (script r, requests r, export_entries r, map strip (import_entries r))"

lemma strip_sel [simp]:
  "exportName (strip e) = exportName e" "localName (strip e) = localName e" "importName (strip e) = importName e" "request (strip e) = request e"
  by (simp_all add: strip_def)

lemma strip_eqD: "strip i = strip j \<Longrightarrow> importName i = importName j \<and> request i = request j"
  by (metis strip_sel(3,4))

lemma case_strip:
  "map_option strip x = map_option strip y \<Longrightarrow>
    (case x of None \<Rightarrow> A | Some i \<Rightarrow> {(d (request i), importName i)}) = (case y of None \<Rightarrow> A | Some i \<Rightarrow> {(d (request i), importName i)})"
  by (cases x; cases y) (auto dest: strip_eqD)

lemma find_map_strip: "(\<And>e. P (strip e) = P e) \<Longrightarrow> find P (map strip es) = map_option strip (find P es)"
  by (induction es) auto

lemma reexport_shape:
  assumes "shape r' = shape r"
  shows "map_option strip (reexport r' e) = map_option strip (reexport r e)"
proof -
  let ?P = "\<lambda>i. localName i = localName e \<and> importName i \<noteq> None"
  have "find ?P (map strip (import_entries r')) = find ?P (map strip (import_entries r))" using assms by (simp add: shape_def)
  then show ?thesis by (simp add: find_map_strip reexport_def)
qed

definition same_shape :: "('v, 'x) Modules_scheme \<Rightarrow> ('v, 'x) Modules_scheme \<Rightarrow> bool" where
  "same_shape w w' \<longleftrightarrow> record_count w' = record_count w \<and> allowed w' = allowed w \<and> Modules.more w' = Modules.more w \<and>
     (\<forall>k. shape (records w' k) = shape (records w k))"

lemma same_shapeD:
  assumes "same_shape w w'"
  shows "requests (records w' k) = requests (records w k)" "export_entries (records w' k) = export_entries (records w k)"
    "script (records w' k) = script (records w k)" "record_count w' = record_count w"
    "length (import_entries (records w' k)) = length (import_entries (records w k))"
    "i < length (import_entries (records w k)) \<Longrightarrow> strip (import_entries (records w' k) ! i) = strip (import_entries (records w k) ! i)"
proof -
  have s: "shape (records w' k) = shape (records w k)" "record_count w' = record_count w" using assms by (simp_all add: same_shape_def)
  then have m: "map strip (import_entries (records w' k)) = map strip (import_entries (records w k))" by (simp add: shape_def)
  show "requests (records w' k) = requests (records w k)" "export_entries (records w' k) = export_entries (records w k)"
    "script (records w' k) = script (records w k)" "record_count w' = record_count w" using s by (simp_all add: shape_def)
  show l: "length (import_entries (records w' k)) = length (import_entries (records w k))" using map_eq_imp_length_eq [OF m] .
  show "strip (import_entries (records w' k) ! i) = strip (import_entries (records w k) ! i)" if "i < length (import_entries (records w k))"
    using arg_cong [OF m, of "\<lambda>xs. xs ! i"] that l by simp
qed

lemma dep_of_shape: "same_shape w w' \<Longrightarrow> dep_of w' m i = dep_of w m i" "same_shape w w' \<Longrightarrow> requested (records w' m) i = requested (records w m) i"
  by (simp_all add: dep_of_def requested_def same_shapeD)

lemma same_shape_targets:
  assumes s: "same_shape w w'"
  shows "targets w' = targets w"
proof -
  have re: "map_option strip (reexport (records w' m) e) = map_option strip (reexport (records w m) e)" for m e
    using s by (intro reexport_shape) (simp add: same_shape_def)
  have none: "reexport (records w' m) e = None \<longleftrightarrow> reexport (records w m) e = None" for m e
    using re [of m e] by (metis option.map_disc_iff)
  have ex: "export_of (records w' m) name = export_of (records w m) name" for m name
    by (simp add: export_of_def same_shapeD [OF s])
  have "forwards w' x = forwards w x" for x
  proof (cases x)
    case (Pair m name)
    have "(case reexport (records w' m) e of None \<Rightarrow> {} | Some i \<Rightarrow> {(dep_of w m (request i), importName i)}) =
        (case reexport (records w m) e of None \<Rightarrow> {} | Some i \<Rightarrow> {(dep_of w m (request i), importName i)})" for e
      by (rule case_strip [OF re])
    then show ?thesis
      unfolding Pair forwards.simps ex dep_of_shape(1) [OF s] same_shapeD(2) [OF s]
      by (cases "export_of (records w m) name") (simp_all only: option.case)
  qed
  moreover have "bound w' x = bound w x" for x
    by (cases x) (simp only: bound.simps ex none)
  ultimately have "forwards w' = forwards w" "bound w' = bound w" by blast+
  then show ?thesis by (intro ext) (simp add: targets_def forward_edges_def)
qed

subsection \<open>Linked modules\<close>

definition import_ok :: "('v, 'x) Modules_scheme \<Rightarrow> nat \<Rightarrow> ModuleEntry \<Rightarrow> bool" where
  "import_ok w m e \<longleftrightarrow>
     (importName e \<noteq> None \<longrightarrow> (\<exists>t. resolvedModule e = Some t \<and> targets w (dep_of w m (request e), importName e) = {(t, resolvedName e)}))"

text \<open>The value of the last function declaration of a name.\<close>

primrec last_function :: "'v Declaration list \<Rightarrow> atom \<Rightarrow> 'v option" where
  "last_function [] a = None"
| "last_function (x # ds) a =
     (case last_function ds a of
        Some v \<Rightarrow> Some v
      | None \<Rightarrow> (case x of DEFFUN b v \<Rightarrow> if b = a then Some v else None | _ \<Rightarrow> None))"

text \<open>The environment has what the script declares: lexical bindings that are not initialized, variables, and functions
  with their last value.\<close>

definition declares :: "'v ModuleScript \<Rightarrow> (atom \<rightharpoonup> 'v Binding) \<Rightarrow> bool" where
  "declares scr env \<longleftrightarrow>
     (\<forall>a immutable. (a, immutable) \<in> set (lexicals scr) \<longrightarrow> env a = Some (Lexical immutable None)) \<and>
     (\<forall>a. DEFVAR a \<in> set (declarations scr) \<longrightarrow> env a \<noteq> None) \<and>
     (\<forall>a v. last_function (declarations scr) a = Some v \<longrightarrow> env a = Some (Lexical False (Some v)))"

definition import_bound :: "'v ModuleRecord \<Rightarrow> ModuleEntry \<Rightarrow> bool" where
  "import_bound r e \<longleftrightarrow> (\<exists>a. localName e = Some a \<and> environment r a = Some ImportBinding)"

definition linked_well :: "('v, 'x) Modules_scheme \<Rightarrow> nat \<Rightarrow> bool" where
  "linked_well w m \<longleftrightarrow>
     owner (records w m) = Some m \<and>
     (\<exists>scr. script (records w m) = Some scr \<and> declares scr (environment (records w m))) \<and>
     (\<forall>e \<in> set (import_entries (records w m)). import_bound (records w m) e) \<and>
     (\<forall>r \<in> set (requests (records w m)). \<exists>k < record_count w. dependency r = Some k \<and> state (records w k) \<noteq> MODULE_UNLINKED) \<and>
     (\<forall>e \<in> set (import_entries (records w m)). import_ok w m e) \<and>
     (\<forall>e \<in> set (export_entries (records w m)). request e \<noteq> JS_MODULE_LOCAL \<and> exportName e \<noteq> None \<longrightarrow>
        (\<exists>x. targets w (m, exportName e) = {x}))"

text \<open>An import that is resolved, and bound in the environment.\<close>

definition import_done :: "('v, 'x) Modules_scheme \<Rightarrow> nat \<Rightarrow> ModuleEntry \<Rightarrow> bool" where
  "import_done w m e \<longleftrightarrow> import_ok w m e \<and> import_bound (records w m) e"

definition state_links :: "ModuleState \<Rightarrow> ModuleState \<Rightarrow> bool" where
  "state_links s s' \<longleftrightarrow> s' = s \<or> (s = MODULE_UNLINKED \<and> (s' = MODULE_LINKED \<or> s' = MODULE_FAILED))"

text \<open>A record that linking leaves as it is, except that it may make the namespace object of a module that has none.\<close>

definition kept :: "'v ModuleRecord \<Rightarrow> 'v ModuleRecord \<Rightarrow> bool" where
  "kept r r' \<longleftrightarrow> r'\<lparr>namespaceObject := namespaceObject r, namespaceBindings := namespaceBindings r\<rparr> = r \<and>
     (namespaceObject r \<noteq> None \<longrightarrow> r' = r)"

lemma kept_refl [simp]: "kept r r"
  by (simp add: kept_def)

lemma keptD:
  assumes "kept r r'"
  shows "script r' = script r" "environment r' = environment r" "owner r' = owner r" "state r' = state r"
    "requests r' = requests r" "import_entries r' = import_entries r" "export_entries r' = export_entries r"
  using assms by (cases r; cases r'; simp add: kept_def)+

lemma kept_trans: "kept a b \<Longrightarrow> kept b c \<Longrightarrow> kept a c"
  by (cases a; cases b; cases c) (auto simp: kept_def)

lemma kept_namespace: "namespaceObject r = None \<Longrightarrow> kept r (r\<lparr>namespaceBindings := es, namespaceObject := n\<rparr>)"
  by (cases r) (simp add: kept_def)

text \<open>The relation between the modules before and after a step of linking; the modules in \<open>P\<close> are being linked by it.
  The others that were not unlinked are kept, and those that are unlinked at the end have not changed at all.\<close>

definition links :: "nat set \<Rightarrow> ('v, 'x) Modules_scheme \<Rightarrow> ('v, 'x) Modules_scheme \<Rightarrow> bool" where
  "links P w w' \<longleftrightarrow> same_shape w w' \<and> (\<forall>k. state_links (state (records w k)) (state (records w' k))) \<and>
     (\<forall>k. k \<notin> P \<and> state (records w k) \<noteq> MODULE_UNLINKED \<longrightarrow> kept (records w k) (records w' k)) \<and>
     (\<forall>k. k \<notin> P \<and> state (records w k) = MODULE_UNLINKED \<and> state (records w' k) = MODULE_LINKED \<longrightarrow> linked_well w' k) \<and>
     (\<forall>k. k \<notin> P \<and> state (records w' k) = MODULE_UNLINKED \<longrightarrow> records w' k = records w k)"

lemma linksD:
  assumes "links P w w'"
  shows "same_shape w w'" "state_links (state (records w k)) (state (records w' k))"
    "k \<notin> P \<Longrightarrow> state (records w k) \<noteq> MODULE_UNLINKED \<Longrightarrow> kept (records w k) (records w' k)"
    "k \<notin> P \<Longrightarrow> state (records w k) = MODULE_UNLINKED \<Longrightarrow> state (records w' k) = MODULE_LINKED \<Longrightarrow> linked_well w' k"
    "k \<notin> P \<Longrightarrow> state (records w' k) = MODULE_UNLINKED \<Longrightarrow> records w' k = records w k"
  using assms unfolding links_def by blast+

lemma links_state: "links P w w' \<Longrightarrow> state (records w k) \<noteq> MODULE_UNLINKED \<Longrightarrow> state (records w' k) = state (records w k)"
  using linksD(2) [of P w w' k] by (auto simp: state_links_def)

lemma same_shape_trans: "same_shape a b \<Longrightarrow> same_shape b c \<Longrightarrow> same_shape a c"
  by (simp add: same_shape_def)

lemma linked_well_mono:
  assumes s: "same_shape w w'" and st: "\<And>j. state (records w j) \<noteq> MODULE_UNLINKED \<Longrightarrow> state (records w' j) \<noteq> MODULE_UNLINKED"
    and i: "import_entries (records w' k) = import_entries (records w k)" "environment (records w' k) = environment (records w k)"
      "owner (records w' k) = owner (records w k)" and l: "linked_well w k"
  shows "linked_well w' k"
proof -
  have b: "import_bound (records w' k) e = import_bound (records w k) e" for e
    using i by (simp add: import_bound_def)
  have "import_ok w' k e = import_ok w k e" for e
    by (simp add: import_ok_def same_shape_targets [OF s] dep_of_shape [OF s])
  then show ?thesis
    using l i b st unfolding linked_well_def same_shape_targets [OF s] same_shapeD(1-4) [OF s] by fastforce
qed

lemma links_well:
  assumes "links P w w'" "k \<notin> P" "state (records w k) \<noteq> MODULE_UNLINKED" "linked_well w k"
  shows "linked_well w' k"
proof (rule linked_well_mono [OF linksD(1) [OF assms(1)] _ _ _ _ assms(4)])
  show "import_entries (records w' k) = import_entries (records w k)" "environment (records w' k) = environment (records w k)"
    "owner (records w' k) = owner (records w k)"
    using keptD [OF linksD(3) [OF assms(1-3)]] by blast+
qed (use links_state [OF assms(1)] in simp)

lemma links_refl [simp]: "links P w w"
  by (auto simp: links_def same_shape_def state_links_def)

lemma links_trans:
  assumes "links P a b" "links P b c"
  shows "links P a c"
proof -
  have s: "state_links (state (records a k)) (state (records c k))" for k
    using linksD(2) [OF assms(1), of k] linksD(2) [OF assms(2), of k] by (auto simp: state_links_def)
  have i: "kept (records a k) (records c k)" if "k \<notin> P" "state (records a k) \<noteq> MODULE_UNLINKED" for k
    using kept_trans [OF linksD(3) [OF assms(1) that] linksD(3) [OF assms(2) that(1)]] links_state [OF assms(1) that(2)] that(2) by simp
  have u: "records c k = records a k" if "k \<notin> P" "state (records c k) = MODULE_UNLINKED" for k
    using linksD(5) [OF assms(2) that] linksD(5) [OF assms(1) that(1)] that(2) by simp
  have l: "linked_well c k" if k: "k \<notin> P" "state (records a k) = MODULE_UNLINKED" "state (records c k) = MODULE_LINKED" for k
  proof (cases "state (records b k) = MODULE_UNLINKED")
    case True
    then show ?thesis using linksD(4) [OF assms(2) k(1) _ k(3)] by simp
  next
    case False
    then have "state (records b k) = MODULE_LINKED" using links_state [OF assms(2) False] k(3) by simp
    then show ?thesis using links_well [OF assms(2) k(1) False linksD(4) [OF assms(1) k(1,2)]] by simp
  qed
  show ?thesis
    unfolding links_def using same_shape_trans [OF linksD(1) [OF assms(1)] linksD(1) [OF assms(2)]] s i l u by blast
qed

lemma links_mono: "links {} w w' \<Longrightarrow> links P w w'"
  by (simp add: links_def)

lemma same_records_links: "same_records w w' \<Longrightarrow> links P w w'"
  by (auto simp: links_def same_records_def same_shape_def state_links_def)

text \<open>A change of one record that is being linked.\<close>

lemma update_links:
  assumes "shape (f (records w m)) = shape (records w m)" "state (f (records w m)) = state (records w m)"
  shows "links {m} w (update_record m f w)"
  using assms by (auto simp: links_def same_shape_def update_record_def state_links_def)

lemma links_raise [simp]: "links P w (raise e w)"
  by (rule same_records_links) simp

lemma links_tick: "tick w = (ok, w') \<Longrightarrow> links P w w'"
  by (rule same_records_links) (rule same_tick)

lemma links_ticks: "ticks_of n w = (ok, w') \<Longrightarrow> links P w w'"
  by (rule same_records_links) (rule same_ticks)

subsection \<open>Bindings and declarations\<close>

text \<open>Declarations change nothing but the environment of their module.\<close>

definition binds :: "nat \<Rightarrow> ('v, 'x) Modules_scheme \<Rightarrow> ('v, 'x) Modules_scheme \<Rightarrow> bool" where
  "binds m w w' \<longleftrightarrow> record_count w' = record_count w \<and> allowed w' = allowed w \<and> Modules.more w' = Modules.more w \<and>
     records w' = (records w)(m := (records w m)\<lparr>environment := environment (records w' m)\<rparr>)"

lemma binds_record: "binds m w w' \<Longrightarrow> records w' m = (records w m)\<lparr>environment := environment (records w' m)\<rparr>"
  unfolding binds_def by (metis fun_upd_same)

lemma binds_other: "binds m w w' \<Longrightarrow> k \<noteq> m \<Longrightarrow> records w' k = records w k"
  unfolding binds_def by (metis fun_upd_other)

lemma same_records_binds: "same_records w w' \<Longrightarrow> binds m w w'"
  by (simp add: same_records_def binds_def)

lemma binds_refl [simp]: "binds m w w"
  by (simp add: binds_def)

lemma environment_update_trans: "b = a\<lparr>environment := x\<rparr> \<Longrightarrow> c = b\<lparr>environment := y\<rparr> \<Longrightarrow> c = a\<lparr>environment := y\<rparr>"
  by simp

lemma binds_trans:
  assumes "binds m a b" "binds m b c"
  shows "binds m a c"
proof -
  have m: "records c m = (records a m)\<lparr>environment := environment (records c m)\<rparr>"
    by (rule environment_update_trans [OF binds_record [OF assms(1)] binds_record [OF assms(2)]])
  have "records c k = records a k" if "k \<noteq> m" for k
    using binds_other [OF assms(1) that] binds_other [OF assms(2) that] by simp
  then have "records c = (records a)(m := (records a m)\<lparr>environment := environment (records c m)\<rparr>)"
    by (intro ext) (metis fun_upd_apply m)
  then show ?thesis using assms unfolding binds_def by auto
qed

lemma binds_raise [simp]: "binds m w (raise e w)"
  by (rule same_records_binds) simp

lemma binds_tick: "tick w = (ok, w') \<Longrightarrow> binds m w w'"
  by (rule same_records_binds) (rule same_tick)

lemma binds_bind [simp]: "binds m w (bind m a b w)"
  by (simp add: binds_def bind_def update_record_def)

lemma binds_links:
  assumes "binds m w w'"
  shows "links {m} w w'"
proof -
  obtain env where r: "records w' = (records w)(m := (records w m)\<lparr>environment := env\<rparr>)" using assms unfolding binds_def by blast
  have "shape (records w' k) = shape (records w k)" "state (records w' k) = state (records w k)" for k
    by (simp_all add: r shape_def)
  then show ?thesis using assms r by (auto simp: binds_def links_def same_shape_def state_links_def)
qed

definition binding :: "nat \<Rightarrow> (('v, 'x) Modules_scheme \<Rightarrow> bool \<times> ('v, 'x) Modules_scheme) \<Rightarrow> bool" where
  "binding m f \<longleftrightarrow> (\<forall>w. binds m w (snd (f w)))"

lemma bindingD: "binding m f \<Longrightarrow> f w = (ok, w') \<Longrightarrow> binds m w w'"
  unfolding binding_def by (metis snd_conv)

lemma bindingI: "(\<And>w ok w'. f w = (ok, w') \<Longrightarrow> binds m w w') \<Longrightarrow> binding m f"
  unfolding binding_def by (metis prod.collapse)

lemma binding_then:
  assumes "binding m f" "binding m g"
  shows "binding m (\<lambda>w. case f w of (ok, w1) \<Rightarrow> if ok then g w1 else (False, w1))"
proof (rule bindingI)
  fix w ok w' assume r: "(case f w of (ok, w1) \<Rightarrow> if ok then g w1 else (False, w1)) = (ok, w')"
  obtain b w1 where f: "f w = (b, w1)" by (metis prod.exhaust)
  have "binds m w1 w'" using r f bindingD [OF assms(2)] by (cases b) auto
  then show "binds m w w'" using binds_trans [OF bindingD [OF assms(1) f]] by blast
qed

lemma binds_tick_bind: "tick w = (ok, w1) \<Longrightarrow> binds m w (bind m a b w1)"
  using binds_trans [OF binds_tick binds_bind] .

lemma binding_import: "binding m (define_import m a)"
  by (rule bindingI) (auto simp: define_import_def split: prod.splits if_splits intro: binds_tick_bind binds_tick)

lemma binding_lexical: "binding m (js_DefineLexicalBinding m a immutable)"
  by (rule bindingI) (auto simp: js_DefineLexicalBinding_def split: prod.splits if_splits intro: binds_tick_bind binds_tick)

lemma binding_initialize: "binding m (js_InitializeLexicalBinding m a v)"
  by (rule bindingI) (auto simp: js_InitializeLexicalBinding_def split: option.splits Binding.splits)

lemma binding_set: "binding m (set_binding m a v)"
  by (rule bindingI) (auto simp: set_binding_def split: option.splits Binding.splits if_splits)

lemma binding_done: "binding m (\<lambda>w. (b, w))"
  by (rule bindingI) simp

lemma binding_tick: "binding m tick"
  by (rule bindingI) (rule binds_tick)

lemma binding_if: "binding m f \<Longrightarrow> binding m g \<Longrightarrow> binding m (\<lambda>w. if c w then f w else g w)"
  by (rule bindingI) (auto split: if_splits dest: bindingD)

lemma binding_declare: "binding m (declare_name u m a fn)"
proof (rule bindingI)
  fix w ok w' assume run: "declare_name u m a fn w = (ok, w')"
  obtain b w1 where t: "tick w = (b, w1)" by (metis prod.exhaust)
  have "binds m w1 w'"
  proof (cases "b \<and> environment (records w1 m) a = None")
    case True
    then have "(case js_DefineLexicalBinding m a False w1 of (ok, w) \<Rightarrow>
        if ok then js_InitializeLexicalBinding m a (case fn of None \<Rightarrow> u | Some v \<Rightarrow> v) w else (False, w)) = (ok, w')"
      using run t by (simp add: declare_name_def)
    then show ?thesis by (rule bindingD [OF binding_then [OF binding_lexical binding_initialize]])
  next
    case False
    then show ?thesis
      using run t bindingD [OF binding_set] by (auto simp: declare_name_def split: if_splits option.splits)
  qed
  then show "binds m w w'" using binds_trans [OF binds_tick [OF t]] by blast
qed

lemma binding_lexicals: "binding m (define_lexicals m ls)"
proof (induction ls)
  case Nil
  then show ?case by (rule bindingI) simp
next
  case (Cons l ls)
  obtain a i where l: "l = (a, i)" by (metis prod.exhaust)
  have eq: "define_lexicals m (l # ls) =
      (\<lambda>w. case js_DefineLexicalBinding m a i w of (ok, w1) \<Rightarrow> if ok then define_lexicals m ls w1 else (False, w1))"
    by (rule ext) (simp add: l)
  show ?case unfolding eq by (rule binding_then [OF binding_lexical Cons.IH])
qed

lemma binding_declarations: "binding m (run_declarations u m ds)"
proof (induction ds)
  case Nil
  then show ?case by (rule bindingI) simp
next
  case (Cons x ds)
  show ?case
  proof (cases x)
    case (DEFVAR a)
    have eq: "run_declarations u m (DEFVAR a # ds) =
        (\<lambda>w. case declare_name u m a None w of (ok, w1) \<Rightarrow> if ok then run_declarations u m ds w1 else (False, w1))"
      by (rule ext) simp
    show ?thesis unfolding DEFVAR eq by (rule binding_then [OF binding_declare Cons.IH])
  next
    case (DEFFUN a v)
    have eq: "run_declarations u m (DEFFUN a v # ds) = (\<lambda>w. case tick w of (ok, w1) \<Rightarrow> if ok then
        (case declare_name u m a (Some v) w1 of (ok, w2) \<Rightarrow> if ok then run_declarations u m ds w2 else (False, w2)) else (False, w1))"
      by (rule ext) (auto split: prod.split)
    show ?thesis unfolding DEFFUN eq by (rule binding_then [OF binding_tick binding_then [OF binding_declare Cons.IH]])
  next
    case OtherOpcode
    then show ?thesis by (intro bindingI) auto
  next
    case NoLength
    then show ?thesis by (intro bindingI) auto
  qed
qed

text \<open>What running declarations to the end does to a binding.\<close>

lemma declare_name_binding:
  assumes "declare_name u m b fn w = (True, w')"
  shows "environment (records w' m) a =
    (if a \<noteq> b then environment (records w m) a
     else case environment (records w m) a of
       None \<Rightarrow> Some (Lexical False (Some (case fn of None \<Rightarrow> u | Some v \<Rightarrow> v)))
     | Some x \<Rightarrow> (case fn of None \<Rightarrow> Some x | Some v \<Rightarrow> Some (Lexical False (Some v))))"
    and "a = b \<Longrightarrow> fn = Some v \<Longrightarrow> environment (records w m) a \<noteq> None \<Longrightarrow> \<exists>old. environment (records w m) a = Some (Lexical False (Some old))"
proof -
  obtain w1 where t: "tick w = (True, w1)"
    using assms by (cases "tick w") (auto simp: declare_name_def split: if_splits)
  have r: "records w1 = records w" using same_tick [OF t] by (simp add: same_records_def)
  have tick: "records (snd (tick v)) = records v" for v :: "('a, 'b) Modules_scheme" by (simp add: tick_def)
  show "environment (records w' m) a =
    (if a \<noteq> b then environment (records w m) a
     else case environment (records w m) a of
       None \<Rightarrow> Some (Lexical False (Some (case fn of None \<Rightarrow> u | Some v \<Rightarrow> v)))
     | Some x \<Rightarrow> (case fn of None \<Rightarrow> Some x | Some v \<Rightarrow> Some (Lexical False (Some v))))"
    using assms t r
    by (auto simp: declare_name_def js_DefineLexicalBinding_def js_InitializeLexicalBinding_def set_binding_def bind_def update_record_def
      tick_def split: if_splits option.splits Binding.splits)
  show "a = b \<Longrightarrow> fn = Some v \<Longrightarrow> environment (records w m) a \<noteq> None \<Longrightarrow> \<exists>old. environment (records w m) a = Some (Lexical False (Some old))"
    using assms t r by (auto simp: declare_name_def set_binding_def split: if_splits option.splits Binding.splits)
qed

definition declares_over :: "'v Declaration list \<Rightarrow> (atom \<rightharpoonup> 'v Binding) \<Rightarrow> (atom \<rightharpoonup> 'v Binding) \<Rightarrow> bool" where
  "declares_over ds env env' \<longleftrightarrow>
     (\<forall>a. env a = Some ImportBinding \<longrightarrow> env' a = Some ImportBinding) \<and>
     (\<forall>a i. env a = Some (Lexical i None) \<longrightarrow> env' a = Some (Lexical i None)) \<and>
     (\<forall>a v. env a = Some (Lexical False (Some v)) \<longrightarrow>
        env' a = Some (Lexical False (Some (case last_function ds a of None \<Rightarrow> v | Some v' \<Rightarrow> v')))) \<and>
     (\<forall>a. env a \<noteq> None \<longrightarrow> env' a \<noteq> None) \<and>
     (\<forall>a. DEFVAR a \<in> set ds \<longrightarrow> env' a \<noteq> None) \<and>
     (\<forall>a v. last_function ds a = Some v \<longrightarrow> env' a = Some (Lexical False (Some v)))"

lemma run_declarations_over:
  "run_declarations u m ds w = (True, w') \<Longrightarrow> declares_over ds (environment (records w m)) (environment (records w' m))"
proof (induction ds arbitrary: w)
  case Nil
  then show ?case by (simp add: declares_over_def)
next
  case (Cons x ds)
  have rec: "records v' = records v" if "tick v = (True, v')" for v v' :: "('a, 'b) Modules_scheme"
    using same_tick [OF that] by (simp add: same_records_def)
  show ?case
  proof (cases x)
    case (DEFVAR b)
    obtain w1 where d: "declare_name u m b None w = (True, w1)" and r: "run_declarations u m ds w1 = (True, w')"
      using Cons.prems DEFVAR by (cases "declare_name u m b None w") (auto split: if_splits)
    have e: "environment (records w1 m) a = (if a = b \<and> environment (records w m) a = None then Some (Lexical False (Some u)) else environment (records w m) a)" for a
      using declare_name_binding(1) [OF d, of a] by (auto split: option.splits)
    show ?thesis using Cons.IH [OF r] unfolding DEFVAR declares_over_def e by (auto split: option.splits if_splits)
  next
    case (DEFFUN b v)
    obtain w0 where t: "tick w = (True, w0)" using Cons.prems DEFFUN by (cases "tick w") (auto split: if_splits)
    obtain w1 where d: "declare_name u m b (Some v) w0 = (True, w1)" and r: "run_declarations u m ds w1 = (True, w')"
      using Cons.prems DEFFUN t by (cases "declare_name u m b (Some v) w0") (auto split: if_splits)
    have e: "environment (records w1 m) a = (if a = b then Some (Lexical False (Some v)) else environment (records w m) a)" for a
      using declare_name_binding(1) [OF d, of a] rec [OF t] by (auto split: option.splits)
    have old: "environment (records w m) b \<noteq> None \<Longrightarrow> \<exists>old. environment (records w m) b = Some (Lexical False (Some old))"
      using declare_name_binding(2) [OF d refl refl] rec [OF t] by simp
    then have free: "environment (records w m) a = Some ImportBinding \<Longrightarrow> a \<noteq> b" "environment (records w m) a = Some (Lexical i None) \<Longrightarrow> a \<noteq> b" for a i
      by auto
    note ih = Cons.IH [OF r, unfolded declares_over_def e]
    have "environment (records w' m) a = Some ImportBinding" if "environment (records w m) a = Some ImportBinding" for a
      using ih that free(1) [OF that] by simp
    moreover have "environment (records w' m) a = Some (Lexical i None)" if "environment (records w m) a = Some (Lexical i None)" for a i
      using ih that free(2) [OF that] by simp
    ultimately show ?thesis using ih unfolding DEFFUN declares_over_def by (auto split: option.splits if_splits)
  qed (use Cons.prems in auto)
qed

lemma define_lexicals_binding:
  "define_lexicals m ls w = (True, w') \<Longrightarrow>
    (\<forall>a. environment (records w m) a \<noteq> None \<longrightarrow> environment (records w' m) a = environment (records w m) a) \<and>
    (\<forall>a i. (a, i) \<in> set ls \<longrightarrow> environment (records w' m) a = Some (Lexical i None))"
proof (induction ls arbitrary: w)
  case (Cons l ls)
  obtain b i where l: "l = (b, i)" by (metis prod.exhaust)
  obtain w1 where d: "js_DefineLexicalBinding m b i w = (True, w1)" and r: "define_lexicals m ls w1 = (True, w')"
    using Cons.prems l by (cases "js_DefineLexicalBinding m b i w") (auto split: if_splits)
  have "environment (records w m) b = None \<and> environment (records w1 m) = (environment (records w m))(b \<mapsto> Lexical i None)"
    using d by (auto simp: js_DefineLexicalBinding_def bind_def update_record_def tick_def split: if_splits)
  then show ?case using Cons.IH [OF r] l by (auto split: if_splits)
qed simp

subsection \<open>Namespaces\<close>

lemma collect_loop_same:
  assumes "\<And>dep names w ok names' w'. collect dep names w = (ok, names', w') \<Longrightarrow> same_records w w'"
  shows "collect_loop collect b r es names w = (ok, names', w') \<Longrightarrow> same_records w w'"
proof (induction es arbitrary: names w)
  case (Cons e es)
  show ?case
  proof (cases "exportName e")
    case None
    then show ?thesis
    proof (cases "requested r (request e)")
      case (Some dep)
      obtain ok1 names1 w1 where c: "collect dep names w = (ok1, names1, w1)" by (metis prod.exhaust)
      show ?thesis
      proof (cases ok1)
        case True
        then have "same_records w1 w'" using Cons None Some c by simp
        then show ?thesis using same_records_trans [OF assms [OF c]] by blast
      next
        case False
        then show ?thesis using Cons.prems None Some c assms [OF c] by simp
      qed
    qed (use Cons.prems None in auto)
  next
    case (Some a)
    obtain ok1 w1 where t: "tick w = (ok1, w1)" by (metis prod.exhaust)
    have "same_records w1 w'" if "collect_loop collect b r es (names @ [a]) w1 = (ok, names', w')" using Cons.IH [OF that] .
    then have "same_records w w'" if "collect_loop collect b r es (names @ [a]) w1 = (ok, names', w')"
      using that same_records_trans [OF same_tick [OF t]] by blast
    then show ?thesis using Cons.IH [of names w] Cons.prems Some t same_tick [OF t] by (auto split: if_splits)
  qed
qed auto

lemma CollectExportNames_same: "CollectExportNames d previous b obj names w = (ok, names', w') \<Longrightarrow> same_records w w'"
proof (induction d arbitrary: previous b obj names w ok names' w')
  case (Suc d)
  show ?case
  proof (cases "GetModule w obj")
    case (Some m)
    show ?thesis
    proof (cases "m \<in> set previous")
      case False
      then have "collect_loop (CollectExportNames d (m # previous) False) b (records w m) (export_entries (records w m)) names w = (ok, names', w')"
        using Suc.prems Some by simp
      then show ?thesis by (rule collect_loop_same [rotated]) (rule Suc.IH)
    qed (use Suc.prems Some in simp)
  qed (use Suc.prems in auto)
qed auto

lemma namespace_loop_same: "namespace_loop d m names es w = (res, w') \<Longrightarrow> same_records w w'"
proof (induction names arbitrary: es w)
  case (Cons a names)
  obtain ok1 w1 where t: "tick w = (ok1, w1)" by (metis prod.exhaust)
  have "same_records w w'" if "namespace_loop d m names es' w1 = (res, w')" for es'
    using Cons.IH [OF that] same_records_trans [OF same_tick [OF t]] by blast
  then show ?case
    using Cons.IH [of es w] Cons.prems t same_tick [OF t] by (auto simp: Let_def split: sum.splits if_splits)
qed auto

definition instantiates :: "(nat option \<Rightarrow> ('v, 'x) Modules_scheme \<Rightarrow> bool \<times> ('v, 'x) Modules_scheme) \<Rightarrow> bool" where
  "instantiates inst \<longleftrightarrow> (\<forall>obj w ok w'. inst obj w = (ok, w') \<longrightarrow> links {} w w' \<and>
     (ok \<longrightarrow> (\<exists>m < record_count w. obj = Some m \<and> state (records w' m) \<noteq> MODULE_UNLINKED \<and> state (records w' m) \<noteq> MODULE_FAILED)))"

lemma instantiatesD:
  assumes "instantiates inst" "inst obj w = (ok, w')"
  shows "links {} w w'"
    "ok \<Longrightarrow> \<exists>m < record_count w. obj = Some m \<and> state (records w' m) \<noteq> MODULE_UNLINKED \<and> state (records w' m) \<noteq> MODULE_FAILED"
  using assms unfolding instantiates_def by blast+

lemma namespace_links:
  assumes inst: "instantiates inst" and run: "js_GetModuleNamespace inst d obj w = (n, w')"
  shows "links {} w w'"
proof (cases "GetModule w obj")
  case None
  then show ?thesis using run by (auto simp: js_GetModuleNamespace_def)
next
  case (Some m)
  define f where "f = (if state (records w m) = MODULE_UNLINKED then inst obj w else (True, w))"
  obtain b0 w0 where f0: "f = (b0, w0)" by (metis prod.exhaust)
  have s0: "links {} w w0" using f0 instantiatesD(1) [OF inst] by (auto simp: f_def split: if_splits)
  obtain ok1 names w1 where c: "CollectExportNames d [] True obj [] w0 = (ok1, names, w1)" by (metis prod.exhaust)
  have s1: "links {} w w1" using links_trans [OF s0 same_records_links [OF CollectExportNames_same [OF c]]] .
  define sn where "sn = (if length names > 1 then qsort CompareExportNames names else names)"
  obtain ok2 w2 where t2: "ticks_of (if sn = [] then 2 else 3) w1 = (ok2, w2)" by (metis prod.exhaust)
  have s2: "links {} w w2" using links_trans [OF s1 links_ticks [OF t2]] .
  obtain res w3 where l: "namespace_loop d m sn [] w2 = (res, w3)" by (metis prod.exhaust)
  have s3: "links {} w w3" using links_trans [OF s2 same_records_links [OF namespace_loop_same [OF l]]] .
  obtain ok4 w4 where t4: "ticks_of 18 w3 = (ok4, w4)" by (metis prod.exhaust)
  have s4: "links {} w w4" using links_trans [OF s3 links_ticks [OF t4]] .
  have nu: "state (records w0 m) \<noteq> MODULE_UNLINKED" if b0
    using instantiatesD(2) [OF inst, of obj w b0 w0] f0 that Some by (auto simp: f_def GetModule_def split: if_splits option.splits)
  have rec: "records w4 = records w0"
    using CollectExportNames_same [OF c] same_ticks [OF t2] namespace_loop_same [OF l] same_ticks [OF t4] by (simp add: same_records_def)
  have obj: "links {} w4 (update_record m (\<lambda>r. r\<lparr>namespaceBindings := es, namespaceObject := Some (objects w4)\<rparr>) (w4\<lparr>objects := objects w4 + 1\<rparr>))"
    if "b0" "namespaceObject (records w0 m) = None" for es
    using nu [OF that(1)] kept_namespace [OF that(2)] by (auto simp: rec links_def same_shape_def update_record_def state_links_def shape_def)
  have e: "links {} w w1 \<and> links {} w (raise OutOfMemory w1)" using s1 links_trans [OF s1 links_raise] by blast
  have "w' \<in> {w0, w1, w2, w3, w4, raise OutOfMemory w1} \<or>
      (\<exists>es. b0 \<and> namespaceObject (records w0 m) = None \<and> w' = update_record m (\<lambda>r. r\<lparr>namespaceBindings := es, namespaceObject := Some (objects w4)\<rparr>) (w4\<lparr>objects := objects w4 + 1\<rparr>))"
    using run [unfolded js_GetModuleNamespace_def] Some f0 c t2 l t4
    by (auto simp: f_def [symmetric] sn_def [symmetric] Let_def simp del: One_nat_def split: if_splits option.splits)
  then show ?thesis using s0 s2 s3 s4 e links_trans [OF s4 obj] by auto
qed

subsection \<open>The loops of linking\<close>

lemma link_requests_ok:
  assumes inst: "instantiates inst"
  shows "link_requests inst rs w = (ok, w') \<Longrightarrow> links {} w w' \<and>
    (ok \<longrightarrow> (\<forall>r \<in> set rs. \<exists>k < record_count w. dependency r = Some k \<and> state (records w' k) \<noteq> MODULE_UNLINKED))"
proof (induction rs arbitrary: w)
  case (Cons r rs)
  obtain ok1 w1 where f: "inst (dependency r) w = (ok1, w1)" by (metis prod.exhaust)
  note i = instantiatesD [OF inst f]
  show ?case
  proof (cases ok1)
    case False
    then show ?thesis using Cons.prems f i(1) by simp
  next
    case True
    then have rest: "link_requests inst rs w1 = (ok, w')" using Cons.prems f by simp
    note ih = Cons.IH [OF rest]
    obtain k where k: "k < record_count w" "dependency r = Some k" "state (records w1 k) \<noteq> MODULE_UNLINKED"
      using i(2) [OF True] by blast
    then have "state (records w' k) \<noteq> MODULE_UNLINKED" using links_state [OF conjunct1 [OF ih]] by simp
    moreover have "record_count w1 = record_count w" using same_shapeD(4) [OF linksD(1) [OF i(1)]] .
    ultimately show ?thesis using ih k links_trans [OF i(1)] by auto
  qed
qed simp

lemma link_exports_ok:
  "link_exports d m es w = (ok, w') \<Longrightarrow> m < record_count w \<Longrightarrow> links P w w' \<and>
    (ok \<longrightarrow> w' = w \<and> (\<forall>e \<in> set es. request e \<noteq> JS_MODULE_LOCAL \<and> exportName e \<noteq> None \<longrightarrow> (\<exists>x. targets w (m, exportName e) = {x})))"
proof (induction es)
  case (Cons e es)
  show ?case
  proof (cases "request e \<noteq> JS_MODULE_LOCAL \<and> exportName e \<noteq> None")
    case True
    show ?thesis
    proof (cases "ResolveExport d w (Some m) (exportName e) []")
      case (Inl err)
      have "ok = False \<and> w' = raise StrictSyntax (raise err w)" using Cons.prems(1) True Inl by simp
      moreover have "links P w (raise StrictSyntax (raise err w))" using links_trans [OF links_raise links_raise] .
      ultimately show ?thesis by simp
    next
      case (Inr b)
      have b: "sums_up b (targets w (m, exportName e))"
        using ResolveExport_sums [OF Cons.prems(2) Inr] by (simp add: targets_outside_empty)
      show ?thesis
      proof (cases "rmodule b = None \<or> ambiguous b")
        case bad: True
        then show ?thesis using Cons.prems(1) True Inr by auto
      next
        case False
        then have "\<exists>x. targets w (m, exportName e) = {x}" using b by (auto simp: sums_up_def)
        then show ?thesis using Cons True Inr False by auto
      qed
    qed
  next
    case False
    then have "link_exports d m es w = (ok, w')" using Cons.prems(1) by auto
    from Cons.IH [OF this Cons.prems(2)] show ?thesis
      by (simp only: list.set ball_simps False simp_thms) blast
  qed
qed simp

lemma import_ok_shape: "same_shape w w' \<Longrightarrow> import_ok w' m e = import_ok w m e"
  by (simp add: import_ok_def same_shape_targets dep_of_shape)

text \<open>The module \<open>m\<close> keeps its import bindings and stays the owner of its environment.\<close>

definition keeps_imports :: "nat \<Rightarrow> ('v, 'x) Modules_scheme \<Rightarrow> ('v, 'x) Modules_scheme \<Rightarrow> bool" where
  "keeps_imports m w w' \<longleftrightarrow> owner (records w' m) = owner (records w m) \<and>
     (\<forall>a. environment (records w m) a = Some ImportBinding \<longrightarrow> environment (records w' m) a = Some ImportBinding)"

lemma keeps_imports_trans: "keeps_imports m a b \<Longrightarrow> keeps_imports m b c \<Longrightarrow> keeps_imports m a c"
  by (simp add: keeps_imports_def)

lemma import_done_mono: "same_shape w w' \<Longrightarrow> keeps_imports m w w' \<Longrightarrow> import_done w m e \<Longrightarrow> import_done w' m e"
  by (auto simp: import_done_def import_bound_def keeps_imports_def import_ok_shape)

lemma define_import_ok:
  assumes "define_import m a w = (ok, w')"
  shows "binds m w w'" "ok \<Longrightarrow> environment (records w' m) a = Some ImportBinding" "ok \<Longrightarrow> keeps_imports m w w'"
proof -
  obtain b w1 where t: "tick w = (b, w1)" by (metis prod.exhaust)
  have r: "records w1 = records w" using same_tick [OF t] by (simp add: same_records_def)
  show "binds m w w'" using bindingD [OF binding_import assms] .
  show "ok \<Longrightarrow> environment (records w' m) a = Some ImportBinding" "ok \<Longrightarrow> keeps_imports m w w'"
    using assms t r by (auto simp: define_import_def bind_def update_record_def keeps_imports_def)
qed

text \<open>One import of the module \<open>m\<close>, which is being linked.\<close>

lemma link_import_ok:
  assumes inst: "instantiates inst" and m: "m < record_count w" and st: "state (records w m) = MODULE_LINKING"
    and i: "i < length (import_entries (records w m))"
    and run: "link_import (js_GetModuleNamespace inst d) d m i w = (ok, w')"
  shows "links {m} w w' \<and>
    (ok \<longrightarrow> import_done w' m (import_entries (records w' m) ! i) \<and> keeps_imports m w w' \<and>
      (\<forall>j. j < length (import_entries (records w m)) \<and> j \<noteq> i \<longrightarrow> import_entries (records w' m) ! j = import_entries (records w m) ! j))"
proof (cases "requested (records w m) (request (import_entries (records w m) ! i))")
  case None
  then show ?thesis using run by (auto simp: link_import_def Let_def)
next
  case (Some dep)
  let ?e = "import_entries (records w m) ! i"
  define f where "f = (if importName ?e = None then (case js_GetModuleNamespace inst d dep w of (n, w) \<Rightarrow> (n \<noteq> None, w))
      else case ResolveExport d w dep (importName ?e) [] of
             Inl err \<Rightarrow> (False, raise err w)
           | Inr resolution \<Rightarrow>
               if rmodule resolution = None \<or> ambiguous resolution then (False, raise StrictSyntax w)
               else (True, set_import m i resolution w))"
  obtain ok1 w1 where f1: "f = (ok1, w1)" by (metis prod.exhaust)
  have run2: "(if \<not> ok1 then (False, w1) else case localName ?e of None \<Rightarrow> (False, raise Undefined w1) | Some a \<Rightarrow> define_import m a w1) = (ok, w')"
    using run Some f1 by (simp add: link_import_def Let_def f_def)
  have step1: "links {m} w w1 \<and>
      (ok1 \<longrightarrow> import_ok w1 m (import_entries (records w1 m) ! i) \<and> keeps_imports m w w1 \<and>
        (\<forall>j. j < length (import_entries (records w m)) \<and> j \<noteq> i \<longrightarrow> import_entries (records w1 m) ! j = import_entries (records w m) ! j))"
  proof (cases "importName ?e = None")
    case True
    obtain n w2 where n: "js_GetModuleNamespace inst d dep w = (n, w2)" by (metis prod.exhaust)
    then have "w1 = w2" using f1 True by (simp add: f_def)
    moreover have l: "links {} w w2" by (rule namespace_links [OF inst n])
    moreover have "import_entries (records w2 m) = import_entries (records w m)" "keeps_imports m w w2"
      using keptD [OF linksD(3) [OF l, of m]] st by (simp_all add: keeps_imports_def)
    ultimately show ?thesis using links_mono [of w w2 "{m}"] True by (auto simp: import_ok_def)
  next
    case False
    show ?thesis
    proof (cases "ResolveExport d w dep (importName ?e) []")
      case (Inl err)
      then show ?thesis using f1 False by (auto simp: f_def)
    next
      case (Inr b)
      obtain k where k: "dep = Some k" "k < record_count w"
        using Inr by (cases d; cases dep) (auto simp: GetModule_def split: if_splits)
      have b: "sums_up b (targets w (k, importName ?e))"
        using ResolveExport_sums [OF k(2) Inr [unfolded k(1)]] by (simp add: targets_outside_empty)
      have dep: "dep_of w m (request ?e) = k" using Some k(1) by (simp add: dep_of_def)
      show ?thesis
      proof (cases "rmodule b = None \<or> ambiguous b")
        case True
        then show ?thesis using f1 False Inr by (auto simp: f_def)
      next
        case good: False
        then obtain t where t: "rmodule b = Some t" "targets w (k, importName ?e) = {(t, rname b)}" using b by (auto simp: sums_up_def)
        have w1: "ok1" "w1 = set_import m i b w" using f1 False Inr good by (simp_all add: f_def)
        let ?e' = "?e\<lparr>resolvedModule := rmodule b, resolvedName := rname b\<rparr>"
        have l: "links {m} w w1"
          unfolding w1(2) set_import_def
          by (rule update_links) (use i in \<open>simp_all add: shape_def map_update list_update_same_conv strip_def\<close>)
        have "import_entries (records w1 m) ! i = ?e'" using i by (simp add: w1(2) set_import_def update_record_def)
        moreover have "import_ok w m ?e'" using t dep by (simp add: import_ok_def)
        moreover have "import_entries (records w1 m) ! j = import_entries (records w m) ! j" if "j \<noteq> i" for j
          using that by (simp add: w1(2) set_import_def update_record_def)
        moreover have "keeps_imports m w w1" by (simp add: w1(2) set_import_def update_record_def keeps_imports_def)
        ultimately show ?thesis using l import_ok_shape [OF linksD(1) [OF l]] by simp
      qed
    qed
  qed
  show ?thesis
  proof (cases "ok1 \<and> localName ?e \<noteq> None")
    case False
    then have "ok = False \<and> (w' = w1 \<or> w' = raise Undefined w1)" using run2 by (auto split: if_splits option.splits)
    then show ?thesis using step1 links_trans [OF conjunct1 [OF step1] links_raise] by auto
  next
    case True
    then obtain a where a: "localName ?e = Some a" "define_import m a w1 = (ok, w')" using run2 by auto
    note def = define_import_ok [OF a(2)]
    have l: "links {m} w1 w'" using binds_links [OF def(1)] .
    have im: "import_entries (records w' m) = import_entries (records w1 m)"
      using arg_cong [OF binds_record [OF def(1)], of import_entries] by simp
    have "localName (import_entries (records w1 m) ! i) = Some a"
      using same_shapeD(6) [OF linksD(1) [OF conjunct1 [OF step1]] i] a(1) by (metis strip_sel(2))
    then have "ok \<longrightarrow> import_done w' m (import_entries (records w' m) ! i)"
      using step1 True def(2) import_ok_shape [OF linksD(1) [OF l]] by (simp add: import_done_def import_bound_def im)
    moreover have "ok \<longrightarrow> keeps_imports m w w'" using keeps_imports_trans [OF _ def(3)] step1 True by blast
    ultimately show ?thesis using step1 True links_trans [OF conjunct1 [OF step1] l] by (simp add: im)
  qed
qed

lemma link_imports_ok:
  assumes inst: "instantiates inst" and m: "m < record_count w" and st: "state (records w m) = MODULE_LINKING"
    and len: "n = length (import_entries (records w m))"
    and before: "\<forall>j < i. import_done w m (import_entries (records w m) ! j)"
    and run: "link_imports (js_GetModuleNamespace inst d) d m [i..<n] w = (ok, w')" and i: "i \<le> n"
  shows "links {m} w w' \<and> (ok \<longrightarrow> (\<forall>e \<in> set (import_entries (records w' m)). import_done w' m e) \<and> keeps_imports m w w')"
  using m st len before run i
proof (induction "n - i" arbitrary: i w)
  case 0
  then show ?case by (auto simp: in_set_conv_nth keeps_imports_def)
next
  case (Suc k)
  have i: "i < n" using Suc.hyps(2) by simp
  have r: "link_imports (js_GetModuleNamespace inst d) d m (i # [Suc i..<n]) w = (ok, w')"
    using Suc.prems(5) upt_conv_Cons [OF i] by simp
  obtain ok1 w1 where f: "link_import (js_GetModuleNamespace inst d) d m i w = (ok1, w1)" by (metis prod.exhaust)
  note step = link_import_ok [OF inst Suc.prems(1,2) i [unfolded Suc.prems(3)] f]
  show ?case
  proof (cases ok1)
    case False
    then show ?thesis using r f step by simp
  next
    case True
    have l: "links {m} w w1" using step by blast
    have shape: "same_shape w w1" using linksD(1) [OF l] .
    have n: "n = length (import_entries (records w1 m))" using same_shapeD(5) [OF shape] Suc.prems(3) by simp
    have done_ok: "\<forall>j < Suc i. import_done w1 m (import_entries (records w1 m) ! j)"
    proof (intro allI impI)
      fix j assume "j < Suc i"
      then show "import_done w1 m (import_entries (records w1 m) ! j)"
        using step True Suc.prems(3,4) i import_done_mono [OF shape] by (cases "j = i") auto
    qed
    have "links {m} w1 w' \<and> (ok \<longrightarrow> (\<forall>e \<in> set (import_entries (records w' m)). import_done w' m e) \<and> keeps_imports m w1 w')"
      by (rule Suc.hyps(1) [of "Suc i" w1])
        (use Suc.hyps(2) Suc.prems(1,2) n done_ok r f True i same_shapeD(4) [OF shape] links_state [OF l] in simp_all)
    then show ?thesis using links_trans [OF l] keeps_imports_trans [of m w w1 w'] step True by blast
  qed
qed

lemma link_body_ok:
  assumes inst: "instantiates inst" and m: "m < record_count w" and st: "state (records w m) = MODULE_LINKING"
    and run: "link_body u (js_GetModuleNamespace inst d) d m scr w = (ok, w')"
  shows "links {m} w w' \<and>
    (ok \<longrightarrow> owner (records w' m) = Some m \<and> declares scr (environment (records w' m)) \<and>
      (\<forall>e \<in> set (import_entries (records w' m)). import_done w' m e) \<and>
      (\<forall>e \<in> set (export_entries (records w' m)). request e \<noteq> JS_MODULE_LOCAL \<and> exportName e \<noteq> None \<longrightarrow>
        (\<exists>x. targets w' (m, exportName e) = {x})))"
proof -
  obtain b0 w0 where t: "tick w = (b0, w0)" by (metis prod.exhaust)
  define w1 where "w1 = update_record m (\<lambda>r. r\<lparr>owner := Some m\<rparr>) w0"
  obtain b2 w2 where e2: "link_exports d m (export_entries (records w1 m)) w1 = (b2, w2)" by (metis prod.exhaust)
  obtain b3 w3 where i3: "link_imports (js_GetModuleNamespace inst d) d m [0..<length (import_entries (records w2 m))] w2 = (b3, w3)"
    by (metis prod.exhaust)
  obtain b4 w4 where l4: "define_lexicals m (lexicals scr) w3 = (b4, w4)" by (metis prod.exhaust)
  obtain b5 w5 where d5: "run_declarations u m (declarations scr) w4 = (b5, w5)" by (metis prod.exhaust)
  have s1: "links {m} w w1"
    unfolding w1_def by (rule links_trans [OF links_tick [OF t] update_links]) (simp_all add: shape_def)
  have up: "m < record_count v \<and> state (records v m) = MODULE_LINKING" if "links {m} w v" for v
    using that m st links_state [OF that, of m] same_shapeD(4) [OF linksD(1) [OF that]] by simp
  have x2: "links {m} w1 w2" "b2 \<Longrightarrow> \<forall>e \<in> set (export_entries (records w1 m)). request e \<noteq> JS_MODULE_LOCAL \<and> exportName e \<noteq> None \<longrightarrow>
      (\<exists>x. targets w1 (m, exportName e) = {x})"
    using link_exports_ok [OF e2 conjunct1 [OF up [OF s1]], of "{m}"] by blast+
  have s2: "links {m} w w2" using links_trans [OF s1 x2(1)] .
  have x3: "links {m} w2 w3 \<and> (b3 \<longrightarrow> (\<forall>e \<in> set (import_entries (records w3 m)). import_done w3 m e) \<and> keeps_imports m w2 w3)"
    by (rule link_imports_ok [OF inst _ _ refl _ i3]) (use up [OF s2] in simp_all)
  have s3: "links {m} w w3" using links_trans [OF s2 conjunct1 [OF x3]] .
  have x4: "binds m w3 w4" using bindingD [OF binding_lexicals l4] .
  have x5: "binds m w3 w5" using binds_trans [OF x4 bindingD [OF binding_declarations d5]] .
  have s4: "links {m} w w4" using links_trans [OF s3 binds_links [OF x4]] .
  have s5: "links {m} w w5" using links_trans [OF s3 binds_links [OF x5]] .
  have run': "(if \<not> b0 then (False, w0) else if \<not> b2 then (False, w2) else if \<not> b3 then (False, w3) else if \<not> b4 then (False, w4) else (b5, w5)) = (ok, w')"
    using run t e2 i3 l4 d5 unfolding link_body_def w1_def [symmetric] by (simp add: Let_def w1_def [symmetric] cong: if_cong)
  show ?thesis
  proof (cases "b0 \<and> b2 \<and> b3 \<and> b4 \<and> b5")
    case True
    then have w': "ok" "w' = w5" using run' by simp_all
    have w2: "w2 = w1" using link_exports_ok [OF e2 conjunct1 [OF up [OF s1]], of "{m}"] True by blast
    have over: "declares_over (declarations scr) (environment (records w4 m)) (environment (records w5 m))"
      by (rule run_declarations_over) (use d5 True in simp)
    have lex: "(\<forall>a. environment (records w3 m) a \<noteq> None \<longrightarrow> environment (records w4 m) a = environment (records w3 m) a) \<and>
        (\<forall>a i. (a, i) \<in> set (lexicals scr) \<longrightarrow> environment (records w4 m) a = Some (Lexical i None))"
      by (rule define_lexicals_binding) (use l4 True in simp)
    have same: "import_entries (records w5 m) = import_entries (records w3 m)" "owner (records w5 m) = owner (records w3 m)"
      using arg_cong [OF binds_record [OF x5], of import_entries] arg_cong [OF binds_record [OF x5], of owner] by simp_all
    have k5: "keeps_imports m w3 w5" using lex over same(2) by (simp add: keeps_imports_def declares_over_def)
    have "\<forall>e \<in> set (import_entries (records w' m)). import_done w' m e"
      using x3 True import_done_mono [OF linksD(1) [OF binds_links [OF x5]] k5] w' same by simp
    moreover have "declares scr (environment (records w' m))" using over lex w' by (auto simp: declares_def declares_over_def)
    moreover have "owner (records w' m) = Some m"
      using x3 True w' w2 same(2) by (simp add: keeps_imports_def w1_def update_record_def)
    moreover have sh: "same_shape w1 w5"
      using same_shape_trans [OF same_shape_trans [OF linksD(1) [OF x2(1)] linksD(1) [OF conjunct1 [OF x3]]] linksD(1) [OF binds_links [OF x5]]] .
    ultimately show ?thesis
      using x2(2) True s5 w' by (simp add: same_shape_targets [OF sh] same_shapeD(2) [OF sh])
  next
    case False
    then have "\<not> ok \<and> w' \<in> {w0, w2, w3, w4, w5}" using run' by (auto split: if_splits)
    then show ?thesis using links_tick [OF t] s2 s3 s4 s5 by auto
  qed
qed

subsection \<open>Linking a module\<close>

text \<open>The end of a link, successful or not, seen from its start.\<close>

lemma links_finish:
  assumes m: "state (records w m) = MODULE_UNLINKED" and l: "links {m} (set_state m MODULE_LINKING w) v"
    and f: "shape (f (records v m)) = shape (records v m)" "state (f (records v m)) = MODULE_LINKED \<or> state (f (records v m)) = MODULE_FAILED"
    and ok: "state (f (records v m)) = MODULE_LINKED \<Longrightarrow> linked_well (update_record m f v) m"
  shows "links {} w (update_record m f v)"
proof -
  let ?w = "set_state m MODULE_LINKING w" let ?v = "update_record m f v"
  have sw: "same_shape w ?w" by (simp add: same_shape_def set_state_def update_record_def shape_def)
  have sv: "same_shape v ?v" using f(1) by (simp add: same_shape_def update_record_def)
  have other: "records ?w k = records w k" "records ?v k = records v k" if "k \<noteq> m" for k
    using that by (simp_all add: set_state_def update_record_def)
  have st: "state_links (state (records w k)) (state (records ?v k))" for k
    using linksD(2) [OF l, of k] other [of k] f(2) m by (cases "k = m") (auto simp: state_links_def update_record_def)
  have im: "kept (records w k) (records ?v k)" if "state (records w k) \<noteq> MODULE_UNLINKED" for k
  proof -
    have "k \<noteq> m" using that m by auto
    then show ?thesis using linksD(3) [OF l, of k] other [of k] that by simp
  qed
  have still: "records ?v k = records w k" if k: "state (records ?v k) = MODULE_UNLINKED" for k
  proof -
    have "k \<noteq> m" using k f(2) by (auto simp: update_record_def)
    then show ?thesis using linksD(5) [OF l, of k] other [of k] k by simp
  qed
  have new: "linked_well ?v k" if k: "state (records w k) = MODULE_UNLINKED" "state (records ?v k) = MODULE_LINKED" for k
  proof (cases "k = m")
    case True
    then show ?thesis using ok k(2) by (simp add: update_record_def)
  next
    case False
    have "linked_well v k" using linksD(4) [OF l, of k] False k other [OF False] by simp
    then show ?thesis
      by (rule linked_well_mono [OF sv, rotated 4]) (use f(2) False other in \<open>auto simp: update_record_def\<close>)
  qed
  show ?thesis
    unfolding links_def using same_shape_trans [OF same_shape_trans [OF sw linksD(1) [OF l]] sv] st im new still by blast
qed

lemma instantiates_module: "instantiates (js_InstantiateModule d u)"
proof (induction d)
  case 0
  show ?case
    unfolding instantiates_def
    using links_trans [OF links_raise links_raise] by (auto split: if_splits)
next
  case (Suc d)
  show ?case
    unfolding instantiates_def
  proof (intro allI impI)
    fix obj and w :: "('a, 'b) Modules_scheme" and ok w'
    assume run: "js_InstantiateModule (Suc d) u obj w = (ok, w')"
    show "links {} w w' \<and> (ok \<longrightarrow> (\<exists>m < record_count w. obj = Some m \<and> state (records w' m) \<noteq> MODULE_UNLINKED \<and> state (records w' m) \<noteq> MODULE_FAILED))"
    proof (cases "GetModule w obj")
      case None
      then show ?thesis using run by auto
    next
      case (Some m)
      then have m: "obj = Some m" "m < record_count w" by (auto simp: GetModule_def split: option.splits if_splits)
      consider (early) "script (records w m) = None \<or> state (records w m) \<noteq> MODULE_UNLINKED \<or> (\<exists>r \<in> set (requests (records w m)). dependency r = None)"
        | (link) scr where "script (records w m) = Some scr" "state (records w m) = MODULE_UNLINKED" "\<not> (\<exists>r \<in> set (requests (records w m)). dependency r = None)"
        by (cases "script (records w m)") blast+
      then show ?thesis
      proof cases
        case early
        have e: "links {} w (w\<lparr>exception := x\<rparr>)" for x
          by (auto simp: links_def same_shape_def state_links_def)
        show ?thesis using early run Some m e by (auto split: option.splits if_splits)
      next
        case link
        let ?w = "set_state m MODULE_LINKING w"
        obtain b1 w1 where r: "link_requests (js_InstantiateModule d u) (requests (records w m)) ?w = (b1, w1)" by (metis prod.exhaust)
        note lr = link_requests_ok [OF Suc.IH r]
        define g where "g = (if b1 then link_body u (js_GetModuleNamespace (js_InstantiateModule d u) d) d m scr w1 else (False, w1))"
        obtain b2 w2 where b: "g = (b2, w2)" by (metis prod.exhaust)
        have run': "(if b2 then (True, set_state m MODULE_LINKED w2) else (False, module_failed m w2)) = (ok, w')"
          using run Some link r b by (simp add: g_def)
        have st0: "state (records ?w m) = MODULE_LINKING" "record_count ?w = record_count w" by (simp_all add: set_state_def update_record_def)
        have m1: "m < record_count w1" "state (records w1 m) = MODULE_LINKING"
          using links_state [OF conjunct1 [OF lr], of m] same_shapeD(4) [OF linksD(1) [OF conjunct1 [OF lr]]] st0 m(2) by simp_all
        have body: "links {m} w1 w2 \<and> (b2 \<longrightarrow> b1 \<and> owner (records w2 m) = Some m \<and> declares scr (environment (records w2 m)) \<and>
            (\<forall>e \<in> set (import_entries (records w2 m)). import_done w2 m e) \<and>
            (\<forall>e \<in> set (export_entries (records w2 m)). request e \<noteq> JS_MODULE_LOCAL \<and> exportName e \<noteq> None \<longrightarrow>
              (\<exists>x. targets w2 (m, exportName e) = {x})))"
        proof (cases b1)
          case True
          then have "link_body u (js_GetModuleNamespace (js_InstantiateModule d u) d) d m scr w1 = (b2, w2)" using b by (simp add: g_def)
          from link_body_ok [OF Suc.IH m1 this] show ?thesis using True by simp
        next
          case False
          then show ?thesis using b by (simp add: g_def)
        qed
        have l: "links {m} ?w w2" using links_trans [OF links_mono [OF conjunct1 [OF lr]] conjunct1 [OF body]] .
        show ?thesis
        proof (cases b2)
          case False
          have "links {} w (module_failed m w2)"
            unfolding module_failed_def by (rule links_finish [OF link(2) l]) (simp_all add: shape_def)
          then show ?thesis using run' False by simp
        next
          case True
          let ?v = "set_state m MODULE_LINKED w2"
          have sh: "same_shape w2 ?v" by (simp add: same_shape_def set_state_def update_record_def shape_def)
          have sw: "same_shape ?w w2" using linksD(1) [OF l] .
          have req: "requests (records ?v m) = requests (records w m)"
            using same_shapeD(1) [OF sw, of m] same_shapeD(1) [OF sh, of m] by (simp add: set_state_def update_record_def)
          have deps: "\<exists>k < record_count ?v. dependency q = Some k \<and> state (records ?v k) \<noteq> MODULE_UNLINKED"
            if q: "q \<in> set (requests (records w m))" for q
          proof -
            obtain k where k: "k < record_count w" "dependency q = Some k" "state (records w1 k) \<noteq> MODULE_UNLINKED"
              using lr body True q st0(2) by auto
            have "state (records w2 k) \<noteq> MODULE_UNLINKED" using links_state [OF conjunct1 [OF body] k(3)] k(3) by simp
            moreover have "record_count ?v = record_count w" using same_shapeD(4) [OF sw] same_shapeD(4) [OF sh] st0(2) by simp
            ultimately show ?thesis using k by (auto simp: set_state_def update_record_def)
          qed
          have "linked_well ?v m"
            unfolding linked_well_def req
          proof (intro conjI)
            show "\<forall>r \<in> set (requests (records w m)). \<exists>k < record_count ?v. dependency r = Some k \<and> state (records ?v k) \<noteq> MODULE_UNLINKED"
              using deps by blast
            show "owner (records ?v m) = Some m" using body True by (simp add: set_state_def update_record_def)
            show "\<exists>scr. script (records ?v m) = Some scr \<and> declares scr (environment (records ?v m))"
              using body True same_shapeD(3) [OF sw, of m] link(1) by (simp add: set_state_def update_record_def)
            show "\<forall>e \<in> set (import_entries (records ?v m)). import_bound (records ?v m) e"
              using body True by (simp add: import_done_def import_bound_def set_state_def update_record_def)
            show "\<forall>e \<in> set (import_entries (records ?v m)). import_ok ?v m e"
              using body True import_ok_shape [OF sh] by (simp add: import_done_def set_state_def update_record_def)
            show "\<forall>e \<in> set (export_entries (records ?v m)). request e \<noteq> JS_MODULE_LOCAL \<and> exportName e \<noteq> None \<longrightarrow> (\<exists>x. targets ?v (m, exportName e) = {x})"
              using body True unfolding same_shape_targets [OF sh] same_shapeD(2) [OF sh] by blast
          qed
          then have "links {} w ?v"
            unfolding set_state_def by (intro links_finish [OF link(2) l]) (simp_all add: shape_def)
          moreover have "ok \<and> w' = ?v" using run' True by simp
          ultimately show ?thesis using m by (simp add: set_state_def update_record_def)
        qed
      qed
    qed
  qed
qed

text \<open>C5. Linking keeps every module that was linked, is being linked, evaluates or has failed: its record is the same,
  except that a namespace object is made for a module that has none.  A module that was not linked is unchanged, has
  failed, or is linked, and then it has dependencies that are no longer unlinked, every import bound in its environment
  and resolved to the only binding the name has, indirect exports with a single binding, and an environment of its own
  with what its script declares: lexical bindings that are not initialized, variables, and functions with their last
  value.  Requests, exports, scripts and the number of modules never change.  Success means that the module asked for is
  linked, or was already being linked or evaluated.\<close>

theorem module_linking_correct:
  assumes "js_InstantiateModule d u (Some m) w = (ok, w')"
  shows "same_shape w w' \<and>
    (\<forall>k. state (records w k) \<noteq> MODULE_UNLINKED \<longrightarrow> kept (records w k) (records w' k)) \<and>
    (\<forall>k. state (records w k) = MODULE_UNLINKED \<longrightarrow>
       records w' k = records w k \<or> state (records w' k) = MODULE_FAILED \<or> (state (records w' k) = MODULE_LINKED \<and> linked_well w' k)) \<and>
    (ok \<longrightarrow> m < record_count w \<and> state (records w' m) \<noteq> MODULE_UNLINKED \<and> state (records w' m) \<noteq> MODULE_FAILED)"
proof -
  note inst = instantiatesD [OF instantiates_module assms]
  have "records w' k = records w k \<or> state (records w' k) = MODULE_FAILED \<or> (state (records w' k) = MODULE_LINKED \<and> linked_well w' k)"
    if "state (records w k) = MODULE_UNLINKED" for k
    using linksD(2,4,5) [OF inst(1), of k] that by (auto simp: state_links_def)
  then show ?thesis using linksD(1,3) [OF inst(1)] inst(2) by auto
qed

end
