(* ===== verification/Module_Evaluation.thy ===== *)
theory Module_Evaluation
  imports Module_Linked
begin

text \<open>
  The order in which module bodies run.  The state is extended with the list of the modules whose body was run; running a
  body appends to it, and nothing else does.  Each body runs at most once, after the bodies of the modules it depends
  on, except for those that depend on it in turn and are already being evaluated.
\<close>

record 'v Traced = "'v Modules" +
  executed :: "nat list"

definition deps :: "('v, 'x) Modules_scheme \<Rightarrow> (nat \<times> nat) set" where
  "deps w = {(m, k). \<exists>r \<in> set (requests (records w m)). dependency r = Some k}"

definition busy :: "('v, 'x) Modules_scheme \<Rightarrow> nat set" where
  "busy w = {k. state (records w k) = MODULE_EVALUATING}"

text \<open>What the body of a module may do: it appends to the trace and leaves the states and requests of the modules alone.\<close>

definition runs_bodies :: "(nat \<Rightarrow> 'v Traced \<Rightarrow> bool \<times> 'v Traced) \<Rightarrow> bool" where
  "runs_bodies execute \<longleftrightarrow> (\<forall>m w ok w'. execute m w = (ok, w') \<longrightarrow> executed w' = executed w @ [m] \<and>
     (\<forall>k. state (records w' k) = state (records w k) \<and> requests (records w' k) = requests (records w k)))"

definition in_order :: "(nat \<times> nat) set \<Rightarrow> nat list \<Rightarrow> bool" where
  "in_order D ms \<longleftrightarrow> (\<forall>xs m ys k. ms = xs @ m # ys \<and> (m, k) \<in> D \<longrightarrow> k \<in> set xs \<or> (k, m) \<in> D\<^sup>*)"

definition trace_ok :: "'v Traced \<Rightarrow> bool" where
  "trace_ok w \<longleftrightarrow> distinct (executed w) \<and> in_order (deps w) (executed w) \<and>
     (\<forall>k \<in> set (executed w). state (records w k) \<in> {MODULE_EVALUATING, MODULE_EVALUATED, MODULE_FAILED}) \<and>
     (\<forall>k. state (records w k) = MODULE_EVALUATED \<longrightarrow> k \<in> set (executed w))"

lemma trace_okD:
  assumes "trace_ok w"
  shows "distinct (executed w)" "in_order (deps w) (executed w)"
    "k \<in> set (executed w) \<Longrightarrow> state (records w k) \<in> {MODULE_EVALUATING, MODULE_EVALUATED, MODULE_FAILED}"
    "state (records w k) = MODULE_EVALUATED \<Longrightarrow> k \<in> set (executed w)"
  using assms unfolding trace_ok_def by blast+

lemma in_order_snoc:
  assumes "in_order D ms" "\<And>k. (m, k) \<in> D \<Longrightarrow> k \<in> set ms \<or> (k, m) \<in> D\<^sup>*"
  shows "in_order D (ms @ [m])"
  unfolding in_order_def
proof (intro allI impI)
  fix xs n ys k assume a: "ms @ [m] = xs @ n # ys \<and> (n, k) \<in> D"
  show "k \<in> set xs \<or> (k, n) \<in> D\<^sup>*"
  proof (cases ys rule: rev_cases)
    case Nil
    then show ?thesis using a assms(2) [of k] by auto
  next
    case (snoc zs z)
    then have "ms = xs @ n # zs" using a by simp
    then show ?thesis using a assms(1) unfolding in_order_def by blast
  qed
qed

subsection \<open>Steps\<close>

text \<open>What evaluation keeps: the graph, the modules in progress, and the trace as a prefix.\<close>

definition advances :: "'v Traced \<Rightarrow> 'v Traced \<Rightarrow> bool" where
  "advances w w' \<longleftrightarrow> deps w' = deps w \<and> busy w' = busy w \<and> trace_ok w' \<and>
     (\<exists>new. executed w' = executed w @ new \<and> set new \<inter> busy w = {})"

lemma advances_refl: "trace_ok w \<Longrightarrow> advances w w"
  by (simp add: advances_def)

lemma advances_trans: "advances a b \<Longrightarrow> advances b c \<Longrightarrow> advances a c"
  unfolding advances_def by (metis Int_Un_distrib2 Un_empty append.assoc set_append)

lemma advancesD:
  assumes "advances w w'"
  shows "deps w' = deps w" "busy w' = busy w" "trace_ok w'" "set (executed w) \<subseteq> set (executed w')"
    "k \<in> busy w \<Longrightarrow> k \<in> set (executed w') \<Longrightarrow> k \<in> set (executed w)"
  using assms unfolding advances_def by auto

lemma more_executed: "Modules.more w' = Modules.more w \<Longrightarrow> executed w' = executed w"
  by (cases w; cases w') (simp add: Modules.defs)

lemma links_advances:
  assumes l: "links {} w w'" and t: "trace_ok w"
  shows "advances w w' \<and> executed w' = executed w"
proof -
  have s: "same_shape w w'" using linksD(1) [OF l] .
  have e: "executed w' = executed w" using s by (intro more_executed) (simp add: same_shape_def)
  have d: "deps w' = deps w" by (simp add: deps_def same_shapeD(1) [OF s])
  have st: "state (records w' k) = state (records w k) \<or>
      state (records w k) = MODULE_UNLINKED \<and> (state (records w' k) = MODULE_LINKED \<or> state (records w' k) = MODULE_FAILED)" for k
    using linksD(2) [OF l, of k] by (auto simp: state_links_def)
  have "k \<in> busy w' \<longleftrightarrow> k \<in> busy w" for k using st [of k] by (auto simp: busy_def)
  then have b: "busy w' = busy w" by blast
  have "trace_ok w'"
    unfolding trace_ok_def e d
  proof (intro conjI ballI allI impI)
    show "distinct (executed w)" "in_order (deps w) (executed w)" using trace_okD(1,2) [OF t] .
    show "state (records w' k) \<in> {MODULE_EVALUATING, MODULE_EVALUATED, MODULE_FAILED}" if "k \<in> set (executed w)" for k
      using trace_okD(3) [OF t that] st [of k] by auto
    show "k \<in> set (executed w)" if "state (records w' k) = MODULE_EVALUATED" for k
      using trace_okD(4) [OF t, of k] st [of k] that by auto
  qed
  then show ?thesis using e d b by (simp add: advances_def)
qed

definition evaluates :: "(nat option \<Rightarrow> 'v Traced \<Rightarrow> bool \<times> 'v Traced) \<Rightarrow> bool" where
  "evaluates eval \<longleftrightarrow> (\<forall>obj w ok w'. trace_ok w \<and> (\<forall>m a. obj = Some m \<and> a \<in> busy w \<longrightarrow> (a, m) \<in> (deps w)\<^sup>*) \<and> eval obj w = (ok, w') \<longrightarrow>
     advances w w' \<and> (ok \<longrightarrow> (\<exists>m. obj = Some m \<and> (m \<in> set (executed w') \<or> m \<in> busy w))))"

lemma evaluatesD:
  assumes "evaluates eval" "trace_ok w" "\<forall>m a. obj = Some m \<and> a \<in> busy w \<longrightarrow> (a, m) \<in> (deps w)\<^sup>*" "eval obj w = (ok, w')"
  shows "advances w w'" "ok \<Longrightarrow> \<exists>m. obj = Some m \<and> (m \<in> set (executed w') \<or> m \<in> busy w)"
  using assms unfolding evaluates_def by blast+

lemma eval_requests:
  assumes ev: "evaluates eval"
  shows "link_requests eval rs w = (ok, w') \<Longrightarrow> trace_ok w \<Longrightarrow> (\<And>a. a \<in> busy w \<Longrightarrow> (a, m) \<in> (deps w)\<^sup>*) \<Longrightarrow>
    (\<And>r k. r \<in> set rs \<Longrightarrow> dependency r = Some k \<Longrightarrow> (m, k) \<in> deps w) \<Longrightarrow>
    advances w w' \<and> (ok \<longrightarrow> (\<forall>r \<in> set rs. \<exists>k. dependency r = Some k \<and> (k \<in> set (executed w') \<or> k \<in> busy w)))"
proof (induction rs arbitrary: w)
  case Nil
  then show ?case by (simp add: advances_refl)
next
  case (Cons r rs)
  obtain ok1 w1 where f: "eval (dependency r) w = (ok1, w1)" by (metis prod.exhaust)
  have path: "\<forall>k a. dependency r = Some k \<and> a \<in> busy w \<longrightarrow> (a, k) \<in> (deps w)\<^sup>*"
    using Cons.prems(3,4) by (auto intro: rtrancl_into_rtrancl)
  note step = evaluatesD [OF ev Cons.prems(2) path f]
  note a = advancesD [OF step(1)]
  show ?case
  proof (cases ok1)
    case False
    then show ?thesis using Cons.prems(1) f step(1) by simp
  next
    case True
    then have rest: "link_requests eval rs w1 = (ok, w')" using Cons.prems(1) f by simp
    have ih: "advances w1 w' \<and> (ok \<longrightarrow> (\<forall>r \<in> set rs. \<exists>k. dependency r = Some k \<and> (k \<in> set (executed w') \<or> k \<in> busy w1)))"
      by (rule Cons.IH [OF rest a(3)]) (use Cons.prems(3,4) a(1,2) in auto)
    show ?thesis
      using advances_trans [OF step(1)] ih step(2) [OF True] advancesD(4) [of w1 w'] a(2) by fastforce
  qed
qed

text \<open>A module that ends its evaluation, whose body may have run last.\<close>

lemma retire:
  assumes t: "trace_ok v" and m: "m \<in> busy v" "m \<notin> set (executed v)"
    and e: "executed w' = executed v \<or> executed w' = executed v @ [m] \<and> (\<forall>k. (m, k) \<in> deps v \<longrightarrow> k \<in> set (executed v) \<or> (k, m) \<in> (deps v)\<^sup>*)"
    and st: "\<And>k. k \<noteq> m \<Longrightarrow> state (records w' k) = state (records v k)"
    and fin: "state (records w' m) = MODULE_FAILED \<or> state (records w' m) = MODULE_EVALUATED \<and> executed w' = executed v @ [m]"
    and req: "\<And>k. requests (records w' k) = requests (records v k)"
  shows "trace_ok w' \<and> deps w' = deps v \<and> busy w' = busy v - {m}"
proof -
  have d: "deps w' = deps v" by (simp add: deps_def req)
  have "k \<in> busy w' \<longleftrightarrow> k \<in> busy v - {m}" for k using st [of k] fin by (cases "k = m") (auto simp: busy_def)
  then have b: "busy w' = busy v - {m}" by blast
  have "distinct (executed w')" using trace_okD(1) [OF t] m(2) e by auto
  moreover have "in_order (deps v) (executed w')" using trace_okD(2) [OF t] in_order_snoc [OF trace_okD(2) [OF t], of m] e by metis
  moreover have "state (records w' k) \<in> {MODULE_EVALUATING, MODULE_EVALUATED, MODULE_FAILED}" if "k \<in> set (executed w')" for k
    using trace_okD(3) [OF t, of k] st [of k] fin e that by (cases "k = m") auto
  moreover have "k \<in> set (executed w')" if "state (records w' k) = MODULE_EVALUATED" for k
    using trace_okD(4) [OF t, of k] st [of k] fin e that by (cases "k = m") auto
  ultimately show ?thesis using d b by (simp add: trace_ok_def)
qed

subsection \<open>Evaluation\<close>

lemma raise_advances: "trace_ok w \<Longrightarrow> advances w (raise e w)"
  using links_advances [OF links_raise] by blast

lemma evaluates_module:
  assumes ex: "runs_bodies execute"
  shows "evaluates (js_EvaluateModule d u execute)"
proof (induction d)
  case 0
  show ?case
    unfolding evaluates_def
    using links_advances [OF links_trans [OF links_raise links_raise]] raise_advances by (auto split: if_splits)
next
  case (Suc d)
  show ?case
    unfolding evaluates_def
  proof (intro allI impI)
    fix obj w ok w'
    assume a: "trace_ok w \<and> (\<forall>m a. obj = Some m \<and> a \<in> busy w \<longrightarrow> (a, m) \<in> (deps w)\<^sup>*) \<and> js_EvaluateModule (Suc d) u execute obj w = (ok, w')"
    then have t: "trace_ok w" and run: "js_EvaluateModule (Suc d) u execute obj w = (ok, w')" by blast+
    show "advances w w' \<and> (ok \<longrightarrow> (\<exists>m. obj = Some m \<and> (m \<in> set (executed w') \<or> m \<in> busy w)))"
    proof (cases "GetModule w obj")
      case None
      then show ?thesis using run raise_advances [OF t] by auto
    next
      case (Some m)
      then have m: "obj = Some m" by (auto simp: GetModule_def split: option.splits if_splits)
      have path: "(a, m) \<in> (deps w)\<^sup>*" if "a \<in> busy w" for a using a m that by blast
      obtain b1 w1 where i: "js_InstantiateModule d u obj w = (b1, w1)" by (metis prod.exhaust)
      note inst = instantiatesD [OF instantiates_module i]
      have s1: "advances w w1" "executed w1 = executed w" using links_advances [OF inst(1) t] by blast+
      note s1D = advancesD [OF s1(1)]
      consider (failed) "\<not> b1" | (known) "b1" "state (records w1 m) = MODULE_EVALUATING \<or> state (records w1 m) = MODULE_EVALUATED"
        | (start) "b1" "state (records w1 m) = MODULE_LINKING \<or> state (records w1 m) = MODULE_LINKED"
        using inst(2) m by (cases "state (records w1 m)") auto
      then show ?thesis
      proof cases
        case failed
        then show ?thesis using run Some i s1(1) by simp
      next
        case known
        then have "ok \<and> w' = w1" using run Some i by auto
        moreover have "m \<in> set (executed w1) \<or> m \<in> busy w" using known(2) trace_okD(4) [OF s1D(3)] s1D(2) by (auto simp: busy_def)
        ultimately show ?thesis using s1(1) m by blast
      next
        case start
        define w2 where "w2 = set_state m MODULE_EVALUATING w1"
        have st2: "state (records w2 k) = (if k = m then MODULE_EVALUATING else state (records w1 k))"
          and req2: "requests (records w2 k) = requests (records w1 k)" and ex2: "executed w2 = executed w1" for k
          by (simp_all add: w2_def set_state_def update_record_def)
        have fresh: "m \<notin> set (executed w1)" "m \<notin> busy w1" using trace_okD(3) [OF s1D(3), of m] start(2) by (auto simp: busy_def)
        have d2: "deps w2 = deps w1" and b2: "busy w2 = insert m (busy w1)" by (auto simp: deps_def req2 busy_def st2 split: if_splits)
        have t2: "trace_ok w2"
          using trace_okD [OF s1D(3)] fresh by (auto simp: trace_ok_def ex2 d2 st2)
        obtain b3 w3 where r: "link_requests (js_EvaluateModule d u execute) (requests (records w1 m)) w2 = (b3, w3)" by (metis prod.exhaust)
        have lr: "advances w2 w3 \<and> (b3 \<longrightarrow> (\<forall>r \<in> set (requests (records w1 m)). \<exists>k. dependency r = Some k \<and> (k \<in> set (executed w3) \<or> k \<in> busy w2)))"
        proof (rule eval_requests [OF Suc.IH r t2])
          show "(a, m) \<in> (deps w2)\<^sup>*" if "a \<in> busy w2" for a using path [of a] that b2 d2 s1D(1,2) by auto
          show "(m, k) \<in> deps w2" if "r \<in> set (requests (records w1 m))" "dependency r = Some k" for r k
            using that by (auto simp: deps_def req2)
        qed
        note w3D = advancesD [OF conjunct1 [OF lr]]
        have m3: "m \<in> busy w3" "m \<notin> set (executed w3)" using w3D(2) w3D(5) [of m] b2 fresh(1) ex2 by auto
        obtain b4 w4 where x: "(if b3 then execute m w3 else (False, w3)) = (b4, w4)" by (metis prod.exhaust)
        have run': "(if b4 then (True, set_state m MODULE_EVALUATED w4) else (False, module_failed m w4)) = (ok, w')"
          using run Some i start r x by (auto simp: w2_def)
        have w4: "\<And>k. state (records w4 k) = state (records w3 k)" "\<And>k. requests (records w4 k) = requests (records w3 k)"
          "executed w4 = (if b3 then executed w3 @ [m] else executed w3)"
          using x ex unfolding runs_bodies_def by (cases b3; fastforce)+
        have order: "k \<in> set (executed w3) \<or> (k, m) \<in> (deps w3)\<^sup>*" if "b3" "(m, k) \<in> deps w3" for k
        proof -
          have "(m, k) \<in> deps w1" using that(2) w3D(1) d2 by simp
          then have "k \<in> set (executed w3) \<or> k \<in> insert m (busy w1)" using lr that(1) b2 by (auto simp: deps_def)
          then show ?thesis using path [of k] s1D(1,2) w3D(1) d2 by auto
        qed
        have w': "executed w' = executed w4" "\<And>k. k \<noteq> m \<Longrightarrow> state (records w' k) = state (records w4 k)"
          "\<And>k. requests (records w' k) = requests (records w4 k)"
          "state (records w' m) = (if b4 then MODULE_EVALUATED else MODULE_FAILED)" "ok = b4"
          using run' by (auto simp: set_state_def module_failed_def update_record_def split: if_splits)
        have "b4 \<longrightarrow> b3" using x by (auto split: if_splits)
        then have fin: "trace_ok w' \<and> deps w' = deps w3 \<and> busy w' = busy w3 - {m}"
          by (intro retire [OF w3D(3) m3]) (use w' w4 order in auto)
        obtain new where new: "executed w3 = executed w2 @ new" "set new \<inter> busy w2 = {}" using conjunct1 [OF lr] by (auto simp: advances_def)
        have "advances w w'"
          unfolding advances_def
        proof (intro conjI)
          show "deps w' = deps w" "busy w' = busy w" "trace_ok w'" using fin w3D(1,2) d2 b2 s1D(1,2) fresh(2) by auto
          have "executed w' = executed w @ (new @ (if b3 then [m] else []))" using w'(1) w4(3) new(1) ex2 s1(2) by simp
          moreover have "set (new @ (if b3 then [m] else [])) \<inter> busy w = {}" using new(2) b2 s1D(2) fresh(2) by auto
          ultimately show "\<exists>new. executed w' = executed w @ new \<and> set new \<inter> busy w = {}" by blast
        qed
        moreover have "ok \<longrightarrow> m \<in> set (executed w')" using w'(1,5) w4(3) \<open>b4 \<longrightarrow> b3\<close> by auto
        ultimately show ?thesis using m by blast
      qed
    qed
  qed
qed

text \<open>C4. Whatever the graph of modules, its cycles, failures and earlier evaluations, evaluating a module runs each body at
  most once over the whole history, and each after the bodies of all modules it depends on except those that depend on
  it in turn; on success the body of the module asked for has run.\<close>

theorem module_evaluation_order:
  assumes "runs_bodies execute" "trace_ok w" "busy w = {}" "js_EvaluateModule d u execute (Some m) w = (ok, w')"
  shows "distinct (executed w') \<and> in_order (deps w') (executed w') \<and> (\<exists>new. executed w' = executed w @ new) \<and>
    trace_ok w' \<and> busy w' = {} \<and> (ok \<longrightarrow> m \<in> set (executed w'))"
proof -
  note e = evaluatesD [OF evaluates_module [OF assms(1)] assms(2) _ assms(4)]
  have "advances w w'" "ok \<Longrightarrow> m \<in> set (executed w')" using e assms(3) by auto
  then show ?thesis using trace_okD(1,2) [of w'] assms(3) by (auto simp: advances_def)
qed

end
