(* ===== verification/Module_Samples.thy ===== *)
theory Module_Samples
  imports Module_Evaluation
begin

text \<open>
  A graph of two modules that depend on one another: the first imports \<open>x\<close> from the second, exports it as \<open>y\<close> and
  re-exports everything of the second; the second exports its own \<open>x\<close> and everything of the first.
\<close>

definition plain_entry :: ModuleEntry where
  "plain_entry = \<lparr>exportName = None, localName = None, importName = None, request = 0, resolvedModule = None, resolvedName = None\<rparr>"

definition plain_record :: "nat ModuleRecord" where
  "plain_record = \<lparr>script = Some \<lparr>lexicals = [], declarations = []\<rparr>, environment = Map.empty, owner = None, state = MODULE_UNLINKED,
     failure = 0, requests = [], import_entries = [], export_entries = [], namespaceObject = None, namespaceBindings = []\<rparr>"

definition sample :: "nat Traced" where
  "sample = \<lparr>records = (\<lambda>_. plain_record)
       (0 := plain_record\<lparr>requests := [\<lparr>specifier = [0x62], dependency = Some 1\<rparr>],
          import_entries := [plain_entry\<lparr>localName := Some [0x78], importName := Some [0x78]\<rparr>],
          export_entries := [plain_entry, plain_entry\<lparr>exportName := Some [0x79], localName := Some [0x78], request := JS_MODULE_LOCAL\<rparr>]\<rparr>,
        1 := plain_record\<lparr>script := Some \<lparr>lexicals = [([0x78], True)], declarations = []\<rparr>,
          requests := [\<lparr>specifier = [0x61], dependency = Some 0\<rparr>],
          export_entries := [plain_entry\<lparr>exportName := Some [0x78], localName := Some [0x78], request := JS_MODULE_LOCAL\<rparr>, plain_entry]\<rparr>),
     record_count = 2, exception = None, reported = \<lambda>_. None, allowed = \<lambda>_. True, clock = 0, objects = 0, executed = []\<rparr>"

lemmas sample_defs = sample_def plain_record_def plain_entry_def JS_MODULE_LOCAL_def set_state_def update_record_def

lemma sample_closed: "closed_modules sample {0, 1}"
  by (simp add: closed_modules_def record_ok_def entry_ok_def requested_def sample_defs)

lemma sample_walk: "card {0 :: nat, 1} * Suc (card (walk_names sample {0, 1})) = 4" "card (walk_nodes sample {0, 1} [0x78]) < 5"
  by (simp_all add: walk_nodes_def walk_names_def entry_names_def sample_defs insert_Times_insert)

theorem module_resolution_correct_witness:
  "\<exists>b. ResolveExport 5 sample (Some 0) (Some [0x78]) [] = Inr b \<and> sums_up b (targets sample (0, Some [0x78]))"
  using module_resolution_correct [OF sample_closed, of 0 "[0x78]" 5] sample_walk(2) by simp

lemma sample_resolves:
  "ResolveExport 5 sample (Some 0) (Some [0x78]) [] = Inr \<lparr>rmodule = Some 1, rname = Some [0x78], ambiguous = False\<rparr>"
  by code_simp

theorem module_linking_correct_witness:
  "same_shape sample (snd (js_InstantiateModule 9 0 (Some 0) sample)) \<and> linked_well (snd (js_InstantiateModule 9 0 (Some 0) sample)) 0"
proof -
  have "state (records sample 0) = MODULE_UNLINKED" "state (records (snd (js_InstantiateModule 9 0 (Some 0) sample)) 0) = MODULE_LINKED"
    by code_simp+
  then show ?thesis using module_linking_correct [where d = 9 and u = 0 and m = 0 and w = sample, OF surjective_pairing] by fastforce
qed

definition run_body :: "nat \<Rightarrow> nat Traced \<Rightarrow> bool \<times> nat Traced" where
  "run_body m w = (True, w\<lparr>executed := executed w @ [m]\<rparr>)"

theorem module_evaluation_order_witness:
  "executed (snd (js_EvaluateModule 9 0 run_body (Some 0) sample)) = [1, 0] \<and>
   in_order (deps (snd (js_EvaluateModule 9 0 run_body (Some 0) sample))) [1, 0]"
proof -
  let ?r = "js_EvaluateModule 9 0 run_body (Some 0) sample"
  have e: "executed (snd ?r) = [1, 0]" by code_simp
  have "runs_bodies run_body" by (auto simp: runs_bodies_def run_body_def)
  moreover have st: "state (records sample k) = MODULE_UNLINKED" for k by (simp add: sample_def plain_record_def)
  moreover have "trace_ok sample" using st by (simp add: trace_ok_def in_order_def) (simp add: sample_def)
  moreover have "busy sample = {}" by (simp add: busy_def st)
  ultimately show ?thesis using module_evaluation_order [where execute = run_body and w = sample and d = 9 and u = 0 and m = 0, OF _ _ _ surjective_pairing] e by metis
qed

lemma sample_names: "exported_names sample 0 \<subseteq> {[0x78], [0x79]}"
  by (auto simp: exported_names_def own_names_def sample_def plain_record_def plain_entry_def split: if_splits)

theorem module_namespace_correct_witness:
  "\<exists>n w'. js_GetModuleNamespace (\<lambda>obj w. (True, w)) 5 (Some 0) (set_state 0 MODULE_LINKED sample) = (Some n, w') \<and>
     map exportName (namespaceBindings (records w' 0)) = map Some (sorted_list_of_set (single_names (set_state 0 MODULE_LINKED sample) 0))"
proof -
  let ?w = "set_state 0 MODULE_LINKED sample"
  obtain n w' where run: "js_GetModuleNamespace (\<lambda>obj w. (True, w)) 5 (Some 0) ?w = (n, w')" by (metis prod.exhaust)
  have c: "closed_modules ?w {0, 1}" by (simp add: closed_modules_def record_ok_def entry_ok_def requested_def sample_defs)
  have d: "card {0 :: nat, 1} * Suc (card (walk_names ?w {0, 1})) < 5" by (simp add: walk_names_def entry_names_def sample_defs)
  have s: "state (records ?w 0) \<noteq> MODULE_UNLINKED" "namespaceObject (records ?w 0) = None" "\<forall>i. allowed ?w i"
    by (simp_all add: set_state_def update_record_def sample_def plain_record_def)
  have "exported_names ?w 0 \<subseteq> {[0x78], [0x79]}"
    by (auto simp: set_state_def update_record_def exported_names_def own_names_def sample_def plain_record_def plain_entry_def split: if_splits)
  from card_mono [OF _ this] have "card (exported_names ?w 0) < 2 ^ 32" by simp
  then show ?thesis using module_namespace_correct [OF c _ _ d s(1,2) run] s(3) run by auto
qed

end
