(* ===== verification/Module_Records.thy ===== *)
theory Module_Records
  imports Module
begin

text \<open>
  The records the parser builds: specifiers and export names stay distinct, and every entry that asks for a module names
  one of the requests, so no later loop leaves the request array.
\<close>

definition fits_requests :: "'v ModuleRecord \<Rightarrow> u32 \<Rightarrow> bool" where
  "fits_requests r i \<longleftrightarrow> unat i < length (requests r)"

definition record_wf :: "'v ModuleRecord \<Rightarrow> bool" where
  "record_wf r \<longleftrightarrow> distinct (map specifier (requests r)) \<and> length (requests r) < 2 ^ 32 \<and>
     distinct (filter (\<lambda>n. n \<noteq> None) (map exportName (export_entries r))) \<and>
     (\<forall>e \<in> set (import_entries r). fits_requests r (request e)) \<and>
     (\<forall>e \<in> set (export_entries r). request e = JS_MODULE_LOCAL \<or> fits_requests r (request e))"

lemma find_index_Some: "find_index P xs = Some i \<Longrightarrow> i < length xs \<and> P (xs ! i)"
  by (induction xs arbitrary: i) (auto split: if_splits)

lemma find_index_None: "find_index P xs = None \<longleftrightarrow> (\<forall>x \<in> set xs. \<not> P x)"
  by (induction xs) auto

lemma tick_records: "tick w = (ok, w') \<Longrightarrow> records w' = records w"
  by (auto simp: tick_def)

lemma raise_records [simp]: "records (raise e w) = records w"
  by (simp add: raise_def split: option.split)

lemma records_update [simp]: "records (update_record m f w) = (records w)(m := f (records w m))"
  by (simp add: update_record_def)

lemma fits_append: "fits_requests r i \<Longrightarrow> fits_requests (r\<lparr>requests := requests r @ rs\<rparr>) i"
  by (simp add: fits_requests_def)

lemma request_added:
  assumes "record_wf r" "length (requests r) \<noteq> 2 ^ 32 - 1" "\<forall>q \<in> set (requests r). specifier q \<noteq> spec"
  shows "record_wf (r\<lparr>requests := requests r @ [\<lparr>specifier = spec, dependency = None\<rparr>]\<rparr>)"
  using assms fits_append [of r] by (auto simp: record_wf_def)

lemma AddModuleRequest_wf:
  assumes wf: "\<forall>k. record_wf (records w k)" and run: "js_AddModuleRequest obj spec w = (res, w')"
  shows "(\<forall>k. record_wf (records w' k)) \<and>
    (\<forall>i. res = Some i \<longrightarrow> (\<exists>m. obj = Some m \<and> fits_requests (records w' m) i \<and> specifier (requests (records w' m) ! unat i) = spec))"
proof (cases "GetModule w obj")
  case None
  then show ?thesis using run wf by (auto simp: js_AddModuleRequest_def)
next
  case (Some m)
  then have m: "obj = Some m" by (auto simp: GetModule_def split: option.splits if_splits)
  let ?rs = "requests (records w m)"
  have len: "length ?rs < 2 ^ 32" using wf by (simp add: record_wf_def)
  show ?thesis
  proof (cases "find_index (\<lambda>r. specifier r = spec) ?rs")
    case found: (Some i)
    then have "res = Some (word_of_nat i) \<and> w' = w" using run Some by (simp add: js_AddModuleRequest_def Let_def)
    moreover have "unat (word_of_nat i :: u32) = i" using find_index_Some [OF found] len by (intro unat_of_nat_small) simp
    ultimately show ?thesis using find_index_Some [OF found] wf m by (auto simp: fits_requests_def)
  next
    case None
    show ?thesis
    proof (cases "length ?rs \<ge> SIZE_MAX div 16 - 1 \<or> length ?rs = 2 ^ 32 - 1")
      case True
      then have "res = None \<and> w' = raise OutOfMemory w" using run Some None by (auto simp: js_AddModuleRequest_def Let_def)
      then show ?thesis using wf by simp
    next
      case False
      obtain ok w1 where t: "tick w = (ok, w1)" by (metis prod.exhaust)
      show ?thesis
      proof (cases ok)
        case True
        have r: "res = Some (word_of_nat (length ?rs))"
          "w' = update_record m (\<lambda>r. r\<lparr>requests := requests r @ [\<lparr>specifier = spec, dependency = None\<rparr>]\<rparr>) w1"
          using run Some None False t True by (auto simp: js_AddModuleRequest_def Let_def)
        have "record_wf ((records w m)\<lparr>requests := ?rs @ [\<lparr>specifier = spec, dependency = None\<rparr>]\<rparr>)"
          by (rule request_added) (use wf False None find_index_None [of "\<lambda>r. specifier r = spec" ?rs] in auto)
        moreover have "unat (word_of_nat (length ?rs) :: u32) = length ?rs" using len by (intro unat_of_nat_small) simp
        ultimately show ?thesis using r tick_records [OF t] wf m by (auto simp: fits_requests_def)
      next
        case refused: False
        then have "res = None \<and> w' = w1" using run Some None False t by (auto simp: js_AddModuleRequest_def Let_def)
        then show ?thesis using tick_records [OF t] wf by simp
      qed
    qed
  qed
qed

lemma AddModuleEntry_result:
  assumes "AddModuleEntry entries ename lname req iname w = (res, w')"
  shows "records w' = records w \<and> (\<forall>es. res = Some es \<longrightarrow> (\<exists>e. es = entries @ [e] \<and> exportName e = ename \<and> request e = req))"
  using assms by (auto simp: AddModuleEntry_def dest: tick_records split: if_splits prod.splits)

lemma AddModuleImport_wf:
  assumes wf: "\<forall>k. record_wf (records w k)" and req: "\<And>m. obj = Some m \<Longrightarrow> fits_requests (records w m) req"
    and run: "js_AddModuleImport obj req iname lname w = (ok, w')"
  shows "\<forall>k. record_wf (records w' k)"
proof (cases "GetModule w obj")
  case None
  then show ?thesis using run wf by (auto simp: js_AddModuleImport_def)
next
  case (Some m)
  then have m: "obj = Some m" by (auto simp: GetModule_def split: option.splits if_splits)
  obtain res w1 where e: "AddModuleEntry (import_entries (records w m)) None (Some lname) req iname w = (res, w1)" by (metis prod.exhaust)
  note r = AddModuleEntry_result [OF e]
  show ?thesis
  proof (cases res)
    case None
    then show ?thesis using run Some e r wf by (simp add: js_AddModuleImport_def)
  next
    case es: (Some es)
    then obtain x where x: "es = import_entries (records w m) @ [x]" "request x = req" using r by auto
    have "w' = update_record m (\<lambda>r. r\<lparr>import_entries := es\<rparr>) w1" using run Some e es by (simp add: js_AddModuleImport_def)
    moreover have "record_wf ((records w m)\<lparr>import_entries := es\<rparr>)"
      using wf req [OF m] x by (auto simp: record_wf_def fits_requests_def)
    ultimately show ?thesis using r wf by simp
  qed
qed

lemma AddModuleExport_wf:
  assumes wf: "\<forall>k. record_wf (records w k)" and req: "\<And>m. obj = Some m \<Longrightarrow> req = JS_MODULE_LOCAL \<or> fits_requests (records w m) req"
    and run: "js_AddModuleExport obj ename lname req iname w = (ok, w')"
  shows "\<forall>k. record_wf (records w' k)"
proof (cases "GetModule w obj")
  case None
  then show ?thesis using run wf by (auto simp: js_AddModuleExport_def)
next
  case (Some m)
  then have m: "obj = Some m" by (auto simp: GetModule_def split: option.splits if_splits)
  show ?thesis
  proof (cases "ename \<noteq> None \<and> (\<exists>e \<in> set (export_entries (records w m)). exportName e = ename)")
    case True
    then show ?thesis using run Some wf by (auto simp: js_AddModuleExport_def)
  next
    case fresh: False
    obtain res w1 where e: "AddModuleEntry (export_entries (records w m)) ename lname req iname w = (res, w1)" by (metis prod.exhaust)
    note r = AddModuleEntry_result [OF e]
    show ?thesis
    proof (cases res)
      case None
      then show ?thesis using run Some fresh e r wf by (auto simp: js_AddModuleExport_def)
    next
      case es: (Some es)
      then obtain x where x: "es = export_entries (records w m) @ [x]" "exportName x = ename" "request x = req" using r by auto
      have "w' = update_record m (\<lambda>r. r\<lparr>export_entries := es\<rparr>) w1" using run Some fresh e es by (auto simp: js_AddModuleExport_def)
      moreover have "record_wf ((records w m)\<lparr>export_entries := es\<rparr>)"
        using wf req [OF m] x fresh by (auto simp: record_wf_def fits_requests_def)
      ultimately show ?thesis using r wf by simp
    qed
  qed
qed

text \<open>C19. Whatever the parser adds, and whatever allocation fails, specifiers and export names stay distinct and every
  entry asks for a request there is; the index given for a specifier is that of its request, and an export name used
  before is a syntax error.\<close>

theorem module_records_wf:
  assumes "\<forall>k. record_wf (records w k)"
  shows "(\<forall>spec res w'. js_AddModuleRequest (Some m) spec w = (res, w') \<longrightarrow> (\<forall>k. record_wf (records w' k)) \<and>
      (\<forall>i. res = Some i \<longrightarrow> fits_requests (records w' m) i \<and> specifier (requests (records w' m) ! unat i) = spec)) \<and>
    (\<forall>req iname lname ok w'. fits_requests (records w m) req \<and> js_AddModuleImport (Some m) req iname lname w = (ok, w') \<longrightarrow>
      (\<forall>k. record_wf (records w' k))) \<and>
    (\<forall>ename lname req iname ok w'. (req = JS_MODULE_LOCAL \<or> fits_requests (records w m) req) \<and>
      js_AddModuleExport (Some m) ename lname req iname w = (ok, w') \<longrightarrow>
      (\<forall>k. record_wf (records w' k)) \<and> (ename \<noteq> None \<and> ename \<in> exportName ` set (export_entries (records w m)) \<longrightarrow> \<not> ok))"
proof (intro conjI allI impI; (elim conjE)?)
  fix spec res w' i assume r: "js_AddModuleRequest (Some m) spec w = (res, w')"
  show "record_wf (records w' k)" for k using AddModuleRequest_wf [OF assms r] by blast
  show "fits_requests (records w' m) i" "specifier (requests (records w' m) ! unat i) = spec" if "res = Some i"
    using AddModuleRequest_wf [OF assms r] that by auto
next
  fix req iname lname ok w' k assume "fits_requests (records w m) req" "js_AddModuleImport (Some m) req iname lname w = (ok, w')"
  then show "record_wf (records w' k)" using AddModuleImport_wf [OF assms, of "Some m" req iname lname ok w'] by blast
next
  fix ename lname req iname ok w' assume r: "req = JS_MODULE_LOCAL \<or> fits_requests (records w m) req"
    "js_AddModuleExport (Some m) ename lname req iname w = (ok, w')"
  show "record_wf (records w' k)" for k using AddModuleExport_wf [OF assms, of "Some m" req ename lname iname ok w'] r by blast
  show "\<not> ok" if "ename \<noteq> None" "ename \<in> exportName ` set (export_entries (records w m))"
  proof (cases "GetModule w (Some m)")
    case None
    then show ?thesis using r(2) by (auto simp: js_AddModuleExport_def)
  next
    case (Some k)
    then have k: "k = m" by (auto simp: GetModule_def split: if_splits)
    have "\<exists>e \<in> set (export_entries (records w m)). exportName e = ename" using that(2) by (auto simp: eq_commute)
    then show ?thesis using r(2) that(1) Some k by (auto simp: js_AddModuleExport_def)
  qed
qed

theorem module_records_wf_witness:
  "\<forall>k. record_wf (records (snd (js_AddModuleRequest (Some 0) [0x61]
     \<lparr>records = \<lambda>_. \<lparr>script = None, environment = Map.empty, owner = None, state = MODULE_UNLINKED, failure = (0 :: nat), requests = [],
        import_entries = [], export_entries = [], namespaceObject = None, namespaceBindings = []\<rparr>,
      record_count = 1, exception = None, reported = \<lambda>_. None, allowed = \<lambda>_. True, clock = 0, objects = 0\<rparr>)) k)"
  (is "\<forall>k. record_wf (records (snd (js_AddModuleRequest _ _ ?w)) k)")
proof -
  have "\<forall>k. record_wf (records ?w k)" by (simp add: record_wf_def)
  from module_records_wf [OF this, of 0] surjective_pairing [of "js_AddModuleRequest (Some 0) [0x61] ?w"] show ?thesis by blast
qed

end
