(* ===== verification/Bignum.thy ===== *)
theory Bignum
  imports Prelude "HOL-Library.Monad_Syntax"
begin

text \<open>
  The multiple-precision integers under the conversion of numbers, \<open>js/src/jsdtoa.c\<close>, in the build with 64-bit integers
  and without threads.  A number is its allocation, \<open>maxwds\<close> words of 32 bits in little endian order of which \<open>wds\<close>
  count, and ownership of it passes by value.  The state holds the free lists, the cached powers of 5 and the behaviour
  of \<open>malloc\<close>: which calls succeed and what fresh memory holds.  The outer \<open>None\<close> is a computation without a defined
  result, as an access outside the words of a number or the shift \<open>1 << k\<close> out of range; the inner one is the null
  pointer returned when memory runs out.
\<close>

record Bigint =
  bk :: nat
  maxwds :: nat
  sign :: bool
  wds :: nat
  words :: "u32 list"

record Dtoa =
  freelist :: "nat \<Rightarrow> Bigint list"
  p5s :: "Bigint list"
  malloc_ok :: "nat \<Rightarrow> bool"
  fresh :: "nat \<Rightarrow> nat \<Rightarrow> u32"
  mallocs :: nat

type_synonym 'a allocating = "('a option \<times> Dtoa) option"

definition Kmax :: nat where "Kmax = 7"

text \<open>A step that returns a null pointer ends the function after it has released what it owns.\<close>

definition unless_null :: "'a allocating \<Rightarrow> (Dtoa \<Rightarrow> Dtoa) \<Rightarrow> ('a \<Rightarrow> Dtoa \<Rightarrow> 'b allocating) \<Rightarrow> 'b allocating" where
  "unless_null r cleanup f =
     (case r of None \<Rightarrow> None | Some (None, w) \<Rightarrow> Some (None, cleanup w) | Some (Some b, w) \<Rightarrow> f b w)"

subsection \<open>Allocation\<close>

definition Balloc :: "nat \<Rightarrow> Dtoa \<Rightarrow> Bigint allocating" where
  "Balloc k w =
     (case (if k \<le> Kmax then freelist w k else []) of
        rv # rest \<Rightarrow> Some (Some (rv\<lparr>sign := False, wds := 0\<rparr>), w\<lparr>freelist := (freelist w)(k := rest)\<rparr>)
      | [] \<Rightarrow>
          if 31 \<le> k then None
          else
            let n = mallocs w; w = w\<lparr>mallocs := n + 1\<rparr> in
            if malloc_ok w n then
              Some (Some \<lparr>bk = k, maxwds = 2 ^ k, sign = False, wds = 0, words = map (fresh w n) [0..<2 ^ k]\<rparr>, w)
            else Some (None, w))"

definition Bfree :: "Bigint option \<Rightarrow> Dtoa \<Rightarrow> Dtoa" where
  "Bfree p w =
     (case p of
        None \<Rightarrow> w
      | Some v \<Rightarrow> if bk v > Kmax then w else w\<lparr>freelist := (freelist w)(bk v := v # freelist w (bk v))\<rparr>)"

text \<open>Writing words from an index on.\<close>

definition put_words :: "nat \<Rightarrow> u32 list \<Rightarrow> u32 list \<Rightarrow> u32 list option" where
  "put_words i ys xs = (if i + length ys \<le> length xs then Some (take i xs @ ys @ drop (i + length ys) xs) else None)"

definition Bcopy :: "Bigint \<Rightarrow> Bigint \<Rightarrow> Bigint option" where
  "Bcopy x y = do { xs \<leftarrow> put_words 0 (take (wds y) (words y)) (words x); Some (x\<lparr>sign := sign y, wds := wds y, words := xs\<rparr>) }"

subsection \<open>Small operands\<close>

definition low32 :: "u64 \<Rightarrow> u32" where
  "low32 y = ucast (y AND 0xFFFFFFFF)"

text \<open>The loop of \<open>multadd\<close>, which runs at least once.\<close>

fun mul_words :: "u32 list \<Rightarrow> u64 \<Rightarrow> u64 \<Rightarrow> u32 list \<times> u64" where
  "mul_words [] m carry = ([], carry)"
| "mul_words (x # xs) m carry =
     (let y = ucast x * m + carry in case mul_words xs m (drop_bit 32 y) of (ys, carry) \<Rightarrow> (low32 y # ys, carry))"

definition push_word :: "Bigint \<Rightarrow> u64 \<Rightarrow> Bigint option" where
  "push_word b carry = do { xs \<leftarrow> put_words (wds b) [ucast carry] (words b); Some (b\<lparr>words := xs, wds := wds b + 1\<rparr>) }"

definition multadd :: "Bigint \<Rightarrow> int \<Rightarrow> int \<Rightarrow> Dtoa \<Rightarrow> Bigint allocating" where
  "multadd b m a w =
     (let n = max 1 (wds b) in
      if length (words b) < n then None
      else
        case mul_words (take n (words b)) (word_of_int m) (word_of_int a) of
          (ys, carry) \<Rightarrow>
            let b = b\<lparr>words := ys @ drop n (words b)\<rparr> in
            if carry = 0 then Some (Some b, w)
            else if wds b < maxwds b then do { b \<leftarrow> push_word b carry; Some (Some b, w) }
            else
              unless_null (Balloc (bk b + 1) w) (Bfree (Some b)) (\<lambda>b1 w.
                do { b1 \<leftarrow> Bcopy b1 b; b1 \<leftarrow> push_word b1 carry; Some (Some b1, Bfree (Some b) w) }))"

definition i2b :: "int \<Rightarrow> Dtoa \<Rightarrow> Bigint allocating" where
  "i2b i w = unless_null (Balloc 1 w) id (\<lambda>b w. do { xs \<leftarrow> put_words 0 [word_of_int i] (words b); Some (Some (b\<lparr>words := xs, wds := 1\<rparr>), w) })"

definition hi0bits_step :: "u32 \<Rightarrow> nat \<Rightarrow> nat \<times> u32 \<Rightarrow> nat \<times> u32" where
  "hi0bits_step m s p = (case p of (k, x) \<Rightarrow> if x AND m = 0 then (k + s, push_bit s x) else (k, x))"

definition hi0bits :: "u32 \<Rightarrow> nat" where
  "hi0bits x =
     (case hi0bits_step 0xC0000000 2 (hi0bits_step 0xF0000000 4 (hi0bits_step 0xFF000000 8 (hi0bits_step 0xFFFF0000 16 (0, x)))) of
        (k, x) \<Rightarrow> if x AND 0x80000000 = 0 then (if x AND 0x40000000 = 0 then 32 else k + 1) else k)"

definition lo0bits_step :: "u32 \<Rightarrow> nat \<Rightarrow> nat \<times> u32 \<Rightarrow> nat \<times> u32" where
  "lo0bits_step m s p = (case p of (k, x) \<Rightarrow> if x AND m = 0 then (k + s, drop_bit s x) else (k, x))"

text \<open>The result and the word left in place of the argument.\<close>

definition lo0bits :: "u32 \<Rightarrow> nat \<times> u32" where
  "lo0bits y =
     (if y AND 7 \<noteq> 0 then
        (if y AND 1 \<noteq> 0 then (0, y) else if y AND 2 \<noteq> 0 then (1, drop_bit 1 y) else (2, drop_bit 2 y))
      else
        case lo0bits_step 0x3 2 (lo0bits_step 0xF 4 (lo0bits_step 0xFF 8 (lo0bits_step 0xFFFF 16 (0, y)))) of
          (k, x) \<Rightarrow> if x AND 1 = 0 then (if drop_bit 1 x = 0 then (32, y) else (k + 1, drop_bit 1 x)) else (k, x))"

subsection \<open>Products\<close>

text \<open>The inner loop of \<open>mult\<close> adds one word times the longer factor to the words from a place on; the outer loop moves
  the place.\<close>

fun mul_row :: "u32 list \<Rightarrow> u32 list \<Rightarrow> u64 \<Rightarrow> u64 \<Rightarrow> u32 list \<times> u64" where
  "mul_row (x # xs) (c # cs) y carry =
     (let z = ucast x * y + ucast c + carry in case mul_row xs cs y (drop_bit 32 z) of (zs, carry) \<Rightarrow> (low32 z # zs, carry))"
| "mul_row _ _ y carry = ([], carry)"

fun mul_rows :: "u32 list \<Rightarrow> u32 list \<Rightarrow> u32 list \<Rightarrow> u32 list" where
  "mul_rows xa [] cs = cs"
| "mul_rows xa (y # ys) cs =
     (let cs =
        (if y = 0 then cs
         else case mul_row xa cs (ucast y) 0 of (zs, carry) \<Rightarrow> zs @ [ucast carry] @ drop (length xa + 1) cs)
      in hd cs # mul_rows xa ys (tl cs))"

definition mult :: "Bigint \<Rightarrow> Bigint \<Rightarrow> Dtoa \<Rightarrow> Bigint allocating" where
  "mult a b w =
     (let (a, b) = (if wds a < wds b then (b, a) else (a, b));
          wc = wds a + wds b;
          k = (if wc > maxwds a then bk a + 1 else bk a)
      in unless_null (Balloc k w) id (\<lambda>c w.
           if length (words a) < wds a \<or> length (words b) < wds b then None
           else
             let zs = mul_rows (take (wds a) (words a)) (take (wds b) (words b)) (replicate wc 0) in
             do { xs \<leftarrow> put_words 0 zs (words c);
                  Some (Some (c\<lparr>wds := length (dropWhile (\<lambda>z. z = 0) (rev zs)), words := xs\<rparr>), w) }))"

text \<open>The loop of \<open>pow5mult\<close> over the cached powers, of which \<open>i\<close> is the place: the next one is made when it is missing.\<close>

function pow5_loop :: "nat \<Rightarrow> nat \<Rightarrow> Bigint \<Rightarrow> Dtoa \<Rightarrow> Bigint allocating" where
  "pow5_loop i k b w =
     (if length (p5s w) \<le> i then None
      else
        unless_null
          (if odd k then (case mult b (p5s w ! i) w of None \<Rightarrow> None | Some (b1, w) \<Rightarrow> Some (b1, Bfree (Some b) w)) else Some (Some b, w))
          id
          (\<lambda>b w.
             if k div 2 = 0 then Some (Some b, w)
             else if i + 1 < length (p5s w) then pow5_loop (i + 1) (k div 2) b w
             else
               unless_null (mult (p5s w ! i) (p5s w ! i) w) (Bfree (Some b)) (\<lambda>p51 w.
                 pow5_loop (i + 1) (k div 2) b (w\<lparr>p5s := p5s w @ [p51]\<rparr>))))"
  by pat_completeness auto
termination by (relation "measure (\<lambda>(i, k, b, w). k)") (auto simp: div_eq_0_iff)

definition pow5mult :: "Bigint \<Rightarrow> nat \<Rightarrow> Dtoa \<Rightarrow> Bigint allocating" where
  "pow5mult b k w =
     unless_null (if k mod 4 \<noteq> 0 then multadd b ([5, 25, 125] ! (k mod 4 - 1)) 0 w else Some (Some b, w)) id (\<lambda>b w.
       if k div 4 = 0 then Some (Some b, w)
       else if p5s w = [] then
         unless_null (i2b 625 w) (Bfree (Some b)) (\<lambda>p5 w. pow5_loop 0 (k div 4) b (w\<lparr>p5s := [p5]\<rparr>))
       else pow5_loop 0 (k div 4) b w)"

subsection \<open>Shift, comparison and difference\<close>

text \<open>The exponent of the smallest doubling of the allocation that holds \<open>n1\<close> words.\<close>

function grow :: "nat \<Rightarrow> nat \<Rightarrow> nat \<Rightarrow> nat option" where
  "grow n1 i k1 = (if i = 0 then (if n1 = 0 then Some k1 else None) else if n1 > i then grow n1 (i * 2) (k1 + 1) else Some k1)"
  by pat_completeness auto
termination by (relation "measure (\<lambda>(n1, i, k1). n1 - i)") auto

fun shift_words :: "u32 list \<Rightarrow> nat \<Rightarrow> u32 \<Rightarrow> u32 list" where
  "shift_words [] k z = [z]"
| "shift_words (x # xs) k z = (push_bit k x OR z) # shift_words xs k (drop_bit (32 - k) x)"

definition lshift :: "Bigint \<Rightarrow> nat \<Rightarrow> Dtoa \<Rightarrow> Bigint allocating" where
  "lshift b k w =
     (let n = k div 32; n1 = n + wds b + 1; s = k mod 32; r = max 1 (wds b) in
      do { k1 \<leftarrow> grow n1 (maxwds b) (bk b);
           unless_null (Balloc k1 w) (Bfree (Some b)) (\<lambda>b1 w.
             if length (words b) < r then None
             else
               let src = take r (words b);
                   ys = replicate n 0 @ (if s \<noteq> 0 then shift_words src s 0 else src);
                   n1 = (if s \<noteq> 0 \<and> last ys \<noteq> 0 then n1 + 1 else n1)
               in do { xs \<leftarrow> put_words 0 ys (words b1); Some (Some (b1\<lparr>words := xs, wds := n1 - 1\<rparr>), Bfree (Some b) w) }) })"

text \<open>A number from decimal digits: \<open>y9\<close> is the value of the first nine, and a point follows the first \<open>nd0\<close> of the \<open>nd\<close>.
  The loop that chooses the allocation is that of \<open>grow\<close>.\<close>

fun add_digits :: "int list \<Rightarrow> Bigint \<Rightarrow> Dtoa \<Rightarrow> Bigint allocating" where
  "add_digits [] b w = Some (Some b, w)"
| "add_digits (c # cs) b w = unless_null (multadd b 10 (c - 48) w) id (add_digits cs)"

definition s2b :: "int list \<Rightarrow> nat \<Rightarrow> nat \<Rightarrow> u32 \<Rightarrow> Dtoa \<Rightarrow> Bigint allocating" where
  "s2b s nd0 nd y9 w =
     (let places = (if 9 < nd0 then [9..<nd0] @ [nd0 + 1..<nd + 1] else [10..<nd + 1]) in
      if \<exists>i \<in> set places. length s \<le> i then None
      else
        do { k \<leftarrow> grow ((nd + 8) div 9) 1 0;
             unless_null (Balloc k w) id (\<lambda>b w.
               do { xs \<leftarrow> put_words 0 [y9] (words b); add_digits (map (\<lambda>i. s ! i) places) (b\<lparr>words := xs, wds := 1\<rparr>) w }) })"

text \<open>The words from the most significant one down.\<close>

fun cmp_words :: "u32 list \<Rightarrow> u32 list \<Rightarrow> int" where
  "cmp_words (x # xs) (y # ys) = (if x \<noteq> y then (if x < y then -1 else 1) else cmp_words xs ys)"
| "cmp_words _ _ = 0"

definition cmp :: "Bigint \<Rightarrow> Bigint \<Rightarrow> int option" where
  "cmp a b =
     (let i = int (wds a) - int (wds b) in
      if i \<noteq> 0 then Some i
      else if wds a = 0 \<or> length (words a) < wds a \<or> length (words b) < wds b then None
      else Some (cmp_words (rev (take (wds a) (words a))) (rev (take (wds b) (words b)))))"

fun sub_words :: "u32 list \<Rightarrow> u32 list \<Rightarrow> u64 \<Rightarrow> u32 list" where
  "sub_words (x # xs) (y # ys) borrow =
     (let t = ucast x - ucast y - borrow in low32 t # sub_words xs ys (drop_bit 32 t AND 1))"
| "sub_words (x # xs) [] borrow = (let t = ucast x - borrow in low32 t # sub_words xs [] (drop_bit 32 t AND 1))"
| "sub_words [] ys borrow = []"

text \<open>\<open>while (!*--xc) wa--;\<close> over the words from the top; below the words there is nothing to read.\<close>

fun strip_zeros :: "u32 list \<Rightarrow> nat \<Rightarrow> nat option" where
  "strip_zeros [] wa = None"
| "strip_zeros (x # xs) wa = (if x = 0 then strip_zeros xs (wa - 1) else Some wa)"

definition diff :: "Bigint \<Rightarrow> Bigint \<Rightarrow> Dtoa \<Rightarrow> Bigint allocating" where
  "diff a b w =
     do { i \<leftarrow> cmp a b;
          if i = 0 then
            unless_null (Balloc 0 w) id (\<lambda>c w. do { xs \<leftarrow> put_words 0 [0] (words c); Some (Some (c\<lparr>wds := 1, words := xs\<rparr>), w) })
          else
            let (a, b) = (if i < 0 then (b, a) else (a, b)) in
            unless_null (Balloc (bk a) w) id (\<lambda>c w.
              if length (words a) < wds a \<or> length (words b) < max 1 (wds b) then None
              else
                let ys = sub_words (take (wds a) (words a)) (take (max 1 (wds b)) (words b)) 0 in
                do { xs \<leftarrow> put_words 0 ys (words c);
                     n \<leftarrow> strip_zeros (rev ys) (wds a);
                     Some (Some (c\<lparr>sign := i < 0, wds := n, words := xs\<rparr>), w) }) }"

subsection \<open>Quotients\<close>

text \<open>\<open>while (!*bxe && bxe != bx)\<close>: the words that count, up to the index given.\<close>

primrec trim :: "u32 list \<Rightarrow> nat \<Rightarrow> nat" where
  "trim xs 0 = 1"
| "trim xs (Suc n) = (if xs ! Suc n = 0 then trim xs n else Suc (Suc n))"

definition quorem2 :: "Bigint \<Rightarrow> nat \<Rightarrow> (u32 \<times> Bigint) option" where
  "quorem2 b k =
     (let n = k div 32; s = k mod 32; mask_s = push_bit s 1 - 1 in
      if wds b \<le> n then Some (0, b)
      else if length (words b) < wds b then None
      else
        let top = words b ! n;
            result = drop_bit s top;
            result = (if wds b - n = 2 \<and> s \<noteq> 0 then result OR push_bit (32 - s) (words b ! (n + 1)) else result);
            xs = (words b)[n := top AND mask_s]
        in Some (result, b\<lparr>words := xs, wds := trim xs n\<rparr>))"

text \<open>The loops of \<open>quorem\<close> subtract a multiple of the divisor; the second one is the first with multiplier 1.\<close>

fun sub_mul :: "u32 list \<Rightarrow> u32 list \<Rightarrow> u64 \<Rightarrow> u64 \<Rightarrow> u64 \<Rightarrow> u32 list" where
  "sub_mul (s # ss) (x # xs) q carry borrow =
     (let ys = ucast s * q + carry; y = ucast x - (ys AND 0xFFFFFFFF) - borrow in
      low32 y # sub_mul ss xs q (drop_bit 32 ys) (drop_bit 32 y AND 1))"
| "sub_mul _ xs q carry borrow = xs"

text \<open>\<open>while(--bxe > bx && !*bxe) --n;\<close>.\<close>

primrec drop_top :: "u32 list \<Rightarrow> nat \<Rightarrow> nat" where
  "drop_top xs 0 = 0"
| "drop_top xs (Suc n) = (if 0 < n \<and> xs ! n = 0 then drop_top xs n else Suc n)"

definition quorem_sub :: "Bigint \<Rightarrow> Bigint \<Rightarrow> nat \<Rightarrow> u32 \<Rightarrow> Bigint" where
  "quorem_sub b S n q =
     (let xs = sub_mul (take (n + 1) (words S)) (words b) (ucast q) 0 0
      in if xs ! n = 0 then b\<lparr>words := xs, wds := drop_top xs n\<rparr> else b\<lparr>words := xs\<rparr>)"

definition quorem :: "Bigint \<Rightarrow> Bigint \<Rightarrow> (u32 \<times> Bigint) option" where
  "quorem b S =
     (if wds b < wds S then Some (0, b)
      else if wds S = 0 \<or> length (words S) < wds S \<or> length (words b) < wds S then None
      else
        let n = wds S - 1; d = words S ! n + 1 in
        if d = 0 then None
        else
          let q = words b ! n div d;
              b = (if q \<noteq> 0 then quorem_sub b S n q else b)
          in do { c \<leftarrow> cmp b S;
                  if c \<ge> 0 then Some (q + 1, quorem_sub b S n 1) else Some (q, b) })"

text \<open>The loop of \<open>divrem\<close> from the top word down, each word in two halves.\<close>

fun div_words :: "u32 list \<Rightarrow> u32 \<Rightarrow> u32 \<Rightarrow> u32 list \<times> u32" where
  "div_words [] divisor remainder = ([], remainder)"
| "div_words (a # as) divisor remainder =
     (let dividend = push_bit 16 remainder OR drop_bit 16 a;
          quotientHi = dividend div divisor;
          remainder = dividend - quotientHi * divisor;
          dividend = push_bit 16 remainder OR (a AND 0xFFFF);
          quotientLo = dividend div divisor;
          remainder = dividend - quotientLo * divisor
      in case div_words as divisor remainder of (qs, remainder) \<Rightarrow> ((push_bit 16 quotientHi OR quotientLo) # qs, remainder))"

definition divrem :: "Bigint \<Rightarrow> u32 \<Rightarrow> (u32 \<times> Bigint) option" where
  "divrem b divisor =
     (let n = wds b in
      if n = 0 then Some (0, b)
      else if length (words b) < n \<or> divisor = 0 then None
      else
        case div_words (rev (take n (words b))) divisor 0 of
          (qs, remainder) \<Rightarrow>
            Some (remainder, b\<lparr>words := rev qs @ drop n (words b), wds := (if hd qs = 0 then n - 1 else n)\<rparr>))"

subsection \<open>Doubles\<close>

text \<open>The significand and exponent of a double from its words, its sign ignored: its value is \<open>mant * 2 ^ expo\<close>.\<close>

definition biased :: "u32 \<Rightarrow> nat" where
  "biased d0 = unat d0 div 2 ^ 20 mod 2 ^ 11"

definition mant :: "u32 \<Rightarrow> u32 \<Rightarrow> nat" where
  "mant d0 d1 = ((if biased d0 = 0 then 0 else 2 ^ 20) + unat d0 mod 2 ^ 20) * 2 ^ 32 + unat d1"

definition expo :: "u32 \<Rightarrow> int" where
  "expo d0 = (if biased d0 = 0 then -1074 else int (biased d0) - 1075)"

text \<open>A double is its high and low word.  The results are the number, its exponent and its bits.\<close>

definition d2b :: "u32 \<Rightarrow> u32 \<Rightarrow> Dtoa \<Rightarrow> (Bigint \<times> int \<times> int) allocating" where
  "d2b d0 d1 w =
     unless_null (Balloc 1 w) id (\<lambda>b w.
       let z = d0 AND 0xFFFFF;
           de = drop_bit 20 (d0 AND 0x7FFFFFFF);
           z = (if de \<noteq> 0 then z OR 0x100000 else z);
           (ws, k) =
             (if d1 \<noteq> 0 then
                (case lo0bits d1 of
                   (k, y) \<Rightarrow> if k \<noteq> 0 then ([y OR push_bit (32 - k) z, drop_bit k z], k) else ([y, z], k))
              else case lo0bits z of (k, z) \<Rightarrow> ([z], k + 32));
           i = (if length ws = 2 \<and> ws ! 1 \<noteq> 0 then 2 else 1)
       in do { xs \<leftarrow> put_words 0 ws (words b);
               Some (Some (b\<lparr>words := xs, wds := i\<rparr>,
                 if de \<noteq> 0 then (uint de - 1023 - 52 + int k, 53 - int k)
                 else (uint de - 1023 - 52 + 1 + int k, 32 * int i - int (hi0bits (xs ! (i - 1))))), w) })"

end
