(* ===== verification/Bignum_Words.thy ===== *)
theory Bignum_Words
  imports Bignum
begin

text \<open>
  What the loops of \<open>js/src/jsdtoa.c\<close> over the words of a number compute: each keeps an equation between the numbers
  that the words written and read denote, with the carry or borrow that is left.
\<close>

definition nat_of :: "u32 list \<Rightarrow> nat" where
  "nat_of xs = horner_sum unat (2 ^ 32) xs"

lemma nat_of_Nil [simp]: "nat_of [] = 0"
  by (simp add: nat_of_def)

lemma nat_of_Cons [simp]: "nat_of (x # xs) = unat x + 2 ^ 32 * nat_of xs"
  by (simp add: nat_of_def)

lemma nat_of_append: "nat_of (xs @ ys) = nat_of xs + 2 ^ (32 * length xs) * nat_of ys"
  by (induction xs) (simp_all add: power_add algebra_simps)

lemma nat_of_replicate [simp]: "nat_of (replicate n 0) = 0"
  by (induction n) simp_all

lemma u32_bound: "unat (x :: u32) < 2 ^ 32"
  using unsigned_less [of x, where ?'a = nat] by simp

lemma nat_of_less: "nat_of xs < 2 ^ (32 * length xs)"
proof (induction xs)
  case (Cons x xs)
  have "nat_of (x # xs) < 2 ^ 32 * (nat_of xs + 1)" using u32_bound [of x] by simp
  also have "\<dots> \<le> 2 ^ 32 * 2 ^ (32 * length xs)" using Cons by (intro mult_left_mono) simp_all
  finally show ?case by (simp add: power_add)
qed simp

lemma nat_of_zero_iff: "nat_of xs = 0 \<longleftrightarrow> (\<forall>x \<in> set xs. x = 0)"
  by (induction xs) (auto simp: unat_eq_0)

lemma nat_of_snoc: "nat_of (xs @ [x]) = nat_of xs + 2 ^ (32 * length xs) * unat x"
  by (simp add: nat_of_append)

lemma nat_of_top: "xs \<noteq> [] \<Longrightarrow> last xs \<noteq> 0 \<Longrightarrow> 2 ^ (32 * (length xs - 1)) \<le> nat_of xs"
proof -
  assume a: "xs \<noteq> []" "last xs \<noteq> 0"
  have "nat_of (butlast xs @ [last xs]) = nat_of (butlast xs) + 2 ^ (32 * (length xs - 1)) * unat (last xs)"
    by (simp add: nat_of_snoc)
  moreover have "1 \<le> unat (last xs)" using a(2) by (simp add: Suc_le_eq unat_gt_0)
  then have "2 ^ (32 * (length xs - 1)) * 1 \<le> 2 ^ (32 * (length xs - 1)) * unat (last xs)" by (rule mult_left_mono) simp
  ultimately show ?thesis using a(1) by (metis append_butlast_last_id mult_1_right trans_le_add2)
qed

subsection \<open>Double words\<close>

lemma unat_low32: "unat (low32 y) = unat y mod 2 ^ 32"
proof -
  have "(0xFFFFFFFF :: u64) = mask 32" by (simp add: mask_eq_exp_minus_1)
  then have "unat (y AND 0xFFFFFFFF) = unat y mod 2 ^ 32" by (simp only: unat_and_mask)
  then show ?thesis by (simp add: low32_def unsigned_ucast_eq take_bit_nat_def)
qed

lemma unat_high32: "unat (drop_bit 32 (y :: u64)) = unat y div 2 ^ 32"
  by (rule unat_drop_bit)

lemma unat_down: "unat (y :: u64) < 2 ^ 32 \<Longrightarrow> unat (ucast y :: u32) = unat y"
  by (simp add: unsigned_ucast_eq take_bit_nat_eq_self)

lemma digit_split: "unat (low32 y) + 2 ^ 32 * unat (drop_bit 32 y) = unat y"
  by (simp add: unat_low32 unat_high32)

lemma mul_add_bound: "a < n \<Longrightarrow> b < n \<Longrightarrow> c < n \<Longrightarrow> d < n \<Longrightarrow> a * b + c + d < n * (n :: nat)"
proof -
  assume a: "a < n" "b < n" "c < n" "d < n"
  then have "a * b \<le> (n - 1) * (n - 1)" by (intro mult_mono) simp_all
  then have "a * b + c + d \<le> (n - 1) * (n - 1) + (n - 1) + (n - 1)" using a by simp
  also have "\<dots> < n * n" using a by (cases n) (simp_all add: algebra_simps)
  finally show ?thesis .
qed

lemma unat_mul_add:
  assumes "unat m < 2 ^ 32" "unat carry < 2 ^ 32"
  shows "unat (ucast (x :: u32) * m + ucast (c :: u32) + carry :: u64) = unat x * unat m + unat c + unat carry"
    and "unat (ucast x * m + carry) = unat x * unat m + unat carry"
    and "unat (drop_bit 32 (ucast x * m + ucast c + carry)) < 2 ^ 32" "unat (drop_bit 32 (ucast x * m + carry)) < 2 ^ 32"
proof -
  have b: "unat x * unat m + unat c + unat carry < 2 ^ 64"
    using mul_add_bound [OF u32_bound [of x] assms(1) u32_bound [of c] assms(2)] by simp
  then have x: "unat (ucast x * m) = unat x * unat m" by (subst unat_mult_small) (simp_all add: unat_ucast64)
  then have "unat (ucast x * m + ucast c) = unat x * unat m + unat c" using b by (subst unat_add_small) (simp_all add: unat_ucast64)
  then show e: "unat (ucast x * m + ucast c + carry) = unat x * unat m + unat c + unat carry"
    using b by (subst unat_add_small) simp_all
  show f: "unat (ucast x * m + carry) = unat x * unat m + unat carry" using b x by (subst unat_add_small) simp_all
  show "unat (drop_bit 32 (ucast x * m + ucast c + carry)) < 2 ^ 32" "unat (drop_bit 32 (ucast x * m + carry)) < 2 ^ 32"
    using b by (simp_all only: unat_high32 e f) (simp_all add: less_mult_imp_div_less)
qed

subsection \<open>Multiplication\<close>

lemma mul_words_value:
  assumes "mul_words xs m carry = (ys, carry')" "unat m < 2 ^ 32" "unat carry < 2 ^ 32"
  shows "length ys = length xs \<and> unat carry' < 2 ^ 32 \<and>
    nat_of ys + 2 ^ (32 * length xs) * unat carry' = nat_of xs * unat m + unat carry"
  using assms
proof (induction xs arbitrary: carry ys)
  case (Cons x xs)
  let ?y = "ucast x * m + carry :: u64"
  obtain zs where zs: "mul_words xs m (drop_bit 32 ?y) = (zs, carry')" "ys = low32 ?y # zs"
    using Cons.prems(1) by (auto simp: Let_def split: prod.splits)
  have IH: "length zs = length xs" "unat carry' < 2 ^ 32"
    "nat_of zs + 2 ^ (32 * length xs) * unat carry' = nat_of xs * unat m + unat (drop_bit 32 ?y)"
    using Cons.IH [OF zs(1) Cons.prems(2) unat_mul_add(4) [OF Cons.prems(2,3)]] by auto
  have "nat_of ys + 2 ^ (32 * length (x # xs)) * unat carry' =
      unat (low32 ?y) + 2 ^ 32 * (nat_of zs + 2 ^ (32 * length xs) * unat carry')"
    by (simp add: zs(2) power_add algebra_simps)
  also have "\<dots> = unat (low32 ?y) + 2 ^ 32 * unat (drop_bit 32 ?y) + 2 ^ 32 * (nat_of xs * unat m)"
    unfolding IH(3) by (simp add: algebra_simps)
  also have "\<dots> = nat_of (x # xs) * unat m + unat carry"
    by (simp only: digit_split unat_mul_add(2) [OF Cons.prems(2,3)]) (simp add: algebra_simps)
  finally show ?case using IH(1,2) zs(2) by simp
qed simp

lemma mul_row_value:
  assumes "mul_row xs cs m carry = (zs, carry')" "length xs \<le> length cs" "unat m < 2 ^ 32" "unat carry < 2 ^ 32"
  shows "length zs = length xs \<and> unat carry' < 2 ^ 32 \<and>
    nat_of zs + 2 ^ (32 * length xs) * unat carry' = nat_of xs * unat m + nat_of (take (length xs) cs) + unat carry"
  using assms
proof (induction xs arbitrary: carry cs zs)
  case (Cons x xs)
  obtain c ct where c: "cs = c # ct" "length xs \<le> length ct" using Cons.prems(2) by (cases cs) auto
  let ?y = "ucast x * m + ucast c + carry :: u64"
  obtain rs where rs: "mul_row xs ct m (drop_bit 32 ?y) = (rs, carry')" "zs = low32 ?y # rs"
    using Cons.prems(1) c by (auto simp: Let_def split: prod.splits)
  have IH: "length rs = length xs" "unat carry' < 2 ^ 32"
    "nat_of rs + 2 ^ (32 * length xs) * unat carry' = nat_of xs * unat m + nat_of (take (length xs) ct) + unat (drop_bit 32 ?y)"
    using Cons.IH [OF rs(1) c(2) Cons.prems(3) unat_mul_add(3) [OF Cons.prems(3,4)]] by auto
  have "nat_of zs + 2 ^ (32 * length (x # xs)) * unat carry' =
      unat (low32 ?y) + 2 ^ 32 * (nat_of rs + 2 ^ (32 * length xs) * unat carry')"
    by (simp add: rs(2) power_add algebra_simps)
  also have "\<dots> = unat (low32 ?y) + 2 ^ 32 * unat (drop_bit 32 ?y) + 2 ^ 32 * (nat_of xs * unat m + nat_of (take (length xs) ct))"
    unfolding IH(3) by (simp add: algebra_simps)
  also have "\<dots> = nat_of (x # xs) * unat m + nat_of (take (length (x # xs)) cs) + unat carry"
    by (simp only: digit_split unat_mul_add(1) [OF Cons.prems(3,4)]) (simp add: c algebra_simps)
  finally show ?case using IH(1,2) rs(2) by simp
qed simp

lemma mul_rows_value:
  assumes "xa \<noteq> []" "length us = length xa"
  shows "length (mul_rows xa ys (us @ replicate (length ys) 0)) = length xa + length ys \<and>
    nat_of (mul_rows xa ys (us @ replicate (length ys) 0)) = nat_of us + nat_of xa * nat_of ys"
  using assms(2)
proof (induction ys arbitrary: us)
  case (Cons y ys)
  have step: ?case if "length (v # vs) = length xa + 1" "nat_of (v # vs) = nat_of us + nat_of xa * unat y"
    "mul_rows xa (y # ys) (us @ replicate (length (y # ys)) 0) = v # mul_rows xa ys (vs @ replicate (length ys) 0)" for v vs
  proof -
    have "nat_of (v # mul_rows xa ys (vs @ replicate (length ys) 0)) = nat_of (v # vs) + 2 ^ 32 * (nat_of xa * nat_of ys)"
      using Cons.IH [of vs] that(1) by simp
    then show ?thesis unfolding that(2,3) using Cons.IH [of vs] that(1) by (simp add: algebra_simps)
  qed
  show ?case
  proof (cases "y = 0")
    case True
    obtain u ut where u: "us = u # ut" using Cons.prems assms(1) by (cases us) auto
    show ?thesis
      by (rule step [of u "ut @ [0]"]) (use True u Cons.prems in \<open>simp_all add: nat_of_append\<close>)
  next
    case False
    obtain zs carry where row: "mul_row xa (us @ replicate (length (y # ys)) 0) (ucast y) 0 = (zs, carry)" by (metis prod.exhaust)
    have r: "length zs = length xa" "unat carry < 2 ^ 32" "nat_of zs + 2 ^ (32 * length xa) * unat carry = nat_of xa * unat y + nat_of us"
      using mul_row_value [OF row] Cons.prems u32_bound [of y] by (simp_all add: unat_ucast64)
    obtain z zt where z: "zs = z # zt" using r(1) assms(1) by (cases zs) auto
    show ?thesis
    proof (rule step [of z "zt @ [ucast carry]"])
      show "length (z # zt @ [ucast carry]) = length xa + 1" using r(1) z by simp
      show "nat_of (z # zt @ [ucast carry]) = nat_of us + nat_of xa * unat y"
        using r z nat_of_snoc [of zs "ucast carry"] by (simp add: unat_down)
      show "mul_rows xa (y # ys) (us @ replicate (length (y # ys)) 0) = z # mul_rows xa ys ((zt @ [ucast carry]) @ replicate (length ys) 0)"
        using False row z Cons.prems by simp
    qed
  qed
qed simp

subsection \<open>Shifts\<close>

lemma shift_words_value:
  assumes "0 < k" "k < 32" "unat z < 2 ^ k"
  shows "length (shift_words xs k z) = length xs + 1 \<and> nat_of (shift_words xs k z) = nat_of xs * 2 ^ k + unat z"
  using assms(3)
proof (induction xs arbitrary: z)
  case (Cons x xs)
  have hi: "unat (drop_bit (32 - k) x) = unat x div 2 ^ (32 - k)" by (rule unat_drop_bit)
  have p: "(2 :: nat) ^ 32 = 2 ^ (32 - k) * 2 ^ k" using assms(2) by (simp flip: power_add)
  have small: "unat (drop_bit (32 - k) x) < 2 ^ k"
    unfolding hi using u32_bound [of x] by (intro less_mult_imp_div_less) (simp only: p mult.commute [of "2 ^ k"])
  have lo: "unat (push_bit k x OR z) = (unat x * 2 ^ k) mod 2 ^ 32 + unat z"
    using unat_glue [OF Cons.prems] assms(2) by simp
  have "nat_of (shift_words (x # xs) k z) = unat (push_bit k x OR z) + 2 ^ 32 * (nat_of xs * 2 ^ k + unat (drop_bit (32 - k) x))"
    using Cons.IH [OF small] by simp
  also have "\<dots> = nat_of (x # xs) * 2 ^ k + unat z"
  proof -
    have "(unat x * 2 ^ k) div 2 ^ 32 = unat x div 2 ^ (32 - k)" by (simp only: p) simp
    then have "unat x * 2 ^ k = (unat x * 2 ^ k) mod 2 ^ 32 + 2 ^ 32 * (unat x div 2 ^ (32 - k))"
      by (metis mod_mult_div_eq)
    then show ?thesis unfolding lo hi by (simp add: algebra_simps)
  qed
  finally show ?case using Cons.IH [OF small] by simp
qed simp

subsection \<open>Comparison and subtraction\<close>

lemma nat_of_snoc_less:
  assumes "length xs = length ys" "x < y"
  shows "nat_of (xs @ [x]) < nat_of (ys @ [y])"
proof -
  have "unat x + 1 \<le> unat y" using assms(2) by (simp add: word_less_nat_alt)
  then have "2 ^ (32 * length xs) * (unat x + 1) \<le> 2 ^ (32 * length ys) * unat y" unfolding assms(1) by (rule mult_left_mono) simp
  then show ?thesis using nat_of_less [of xs] by (simp add: nat_of_snoc algebra_simps)
qed

lemma cmp_words_value:
  "length xs = length ys \<Longrightarrow> cmp_words xs ys = sgn (int (nat_of (rev xs)) - int (nat_of (rev ys)))"
proof (induction xs ys rule: cmp_words.induct)
  case (1 x xs y ys)
  have l: "length (rev xs) = length (rev ys)" using 1 by simp
  consider "x = y" | "x < y" | "y < x" by force
  then show ?case
  proof cases
    case 1
    then show ?thesis using "1.IH" "1.prems" l by (simp add: nat_of_snoc)
  next
    case 2
    then show ?thesis using nat_of_snoc_less [OF l 2] by (auto simp: sgn_if)
  next
    case 3
    then show ?thesis using nat_of_snoc_less [OF l [symmetric] 3] by (auto simp: sgn_if)
  qed
qed auto

lemma borrow_digit:
  assumes "unat a < 2 ^ 32" "unat b + unat r \<le> 2 ^ 32"
  shows "unat (low32 (a - b - r)) + unat b + unat r = unat a + 2 ^ 32 * unat (drop_bit 32 (a - b - r) AND 1 :: u64)"
    and "unat (drop_bit 32 (a - b - r) AND 1 :: u64) \<le> 1"
proof -
  have d: "unat (a - b - r) = (unat a + (2 ^ 64 - (unat b + unat r))) mod 2 ^ 64"
  proof -
    have "a - b - r = word_of_nat (unat a + (2 ^ 64 - (unat b + unat r)))"
      using assms(2) by (simp add: of_nat_diff)
    then show ?thesis by (simp only: unsigned_of_nat take_bit_nat_def) simp
  qed
  have one: "unat (drop_bit 32 (a - b - r) AND 1 :: u64) = (unat (a - b - r) div 2 ^ 32) mod 2"
  proof -
    have "unat (v AND 1 :: u64) = unat v mod 2" for v :: u64
      using unat_and_mask [of v 1] by (simp add: mask_eq_exp_minus_1)
    then show ?thesis by (simp only: unat_drop_bit)
  qed
  show "unat (drop_bit 32 (a - b - r) AND 1 :: u64) \<le> 1" unfolding one by simp
  show "unat (low32 (a - b - r)) + unat b + unat r = unat a + 2 ^ 32 * unat (drop_bit 32 (a - b - r) AND 1 :: u64)"
  proof (cases "unat b + unat r \<le> unat a")
    case True
    then have v: "unat (a - b - r) = unat a - (unat b + unat r)" using assms unfolding d by (simp add: mod_if)
    then have "unat (a - b - r) < 2 ^ 32" using assms(1) by simp
    then show ?thesis using True v unfolding one unat_low32 by simp
  next
    case False
    then have v: "unat (a - b - r) = 2 ^ 64 - (unat b + unat r - unat a)"
      using assms unfolding d by (subst mod_less) simp_all
    define m where "m = unat b + unat r - unat a"
    have m: "0 < m" "m \<le> 2 ^ 32" using False assms unfolding m_def by simp_all
    have e: "unat (a - b - r) = 2 ^ 32 * (2 ^ 32 - 1) + (2 ^ 32 - m)" using v m unfolding m_def by simp
    have "(B * q + s) div B = q \<and> (B * q + s) mod B = s" if "s < B" for B q s :: nat using that by simp
    from this [of "2 ^ 32 - m" "2 ^ 32" "2 ^ 32 - 1"] m have "unat (a - b - r) div 2 ^ 32 = 2 ^ 32 - 1" "unat (a - b - r) mod 2 ^ 32 = 2 ^ 32 - m"
      unfolding e by simp_all
    then show ?thesis using False m unfolding one unat_low32 m_def by simp
  qed
qed

lemma sub_words_value:
  assumes "length ys \<le> length xs" "unat borrow \<le> 1"
  shows "length (sub_words xs ys borrow) = length xs \<and>
    (\<exists>t. nat_of (sub_words xs ys borrow) + nat_of ys + unat borrow = nat_of xs + 2 ^ (32 * length xs) * t)"
  using assms
proof (induction xs ys borrow rule: sub_words.induct)
  case (1 x xs y ys borrow)
  let ?t = "ucast x - ucast y - borrow :: u64"
  have b: "unat (ucast x :: u64) < 2 ^ 32" "unat (ucast y :: u64) + unat borrow \<le> 2 ^ 32"
    using u32_bound [of x] u32_bound [of y] "1.prems"(2) by (simp_all add: unat_ucast64)
  from "1.IH" [OF refl] "1.prems"(1) borrow_digit(2) [OF b] obtain t where
    t: "length (sub_words xs ys (drop_bit 32 ?t AND 1)) = length xs"
      "nat_of (sub_words xs ys (drop_bit 32 ?t AND 1)) + nat_of ys + unat (drop_bit 32 ?t AND 1) = nat_of xs + 2 ^ (32 * length xs) * t"
    by auto
  have "nat_of (sub_words (x # xs) (y # ys) borrow) + nat_of (y # ys) + unat borrow + 2 ^ 32 * unat (drop_bit 32 ?t AND 1) =
      (unat (low32 ?t) + unat y + unat borrow) + 2 ^ 32 * (nat_of xs + 2 ^ (32 * length xs) * t)"
    unfolding t(2) [symmetric] by (simp add: Let_def algebra_simps)
  then have "nat_of (sub_words (x # xs) (y # ys) borrow) + nat_of (y # ys) + unat borrow = nat_of (x # xs) + 2 ^ (32 * length (x # xs)) * t"
    using borrow_digit(1) [OF b] by (simp add: unat_ucast64 power_add algebra_simps)
  then show ?case using t(1) by (auto simp: Let_def)
next
  case (2 x xs borrow)
  let ?t = "ucast x - borrow :: u64"
  have b: "unat (ucast x :: u64) < 2 ^ 32" "unat (0 :: u64) + unat borrow \<le> 2 ^ 32"
    using u32_bound [of x] "2.prems"(2) by (simp_all add: unat_ucast64)
  from "2.IH" [OF refl] borrow_digit(2) [OF b] obtain t where
    t: "length (sub_words xs [] (drop_bit 32 ?t AND 1)) = length xs"
      "nat_of (sub_words xs [] (drop_bit 32 ?t AND 1)) + unat (drop_bit 32 ?t AND 1) = nat_of xs + 2 ^ (32 * length xs) * t"
    by auto
  have "nat_of (sub_words (x # xs) [] borrow) + unat borrow + 2 ^ 32 * unat (drop_bit 32 ?t AND 1) =
      (unat (low32 ?t) + unat borrow) + 2 ^ 32 * (nat_of xs + 2 ^ (32 * length xs) * t)"
    unfolding t(2) [symmetric] by (simp add: Let_def algebra_simps)
  then have "nat_of (sub_words (x # xs) [] borrow) + unat borrow = nat_of (x # xs) + 2 ^ (32 * length (x # xs)) * t"
    using borrow_digit(1) [OF b] by (simp add: unat_ucast64 power_add algebra_simps)
  then show ?case using t(1) by (auto simp: Let_def)
next
  case (3 ys borrow)
  then show ?case by (auto intro: exI [of _ "unat borrow"])
qed

lemma sub_mul_value:
  assumes "length ss \<le> length xs" "unat q < 2 ^ 32" "unat carry < 2 ^ 32" "unat borrow \<le> 1"
  shows "length (sub_mul ss xs q carry borrow) = length xs \<and> drop (length ss) (sub_mul ss xs q carry borrow) = drop (length ss) xs \<and>
    (\<exists>t. nat_of (take (length ss) (sub_mul ss xs q carry borrow)) + nat_of ss * unat q + unat carry + unat borrow =
       nat_of (take (length ss) xs) + 2 ^ (32 * length ss) * t)"
  using assms
proof (induction ss arbitrary: xs carry borrow)
  case Nil
  then show ?case by (auto intro: exI [of _ "unat carry + unat borrow"])
next
  case (Cons s ss)
  obtain x xt where x: "xs = x # xt" "length ss \<le> length xt" using Cons.prems(1) by (cases xs) auto
  let ?ys = "ucast s * q + carry :: u64"
  let ?y = "ucast x - (?ys AND 0xFFFFFFFF) - borrow :: u64"
  have lo: "unat (?ys AND 0xFFFFFFFF) = unat ?ys mod 2 ^ 32"
  proof -
    have "(0xFFFFFFFF :: u64) = mask 32" by (simp add: mask_eq_exp_minus_1)
    then show ?thesis by (simp only: unat_and_mask)
  qed
  have b: "unat (ucast x :: u64) < 2 ^ 32" "unat (?ys AND 0xFFFFFFFF) + unat borrow \<le> 2 ^ 32"
    using u32_bound [of x] Cons.prems(4) unfolding lo by (simp_all add: unat_ucast64 Suc_le_eq add_le_mono [where j = "2 ^ 32 - 1" and l = 1, simplified] )
  let ?r = "sub_mul ss xt q (drop_bit 32 ?ys) (drop_bit 32 ?y AND 1)"
  from Cons.IH [OF x(2) Cons.prems(2) unat_mul_add(4) [OF Cons.prems(2,3)] borrow_digit(2) [OF b]] obtain t where
    t: "length ?r = length xt" "drop (length ss) ?r = drop (length ss) xt"
      "nat_of (take (length ss) ?r) + nat_of ss * unat q + unat (drop_bit 32 ?ys) + unat (drop_bit 32 ?y AND 1) =
        nat_of (take (length ss) xt) + 2 ^ (32 * length ss) * t"
    by auto
  have e: "unat (low32 ?y) + unat ?ys mod 2 ^ 32 + unat borrow = unat x + 2 ^ 32 * unat (drop_bit 32 ?y AND 1)"
    using borrow_digit(1) [OF b] unfolding lo by (simp add: unat_ucast64)
  have ys: "unat ?ys mod 2 ^ 32 + 2 ^ 32 * unat (drop_bit 32 ?ys) = unat s * unat q + unat carry"
    unfolding unat_high32 unat_mul_add(2) [OF Cons.prems(2,3)] by simp
  have "nat_of (take (length ss) ?r) * 2 ^ 32 + nat_of ss * unat q * 2 ^ 32 + unat (drop_bit 32 ?ys) * 2 ^ 32 + unat (drop_bit 32 ?y AND 1) * 2 ^ 32 =
      nat_of (take (length ss) xt) * 2 ^ 32 + 2 ^ (32 * length (s # ss)) * t"
    using arg_cong [OF t(3), of "\<lambda>n. n * 2 ^ 32"] by (simp add: power_add algebra_simps)
  with e ys have "nat_of (take (length (s # ss)) (low32 ?y # ?r)) + nat_of (s # ss) * unat q + unat carry + unat borrow =
      nat_of (take (length (s # ss)) xs) + 2 ^ (32 * length (s # ss)) * t"
    unfolding x(1) by (simp add: algebra_simps)
  then show ?case using t(1,2) x by (auto simp: Let_def)
qed

subsection \<open>Division by a small number\<close>

lemma div_half:
  assumes "unat r < unat d" "unat d \<le> 2 ^ 16" "unat h < 2 ^ 16"
  shows "unat ((push_bit 16 r OR h) div d) * unat d + unat ((push_bit 16 r OR h) - (push_bit 16 r OR h) div d * d) = unat r * 2 ^ 16 + unat h"
    and "unat ((push_bit 16 r OR h) - (push_bit 16 r OR h) div d * d :: u32) < unat d"
    and "unat ((push_bit 16 r OR h) div d) < 2 ^ 16"
proof -
  let ?n = "push_bit 16 r OR h"
  have v: "unat ?n = unat r * 2 ^ 16 + unat h"
    unfolding unat_glue [OF assms(3), of r, simplified] using assms by simp
  have e: "?n - ?n div d * d = ?n mod d" by (simp add: minus_div_mult_eq_mod)
  show "unat (?n div d) * unat d + unat (?n - ?n div d * d) = unat r * 2 ^ 16 + unat h"
    unfolding e unat_div unat_mod v by simp
  show "unat (?n - ?n div d * d) < unat d" unfolding e unat_mod using assms(1) by simp
  have "unat r * 2 ^ 16 + unat h < (unat r + 1) * 2 ^ 16" using assms(3) by simp
  also have "\<dots> \<le> unat d * 2 ^ 16" using assms(1) by (intro mult_right_mono) simp_all
  finally show "unat (?n div d) < 2 ^ 16" unfolding unat_div v by (intro less_mult_imp_div_less) (simp add: mult.commute)
qed

lemma div_words_value:
  assumes "div_words as d r = (qs, r')" "unat r < unat d" "unat d \<le> 2 ^ 16"
  shows "length qs = length as \<and> unat r' < unat d \<and>
    nat_of (rev qs) * unat d + unat r' = unat r * 2 ^ (32 * length as) + nat_of (rev as)"
  using assms(1,2)
proof (induction as arbitrary: r qs)
  case (Cons a as)
  let ?hi = "drop_bit 16 a" and ?lo = "a AND 0xFFFF"
  have half: "unat ?hi < 2 ^ 16" "unat ?lo < 2 ^ 16" "unat ?hi * 2 ^ 16 + unat ?lo = unat a"
  proof -
    have "(0xFFFF :: u32) = mask 16" by (simp add: mask_eq_exp_minus_1)
    then have lo: "unat ?lo = unat a mod 2 ^ 16" by (simp only: unat_and_mask)
    show "unat ?lo < 2 ^ 16" "unat ?hi < 2 ^ 16" "unat ?hi * 2 ^ 16 + unat ?lo = unat a"
      unfolding lo using u32_bound [of a] by (simp_all add: unat_drop_bit less_mult_imp_div_less)
  qed
  let ?r1 = "(push_bit 16 r OR ?hi) - (push_bit 16 r OR ?hi) div d * d"
  let ?r2 = "(push_bit 16 ?r1 OR ?lo) - (push_bit 16 ?r1 OR ?lo) div d * d"
  let ?q1 = "(push_bit 16 r OR ?hi) div d" and ?q2 = "(push_bit 16 ?r1 OR ?lo) div d"
  note h1 = div_half [OF Cons.prems(2) assms(3) half(1)]
  note h2 = div_half [OF h1(2) assms(3) half(2)]
  obtain rs where rs: "div_words as d ?r2 = (rs, r')" "qs = (push_bit 16 ?q1 OR ?q2) # rs"
    using Cons.prems(1) by (auto simp: Let_def split: prod.splits)
  have IH: "length rs = length as" "unat r' < unat d"
    "nat_of (rev rs) * unat d + unat r' = unat ?r2 * 2 ^ (32 * length as) + nat_of (rev as)"
    using Cons.IH [OF rs(1) h2(2)] by auto
  have q: "unat (push_bit 16 ?q1 OR ?q2) = unat ?q1 * 2 ^ 16 + unat ?q2"
    using unat_glue [OF h2(3), of ?q1] h1(3) by simp
  have two: "(unat ?q1 * 2 ^ 16 + unat ?q2) * unat d + unat ?r2 = unat r * 2 ^ 32 + unat a"
  proof -
    have "(unat ?q1 * 2 ^ 16 + unat ?q2) * unat d + unat ?r2 = unat ?q1 * unat d * 2 ^ 16 + (unat ?q2 * unat d + unat ?r2)"
      by (simp add: algebra_simps)
    also have "\<dots> = (unat ?q1 * unat d + unat ?r1) * 2 ^ 16 + unat ?lo" unfolding h2(1) by (simp add: algebra_simps)
    also have "\<dots> = unat r * 2 ^ 32 + unat a" unfolding h1(1) half(3) [symmetric] by (simp add: algebra_simps)
    finally show ?thesis .
  qed
  define Q where "Q = unat ?q1 * 2 ^ 16 + unat ?q2"
  have "nat_of (rev qs) = nat_of (rev rs) + 2 ^ (32 * length as) * Q"
    unfolding rs(2) rev.simps nat_of_snoc length_rev IH(1) q Q_def ..
  then have "nat_of (rev qs) * unat d + unat r' = Q * unat d * 2 ^ (32 * length as) + (nat_of (rev rs) * unat d + unat r')"
    by (simp add: algebra_simps)
  also have "\<dots> = (Q * unat d + unat ?r2) * 2 ^ (32 * length as) + nat_of (rev as)"
    unfolding IH(3) by (simp only: distrib_right add.assoc)
  also have "\<dots> = unat r * 2 ^ (32 * length (a # as)) + nat_of (rev (a # as))"
    unfolding two [folded Q_def] by (simp add: nat_of_snoc power_add algebra_simps)
  finally show ?case using IH(1,2) rs(2) by simp
qed simp

subsection \<open>The words that count\<close>

lemma nat_of_zeros_above: "\<forall>x \<in> set ys. x = 0 \<Longrightarrow> nat_of (xs @ ys) = nat_of xs"
  using nat_of_zero_iff [of ys] by (simp add: nat_of_append)

lemma strip_zeros_value:
  assumes "\<exists>x \<in> set xs. x \<noteq> 0"
  shows "\<exists>n. strip_zeros (rev xs) (length xs) = Some n \<and> 0 < n \<and> n \<le> length xs \<and> nat_of (take n xs) = nat_of xs \<and> xs ! (n - 1) \<noteq> 0"
  using assms
proof (induction xs rule: rev_induct)
  case (snoc x xs)
  show ?case
  proof (cases "x = 0")
    case True
    then obtain n where n: "strip_zeros (rev xs) (length xs) = Some n" "0 < n" "n \<le> length xs" "nat_of (take n xs) = nat_of xs" "xs ! (n - 1) \<noteq> 0"
      using snoc by auto
    then show ?thesis using True by (auto simp: nat_of_snoc nth_append intro!: exI [of _ n])
  qed (auto simp: nth_append)
qed simp

lemma drop_zeros_value:
  fixes xs :: "u32 list"
  defines "n \<equiv> length (dropWhile (\<lambda>z. z = 0) (rev xs))"
  shows "n \<le> length xs \<and> nat_of (take n xs) = nat_of xs \<and> (0 < n \<longrightarrow> xs ! (n - 1) \<noteq> 0)"
  unfolding n_def
proof (induction xs rule: rev_induct)
  case (snoc x xs)
  define n where "n = length (dropWhile (\<lambda>z. z = 0) (rev xs))"
  have "n \<le> length xs" "nat_of (take n xs) = nat_of xs" "0 < n \<longrightarrow> xs ! (n - 1) \<noteq> 0" "0 < n \<longrightarrow> n - 1 < length xs"
    using snoc unfolding n_def [symmetric] by auto
  then show ?case by (cases "x = 0") (simp_all add: nat_of_snoc nth_append n_def [symmetric])
qed simp

lemma trim_value:
  "n < length xs \<Longrightarrow> 0 < trim xs n \<and> trim xs n \<le> n + 1 \<and> nat_of (take (trim xs n) xs) = nat_of (take (n + 1) xs) \<and>
    (1 < trim xs n \<longrightarrow> xs ! (trim xs n - 1) \<noteq> 0)"
proof (induction n)
  case (Suc n)
  have "take (Suc n + 1) xs = take (n + 1) xs @ [xs ! Suc n]" using Suc.prems by (simp add: take_Suc_conv_app_nth [of "Suc n"])
  then have "nat_of (take (Suc n + 1) xs) = nat_of (take (n + 1) xs)" if "xs ! Suc n = 0" using that by (simp only: nat_of_snoc) simp
  then show ?case using Suc by (auto simp del: take_Suc_conv_app_nth)
qed simp

lemma drop_top_value:
  "n \<le> length xs \<Longrightarrow> drop_top xs n \<le> n \<and> nat_of (take (drop_top xs n) xs) = nat_of (take n xs) \<and>
    (1 < drop_top xs n \<longrightarrow> xs ! (drop_top xs n - 1) \<noteq> 0) \<and> (0 < n \<longrightarrow> 0 < drop_top xs n)"
  by (induction n) (auto simp: take_Suc_conv_app_nth nat_of_snoc)

end
