(* ===== verification/Bignum_Correct.thy ===== *)
theory Bignum_Correct
  imports Bignum_Words
begin

text \<open>
  The operations of \<open>js/src/jsdtoa.c\<close> on numbers compute the natural numbers they mean to.  A number is \<open>normal\<close> when its
  allocation is what \<open>Balloc\<close> makes and its top word is not zero unless it is the only one; \<open>dtoa_ok\<close> holds of the free
  lists and the cached powers of 5.  No operation leaves an allocation, none fails unless \<open>malloc\<close> does, and \<open>sized\<close>
  bounds the allocations by the values: with \<open>m \<le> 28\<close> values below \<open>2 ^ (32 * 2 ^ m)\<close> are in allocations of at most
  \<open>2 ^ (m + 1)\<close> words.
\<close>

definition bval :: "Bigint \<Rightarrow> nat" where
  "bval b = nat_of (take (wds b) (words b))"

definition shape :: "Bigint \<Rightarrow> bool" where
  "shape b \<longleftrightarrow> bk b < 31 \<and> maxwds b = 2 ^ bk b \<and> length (words b) = 2 ^ bk b \<and> wds b \<le> 2 ^ bk b"

definition normal :: "Bigint \<Rightarrow> bool" where
  "normal b \<longleftrightarrow> shape b \<and> 0 < wds b \<and> (1 < wds b \<longrightarrow> words b ! (wds b - 1) \<noteq> 0)"

definition sized :: "nat \<Rightarrow> Bigint \<Rightarrow> bool" where
  "sized m b \<longleftrightarrow> normal b \<and> bk b \<le> m + 1"

definition dtoa_ok :: "Dtoa \<Rightarrow> bool" where
  "dtoa_ok w \<longleftrightarrow> (\<forall>k. \<forall>v \<in> set (freelist w k). shape v \<and> bk v = k) \<and>
     (\<forall>i < length (p5s w). normal (p5s w ! i) \<and> bval (p5s w ! i) = 5 ^ (4 * 2 ^ i) \<and>
        (bk (p5s w ! i) \<le> 1 \<or> 2 ^ (bk (p5s w ! i) - 1) \<le> wds (p5s w ! i)))"

text \<open>A call of an allocating operation: it has a result, which is null only if some allocation fails.\<close>

definition gives :: "Dtoa \<Rightarrow> 'a allocating \<Rightarrow> ('a \<Rightarrow> Dtoa \<Rightarrow> bool) \<Rightarrow> bool" where
  "gives w r P =
     (case r of
        None \<Rightarrow> False
      | Some (p, w') \<Rightarrow> dtoa_ok w' \<and> malloc_ok w' = malloc_ok w \<and>
          (case p of None \<Rightarrow> \<exists>i. \<not> malloc_ok w i | Some b \<Rightarrow> P b w'))"

lemma gives_Some [simp]: "gives w (Some (Some b, w')) P \<longleftrightarrow> dtoa_ok w' \<and> malloc_ok w' = malloc_ok w \<and> P b w'"
  by (simp add: gives_def)

lemma gives_mono: "gives w r P \<Longrightarrow> (\<And>b w'. dtoa_ok w' \<Longrightarrow> malloc_ok w' = malloc_ok w \<Longrightarrow> P b w' \<Longrightarrow> Q b w') \<Longrightarrow> gives w r Q"
  by (auto simp: gives_def split: option.splits)

lemma gives_state: "gives w r P \<Longrightarrow> malloc_ok w = malloc_ok v \<Longrightarrow> gives v r P"
  by (auto simp: gives_def split: option.splits)

lemma unless_null_gives:
  assumes "gives w r P" "\<And>b w'. dtoa_ok w' \<Longrightarrow> malloc_ok w' = malloc_ok w \<Longrightarrow> P b w' \<Longrightarrow> gives w (f b w') Q"
    and "\<And>w'. dtoa_ok w' \<Longrightarrow> dtoa_ok (cleanup w') \<and> malloc_ok (cleanup w') = malloc_ok w'"
  shows "gives w (unless_null r cleanup f) Q"
proof -
  obtain p w' where r: "r = Some (p, w')" using assms(1) by (auto simp: gives_def split: option.splits)
  show ?thesis
  proof (cases p)
    case None
    then show ?thesis using assms(1,3) r by (simp add: gives_def unless_null_def)
  next
    case (Some b)
    then show ?thesis using assms(1) assms(2) [of w' b] r by (simp add: unless_null_def)
  qed
qed

lemma unless_null_gives_pair:
  assumes "gives w r P" "\<And>a b w'. dtoa_ok w' \<Longrightarrow> malloc_ok w' = malloc_ok w \<Longrightarrow> P (a, b) w' \<Longrightarrow> gives w (f a b w') Q"
    and "\<And>w'. dtoa_ok w' \<Longrightarrow> dtoa_ok (cleanup w') \<and> malloc_ok (cleanup w') = malloc_ok w'"
  shows "gives w (unless_null r cleanup (\<lambda>(a, b). f a b)) Q"
  by (rule unless_null_gives [OF assms(1)]) (use assms(2,3) in auto)

lemma unless_null_gives_triple:
  assumes "gives w r P" "\<And>a b c w'. dtoa_ok w' \<Longrightarrow> malloc_ok w' = malloc_ok w \<Longrightarrow> P (a, b, c) w' \<Longrightarrow> gives w (f a b c w') Q"
    and "\<And>w'. dtoa_ok w' \<Longrightarrow> dtoa_ok (cleanup w') \<and> malloc_ok (cleanup w') = malloc_ok w'"
  shows "gives w (unless_null r cleanup (\<lambda>(a, b, c). f a b c)) Q"
  by (rule unless_null_gives [OF assms(1)]) (use assms(2,3) in auto)

subsection \<open>Words that count\<close>

lemma bval_less: "bval b < 2 ^ (32 * wds b)"
proof -
  have "bval b < 2 ^ (32 * length (take (wds b) (words b)))" unfolding bval_def by (rule nat_of_less)
  also have "\<dots> \<le> 2 ^ (32 * wds b)" by (intro power_increasing) simp_all
  finally show ?thesis .
qed

lemma top_word:
  assumes "shape b" "0 < wds b"
  shows "words b ! (wds b - 1) \<noteq> 0 \<longleftrightarrow> 2 ^ (32 * (wds b - 1)) \<le> bval b"
proof -
  let ?n = "wds b - 1"
  have n: "?n < length (words b)" "wds b = Suc ?n" using assms by (auto simp: shape_def)
  then have "take (wds b) (words b) = take ?n (words b) @ [words b ! ?n]" by (metis take_Suc_conv_app_nth)
  then have v: "bval b = nat_of (take ?n (words b)) + 2 ^ (32 * ?n) * unat (words b ! ?n)"
    using n(1) unfolding bval_def by (simp add: nat_of_snoc)
  have "nat_of (take ?n (words b)) < 2 ^ (32 * ?n)" using nat_of_less [of "take ?n (words b)"] n(1) by simp
  moreover have "(1 :: nat) \<le> u \<Longrightarrow> (2 :: nat) ^ (32 * ?n) \<le> 2 ^ (32 * ?n) * u" for u by simp
  ultimately show ?thesis unfolding v by (cases "words b ! ?n = 0") (auto simp: unat_gt_0 Suc_le_eq intro: trans_le_add2)
qed

lemma normalI: "shape b \<Longrightarrow> 0 < wds b \<Longrightarrow> (1 < wds b \<Longrightarrow> 2 ^ (32 * (wds b - 1)) \<le> bval b) \<Longrightarrow> normal b"
  using top_word by (simp add: normal_def)

lemma normalD: "normal b \<Longrightarrow> shape b" "normal b \<Longrightarrow> 0 < wds b" "normal b \<Longrightarrow> 1 < wds b \<Longrightarrow> 2 ^ (32 * (wds b - 1)) \<le> bval b"
  using top_word by (auto simp: normal_def)

lemma sizedD: "sized m b \<Longrightarrow> normal b" "sized m b \<Longrightarrow> bk b \<le> m + 1" "sized m b \<Longrightarrow> shape b"
  by (auto simp: sized_def normal_def)

lemma wds_le:
  assumes "normal b" "bval b < 2 ^ (32 * 2 ^ m)" shows "wds b \<le> 2 ^ m"
proof (cases "1 < wds b")
  case True
  have "(2 :: nat) ^ (32 * (wds b - 1)) < 2 ^ (32 * 2 ^ m)" using normalD(3) [OF assms(1) True] assms(2) by (rule le_less_trans)
  then have "wds b - 1 < 2 ^ m" by (simp add: power_strict_increasing_iff)
  then show ?thesis by simp
next
  case False
  have "(1 :: nat) \<le> 2 ^ m" by simp
  then show ?thesis using False by linarith
qed

lemma pow2_le: "(2 :: nat) ^ a \<le> c \<Longrightarrow> c \<le> 2 ^ b \<Longrightarrow> a \<le> b"
  by (metis le_trans numeral_One one_less_numeral_iff power_increasing_iff semiring_norm(76))

lemma bval_pos: "normal b \<Longrightarrow> 1 < wds b \<Longrightarrow> 0 < bval b"
  using normalD(3) [of b] by (metis less_le_trans zero_less_numeral zero_less_power)

text \<open>A result: the words \<open>ys\<close> written into an allocation, of which \<open>n\<close> count.\<close>

lemma put_front: "length ys \<le> length xs \<Longrightarrow> put_words 0 ys xs = Some (ys @ drop (length ys) xs)"
  by (simp add: put_words_def)

lemma put_at: "wds b < length (words b) \<Longrightarrow>
    put_words (wds b) [y] (words b) = Some (take (wds b) (words b) @ y # drop (Suc (wds b)) (words b))"
  by (simp add: put_words_def)

lemma written:
  assumes "shape c" "length ys \<le> 2 ^ bk c" "n \<le> length ys"
    and "words c' = ys @ drop (length ys) (words c)" "wds c' = n" "bk c' = bk c" "maxwds c' = maxwds c"
  shows "shape c'" "bval c' = nat_of (take n ys)"
  using assms by (simp_all add: shape_def bval_def)

subsection \<open>Allocation\<close>

lemma Balloc_gives:
  assumes "dtoa_ok w" "k < 31"
  shows "gives w (Balloc k w) (\<lambda>b w'. shape b \<and> bk b = k \<and> wds b = 0 \<and> \<not> sign b \<and> p5s w' = p5s w)"
proof (cases "if k \<le> Kmax then freelist w k else []")
  case (Cons v rest)
  then have "freelist w k = v # rest" "k \<le> Kmax" by (auto split: if_splits)
  moreover from this have "\<forall>x \<in> set (v # rest). shape x \<and> bk x = k" using assms(1) unfolding dtoa_ok_def by metis
  ultimately show ?thesis using assms Cons by (auto simp: Balloc_def dtoa_ok_def shape_def)
next
  case Nil
  then show ?thesis using assms by (auto simp: Balloc_def gives_def dtoa_ok_def shape_def Let_def)
qed

lemma Bfree_ok:
  "dtoa_ok w \<Longrightarrow> shape v \<Longrightarrow> dtoa_ok (Bfree (Some v) w)"
  by (auto simp: Bfree_def dtoa_ok_def)

lemma Bfree_keeps [simp]: "malloc_ok (Bfree p w) = malloc_ok w" "p5s (Bfree p w) = p5s w"
  by (auto simp: Bfree_def split: option.splits)

lemma Bfree_None [simp]: "Bfree None w = w"
  by (simp add: Bfree_def)

subsection \<open>Small operands\<close>

lemma push_word_value:
  assumes "shape b" "wds b < 2 ^ bk b" "unat carry < 2 ^ 32"
  shows "\<exists>c. push_word b carry = Some c \<and> shape c \<and> bk c = bk b \<and> wds c = wds b + 1 \<and> sign c = sign b \<and>
    bval c = bval b + 2 ^ (32 * wds b) * unat carry"
  using assms by (simp add: push_word_def put_at shape_def bval_def nat_of_append unat_down)

lemma multadd_gives:
  assumes w: "dtoa_ok w" and b: "sized m b" "m \<le> 28" and p: "0 < p" "p < 2 ^ 32" and a: "0 \<le> a" "a < 2 ^ 32"
    and bound: "bval b * nat p + nat a < 2 ^ (32 * 2 ^ m)"
  shows "gives w (multadd b p a w) (\<lambda>c w'. sized m c \<and> sign c = sign b \<and> bval c = bval b * nat p + nat a \<and> p5s w' = p5s w)"
proof -
  have sh: "shape b" "0 < wds b" "wds b \<le> 2 ^ bk b" "length (words b) = 2 ^ bk b" "maxwds b = 2 ^ bk b" "bk b \<le> m + 1"
    using b by (auto simp: sized_def normal_def shape_def)
  have u: "unat (word_of_int p :: u64) = nat p" "unat (word_of_int a :: u64) = nat a"
    using p a by (simp_all add: unsigned_of_int take_bit_int_eq_self nat_less_iff)
  have u32: "nat p < 2 ^ 32" "nat a < 2 ^ 32" using p a by (simp_all add: nat_less_iff)
  obtain ys carry where mw: "mul_words (take (wds b) (words b)) (word_of_int p) (word_of_int a) = (ys, carry)" by (metis prod.exhaust)
  then have ys: "length ys = wds b" "unat carry < 2 ^ 32" "nat_of ys + 2 ^ (32 * wds b) * unat carry = bval b * nat p + nat a"
    using mul_words_value [OF mw] u u32 sh(3,4) by (simp_all add: bval_def)
  define b' where "b' = b\<lparr>words := ys @ drop (wds b) (words b)\<rparr>"
  have b': "shape b'" "bval b' = nat_of ys" "wds b' = wds b" "bk b' = bk b" "sign b' = sign b"
    using written [OF sh(1), of ys "wds b" b'] ys(1) sh(3) by (simp_all add: b'_def shape_def bval_def)
  have big: "1 < wds b \<Longrightarrow> 2 ^ (32 * (wds b - 1)) \<le> bval b * nat p + nat a"
    using normalD(3) [OF sizedD(1) [OF b(1)]] p(1) by (cases "nat p") (auto intro: trans_le_add1)
  have pushed: "sized m c \<and> sign c = sign b \<and> bval c = bval b * nat p + nat a"
    if c: "push_word b1 carry = Some c" "shape b1" "wds b1 = wds b" "bval b1 = nat_of ys" "bk b1 \<le> m + 1" "wds b1 < 2 ^ bk b1" "sign b1 = sign b"
      and "carry \<noteq> 0" for b1 c
  proof -
    have s: "shape c" "bk c = bk b1" "wds c = wds b + 1" "bval c = bval b * nat p + nat a" "sign c = sign b"
      using push_word_value [OF c(2,6) ys(2)] c ys(3) by auto
    have "1 \<le> unat carry" using that(8) by (simp add: Suc_le_eq unat_gt_0)
    then have "2 ^ (32 * wds b) * 1 \<le> 2 ^ (32 * wds b) * unat carry" by (rule mult_left_mono) simp
    then have "2 ^ (32 * (wds c - 1)) \<le> bval c" unfolding s(4) ys(3) [symmetric] s(3) by (simp only: add_diff_cancel_right' mult_1_right trans_le_add2)
    then show ?thesis using s c(5) by (auto simp: sized_def intro: normalI)
  qed
  show ?thesis
  proof (cases "carry = 0")
    case True
    have "normal b'" using b' big sh(2) ys(3) True by (intro normalI) auto
    then show ?thesis using True w b' sh ys(3) mw by (simp add: multadd_def Let_def sized_def b'_def max_def)
  next
    case False
    show ?thesis
    proof (cases "wds b < maxwds b")
      case True
      obtain c where "push_word b' carry = Some c" using push_word_value [OF b'(1) _ ys(2)] b' True sh(5) by auto
      moreover from pushed [OF this b'(1,3,2) _ _ b'(5) False] b' True sh(5,6) have "sized m c \<and> sign c = sign b \<and> bval c = bval b * nat p + nat a" by simp
      ultimately show ?thesis using True False w sh mw by (simp add: multadd_def Let_def b'_def max_def)
    next
      case full: False
      then have full: "wds b = 2 ^ bk b" using sh by simp
      have "2 ^ (32 * wds b) * 1 \<le> 2 ^ (32 * wds b) * unat carry" using \<open>carry \<noteq> 0\<close> by (intro mult_left_mono) (simp_all add: Suc_le_eq unat_gt_0)
      then have "2 ^ (32 * wds b) \<le> bval b * nat p + nat a" unfolding ys(3) [symmetric] by (simp only: mult_1_right trans_le_add2)
      then have "(2 :: nat) ^ (32 * wds b) < 2 ^ (32 * 2 ^ m)" using bound by (rule le_less_trans)
      then have "(2 :: nat) ^ bk b < 2 ^ m" unfolding full by (simp add: power_strict_increasing_iff)
      then have k: "bk b < m" by (simp add: power_strict_increasing_iff)
      then have k31: "bk b + 1 < 31" using b(2) by simp
      have "gives w (unless_null (Balloc (bk b + 1) w) (Bfree (Some b')) (\<lambda>b1 w.
              do { b1 \<leftarrow> Bcopy b1 b'; b1 \<leftarrow> push_word b1 carry; Some (Some b1, Bfree (Some b') w) }))
          (\<lambda>c w'. sized m c \<and> sign c = sign b \<and> bval c = bval b * nat p + nat a \<and> p5s w' = p5s w)"
      proof (rule unless_null_gives [OF Balloc_gives [OF w k31]])
        fix b1 w' assume w': "dtoa_ok w'" "malloc_ok w' = malloc_ok w" and b1: "shape b1 \<and> bk b1 = bk b + 1 \<and> wds b1 = 0 \<and> \<not> sign b1 \<and> p5s w' = p5s w"
        have len: "length (take (wds b') (words b')) = wds b" using sh b' by (simp add: shape_def)
        let ?b2 = "b1\<lparr>sign := sign b', wds := wds b', words := take (wds b') (words b') @ drop (wds b) (words b1)\<rparr>"
        have copy: "Bcopy b1 b' = Some ?b2" using b1 len full by (simp add: Bcopy_def put_front shape_def)
        have b2: "shape ?b2" "bval ?b2 = nat_of ys" "wds ?b2 = wds b" "bk ?b2 \<le> m + 1" "wds ?b2 < 2 ^ bk ?b2" "sign ?b2 = sign b"
          using b1 b' len full k by (auto simp: shape_def bval_def)
        obtain c where c: "push_word ?b2 carry = Some c" using push_word_value [OF b2(1,5) ys(2)] by auto
        show "gives w (do { b1 \<leftarrow> Bcopy b1 b'; b1 \<leftarrow> push_word b1 carry; Some (Some b1, Bfree (Some b') w') })
            (\<lambda>c w'. sized m c \<and> sign c = sign b \<and> bval c = bval b * nat p + nat a \<and> p5s w' = p5s w)"
          using pushed [OF c b2(1,3,2,4,5,6) False] w' b1 Bfree_ok [OF w'(1) b'(1)] by (simp add: copy c)
      qed (simp add: Bfree_ok b'(1))
      then show ?thesis using \<open>carry \<noteq> 0\<close> full sh mw by (simp add: multadd_def Let_def b'_def max_def)
    qed
  qed
qed

lemma i2b_gives:
  assumes "dtoa_ok w" "0 \<le> i" "i < 2 ^ 32"
  shows "gives w (i2b i w) (\<lambda>b w'. sized m b \<and> bk b = 1 \<and> \<not> sign b \<and> bval b = nat i \<and> wds b = 1 \<and> p5s w' = p5s w)"
  unfolding i2b_def
proof (rule unless_null_gives [OF Balloc_gives])
  fix b w' assume w': "dtoa_ok w'" "malloc_ok w' = malloc_ok w" and b: "shape b \<and> bk b = 1 \<and> wds b = 0 \<and> \<not> sign b \<and> p5s w' = p5s w"
  let ?b = "b\<lparr>words := word_of_int i # drop 1 (words b), wds := 1\<rparr>"
  have s: "shape ?b" "bval ?b = unat (word_of_int i :: u32)" using written [of b "[word_of_int i]" 1 ?b] b by simp_all
  have "unat (word_of_int i :: u32) = nat i" using assms by (simp add: unsigned_of_int take_bit_int_eq_self nat_less_iff)
  moreover have "normal ?b" using s(1) by (intro normalI) simp_all
  ultimately show "gives w (do { xs \<leftarrow> put_words 0 [word_of_int i] (words b); Some (Some (b\<lparr>words := xs, wds := 1\<rparr>), w') })
      (\<lambda>b w'. sized m b \<and> bk b = 1 \<and> \<not> sign b \<and> bval b = nat i \<and> wds b = 1 \<and> p5s w' = p5s w)"
    using w' b s(2) by (simp add: put_front shape_def sized_def)
qed (use assms in simp_all)

subsection \<open>Products\<close>

lemma mult_gives:
  assumes w: "dtoa_ok w" and ab: "sized m a" "sized m b" "0 < bval a" "0 < bval b" and m: "m \<le> 28"
    and bound: "bval a * bval b < 2 ^ (32 * 2 ^ m)"
  shows "gives w (mult a b w) (\<lambda>c w'. sized m c \<and> bval c = bval a * bval b \<and> p5s w' = p5s w \<and>
    (bk c \<le> max (bk a) (bk b) \<or> 2 ^ (bk c - 1) \<le> wds c))"
proof -
  have main: "gives w
      (unless_null (Balloc (if wds x + wds y > maxwds x then bk x + 1 else bk x) w) id (\<lambda>c w.
         if length (words x) < wds x \<or> length (words y) < wds y then None
         else
           let zs = mul_rows (take (wds x) (words x)) (take (wds y) (words y)) (replicate (wds x + wds y) 0) in
           do { xs \<leftarrow> put_words 0 zs (words c); Some (Some (c\<lparr>wds := length (dropWhile (\<lambda>z. z = 0) (rev zs)), words := xs\<rparr>), w) }))
      (\<lambda>c w'. sized m c \<and> bval c = bval x * bval y \<and> p5s w' = p5s w \<and> (bk c \<le> bk x \<or> 2 ^ (bk c - 1) \<le> wds c))"
    if xy: "sized m x" "sized m y" "0 < bval x" "0 < bval y" "wds y \<le> wds x" "bval x * bval y < 2 ^ (32 * 2 ^ m)" for x y
  proof -
    have sx: "0 < wds x" "wds x \<le> 2 ^ bk x" "length (words x) = 2 ^ bk x" "maxwds x = 2 ^ bk x" "bk x \<le> m + 1"
      and sy: "0 < wds y" "wds y \<le> length (words y)"
      using xy(1,2) by (auto simp: sized_def normal_def shape_def)
    define zs where "zs = mul_rows (take (wds x) (words x)) (take (wds y) (words y)) (replicate (wds x + wds y) 0)"
    have zs: "length zs = wds x + wds y" "nat_of zs = bval x * bval y"
    proof -
      have r: "replicate (wds x) 0 @ replicate (length (take (wds y) (words y))) 0 = replicate (wds x + wds y) (0 :: u32)"
        using sy(2) by (simp add: replicate_add)
      have "take (wds x) (words x) \<noteq> []" "length (replicate (wds x) (0 :: u32)) = length (take (wds x) (words x))" using sx by auto
      from mul_rows_value [OF this, of "take (wds y) (words y)"] show "length zs = wds x + wds y" "nat_of zs = bval x * bval y"
        unfolding r zs_def [symmetric] bval_def using sx sy(2) by simp_all
    qed
    define n where "n = length (dropWhile (\<lambda>z. z = 0) (rev zs))"
    have n: "n \<le> wds x + wds y" "nat_of (take n zs) = bval x * bval y" "0 < n \<longrightarrow> zs ! (n - 1) \<noteq> 0"
      using drop_zeros_value [of zs] zs unfolding n_def by auto
    have n0: "0 < n" using n(2) xy(3,4) by (cases n) simp_all
    let ?k = "if wds x + wds y > maxwds x then bk x + 1 else bk x"
    have "?k < 31" using sx(5) m by simp
    then show ?thesis
    proof (rule unless_null_gives [OF Balloc_gives [OF w]])
      fix c w' assume w': "dtoa_ok w'" "malloc_ok w' = malloc_ok w" and c: "shape c \<and> bk c = ?k \<and> wds c = 0 \<and> \<not> sign c \<and> p5s w' = p5s w"
      have fit: "length zs \<le> 2 ^ bk c"
      proof (cases "wds x + wds y > maxwds x")
        case True
        then show ?thesis using c zs(1) sx(2) xy(5) by simp
      qed (use c zs(1) sx(4) in simp)
      let ?c = "c\<lparr>wds := n, words := zs @ drop (length zs) (words c)\<rparr>"
      have s: "shape ?c" "bval ?c = bval x * bval y"
        using written [of c zs n ?c] c fit n(1,2) zs(1) by simp_all
      have nc: "normal ?c" using s(1) n0 n(1,3) zs(1) by (auto simp: normal_def nth_append)
      have wn: "n \<le> 2 ^ m" using wds_le [OF nc] s(2) xy(6) by simp
      have grown: "2 ^ bk x \<le> n" if "wds x + wds y > maxwds x"
      proof -
        have "2 ^ (32 * (wds x + wds y - 2)) \<le> bval x * bval y"
        proof -
          have "2 ^ (32 * (wds x - 1)) \<le> bval x" "2 ^ (32 * (wds y - 1)) \<le> bval y"
            using normalD(3) [OF sizedD(1) [OF xy(1)]] normalD(3) [OF sizedD(1) [OF xy(2)]] xy(3,4) sx(1) sy(1)
            by (cases "wds x = 1"; simp; cases "wds y = 1"; simp)+
          then have "2 ^ (32 * (wds x - 1)) * 2 ^ (32 * (wds y - 1)) \<le> bval x * bval y" by (rule mult_le_mono)
          moreover have "32 * (wds x - 1) + 32 * (wds y - 1) = 32 * (wds x + wds y - 2)" using sx(1) sy(1) by simp
          ultimately show ?thesis by (simp flip: power_add)
        qed
        also have "bval x * bval y < 2 ^ (32 * n)" using bval_less [of ?c] s(2) by simp
        finally have "wds x + wds y - 2 < n" by (simp add: power_strict_increasing_iff)
        then show ?thesis using that sx(4) by simp
      qed
      have "bk c \<le> m + 1"
      proof (cases "wds x + wds y > maxwds x")
        case True
        then have "bk x \<le> m" using pow2_le [OF grown wn] by simp
        then show ?thesis using c by simp
      qed (use c sx(5) in simp)
      moreover have "bk c \<le> bk x \<or> 2 ^ (bk c - 1) \<le> n" using c grown by auto
      ultimately show "gives w
          (if length (words x) < wds x \<or> length (words y) < wds y then None
           else
             let zs = mul_rows (take (wds x) (words x)) (take (wds y) (words y)) (replicate (wds x + wds y) 0) in
             do { xs \<leftarrow> put_words 0 zs (words c); Some (Some (c\<lparr>wds := length (dropWhile (\<lambda>z. z = 0) (rev zs)), words := xs\<rparr>), w') })
          (\<lambda>c w'. sized m c \<and> bval c = bval x * bval y \<and> p5s w' = p5s w \<and> (bk c \<le> bk x \<or> 2 ^ (bk c - 1) \<le> wds c))"
        using w' c nc s(2) fit sx sy by (simp add: zs_def [symmetric] n_def [symmetric] put_front shape_def sized_def)
    qed simp
  qed
  show ?thesis
  proof (cases "wds a < wds b")
    case True
    have "gives w (mult a b w) (\<lambda>c w'. sized m c \<and> bval c = bval b * bval a \<and> p5s w' = p5s w \<and> (bk c \<le> bk b \<or> 2 ^ (bk c - 1) \<le> wds c))"
      using main [OF ab(2,1,4,3)] True bound by (simp add: mult_def Let_def mult.commute)
    then show ?thesis by (rule gives_mono) (auto simp: mult.commute)
  next
    case False
    have "gives w (mult a b w) (\<lambda>c w'. sized m c \<and> bval c = bval a * bval b \<and> p5s w' = p5s w \<and> (bk c \<le> bk a \<or> 2 ^ (bk c - 1) \<le> wds c))"
      using main [OF ab] False bound by (simp add: mult_def Let_def)
    then show ?thesis by (rule gives_mono) auto
  qed
qed

subsection \<open>Shift, comparison and difference\<close>

declare grow.simps [simp del]

lemma grow_value:
  "0 < i \<Longrightarrow> \<exists>k. grow n1 i k1 = Some k \<and> k1 \<le> k \<and> n1 \<le> i * 2 ^ (k - k1) \<and> (k1 < k \<longrightarrow> i * 2 ^ (k - k1 - 1) < n1)"
proof (induction n1 i k1 rule: grow.induct)
  case (1 n1 i k1)
  show ?case
  proof (cases "n1 > i")
    case True
    then obtain k where k: "grow n1 (i * 2) (k1 + 1) = Some k" "k1 + 1 \<le> k" "n1 \<le> i * 2 * 2 ^ (k - (k1 + 1))"
      "k1 + 1 < k \<longrightarrow> i * 2 * 2 ^ (k - (k1 + 1) - 1) < n1"
      using "1.IH" "1.prems" True by auto
    have e: "k - k1 = Suc (k - (k1 + 1))" using k(2) by simp
    have "grow n1 i k1 = Some k" using True "1.prems" k(1) by (simp add: grow.simps [of n1 i])
    moreover have "i * 2 ^ (k - k1 - 1) < n1"
    proof (cases "k1 + 1 < k")
      case True
      then have "k - k1 - 1 = Suc (k - (k1 + 1) - 1)" by simp
      then show ?thesis using k(4) True by (simp add: mult.assoc)
    next
      case False
      then show ?thesis using k(2) \<open>n1 > i\<close> by simp
    qed
    moreover have "n1 \<le> i * 2 ^ (k - k1)" using k(3) unfolding e by (simp add: mult.assoc)
    ultimately show ?thesis using k(2) by auto
  next
    case False
    then show ?thesis using "1.prems" by (intro exI [of _ k1]) (simp add: grow.simps [of n1 i])
  qed
qed

lemma grow_shape:
  assumes "shape b" shows "\<exists>k. grow n1 (maxwds b) (bk b) = Some k \<and> n1 \<le> 2 ^ k \<and> (k = bk b \<or> 2 ^ (k - 1) < n1)"
proof -
  obtain k where k: "grow n1 (2 ^ bk b) (bk b) = Some k" "bk b \<le> k" "n1 \<le> 2 ^ bk b * 2 ^ (k - bk b)"
    "bk b < k \<longrightarrow> 2 ^ bk b * 2 ^ (k - bk b - 1) < n1"
    using grow_value [of "2 ^ bk b" n1 "bk b"] by auto
  have "(2 :: nat) ^ bk b * 2 ^ (k - bk b) = 2 ^ k" using k(2) by (simp flip: power_add)
  moreover have "bk b < k \<Longrightarrow> (2 :: nat) ^ bk b * 2 ^ (k - bk b - 1) = 2 ^ (k - 1)" by (simp flip: power_add)
  ultimately show ?thesis using k assms by (auto simp: shape_def)
qed

lemma shifted_words:
  fixes k :: nat
  assumes "xs \<noteq> []"
  defines "ys \<equiv> replicate (k div 32) 0 @ (if k mod 32 \<noteq> 0 then shift_words xs (k mod 32) 0 else xs)"
  shows "nat_of ys = nat_of xs * 2 ^ k" "length ys = k div 32 + length xs + (if k mod 32 \<noteq> 0 then 1 else 0)"
proof -
  have "nat_of xs * 2 ^ k = nat_of xs * 2 ^ (k mod 32) * 2 ^ (32 * (k div 32))" by (simp flip: power_add mult.assoc)
  then show "nat_of ys = nat_of xs * 2 ^ k" "length ys = k div 32 + length xs + (if k mod 32 \<noteq> 0 then 1 else 0)"
    using shift_words_value [of "k mod 32" 0 xs] by (auto simp: ys_def nat_of_append)
qed

lemma lshift_gives:
  assumes w: "dtoa_ok w" and b: "sized m b" "0 < bval b \<or> k < 32" and m: "m \<le> 28" and bound: "bval b * 2 ^ k < 2 ^ (32 * 2 ^ m)"
  shows "gives w (lshift b k w) (\<lambda>c w'. sized m c \<and> bval c = bval b * 2 ^ k \<and> p5s w' = p5s w)"
proof -
  let ?n = "k div 32" and ?s = "k mod 32"
  have sh: "shape b" "0 < wds b" "wds b \<le> length (words b)" "bk b \<le> m + 1"
    using b(1) by (auto simp: sized_def normal_def shape_def)
  define xs where "xs = take (wds b) (words b)"
  have xs: "xs \<noteq> []" "length xs = wds b" "nat_of xs = bval b" using sh(2,3) by (auto simp: xs_def bval_def)
  define ys where "ys = replicate ?n 0 @ (if ?s \<noteq> 0 then shift_words xs ?s 0 else xs)"
  note ys = shifted_words [OF xs(1), of k, folded ys_def, unfolded xs(2,3)]
  define n1 where "n1 = (if ?s \<noteq> 0 \<and> last ys \<noteq> 0 then ?n + wds b + 1 else ?n + wds b)"
  have n1: "n1 \<le> length ys" "nat_of (take n1 ys) = bval b * 2 ^ k" "0 < n1"
  proof -
    show "n1 \<le> length ys" "0 < n1" using ys(2) sh(2) by (auto simp: n1_def)
    show "nat_of (take n1 ys) = bval b * 2 ^ k"
    proof (cases "?s \<noteq> 0 \<and> last ys = 0")
      case True
      then have l: "length ys = n1 + 1" using ys(2) by (simp add: n1_def)
      then have "ys = take n1 ys @ [last ys]" by (metis add_diff_cancel_right' append_butlast_last_id butlast_conv_take length_0_conv add_is_0 one_neq_zero)
      then have "nat_of ys = nat_of (take n1 ys)" using nat_of_snoc [of "take n1 ys" "last ys"] True by (metis add.right_neutral mult_0_right unsigned_0)
      then show ?thesis using ys(1) by simp
    qed (use ys in \<open>auto simp: n1_def\<close>)
  qed
  have low: "2 ^ (32 * (?n + wds b - 1)) \<le> bval b * 2 ^ k" if "0 < bval b"
  proof -
    have "2 ^ (32 * (wds b - 1)) \<le> bval b" using normalD(3) [OF sizedD(1) [OF b(1)]] that sh(2) by (cases "wds b = 1") simp_all
    then have "2 ^ (32 * (wds b - 1)) * 2 ^ (32 * ?n) \<le> bval b * 2 ^ k" by (intro mult_le_mono power_increasing) simp_all
    moreover have "32 * (wds b - 1) + 32 * ?n = 32 * (?n + wds b - 1)" using sh(2) by simp
    ultimately show ?thesis by (simp flip: power_add)
  qed
  obtain k1 where k1: "grow (?n + wds b + 1) (maxwds b) (bk b) = Some k1" "?n + wds b + 1 \<le> 2 ^ k1" "k1 = bk b \<or> 2 ^ (k1 - 1) < ?n + wds b + 1"
    using grow_shape [OF sh(1)] by blast
  have small: "?n + wds b \<le> 2 ^ m"
  proof (cases "0 < bval b")
    case True
    have "(2 :: nat) ^ (32 * (?n + wds b - 1)) < 2 ^ (32 * 2 ^ m)" using low [OF True] bound by (rule le_less_trans)
    then have "?n + wds b - 1 < 2 ^ m" by (simp add: power_strict_increasing_iff)
    then show ?thesis by simp
  next
    case False
    then have "wds b = 1" using bval_pos [OF sizedD(1) [OF b(1)]] sh(2) by (cases "wds b = 1") simp_all
    moreover have "(1 :: nat) \<le> 2 ^ m" by simp
    ultimately show ?thesis using b(2) False by simp
  qed
  have k1m: "k1 \<le> m + 1"
  proof (cases "k1 = bk b")
    case False
    then have "2 ^ (k1 - 1) \<le> ?n + wds b" using k1(3) by simp
    from pow2_le [OF this small] show ?thesis by simp
  qed (use sh(4) in simp)
  have "gives w
      (unless_null (Balloc k1 w) (Bfree (Some b)) (\<lambda>b1 w. do { ws \<leftarrow> put_words 0 ys (words b1); Some (Some (b1\<lparr>words := ws, wds := n1\<rparr>), Bfree (Some b) w) }))
      (\<lambda>c w'. sized m c \<and> bval c = bval b * 2 ^ k \<and> p5s w' = p5s w)"
  proof (rule unless_null_gives [OF Balloc_gives [OF w]])
    fix c w' assume w': "dtoa_ok w'" "malloc_ok w' = malloc_ok w" and c: "shape c \<and> bk c = k1 \<and> wds c = 0 \<and> \<not> sign c \<and> p5s w' = p5s w"
    have fit: "length ys \<le> 2 ^ bk c" using c k1(2) ys(2) by (simp split: if_splits)
    let ?c = "c\<lparr>words := ys @ drop (length ys) (words c), wds := n1\<rparr>"
    have s: "shape ?c" "bval ?c = bval b * 2 ^ k" using written [of c ys n1 ?c] c fit n1 by simp_all
    have "normal ?c"
    proof (rule normalI [OF s(1)])
      assume "1 < wds ?c"
      then have one: "1 < n1" by simp
      show "2 ^ (32 * (wds ?c - 1)) \<le> bval ?c"
      proof (cases "?s \<noteq> 0 \<and> last ys \<noteq> 0")
        case True
        then have "length ys = n1" using ys(2) by (simp add: n1_def)
        then show ?thesis using nat_of_top [of ys] True n1 s(2) by auto
      next
        case False
        then have e: "n1 = ?n + wds b" by (auto simp: n1_def)
        show ?thesis
        proof (cases "0 < bval b")
          case True
          then show ?thesis using low s(2) e by simp
        next
          case False
          then have "wds b = 1" using bval_pos [OF sizedD(1) [OF b(1)]] sh(2) by (cases "wds b = 1") simp_all
          then show ?thesis using one e b(2) False by simp
        qed
      qed
    qed (use n1(3) in simp)
    then show "gives w (do { ws \<leftarrow> put_words 0 ys (words c); Some (Some (c\<lparr>words := ws, wds := n1\<rparr>), Bfree (Some b) w') })
        (\<lambda>c w'. sized m c \<and> bval c = bval b * 2 ^ k \<and> p5s w' = p5s w)"
      using w' c s(2) k1m fit Bfree_ok [OF w'(1) sh(1)] by (simp add: put_front shape_def sized_def)
  qed (use k1m m in \<open>simp_all add: Bfree_ok sh(1)\<close>)
  moreover have "lshift b k w = unless_null (Balloc k1 w) (Bfree (Some b))
      (\<lambda>b1 w. do { ws \<leftarrow> put_words 0 ys (words b1); Some (Some (b1\<lparr>words := ws, wds := n1\<rparr>), Bfree (Some b) w) })"
    using sh(2,3) k1(1) by (cases "?s = 0") (simp_all add: lshift_def Let_def max_def xs_def ys_def n1_def)
  ultimately show ?thesis by simp
qed

lemma cmp_value:
  assumes "normal a" "normal b"
  shows "\<exists>i. cmp a b = Some i \<and> sgn i = sgn (int (bval a) - int (bval b))"
proof -
  have less: "bval x < bval y" if "wds x < wds y" "normal y" "normal x" for x y
  proof -
    have "bval x < 2 ^ (32 * wds x)" by (rule bval_less)
    also have "\<dots> \<le> 2 ^ (32 * (wds y - 1))" using that(1) by (intro power_increasing) simp_all
    also have "\<dots> \<le> bval y" using normalD(3) [OF that(2)] bval_pos [OF that(2)] that(1)
normalD(2) [OF that(3)] by simp
    finally show ?thesis .
  qed
  consider "wds a = wds b" | "wds a < wds b" | "wds b < wds a" by linarith
  then show ?thesis
  proof cases
    case 1
    have "wds a \<le> length (words a)" "wds b \<le> length (words b)" "0 < wds a"
      using assms by (auto simp: normal_def shape_def)
    then show ?thesis using 1 by (simp add: cmp_def Let_def cmp_words_value bval_def)
  next
    case 2
    then show ?thesis using less [OF 2 assms(2,1)] by (simp add: cmp_def Let_def)
  next
    case 3
    then show ?thesis using less [OF 3 assms] by (simp add: cmp_def Let_def)
  qed
qed

end
