(* ===== verification/Bignum_Ops.thy ===== *)
theory Bignum_Ops
  imports Bignum_Correct
begin

text \<open>
  Difference, quotients, powers of 5 and the conversion of a double in \<open>js/src/jsdtoa.c\<close>: the values they compute, on
  normal numbers, with the properties of the arithmetic of that file.
\<close>

subsection \<open>Difference\<close>

lemma diff_gives:
  assumes w: "dtoa_ok w" and ab: "sized m a" "sized m b" and m: "m \<le> 28"
  shows "gives w (diff a b w) (\<lambda>c w'. sized m c \<and> bval c = (bval a - bval b) + (bval b - bval a) \<and> sign c = (bval a < bval b) \<and> p5s w' = p5s w)"
proof -
  obtain i where i: "cmp a b = Some i" "sgn i = sgn (int (bval a) - int (bval b))" using cmp_value ab sizedD(1) by blast
  have main: "gives w
      (unless_null (Balloc (bk x) w) id (\<lambda>c w.
         if length (words x) < wds x \<or> length (words y) < max 1 (wds y) then None
         else
           let ys = sub_words (take (wds x) (words x)) (take (max 1 (wds y)) (words y)) 0 in
           do { xs \<leftarrow> put_words 0 ys (words c); n \<leftarrow> strip_zeros (rev ys) (wds x);
                Some (Some (c\<lparr>sign := s, wds := n, words := xs\<rparr>), w) }))
      (\<lambda>c w'. sized m c \<and> bval c = bval x - bval y \<and> sign c = s \<and> p5s w' = p5s w)"
    if xy: "sized m x" "sized m y" "bval y < bval x" "wds y \<le> wds x" for x y s
  proof (rule unless_null_gives [OF Balloc_gives [OF w]])
    have sx: "wds x \<le> length (words x)" "wds x \<le> 2 ^ bk x" "0 < wds x" "bk x \<le> m + 1"
      and sy: "max 1 (wds y) = wds y" "wds y \<le> length (words y)"
      using xy(1,2) by (auto simp: sized_def normal_def shape_def max_def)
    show "bk x < 31" using sx(4) m by simp
    fix c w' assume w': "dtoa_ok w'" "malloc_ok w' = malloc_ok w" and c: "shape c \<and> bk c = bk x \<and> wds c = 0 \<and> \<not> sign c \<and> p5s w' = p5s w"
    define ys where "ys = sub_words (take (wds x) (words x)) (take (wds y) (words y)) 0"
    have ys: "length ys = wds x" "nat_of ys = bval x - bval y"
    proof -
      have "length ys = wds x \<and> (\<exists>t. nat_of ys + bval y = bval x + 2 ^ (32 * wds x) * t)"
        using sub_words_value [of "take (wds y) (words y)" "take (wds x) (words x)" 0] sx(1) sy(2) xy(4)
        by (simp add: ys_def bval_def)
      then obtain t where t: "length ys = wds x" "nat_of ys + bval y = bval x + 2 ^ (32 * wds x) * t" by auto
      have "nat_of ys + bval y < 2 ^ (32 * wds x) + bval x" using nat_of_less [of ys] xy(3) t(1) by simp
      then have "t = 0" unfolding t(2) by (cases t) simp_all
      then show "length ys = wds x" "nat_of ys = bval x - bval y" using t by simp_all
    qed
    have "\<exists>z \<in> set ys. z \<noteq> 0" using ys(2) xy(3) nat_of_zero_iff [of ys] by auto
    from strip_zeros_value [OF this] obtain n where n: "strip_zeros (rev ys) (wds x) = Some n" "0 < n" "n \<le> wds x"
      "nat_of (take n ys) = bval x - bval y" "ys ! (n - 1) \<noteq> 0"
      using ys by auto
    let ?c = "c\<lparr>sign := s, wds := n, words := ys @ drop (length ys) (words c)\<rparr>"
    have s: "shape ?c" "bval ?c = bval x - bval y" using written [of c ys n ?c] c n ys sx(2) by simp_all
    have "normal ?c" using s(1) n(2,3,5) ys(1) by (auto simp: normal_def nth_append)
    then show "gives w
        (if length (words x) < wds x \<or> length (words y) < max 1 (wds y) then None
         else
           let ys = sub_words (take (wds x) (words x)) (take (max 1 (wds y)) (words y)) 0 in
           do { xs \<leftarrow> put_words 0 ys (words c); n \<leftarrow> strip_zeros (rev ys) (wds x); Some (Some (c\<lparr>sign := s, wds := n, words := xs\<rparr>), w') })
        (\<lambda>c w'. sized m c \<and> bval c = bval x - bval y \<and> sign c = s \<and> p5s w' = p5s w)"
      using w' c s(2) ys(1) n(1) sx sy by (simp add: ys_def [symmetric] put_front shape_def sized_def)
  qed simp
  have wless: "wds x \<le> wds y" if "normal x" "normal y" "bval x \<le> bval y" for x y
  proof (rule ccontr)
    assume a: "\<not> wds x \<le> wds y"
    have "bval y < 2 ^ (32 * wds y)" by (rule bval_less)
    also have "\<dots> \<le> 2 ^ (32 * (wds x - 1))" using a by (intro power_increasing) simp_all
    also have "\<dots> \<le> bval x" using normalD(3) [OF that(1)] a normalD(2) [OF that(2)] by simp
    finally show False using that(3) by simp
  qed
  note nab = sizedD(1) [OF ab(1)] sizedD(1) [OF ab(2)]
  consider "i = 0" | "i < 0" | "0 < i" by linarith
  then show ?thesis
  proof cases
    case 1
    have "gives w (unless_null (Balloc 0 w) id (\<lambda>c w. do { xs \<leftarrow> put_words 0 [0] (words c); Some (Some (c\<lparr>wds := 1, words := xs\<rparr>), w) }))
        (\<lambda>c w'. sized m c \<and> bval c = 0 \<and> \<not> sign c \<and> p5s w' = p5s w)"
    proof (rule unless_null_gives [OF Balloc_gives [OF w]])
      fix c w' assume w': "dtoa_ok w'" "malloc_ok w' = malloc_ok w" and c: "shape c \<and> bk c = 0 \<and> wds c = 0 \<and> \<not> sign c \<and> p5s w' = p5s w"
      let ?c = "c\<lparr>wds := 1, words := 0 # drop 1 (words c)\<rparr>"
      have s: "shape ?c" "bval ?c = 0" using written [of c "[0]" 1 ?c] c by simp_all
      have "normal ?c" using s(1) by (intro normalI) simp_all
      then show "gives w (do { xs \<leftarrow> put_words 0 [0] (words c); Some (Some (c\<lparr>wds := 1, words := xs\<rparr>), w') })
          (\<lambda>c w'. sized m c \<and> bval c = 0 \<and> \<not> sign c \<and> p5s w' = p5s w)"
        using w' c s(2) by (simp add: put_front shape_def sized_def)
    qed simp_all
    moreover have "bval a = bval b" using i 1 by (simp add: sgn_0_0)
    ultimately show ?thesis using i(1) 1 by (simp add: diff_def Let_def)
  next
    case 2
    then have "bval a < bval b" using i(2) by (auto simp: sgn_if split: if_splits)
    then show ?thesis using main [OF ab(2,1) _ wless [OF nab], of "i < 0"] 2 i(1) by (simp add: diff_def Let_def)
  next
    case 3
    then have "bval b < bval a" using i(2) by (auto simp: sgn_if split: if_splits)
    then show ?thesis using main [OF ab _ wless [OF nab(2,1)], of "i < 0"] 3 i(1) by (simp add: diff_def Let_def)
  qed
qed

subsection \<open>Quotients\<close>

lemma bval_split:
  assumes "n < wds b" "wds b \<le> length (words b)"
  shows "bval b = nat_of (take n (words b)) + 2 ^ (32 * n) * (unat (words b ! n) + 2 ^ 32 * nat_of (drop (n + 1) (take (wds b) (words b))))"
proof -
  let ?xs = "take (wds b) (words b)"
  have "?xs = take n ?xs @ ?xs ! n # drop (Suc n) ?xs" using assms by (intro id_take_nth_drop) simp
  moreover have "take n ?xs = take n (words b)" "?xs ! n = words b ! n" "length (take n (words b)) = n" using assms by simp_all
  ultimately have "nat_of ?xs = nat_of (take n (words b)) + 2 ^ (32 * n) * (unat (words b ! n) + 2 ^ 32 * nat_of (drop (n + 1) ?xs))"
    by (metis Suc_eq_plus1 nat_of_Cons nat_of_append)
  then show ?thesis by (simp only: bval_def)
qed

lemma quorem2_value:
  assumes b: "normal b" and bound: "bval b < 2 ^ 32 * 2 ^ k"
  shows "\<exists>q c. quorem2 b k = Some (q, c) \<and> unat q = bval b div 2 ^ k \<and> bval c = bval b mod 2 ^ k \<and> normal c \<and> bk c = bk b"
proof -
  let ?n = "k div 32" and ?s = "k mod 32"
  have k: "(2 :: nat) ^ k = 2 ^ (32 * ?n) * 2 ^ ?s" by (simp flip: power_add)
  have len: "wds b \<le> length (words b)" "0 < wds b" using b by (auto simp: normal_def shape_def)
  show ?thesis
  proof (cases "wds b \<le> ?n")
    case True
    have "bval b < 2 ^ (32 * wds b)" by (rule bval_less)
    also have "\<dots> \<le> 2 ^ k" using True by (intro power_increasing) simp_all
    finally show ?thesis using True b by (auto simp: quorem2_def)
  next
    case False
    then have n: "?n < wds b" by simp
    define L top rest where "L = nat_of (take ?n (words b))" and "top = words b ! ?n" and "rest = drop (?n + 1) (take (wds b) (words b))"
    have v: "bval b = L + 2 ^ (32 * ?n) * (unat top + 2 ^ 32 * nat_of rest)"
      unfolding L_def top_def rest_def by (rule bval_split [OF n len(1)])
    have L: "L < 2 ^ (32 * ?n)" using nat_of_less [of "take ?n (words b)"] n len(1) by (simp add: L_def)
    have hi: "unat top + 2 ^ 32 * nat_of rest < 2 ^ 32 * 2 ^ ?s"
    proof -
      have "2 ^ (32 * ?n) * (unat top + 2 ^ 32 * nat_of rest) \<le> bval b" unfolding v by (rule le_add2)
      also have "\<dots> < 2 ^ (32 * ?n) * (2 ^ 32 * 2 ^ ?s)" using bound unfolding k by (simp only: mult.left_commute)
      finally show ?thesis by (simp only: mult_less_cancel1)
    qed
    have rest: "nat_of rest < 2 ^ ?s"
    proof -
      have "2 ^ 32 * nat_of rest < 2 ^ 32 * 2 ^ ?s" using hi by linarith
      then show ?thesis by simp
    qed
    have w2: "wds b \<le> ?n + 2"
    proof (rule ccontr)
      assume a: "\<not> wds b \<le> ?n + 2"
      then have "rest \<noteq> []" "length rest = wds b - ?n - 1"
        using len by (auto simp: rest_def)
      moreover have "last rest = words b ! (wds b - 1)"
      proof -
        have "take (wds b) (words b) \<noteq> []" "length (take (wds b) (words b)) = wds b" using len by auto
        then have "last (take (wds b) (words b)) = words b ! (wds b - 1)" using len by (simp add: last_conv_nth)
        then show ?thesis using a len unfolding rest_def by (subst last_drop) simp_all
      qed
      moreover have "words b ! (wds b - 1) \<noteq> 0" using b a by (simp add: normal_def)
      ultimately have "2 ^ (32 * (length rest - 1)) \<le> nat_of rest" using nat_of_top [of rest] by simp
      moreover have "(2 :: nat) ^ ?s \<le> 2 ^ (32 * (length rest - 1))"
        using \<open>length rest = wds b - ?n - 1\<close> a by (intro power_increasing) simp_all
      ultimately show False using rest by linarith
    qed
    define mask_s :: u32 where "mask_s = push_bit ?s 1 - 1"
    have low: "unat (top AND mask_s) = unat top mod 2 ^ ?s"
    proof -
      have "mask_s = mask ?s" by (simp add: mask_s_def mask_eq_decr_exp push_bit_eq_mult)
      then show ?thesis by (simp only: unat_and_mask)
    qed
    define q where "q = (if wds b - ?n = 2 \<and> ?s \<noteq> 0 then drop_bit ?s top OR push_bit (32 - ?s) (words b ! (?n + 1)) else drop_bit ?s top)"
    have q: "unat q = (unat top + 2 ^ 32 * nat_of rest) div 2 ^ ?s"
    proof (cases "wds b - ?n = 2 \<and> ?s \<noteq> 0")
      case True
      then have "wds b - ?n = 2" by (rule conjunct1)
      then have "wds b = Suc (?n + 1)" using n by linarith
      then have "take (wds b) (words b) = take (?n + 1) (words b) @ [words b ! (?n + 1)]" "?n + 1 \<le> length (words b)"
        using len by (simp_all add: take_Suc_conv_app_nth)
      then have r: "rest = [words b ! (?n + 1)]" by (simp add: rest_def)
      have p: "(2 :: nat) ^ 32 = 2 ^ (32 - ?s) * 2 ^ ?s" by (simp flip: power_add)
      have d: "unat (drop_bit ?s top) < 2 ^ (32 - ?s)"
        unfolding unat_drop_bit using u32_bound [of top] by (intro less_mult_imp_div_less) (simp only: p)
      have nr: "nat_of rest = unat (words b ! (?n + 1))" by (simp add: r)
      then have "unat (words b ! (?n + 1)) * 2 ^ (32 - ?s) < 2 ^ ?s * 2 ^ (32 - ?s)" using rest by simp
      then have "unat (words b ! (?n + 1)) * 2 ^ (32 - ?s) < 2 ^ 32" by (simp flip: power_add)
      then have "unat q = nat_of rest * 2 ^ (32 - ?s) + unat top div 2 ^ ?s"
        using True unat_glue [OF d, of "words b ! (?n + 1)"] unfolding q_def nr by (simp add: or.commute unat_drop_bit)
      also have "\<dots> = (unat top + nat_of rest * 2 ^ (32 - ?s) * 2 ^ ?s) div 2 ^ ?s" by simp
      also have "nat_of rest * 2 ^ (32 - ?s) * 2 ^ ?s = 2 ^ 32 * nat_of rest" unfolding p by simp
      finally show ?thesis .
    next
      case False
      have "nat_of rest = 0"
      proof (cases "?s = 0")
        case True
        then show ?thesis using rest by simp
      next
        case s: False
        then have "rest = []" using False w2 n by (simp add: rest_def)
        then show ?thesis by simp
      qed
      then show ?thesis using False by (auto simp: q_def unat_drop_bit)
    qed
    let ?xs = "(words b)[?n := top AND mask_s]"
    define c where "c = b\<lparr>words := ?xs, wds := trim ?xs ?n\<rparr>"
    have tv: "0 < trim ?xs ?n" "trim ?xs ?n \<le> ?n + 1" "nat_of (take (trim ?xs ?n) ?xs) = nat_of (take (?n + 1) ?xs)"
      "1 < trim ?xs ?n \<longrightarrow> ?xs ! (trim ?xs ?n - 1) \<noteq> 0"
      using trim_value [of ?n ?xs] n len(1) by auto
    have "take (?n + 1) ?xs = take ?n (words b) @ [top AND mask_s]" using n len(1) by (simp add: take_Suc_conv_app_nth)
    then have cv: "bval c = L + 2 ^ (32 * ?n) * (unat top mod 2 ^ ?s)"
      using tv(3) n len(1) low by (simp add: c_def bval_def nat_of_snoc L_def)
    have sc: "shape c" "normal c" "bk c = bk b"
      using b tv n by (auto simp: c_def normal_def shape_def)
    have dm: "(L + 2 ^ (32 * ?n) * H) div (2 ^ (32 * ?n) * 2 ^ ?s) = H div 2 ^ ?s"
      "(L + 2 ^ (32 * ?n) * H) mod (2 ^ (32 * ?n) * 2 ^ ?s) = L + 2 ^ (32 * ?n) * (H mod 2 ^ ?s)" for H
      using L by (simp_all add: div_mult2_eq mod_mult2_eq)
    have "(unat top + 2 ^ 32 * nat_of rest) mod 2 ^ ?s = unat top mod 2 ^ ?s"
    proof -
      have "(2 :: nat) ^ 32 = 2 ^ ?s * 2 ^ (32 - ?s)" by (simp flip: power_add)
      then have "2 ^ 32 * nat_of rest = 2 ^ ?s * (2 ^ (32 - ?s) * nat_of rest)" by simp
      then show ?thesis by (simp only: mod_mult_self2)
    qed
    then have "unat q = bval b div 2 ^ k" "bval c = bval b mod 2 ^ k" unfolding k v q cv by (simp_all add: dm)
    moreover have "quorem2 b k = Some (q, c)"
      using False len(1) by (simp add: quorem2_def Let_def q_def c_def mask_s_def top_def)
    ultimately show ?thesis using sc by blast
  qed
qed

text \<open>What \<open>quorem\<close> leaves: no words at all can stand for zero.\<close>

definition weak :: "Bigint \<Rightarrow> bool" where
  "weak b \<longleftrightarrow> shape b \<and> (1 < wds b \<longrightarrow> words b ! (wds b - 1) \<noteq> 0)"

lemma weak_normal: "weak b \<Longrightarrow> 0 < wds b \<Longrightarrow> normal b" "normal b \<Longrightarrow> weak b"
  by (simp_all add: weak_def normal_def)

lemma quorem_sub_value:
  assumes b: "shape b" "wds b = wds S" and S: "normal S" and le: "unat q * bval S \<le> bval b" and n: "n = wds S - 1"
    and top: "words b ! n \<noteq> 0 \<or> n = 0"
  shows "weak (quorem_sub b S n q) \<and> bval (quorem_sub b S n q) = bval b - unat q * bval S \<and> bk (quorem_sub b S n q) = bk b \<and>
    wds (quorem_sub b S n q) \<le> wds b"
proof -
  let ?ss = "take (n + 1) (words S)"
  define xs where "xs = sub_mul ?ss (words b) (ucast q) 0 0"
  have len: "wds S = n + 1" "length ?ss = n + 1" "n + 1 \<le> length (words b)"
    using assms by (auto simp: normal_def shape_def)
  from sub_mul_value [of ?ss "words b" "ucast q" 0 0] obtain t where
    xs: "length xs = length (words b)" "nat_of (take (n + 1) xs) + bval S * unat q = bval b + 2 ^ (32 * (n + 1)) * t"
    using len b(2) u32_bound [of q] unfolding xs_def [symmetric] by (auto simp: unat_ucast64 bval_def)
  have "nat_of (take (n + 1) xs) < 2 ^ (32 * (n + 1))" using nat_of_less [of "take (n + 1) xs"] xs(1) len(3) by simp
  then have "nat_of (take (n + 1) xs) + bval S * unat q < 2 ^ (32 * (n + 1)) + bval b"
    using le by (simp add: mult.commute)
  then have "t = 0" unfolding xs(2) by (cases t) simp_all
  then have v: "nat_of (take (n + 1) xs) = bval b - unat q * bval S" using xs(2) by (simp add: mult.commute)
  show ?thesis
  proof (cases "xs ! n = 0")
    case True
    have d: "drop_top xs n \<le> n" "nat_of (take (drop_top xs n) xs) = nat_of (take n xs)" "1 < drop_top xs n \<longrightarrow> xs ! (drop_top xs n - 1) \<noteq> 0"
      using drop_top_value [of n xs] xs(1) len(3) by auto
    have "nat_of (take (n + 1) xs) = nat_of (take n xs)" using True xs(1) len(3) by (simp add: take_Suc_conv_app_nth nat_of_snoc)
    moreover have "quorem_sub b S n q = b\<lparr>words := xs, wds := drop_top xs n\<rparr>"
      using True unfolding quorem_sub_def Let_def xs_def by (rule if_P)
    ultimately show ?thesis using d v b(1) xs(1) len by (simp add: weak_def bval_def shape_def b(2))
  next
    case False
    then have "quorem_sub b S n q = b\<lparr>words := xs\<rparr>" unfolding quorem_sub_def Let_def xs_def by (rule if_not_P)
    then show ?thesis using False v b xs(1) len by (simp add: weak_def bval_def shape_def)
  qed
qed

lemma cmp_weak:
  assumes "weak b" "normal S" "0 < bval S"
  shows "\<exists>i. cmp b S = Some i \<and> (0 \<le> i \<longleftrightarrow> bval S \<le> bval b) \<and> (0 \<le> i \<longrightarrow> wds S \<le> wds b)"
proof (cases "wds b = 0")
  case True
  have S: "0 < wds S" using normalD(2) [OF assms(2)] .
  then show ?thesis using True assms(3) by (simp add: cmp_def Let_def bval_def)
next
  case False
  then have b: "normal b" using assms(1) weak_normal(1) by simp
  from cmp_value [OF b assms(2)] obtain i where i: "cmp b S = Some i" "sgn i = sgn (int (bval b) - int (bval S))" by blast
  have "0 \<le> i \<longrightarrow> wds S \<le> wds b" using i(1) by (auto simp: cmp_def Let_def split: if_splits)
  moreover have "0 \<le> i \<longleftrightarrow> bval S \<le> bval b" using i(2) by (auto simp: sgn_if split: if_splits)
  ultimately show ?thesis using i(1) by blast
qed

lemma top_bounds:
  assumes "0 < wds b" "wds b \<le> length (words b)"
  defines "M \<equiv> 2 ^ (32 * (wds b - 1))" and "T \<equiv> unat (words b ! (wds b - 1))"
  shows "T * M \<le> bval b" "bval b < (T + 1) * M"
proof -
  have "bval b = nat_of (take (wds b - 1) (words b)) + M * T"
    using bval_split [of "wds b - 1" b] assms(1,2) by (simp add: M_def T_def)
  moreover have "nat_of (take (wds b - 1) (words b)) < M"
    using nat_of_less [of "take (wds b - 1) (words b)"] assms(1,2) by (simp add: M_def)
  ultimately show "T * M \<le> bval b" "bval b < (T + 1) * M" by (simp_all add: algebra_simps)
qed

text \<open>The estimate from the top words is at most one below the quotient when the top word of the divisor is large.\<close>

lemma quotient_estimate:
  fixes B T M b S :: nat
  assumes "T * M \<le> S" "S < (T + 1) * M" "B * M \<le> b" "b < (B + 1) * M" "B div (T + 1) < T"
  shows "B div (T + 1) * S \<le> b" "b < (B div (T + 1) + 2) * S"
proof -
  let ?e = "B div (T + 1)"
  have "?e * S \<le> ?e * ((T + 1) * M)" using assms(2) by (intro mult_left_mono) simp_all
  also have "\<dots> \<le> B * M" using mult_right_mono [OF div_times_less_eq_dividend [of B "T + 1"], of M] by (simp only: mult.assoc)
  finally show "?e * S \<le> b" using assms(3) by simp
  have "B + 1 \<le> (?e + 1) * (T + 1)"
    using dividend_less_div_times [of "T + 1" B] by (simp add: Suc_le_eq algebra_simps)
  also have "\<dots> \<le> (?e + 2) * T" using assms(5) by (simp add: algebra_simps)
  finally have "(B + 1) * M \<le> (?e + 2) * T * M" by (rule mult_right_mono) simp
  also have "\<dots> \<le> (?e + 2) * S" using assms(1) by (simp only: mult.assoc) (intro mult_left_mono, simp_all)
  finally show "b < (?e + 2) * S" using assms(4) by simp
qed

lemma quorem_value:
  assumes b: "normal b" and S: "normal S" and le: "wds b \<le> wds S"
    and top: "2 ^ 16 \<le> unat (words S ! (wds S - 1))" "unat (words S ! (wds S - 1)) < 2 ^ 31"
  shows "\<exists>q c. quorem b S = Some (q, c) \<and> unat q = bval b div bval S \<and> bval c = bval b mod bval S \<and> weak c \<and> bk c = bk b"
proof -
  let ?n = "wds S - 1"
  define T B where "T = unat (words S ! ?n)" and "B = unat (words b ! ?n)"
  have lS: "0 < wds S" "wds S \<le> length (words S)" using S by (auto simp: normal_def shape_def)
  note tS = top_bounds [OF lS, folded T_def]
  have "0 < T" using top(1) by (simp add: T_def)
  then have "0 < T * 2 ^ (32 * ?n)" by simp
  then have S0: "0 < bval S" using tS(1) by (rule less_le_trans)
  show ?thesis
  proof (cases "wds b < wds S")
    case True
    have "bval b < 2 ^ (32 * wds b)" by (rule bval_less)
    also have "\<dots> \<le> 1 * 2 ^ (32 * ?n)" using True by (simp add: power_increasing)
    also have "\<dots> \<le> T * 2 ^ (32 * ?n)" using top(1) unfolding T_def by (intro mult_right_mono) simp_all
    finally have "bval b < bval S" using tS(1) by simp
    then show ?thesis using True b weak_normal(2) by (auto simp: quorem_def)
  next
    case False
    then have w: "wds b = wds S" using le by simp
    have lb: "0 < wds b" "wds b \<le> length (words b)" using b by (auto simp: normal_def shape_def)
    note tb = top_bounds [OF lb, unfolded w, folded B_def]
    have d: "unat (words S ! ?n + 1) = T + 1" using top(2) by (simp add: T_def unat_inc)
    then have d0: "words S ! ?n + 1 \<noteq> 0" by (metis Suc_eq_plus1 nat.distinct(1) unsigned_0)
    define q where "q = words b ! ?n div (words S ! ?n + 1)"
    have q: "unat q = B div (T + 1)" by (simp only: q_def unat_div d B_def)
    have "B div (T + 1) < T"
    proof -
      have "B < 2 ^ 16 * 2 ^ 16" using u32_bound [of "words b ! ?n"] by (simp add: B_def)
      also have "\<dots> \<le> T * (T + 1)" using top(1) unfolding T_def by (intro mult_mono) simp_all
      finally show ?thesis by (intro less_mult_imp_div_less)
    qed
    note est = quotient_estimate [OF tS tb this, folded q]
    have topb: "words b ! ?n \<noteq> 0 \<or> ?n = 0" using b w by (auto simp: normal_def)
    define c where "c = (if q \<noteq> 0 then quorem_sub b S ?n q else b)"
    have c: "weak c" "bval c = bval b - unat q * bval S" "bk c = bk b" "wds c \<le> wds S"
      using quorem_sub_value [OF normalD(1) [OF b] w S est(1) refl topb] weak_normal(2) [OF b] w by (auto simp: c_def)
    obtain i where i: "cmp c S = Some i" "0 \<le> i \<longleftrightarrow> bval S \<le> bval c" "0 \<le> i \<longrightarrow> wds S \<le> wds c"
      using cmp_weak [OF c(1) S S0] by blast
    have run: "quorem b S = (if 0 \<le> i then Some (q + 1, quorem_sub c S ?n 1) else Some (q, c))"
      using w lS lb d0 i(1) by (simp add: quorem_def Let_def q_def [symmetric] c_def [symmetric] del: One_nat_def)
    have dm: "N div D = Q \<and> N mod D = R" if "N = Q * D + R" "R < D" for N D Q R :: nat using that by simp
    show ?thesis
    proof (cases "0 \<le> i")
      case True
      then have wc: "wds c = wds S" "bval S \<le> bval c" using i c(4) by auto
      then have nc: "normal c" using weak_normal(1) [OF c(1)] lS by simp
      have "words c ! ?n \<noteq> 0 \<or> ?n = 0" using nc wc(1) by (auto simp: normal_def)
      from quorem_sub_value [OF normalD(1) [OF nc] wc(1) S _ refl this, of 1] wc(2)
      have r: "weak (quorem_sub c S ?n 1)" "bval (quorem_sub c S ?n 1) = bval c - bval S" "bk (quorem_sub c S ?n 1) = bk b"
        using c(3) by auto
      have "bval b div bval S = unat q + 1 \<and> bval b mod bval S = bval c - bval S"
        by (rule dm) (use c(2) wc(2) est in \<open>simp_all add: algebra_simps\<close>)
      moreover have "unat (q + 1) = unat q + 1"
        using \<open>B div (T + 1) < T\<close> top(2) by (intro unat_inc) (simp add: q T_def)
      ultimately show ?thesis using run r True by auto
    next
      case False
      have "bval b div bval S = unat q \<and> bval b mod bval S = bval c"
        by (rule dm) (use c(2) i(2) False est in \<open>simp_all\<close>)
      then show ?thesis using run c False by auto
    qed
  qed
qed

lemma divrem_value:
  assumes b: "normal b" and d: "0 < unat d" "unat d \<le> 2 ^ 16"
  shows "\<exists>r c. divrem b d = Some (r, c) \<and> unat r = bval b mod unat d \<and> bval c = bval b div unat d \<and> bk c = bk b \<and>
    shape c \<and> (wds c = 0 \<and> bval c = 0 \<or> normal c \<and> 0 < bval c)"
proof -
  let ?n = "wds b"
  have len: "0 < ?n" "?n \<le> length (words b)" "length (rev (take ?n (words b))) = ?n" using b by (auto simp: normal_def shape_def)
  obtain qs r where run: "div_words (rev (take ?n (words b))) d 0 = (qs, r)" by (metis prod.exhaust)
  from div_words_value [OF run] d len(3) have v: "length qs = ?n" "unat r < unat d" "nat_of (rev qs) * unat d + unat r = bval b"
    by (simp_all add: bval_def)
  have q: "nat_of (rev qs) = bval b div unat d" "unat r = bval b mod unat d" unfolding v(3) [symmetric] using v(2) by simp_all
  define c where "c = b\<lparr>words := rev qs @ drop ?n (words b), wds := (if hd qs = 0 then ?n - 1 else ?n)\<rparr>"
  have runs: "divrem b d = Some (r, c)" using len d run by (auto simp: divrem_def Let_def c_def unat_gt_0)
  have sh: "shape c" "bk c = bk b" using b v(1) len by (auto simp: c_def normal_def shape_def)
  obtain h t where h: "qs = h # t" using v(1) len(1) by (cases qs) auto
  have val: "bval c = bval b div unat d"
  proof (cases "h = 0")
    case True
    then have "take (?n - 1) (rev qs @ drop ?n (words b)) = rev t" using v(1) h by simp
    then show ?thesis using True q(1) h by (simp add: c_def bval_def nat_of_snoc)
  next
    case False
    have "take ?n (rev qs @ drop ?n (words b)) = rev qs" using v(1) by simp
    then show ?thesis using False q(1) h by (simp add: c_def bval_def)
  qed
  have "wds c = 0 \<and> bval c = 0 \<or> normal c \<and> 0 < bval c"
  proof (cases "wds c = 0")
    case True
    then show ?thesis by (simp add: bval_def)
  next
    case False
    have low: "2 ^ (32 * (wds c - 1)) \<le> bval c"
    proof (cases "h = 0")
      case True
      then have w: "wds c = ?n - 1" "1 < ?n" using False h by (auto simp: c_def)
      have "2 ^ (32 * (wds c - 1)) * unat d \<le> 2 ^ (32 * (wds c - 1)) * 2 ^ 32" using d(2) by (intro mult_left_mono) simp_all
      also have "\<dots> = 2 ^ (32 * (wds c - 1) + 32)" by (rule power_add [symmetric])
      also have "32 * (wds c - 1) + 32 = 32 * (?n - 1)" using w False by simp
      also have "2 ^ (32 * (?n - 1)) \<le> bval b" using normalD(3) [OF b w(2)] .
      finally have "2 ^ (32 * (wds c - 1)) * unat d div unat d \<le> bval b div unat d" by (rule div_le_mono)
      then show ?thesis using d(1) val by simp
    next
      case hd: False
      then have "2 ^ (32 * (length (rev qs) - 1)) \<le> nat_of (rev qs)" using h by (intro nat_of_top) simp_all
      moreover have "length (rev qs) = wds c" "nat_of (rev qs) = bval c" using hd h v(1) q(1) val by (simp_all add: c_def)
      ultimately show ?thesis by simp
    qed
    moreover have "0 < (2 :: nat) ^ (32 * (wds c - 1))" by simp
    ultimately have "0 < bval c" by linarith
    then show ?thesis using normalI [OF sh(1)] False low by simp
  qed
  then show ?thesis using runs val q(2) sh by blast
qed

end
