(* ===== verification/Bignum_Powers.thy ===== *)
theory Bignum_Powers
  imports Bignum_Ops
begin

text \<open>
  Powers of 5 through the cache of \<open>js/src/jsdtoa.c\<close>, numbers from decimal digits, and numbers from doubles.
\<close>

declare pow5_loop.simps [simp del]

subsection \<open>Powers of 5\<close>

lemma factor_less: "a * b < n \<Longrightarrow> 1 \<le> b \<Longrightarrow> a < (n :: nat)"
  by (metis le_less_trans mult.right_neutral mult_le_mono2)

lemma wds_mono:
  assumes "normal x" "normal y" "bval x \<le> bval y" shows "wds x \<le> wds y"
proof (rule ccontr)
  assume a: "\<not> wds x \<le> wds y"
  have "bval y < 2 ^ (32 * wds y)" by (rule bval_less)
  also have "\<dots> \<le> 2 ^ (32 * (wds x - 1))" using a by (intro power_increasing) simp_all
  also have "\<dots> \<le> bval x" using normalD(3) [OF assms(1)] a normalD(2) [OF assms(2)] by simp
  finally show False using assms(3) by simp
qed

lemma cached_sized:
  assumes "dtoa_ok w" "i < length (p5s w)" "5 ^ (4 * 2 ^ i) < (2 :: nat) ^ (32 * 2 ^ m)"
  shows "sized m (p5s w ! i)" "bval (p5s w ! i) = 5 ^ (4 * 2 ^ i)"
proof -
  let ?p = "p5s w ! i"
  have p: "normal ?p" "bval ?p = 5 ^ (4 * 2 ^ i)" "bk ?p \<le> 1 \<or> 2 ^ (bk ?p - 1) \<le> wds ?p" using assms(1,2) by (auto simp: dtoa_ok_def)
  have "wds ?p \<le> 2 ^ m" using wds_le [OF p(1)] p(2) assms(3) by simp
  then have "bk ?p \<le> 1 \<or> bk ?p - 1 \<le> m" using p(3) pow2_le by blast
  then show "sized m ?p" "bval ?p = 5 ^ (4 * 2 ^ i)" using p by (auto simp: sized_def)
qed

lemma dtoa_ok_append:
  assumes "dtoa_ok w" "normal p" "bval p = 5 ^ (4 * 2 ^ length (p5s w))" "bk p \<le> 1 \<or> 2 ^ (bk p - 1) \<le> wds p"
  shows "dtoa_ok (w\<lparr>p5s := p5s w @ [p]\<rparr>)"
  using assms by (auto simp: dtoa_ok_def nth_append less_Suc_eq)

lemma five_split: "(5 :: nat) ^ (4 * 2 ^ i * k) = (if odd k then 5 ^ (4 * 2 ^ i) else 1) * 5 ^ (4 * 2 ^ (i + 1) * (k div 2))"
proof -
  have "4 * 2 ^ i * k = (if odd k then 4 * 2 ^ i else 0) + 4 * 2 ^ (i + 1) * (k div 2)"
    by (cases "odd k") (auto elim!: oddE evenE simp: algebra_simps)
  then show ?thesis by (simp add: power_add split: if_splits)
qed

lemma pow5_loop_gives:
  assumes "dtoa_ok w" "i < length (p5s w)" "0 < k" "sized m b" "0 < bval b" "m \<le> 28" "bval b * 5 ^ (4 * 2 ^ i * k) < 2 ^ (32 * 2 ^ m)"
  shows "gives w (pow5_loop i k b w) (\<lambda>c w'. sized m c \<and> bval c = bval b * 5 ^ (4 * 2 ^ i * k))"
  using assms
proof (induction i k b w rule: pow5_loop.induct)
  case (1 i k b w)
  let ?p = "p5s w ! i"
  let ?v = "bval b * (if odd k then 5 ^ (4 * 2 ^ i) else 1)"
  have total: "?v * 5 ^ (4 * 2 ^ (i + 1) * (k div 2)) < 2 ^ (32 * 2 ^ m)"
    using "1.prems"(7) unfolding five_split [of i k] by (simp only: mult.assoc)
  have one: "1 \<le> (5 :: nat) ^ n" for n by simp
  have low: "5 ^ (4 * 2 ^ i) < (2 :: nat) ^ (32 * 2 ^ m)"
  proof -
    have "(5 :: nat) ^ (4 * 2 ^ i) \<le> 5 ^ (4 * 2 ^ i * k)" using "1.prems"(3) by (intro power_increasing) simp_all
    also have "\<dots> \<le> bval b * 5 ^ (4 * 2 ^ i * k)" using "1.prems"(5) by simp
    finally show ?thesis using "1.prems"(7) by simp
  qed
  note p = cached_sized [OF "1.prems"(1,2) low]
  have vlow: "?v < 2 ^ (32 * 2 ^ m)" using factor_less [OF total one] .
  have first: "gives w
      (if odd k then (case mult b ?p w of None \<Rightarrow> None | Some (b1, w) \<Rightarrow> Some (b1, Bfree (Some b) w)) else Some (Some b, w))
      (\<lambda>c w'. sized m c \<and> bval c = ?v \<and> p5s w' = p5s w)"
  proof (cases "odd k")
    case True
    have "gives w (mult b ?p w) (\<lambda>c w'. sized m c \<and> bval c = ?v \<and> p5s w' = p5s w)"
      by (rule gives_mono [OF mult_gives [OF "1.prems"(1,4) p(1) "1.prems"(5) _ "1.prems"(6)]]) (use True p(2) vlow in auto)
    then show ?thesis using True Bfree_ok sizedD(3) [OF "1.prems"(4)] by (auto simp: gives_def split: option.splits)
  qed (use "1.prems" in simp)
  have "gives w
      (unless_null (if odd k then (case mult b ?p w of None \<Rightarrow> None | Some (b1, w) \<Rightarrow> Some (b1, Bfree (Some b) w)) else Some (Some b, w)) id
        (\<lambda>b w. if k div 2 = 0 then Some (Some b, w)
           else if i + 1 < length (p5s w) then pow5_loop (i + 1) (k div 2) b w
           else unless_null (mult (p5s w ! i) (p5s w ! i) w) (Bfree (Some b)) (\<lambda>p51 w. pow5_loop (i + 1) (k div 2) b (w\<lparr>p5s := p5s w @ [p51]\<rparr>))))
      (\<lambda>c w'. sized m c \<and> bval c = bval b * 5 ^ (4 * 2 ^ i * k))"
  proof (rule unless_null_gives [OF first])
    fix c w' assume w': "dtoa_ok w'" "malloc_ok w' = malloc_ok w" and c: "sized m c \<and> bval c = ?v \<and> p5s w' = p5s w"
    have c0: "0 < bval c" using c "1.prems"(5) by simp
    have bound: "bval c * 5 ^ (4 * 2 ^ (i + 1) * (k div 2)) < 2 ^ (32 * 2 ^ m)" using total c by simp
    have res: "bval c * 5 ^ (4 * 2 ^ (i + 1) * (k div 2)) = bval b * 5 ^ (4 * 2 ^ i * k)"
      using c unfolding five_split [of i k] by (simp only: mult.assoc)
    show "gives w
        (if k div 2 = 0 then Some (Some c, w')
         else if i + 1 < length (p5s w') then pow5_loop (i + 1) (k div 2) c w'
         else unless_null (mult (p5s w' ! i) (p5s w' ! i) w') (Bfree (Some c)) (\<lambda>p51 w. pow5_loop (i + 1) (k div 2) c (w\<lparr>p5s := p5s w @ [p51]\<rparr>)))
        (\<lambda>c w'. sized m c \<and> bval c = bval b * 5 ^ (4 * 2 ^ i * k))"
    proof (cases "k div 2 = 0")
      case True
      then show ?thesis using w' c res by simp
    next
      case k2: False
      show ?thesis
      proof (cases "i + 1 < length (p5s w')")
        case True
        have "gives w' (pow5_loop (i + 1) (k div 2) c w') (\<lambda>c' w'. sized m c' \<and> bval c' = bval c * 5 ^ (4 * 2 ^ (i + 1) * (k div 2)))"
          by (rule "1.IH"(1)) (use k2 True w' c0 bound conjunct1 [OF c] "1.prems"(2,6) in auto)
        then show ?thesis unfolding res using k2 True w'(2) gives_state by auto
      next
        case False
        then have last: "i + 1 = length (p5s w)" "?p = p5s w' ! i" using "1.prems"(2) c by auto
        have sq: "bval ?p * bval ?p = 5 ^ (4 * 2 ^ (i + 1))" unfolding p(2) by (simp flip: power_add add: mult_2)
        have sqlow: "bval ?p * bval ?p < 2 ^ (32 * 2 ^ m)"
        proof -
          have "(5 :: nat) ^ (4 * 2 ^ (i + 1)) \<le> 5 ^ (4 * 2 ^ (i + 1) * (k div 2))" using k2 by (intro power_increasing) simp_all
          also have "\<dots> \<le> bval c * 5 ^ (4 * 2 ^ (i + 1) * (k div 2))" using c0 by simp
          finally show ?thesis unfolding sq using bound by simp
        qed
        have p0: "0 < bval ?p" unfolding p(2) by simp
        have "gives w' (unless_null (mult ?p ?p w') (Bfree (Some c)) (\<lambda>p51 w. pow5_loop (i + 1) (k div 2) c (w\<lparr>p5s := p5s w @ [p51]\<rparr>)))
            (\<lambda>c w'. sized m c \<and> bval c = bval b * 5 ^ (4 * 2 ^ i * k))"
        proof (rule unless_null_gives [OF mult_gives [OF w'(1) p(1) p(1) p0 p0 "1.prems"(6) sqlow]])
          fix r v assume v: "dtoa_ok v" "malloc_ok v = malloc_ok w'"
            and r: "sized m r \<and> bval r = bval ?p * bval ?p \<and> p5s v = p5s w' \<and> (bk r \<le> max (bk ?p) (bk ?p) \<or> 2 ^ (bk r - 1) \<le> wds r)"
          have "wds ?p \<le> wds r" using r p0 by (intro wds_mono) (auto intro: sizedD(1) [of m] sizedD(1) [OF p(1)])
          moreover have "bk ?p \<le> 1 \<or> 2 ^ (bk ?p - 1) \<le> wds ?p" using "1.prems"(1,2) by (auto simp: dtoa_ok_def)
          moreover have "2 ^ (bk r - 1) \<le> (2 :: nat) ^ (bk ?p - 1)" if "bk r \<le> bk ?p" using that by (intro power_increasing) simp_all
          ultimately have "bk r \<le> 1 \<or> 2 ^ (bk r - 1) \<le> wds r" using r by fastforce
          moreover have l: "length (p5s v) = i + 1" using r c last(1) by simp
          ultimately have ok: "dtoa_ok (v\<lparr>p5s := p5s v @ [r]\<rparr>)"
            using r sq v(1) l by (intro dtoa_ok_append) (auto simp: sizedD(1))
          have "gives (v\<lparr>p5s := p5s v @ [r]\<rparr>) (pow5_loop (i + 1) (k div 2) c (v\<lparr>p5s := p5s v @ [r]\<rparr>))
              (\<lambda>c' w'. sized m c' \<and> bval c' = bval c * 5 ^ (4 * 2 ^ (i + 1) * (k div 2)))"
            by (rule "1.IH"(2)) (use k2 False ok c0 bound conjunct1 [OF c] l "1.prems"(2,6) in simp_all)
          then show "gives w' (pow5_loop (i + 1) (k div 2) c (v\<lparr>p5s := p5s v @ [r]\<rparr>)) (\<lambda>c w'. sized m c \<and> bval c = bval b * 5 ^ (4 * 2 ^ i * k))"
            unfolding res by (rule gives_state) (simp add: v(2))
        qed (use c Bfree_ok sizedD(3) in auto)
        then show ?thesis using k2 False w'(2) last(2) gives_state by auto
      qed
    qed
  qed simp
  then show ?case using "1.prems"(2) by (simp add: pow5_loop.simps [of i k b w])
qed

lemma pow5mult_gives:
  assumes w: "dtoa_ok w" and b: "sized m b" "0 < bval b" and m: "m \<le> 28" and bound: "bval b * 5 ^ k < 2 ^ (32 * 2 ^ m)"
  shows "gives w (pow5mult b k w) (\<lambda>c w'. sized m c \<and> bval c = bval b * 5 ^ k)"
proof -
  have e: "5 ^ k = 5 ^ (k mod 4) * (5 :: nat) ^ (4 * 2 ^ 0 * (k div 4))" by (simp flip: power_add)
  have total: "bval b * 5 ^ (k mod 4) * 5 ^ (4 * 2 ^ 0 * (k div 4)) < 2 ^ (32 * 2 ^ m)" using bound unfolding e by (simp only: mult.assoc)
  have low: "bval b * 5 ^ (k mod 4) < 2 ^ (32 * 2 ^ m)" by (rule factor_less [OF total]) simp
  have times: "gives w (multadd b (int p) 0 w) (\<lambda>c w'. sized m c \<and> bval c = bval b * p \<and> p5s w' = p5s w)"
    if "0 < p" "p < 2 ^ 32" "bval b * p < 2 ^ (32 * 2 ^ m)" for p
    by (rule gives_mono [OF multadd_gives [OF w b(1) m]]) (use that low in simp_all)
  have "k mod 4 = 0 \<or> k mod 4 = 1 \<or> k mod 4 = 2 \<or> k mod 4 = 3" by linarith
  then have "gives w (if k mod 4 \<noteq> 0 then multadd b ([5, 25, 125] ! (k mod 4 - 1)) 0 w else Some (Some b, w))
      (\<lambda>c w'. sized m c \<and> bval c = bval b * 5 ^ (k mod 4) \<and> p5s w' = p5s w)"
    using times [of 5] times [of 25] times [of 125] low w b by (elim disjE) (simp_all add: power2_eq_square power3_eq_cube)
  then show ?thesis unfolding pow5mult_def
  proof (rule unless_null_gives)
    fix c w' assume w': "dtoa_ok w'" "malloc_ok w' = malloc_ok w" and c: "sized m c \<and> bval c = bval b * 5 ^ (k mod 4) \<and> p5s w' = p5s w"
    have c0: "0 < bval c" using c b(2) by simp
    have bc: "bval c * 5 ^ (4 * 2 ^ 0 * (k div 4)) < 2 ^ (32 * 2 ^ m)" using total c by simp
    have res: "bval c * 5 ^ (4 * 2 ^ 0 * (k div 4)) = bval b * 5 ^ k" using c e by (simp only: mult.assoc)
    have loop: "gives w (pow5_loop 0 (k div 4) c v) (\<lambda>c w'. sized m c \<and> bval c = bval b * 5 ^ k)"
      if "dtoa_ok v" "malloc_ok v = malloc_ok w" "p5s v \<noteq> []" "k div 4 \<noteq> 0" for v
      using pow5_loop_gives [OF that(1), of 0 "k div 4" m c] that c c0 bc m unfolding res by (auto intro: gives_state)
    show "gives w
        (if k div 4 = 0 then Some (Some c, w')
         else if p5s w' = [] then unless_null (i2b 625 w') (Bfree (Some c)) (\<lambda>p5 w. pow5_loop 0 (k div 4) c (w\<lparr>p5s := [p5]\<rparr>))
         else pow5_loop 0 (k div 4) c w')
        (\<lambda>c w'. sized m c \<and> bval c = bval b * 5 ^ k)"
    proof (cases "k div 4 \<noteq> 0 \<and> p5s w' = []")
      case True
      have "gives w' (unless_null (i2b 625 w') (Bfree (Some c)) (\<lambda>p5 w. pow5_loop 0 (k div 4) c (w\<lparr>p5s := [p5]\<rparr>)))
          (\<lambda>c w'. sized m c \<and> bval c = bval b * 5 ^ k)"
      proof (rule unless_null_gives [OF i2b_gives [OF w'(1)]])
        fix p v assume v: "dtoa_ok v" "malloc_ok v = malloc_ok w'"
          and p: "sized m p \<and> bk p = 1 \<and> \<not> sign p \<and> bval p = nat 625 \<and> wds p = 1 \<and> p5s v = p5s w'"
        then have "dtoa_ok (v\<lparr>p5s := [p]\<rparr>)" using dtoa_ok_append [of v p] True by (simp add: sized_def)
        then show "gives w' (pow5_loop 0 (k div 4) c (v\<lparr>p5s := [p]\<rparr>)) (\<lambda>c w'. sized m c \<and> bval c = bval b * 5 ^ k)"
          by (rule gives_state [OF loop]) (use v w'(2) True in auto)
      qed (use c Bfree_ok sizedD(3) in auto)
      then show ?thesis using True w'(2) gives_state by auto
    next
      case False
      show ?thesis
      proof (cases "k div 4 = 0")
        case True
        then have "k mod 4 = k" by simp
        then show ?thesis using w' c True by simp
      next
        case k4: False
        then have "gives w (pow5_loop 0 (k div 4) c w') (\<lambda>c w'. sized m c \<and> bval c = bval b * 5 ^ k)"
          by (intro loop [OF w']) (use False in simp_all)
        then show ?thesis using k4 False by (simp del: gives_Some)
      qed
    qed
  qed simp
qed

subsection \<open>Decimal digits\<close>

text \<open>The number that digits denote, after the digits that \<open>v\<close> denotes.\<close>

fun dec :: "nat \<Rightarrow> int list \<Rightarrow> nat" where
  "dec v [] = v"
| "dec v (c # cs) = dec (v * 10 + nat (c - 48)) cs"

lemma dec_ge: "v \<le> dec v cs"
proof (induction cs arbitrary: v)
  case (Cons c cs)
  have "v \<le> v * 10 + nat (c - 48)" by simp
  also have "\<dots> \<le> dec (v * 10 + nat (c - 48)) cs" by (rule Cons.IH)
  finally show ?case by simp
qed simp

lemma add_digits_gives:
  assumes "dtoa_ok w" "sized m b" "m \<le> 28" "\<forall>c \<in> set cs. 48 \<le> c \<and> c \<le> 57" "dec (bval b) cs < 2 ^ (32 * 2 ^ m)"
  shows "gives w (add_digits cs b w) (\<lambda>c w'. sized m c \<and> bval c = dec (bval b) cs)"
  using assms
proof (induction cs arbitrary: b w)
  case (Cons c cs)
  have "bval b * 10 + nat (c - 48) < 2 ^ (32 * 2 ^ m)"
    using dec_ge [of "bval b * 10 + nat (c - 48)" cs] Cons.prems(5) by simp
  then have step: "gives w (multadd b 10 (c - 48) w)
      (\<lambda>b' w'. sized m b' \<and> sign b' = sign b \<and> bval b' = bval b * nat 10 + nat (c - 48) \<and> p5s w' = p5s w)"
    using Cons.prems by (intro multadd_gives) simp_all
  show ?case unfolding add_digits.simps
  proof (rule unless_null_gives [OF step])
    fix b' w' assume w': "dtoa_ok w'" "malloc_ok w' = malloc_ok w"
      and b': "sized m b' \<and> sign b' = sign b \<and> bval b' = bval b * nat 10 + nat (c - 48) \<and> p5s w' = p5s w"
    then have v: "dec (bval b') cs = dec (bval b) (c # cs)" by simp
    have "gives w' (add_digits cs b' w') (\<lambda>c w'. sized m c \<and> bval c = dec (bval b') cs)"
      using Cons.prems b' v by (intro Cons.IH [OF w'(1)]) simp_all
    then show "gives w (add_digits cs b' w') (\<lambda>d w'. sized m d \<and> bval d = dec (bval b) (c # cs))"
      unfolding v by (rule gives_state) (rule w'(2))
  qed simp
qed simp

lemma s2b_gives:
  assumes w: "dtoa_ok w" and m: "m \<le> 28" and nd: "0 < nd" "nd \<le> 9 * 2 ^ m" and nd0: "nd0 \<le> nd" "nd < length s"
    and digits: "\<forall>c \<in> set cs. 48 \<le> c \<and> c \<le> 57"
    and places: "cs = (if 9 < nd0 then map ((!) s) ([9..<nd0] @ [nd0 + 1..<nd + 1]) else map ((!) s) [10..<nd + 1])"
    and bound: "dec (unat y9) cs < 2 ^ (32 * 2 ^ m)"
  shows "gives w (s2b s nd0 nd y9 w) (\<lambda>c w'. sized m c \<and> bval c = dec (unat y9) cs)"
proof -
  define ps where "ps = (if 9 < nd0 then [9..<nd0] @ [nd0 + 1..<nd + 1] else [10..<nd + 1])"
  have ps: "\<not> (\<exists>i \<in> set ps. length s \<le> i)" "map ((!) s) ps = cs" using nd0 places by (auto simp: ps_def)
  obtain k where k: "grow ((nd + 8) div 9) 1 0 = Some k" "0 < k \<longrightarrow> 2 ^ (k - 1) < (nd + 8) div 9"
    using grow_value [of 1 "(nd + 8) div 9" 0] by auto
  have "k \<le> m + 1"
  proof (cases k)
    case (Suc j)
    then have "2 ^ j \<le> (nd + 8) div 9" "(nd + 8) div 9 \<le> 2 ^ m" using k(2) nd(2) by auto
    then have "j \<le> m" by (rule pow2_le)
    then show ?thesis using Suc by simp
  qed simp
  have "gives w (unless_null (Balloc k w) id (\<lambda>b w.
          do { xs \<leftarrow> put_words 0 [y9] (words b); add_digits cs (b\<lparr>words := xs, wds := 1\<rparr>) w }))
      (\<lambda>c w'. sized m c \<and> bval c = dec (unat y9) cs)"
  proof (rule unless_null_gives [OF Balloc_gives [OF w]])
    fix b w' assume w': "dtoa_ok w'" "malloc_ok w' = malloc_ok w" and b: "shape b \<and> bk b = k \<and> wds b = 0 \<and> \<not> sign b \<and> p5s w' = p5s w"
    let ?b = "b\<lparr>words := y9 # drop 1 (words b), wds := 1\<rparr>"
    have s: "shape ?b" "bval ?b = unat y9" using written [of b "[y9]" 1 ?b] b by simp_all
    have "normal ?b" using s(1) by (intro normalI) simp_all
    then have "sized m ?b" using b \<open>k \<le> m + 1\<close> by (simp add: sized_def)
    from add_digits_gives [OF w'(1) this m digits] bound s(2)
    have "gives w' (add_digits cs ?b w') (\<lambda>c w'. sized m c \<and> bval c = dec (unat y9) cs)" by simp
    then have "gives w (add_digits cs ?b w') (\<lambda>c w'. sized m c \<and> bval c = dec (unat y9) cs)" by (rule gives_state) (rule w'(2))
    moreover have "put_words 0 [y9] (words b) = Some (y9 # drop 1 (words b))" using b by (simp add: put_front shape_def)
    ultimately show "gives w (do { xs \<leftarrow> put_words 0 [y9] (words b); add_digits cs (b\<lparr>words := xs, wds := 1\<rparr>) w' })
        (\<lambda>c w'. sized m c \<and> bval c = dec (unat y9) cs)" by simp
  qed (use \<open>k \<le> m + 1\<close> m in simp_all)
  then show ?thesis using ps k(1) by (simp add: s2b_def Let_def ps_def [symmetric] del: One_nat_def)
qed

subsection \<open>Bits of a word\<close>

lemma and_low: "x AND (2 ^ n - 1) = 0 \<longleftrightarrow> unat (x :: u32) mod 2 ^ n = 0"
  using unat_and_mask [of x n] by (metis mask_eq_exp_minus_1 unat_eq_0)

lemma lo0bits_step_value:
  assumes "unat x mod 2 ^ (2 * s) \<noteq> 0" "lo0bits_step (2 ^ s - 1) s (k, x) = (k', x')" "N = unat x * 2 ^ k"
  shows "unat x' mod 2 ^ s \<noteq> 0 \<and> N = unat x' * 2 ^ k' \<and> k' \<le> k + s"
proof (cases "unat x mod 2 ^ s = 0")
  case True
  then have r: "k' = k + s" "x' = drop_bit s x" using assms(2) by (simp_all add: lo0bits_step_def and_low)
  have d: "unat x' * 2 ^ s = unat x" using True div_mult_mod_eq [of "unat x" "2 ^ s"] by (simp add: r unat_drop_bit)
  have "unat x' mod 2 ^ s \<noteq> 0"
  proof
    assume "unat x' mod 2 ^ s = 0"
    then have "unat x' * 2 ^ s mod (2 ^ s * 2 ^ s) = 0" by (simp add: mod_mult_mult2)
    then show False using assms(1) d by (simp add: mult_2 power_add)
  qed
  then show ?thesis using d assms(3) r by (simp add: power_add mult.assoc flip: d)
next
  case False
  then show ?thesis using assms by (auto simp: lo0bits_step_def and_low)
qed

lemma and_two: "y AND 2 = 0 \<longleftrightarrow> even (unat (y :: u32) div 2)"
  using and_exp_eq_0_iff_not_bit [of y 1] by (simp add: bit_iff_odd even_unat [symmetric] unat_div del: even_unat)

lemma lo0bits_value:
  assumes "y \<noteq> 0" "lo0bits y = (k, x)" shows "unat y = unat x * 2 ^ k \<and> odd (unat x) \<and> k < 32"
proof (cases "y AND 7 = 0")
  case False
  then have m8: "unat y mod 8 \<noteq> 0" using and_low [of y 3] by simp
  have odd: "y AND 1 \<noteq> 0 \<longleftrightarrow> odd (unat y)" using and_low [of y 1] by (simp add: odd_iff_mod_2_eq_one del: even_unat)
  consider "k = 0" "x = y" "odd (unat y)" | "k = 1" "x = drop_bit 1 y" "even (unat y)" "odd (unat y div 2)"
    | "k = 2" "x = drop_bit 2 y" "even (unat y)" "even (unat y div 2)"
    using assms(2) False odd and_two [of y] by (auto simp: lo0bits_def simp del: even_unat split: if_splits)
  then show ?thesis
  proof cases
    case 3
    then have "odd (unat y div 4) \<and> unat y = unat y div 4 * 4" using m8 by presburger
    then show ?thesis using 3(1,2) by (simp add: unat_drop_bit del: even_unat)
  qed (simp_all add: unat_drop_bit del: even_unat)
next
  case True
  define p1 where "p1 = lo0bits_step 0xFFFF 16 (0, y)"
  define p2 where "p2 = lo0bits_step 0xFF 8 p1"
  define p3 where "p3 = lo0bits_step 0xF 4 p2"
  obtain k1 x1 where p1: "p1 = (k1, x1)" by (cases p1)
  obtain k2 x2 where p2: "p2 = (k2, x2)" by (cases p2)
  obtain k3 x3 where p3: "p3 = (k3, x3)" by (cases p3)
  obtain k4 x4 where p4: "lo0bits_step 0x3 2 p3 = (k4, x4)" by (cases "lo0bits_step 0x3 2 p3")
  have "unat y mod 2 ^ (2 * 16) \<noteq> 0" using assms(1) u32_bound [of y] by (simp add: unat_eq_0)
  then have 1: "unat x1 mod 2 ^ 16 \<noteq> 0 \<and> unat y = unat x1 * 2 ^ k1 \<and> k1 \<le> 16"
    using lo0bits_step_value [of y 16 0 k1 x1 "unat y"] p1 by (simp add: p1_def)
  then have 2: "unat x2 mod 2 ^ 8 \<noteq> 0 \<and> unat y = unat x2 * 2 ^ k2 \<and> k2 \<le> 24"
    using lo0bits_step_value [of x1 8 k1 k2 x2 "unat y"] p1 p2 by (simp add: p2_def)
  then have 3: "unat x3 mod 2 ^ 4 \<noteq> 0 \<and> unat y = unat x3 * 2 ^ k3 \<and> k3 \<le> 28"
    using lo0bits_step_value [of x2 4 k2 k3 x3 "unat y"] p2 p3 by (simp add: p3_def)
  then have 4: "unat x4 mod 2 ^ 2 \<noteq> 0 \<and> unat y = unat x4 * 2 ^ k4 \<and> k4 \<le> 30"
    using lo0bits_step_value [of x3 2 k3 k4 x4 "unat y"] p3 p4 by simp
  have run: "(k, x) = (if x4 AND 1 = 0 then (if drop_bit 1 x4 = 0 then (32, y) else (k4 + 1, drop_bit 1 x4)) else (k4, x4))"
    using assms(2) True p4 by (simp add: lo0bits_def p1_def p2_def p3_def)
  have odd: "x4 AND 1 = 0 \<longleftrightarrow> even (unat x4)" using and_low [of x4 1] by (simp add: even_iff_mod_2_eq_zero del: even_unat)
  show ?thesis
  proof (cases "even (unat x4)")
    case True
    have "unat x4 mod 4 \<noteq> 0" using 4 by simp
    then have h: "odd (unat x4 div 2)" "unat x4 = unat x4 div 2 * 2" using True by presburger+
    then have "unat (drop_bit 1 x4) \<noteq> 0" using odd_pos [OF h(1)] by (simp add: unat_drop_bit)
    then have "drop_bit 1 x4 \<noteq> 0" by auto
    then have "k = k4 + 1" "unat x = unat x4 div 2" using run odd True by (auto simp: unat_drop_bit simp del: One_nat_def)
    then show ?thesis using 4 h by (simp del: even_unat)
  next
    case False
    then show ?thesis using run odd 4 by (simp del: even_unat)
  qed
qed

lemma and_high:
  assumes "n \<le> 32" "k = push_bit (32 - n) (2 ^ n - 1)"
  shows "(x :: u32) AND k = 0 \<longleftrightarrow> unat x < 2 ^ (32 - n)"
proof -
  have "x AND k = push_bit (32 - n) (drop_bit (32 - n) x)"
    unfolding assms(2) using assms(1) by (intro bit_word_eqI) (auto simp: bit_simps simp flip: mask_eq_exp_minus_1)
  moreover have "unat (push_bit (32 - n) (drop_bit (32 - n) x)) = unat x div 2 ^ (32 - n) * 2 ^ (32 - n)"
    using u32_bound [of x] by (subst unat_push_bit) (simp_all add: unat_drop_bit le_less_trans [OF div_times_less_eq_dividend])
  ultimately show ?thesis by (metis div_eq_0_iff mult_is_0 power_not_zero unat_eq_0 zero_neq_numeral)
qed

lemma hi0bits_step_value:
  assumes "2 ^ (32 - 2 * s) \<le> unat x" "2 * s \<le> 32" "hi0bits_step (push_bit (32 - s) (2 ^ s - 1)) s (k, x) = (k', x')" "unat x = N * 2 ^ k"
  shows "2 ^ (32 - s) \<le> unat x' \<and> unat x' = N * 2 ^ k' \<and> k' \<le> k + s"
proof (cases "unat x < 2 ^ (32 - s)")
  case True
  then have r: "k' = k + s" "x' = push_bit s x" using assms(2,3) and_high [OF _ refl, of s x] by (simp_all add: hi0bits_step_def)
  have "unat x * 2 ^ s < 2 ^ (32 - s) * 2 ^ s" using True by simp
  also have "2 ^ (32 - s) * 2 ^ s = (2 :: nat) ^ 32" using assms(2) by (simp flip: power_add)
  finally have v: "unat x' = unat x * 2 ^ s" unfolding r by (intro unat_push_bit) simp
  have "(2 :: nat) ^ (32 - s) = 2 ^ (32 - 2 * s) * 2 ^ s" using assms(2) by (simp flip: power_add)
  then have "2 ^ (32 - s) \<le> unat x'" unfolding v using assms(1) by simp
  then show ?thesis using v assms(4) r by (simp add: power_add)
next
  case False
  then show ?thesis using assms and_high [OF _ refl, of s x] by (auto simp: hi0bits_step_def)
qed

lemma hi0bits_value:
  assumes "x \<noteq> 0" shows "hi0bits x < 32 \<and> 2 ^ 31 \<le> unat x * 2 ^ hi0bits x \<and> unat x * 2 ^ hi0bits x < 2 ^ 32"
proof -
  define p1 where "p1 = hi0bits_step 0xFFFF0000 16 (0, x)"
  define p2 where "p2 = hi0bits_step 0xFF000000 8 p1"
  define p3 where "p3 = hi0bits_step 0xF0000000 4 p2"
  obtain k1 x1 where p1: "p1 = (k1, x1)" by (cases p1)
  obtain k2 x2 where p2: "p2 = (k2, x2)" by (cases p2)
  obtain k3 x3 where p3: "p3 = (k3, x3)" by (cases p3)
  obtain k4 x4 where p4: "hi0bits_step 0xC0000000 2 p3 = (k4, x4)" by (cases "hi0bits_step 0xC0000000 2 p3")
  have "2 ^ (32 - 2 * 16) \<le> unat x" using assms by (simp add: Suc_le_eq unat_gt_0)
  then have 1: "2 ^ 16 \<le> unat x1 \<and> unat x1 = unat x * 2 ^ k1 \<and> k1 \<le> 16"
    using hi0bits_step_value [of 16 x 0 k1 x1 "unat x"] p1 by (simp add: p1_def)
  then have 2: "2 ^ 24 \<le> unat x2 \<and> unat x2 = unat x * 2 ^ k2 \<and> k2 \<le> 24"
    using hi0bits_step_value [of 8 x1 k1 k2 x2 "unat x"] p1 p2 by (simp add: p2_def)
  then have 3: "2 ^ 28 \<le> unat x3 \<and> unat x3 = unat x * 2 ^ k3 \<and> k3 \<le> 28"
    using hi0bits_step_value [of 4 x2 k2 k3 x3 "unat x"] p2 p3 by (simp add: p3_def)
  then have 4: "2 ^ 30 \<le> unat x4 \<and> unat x4 = unat x * 2 ^ k4 \<and> k4 \<le> 30"
    using hi0bits_step_value [of 2 x3 k3 k4 x4 "unat x"] p3 p4 by simp
  have top: "x4 AND 0x80000000 = 0 \<longleftrightarrow> unat x4 < 2 ^ 31" using and_high [of 1 "0x80000000" x4] by simp
  have next_bit: "x4 AND 0x40000000 \<noteq> 0" if "unat x4 < 2 ^ 31"
  proof -
    have "unat x4 div 2 ^ 30 = 1" using that 4 by (intro div_nat_eqI) simp_all
    then have "bit x4 30" using bit_iff_odd [of "unat x4" 30] by (simp add: bit_unsigned_iff)
    then show ?thesis using and_exp_eq_0_iff_not_bit [of x4 30] by simp
  qed
  have run: "hi0bits x = (if x4 AND 0x80000000 = 0 then (if x4 AND 0x40000000 = 0 then 32 else k4 + 1) else k4)"
    using p4 by (simp add: hi0bits_def p1_def p2_def p3_def)
  show ?thesis
  proof (cases "unat x4 < 2 ^ 31")
    case True
    then have "hi0bits x = k4 + 1" using run top next_bit by simp
    then show ?thesis using 4 True by (simp add: mult.assoc [symmetric])
  next
    case False
    then have "hi0bits x = k4" using run top by simp
    then show ?thesis using 4 False u32_bound [of x4] by simp
  qed
qed

subsection \<open>Doubles\<close>

lemma d2b_fields:
  fixes d0 :: u32
  defines "de \<equiv> drop_bit 20 (d0 AND 0x7FFFFFFF)"
  shows "unat de = biased d0" "unat (if de \<noteq> 0 then (d0 AND 0xFFFFF) OR 0x100000 else d0 AND 0xFFFFF) =
    (if biased d0 = 0 then 0 else 2 ^ 20) + unat d0 mod 2 ^ 20"
proof -
  have m: "(0x7FFFFFFF :: u32) = mask 31" "(0xFFFFF :: u32) = mask 20" by (simp_all add: mask_eq_exp_minus_1)
  have "unat de = unat d0 mod 2 ^ 31 div 2 ^ 20" unfolding de_def m(1) by (simp only: unat_drop_bit unat_and_mask)
  also have "\<dots> = biased d0" unfolding biased_def using mod_mult2_eq [of "unat d0" "2 ^ 20" "2 ^ 11"] by simp
  finally show b: "unat de = biased d0" .
  have low: "unat (d0 AND 0xFFFFF) = unat d0 mod 2 ^ 20" unfolding m(2) by (simp only: unat_and_mask)
  have "unat (push_bit 20 1 OR (d0 AND 0xFFFFF)) = unat (1 :: u32) * 2 ^ 20 mod 2 ^ 32 + unat (d0 AND 0xFFFFF)"
    by (rule unat_glue) (simp_all add: low)
  then have "unat ((d0 AND 0xFFFFF) OR 0x100000) = 2 ^ 20 + unat d0 mod 2 ^ 20" unfolding low by (simp add: or.commute)
  then show "unat (if de \<noteq> 0 then (d0 AND 0xFFFFF) OR 0x100000 else d0 AND 0xFFFFF) = (if biased d0 = 0 then 0 else 2 ^ 20) + unat d0 mod 2 ^ 20"
    using b low by (simp add: unat_eq_0 [symmetric])
qed

text \<open>What \<open>d2b\<close> shifts out: the words of an odd number.\<close>

definition d2b_words :: "u32 \<Rightarrow> u32 \<Rightarrow> u32 list \<times> nat" where
  "d2b_words z d1 =
     (if d1 \<noteq> 0 then (case lo0bits d1 of (k, y) \<Rightarrow> if k \<noteq> 0 then ([y OR push_bit (32 - k) z, drop_bit k z], k) else ([y, z], k))
      else case lo0bits z of (k, z) \<Rightarrow> ([z], k + 32))"

lemma d2b_words_value:
  assumes "unat z * 2 ^ 32 + unat d1 \<noteq> 0" "d2b_words z d1 = (ws, k)"
  shows "nat_of ws * 2 ^ k = unat z * 2 ^ 32 + unat d1 \<and> odd (nat_of ws) \<and> 1 \<le> length ws \<and> length ws \<le> 2 \<and> k < 64"
proof (cases "d1 = 0")
  case True
  then have "z \<noteq> 0" using assms(1) by auto
  obtain j y where l: "lo0bits z = (j, y)" by (cases "lo0bits z")
  from lo0bits_value [OF \<open>z \<noteq> 0\<close> l] show ?thesis
    using assms(2) True l by (auto simp: d2b_words_def power_add simp del: even_unat)
next
  case False
  obtain j y where l: "lo0bits d1 = (j, y)" by (cases "lo0bits d1")
  note v = lo0bits_value [OF False l]
  show ?thesis
  proof (cases "j = 0")
    case True
    then show ?thesis using assms(2) False l v by (auto simp: d2b_words_def simp del: even_unat)
  next
    case j: False
    then have ws: "ws = [y OR push_bit (32 - j) z, drop_bit j z]" "k = j" using assms(2) False l by (auto simp: d2b_words_def)
    have p: "(2 :: nat) ^ 32 = 2 ^ (32 - j) * 2 ^ j" using v by (simp flip: power_add)
    have "unat y * 2 ^ j < 2 ^ (32 - j) * 2 ^ j" using v u32_bound [of d1] unfolding p by simp
    then have y: "unat y < 2 ^ (32 - j)" by simp
    have glue: "unat (y OR push_bit (32 - j) z) = unat z * 2 ^ (32 - j) mod 2 ^ 32 + unat y"
      using unat_glue [OF y, of z] by (simp add: or.commute)
    have m: "unat z * 2 ^ (32 - j) mod 2 ^ 32 = (unat z mod 2 ^ j) * 2 ^ (32 - j)"
      unfolding p mult.commute [of "unat z"] mod_mult_mult1 by (rule mult.commute)
    have "nat_of ws * 2 ^ k = (unat z mod 2 ^ j) * (2 ^ (32 - j) * 2 ^ j) + unat y * 2 ^ j + 2 ^ 32 * (unat z div 2 ^ j * 2 ^ j)"
      unfolding ws by (simp add: glue [unfolded m] unat_drop_bit algebra_simps)
    also have "\<dots> = 2 ^ 32 * (unat z mod 2 ^ j + unat z div 2 ^ j * 2 ^ j) + unat d1"
    proof -
      have "A * P + Y + P * D = P * (A + D) + Y" for A P D Y :: nat by (simp add: algebra_simps)
      then show ?thesis unfolding p [symmetric] using v by simp
    qed
    also have "\<dots> = unat z * 2 ^ 32 + unat d1" by (simp only: mod_div_mult_eq mult.commute [of "2 ^ 32"])
    finally have val: "nat_of ws * 2 ^ k = unat z * 2 ^ 32 + unat d1" .
    have "even ((unat z mod 2 ^ j) * 2 ^ (32 - j))" using v by simp
    then have "odd (nat_of ws)" using v unfolding ws by (simp add: glue [unfolded m] del: even_unat)
    then show ?thesis using val v ws by simp
  qed
qed

lemma d2b_gives:
  assumes w: "dtoa_ok w" and d: "mant d0 d1 \<noteq> 0"
  shows "gives w (d2b d0 d1 w) (\<lambda>(b, e, bits) w'. normal b \<and> bk b = 1 \<and> odd (bval b) \<and> p5s w' = p5s w \<and>
    (\<exists>k. mant d0 d1 = bval b * 2 ^ k \<and> e = expo d0 + int k) \<and> 0 < bits \<and> 2 ^ (nat bits - 1) \<le> bval b \<and> bval b < 2 ^ nat bits)"
proof -
  define z where "z = (if drop_bit 20 (d0 AND 0x7FFFFFFF) \<noteq> 0 then (d0 AND 0xFFFFF) OR 0x100000 else d0 AND 0xFFFFF)"
  have z: "unat z = (if biased d0 = 0 then 0 else 2 ^ 20) + unat d0 mod 2 ^ 20" unfolding z_def by (rule d2b_fields(2))
  obtain ws k where run: "d2b_words z d1 = (ws, k)" by (cases "d2b_words z d1")
  have m: "unat z * 2 ^ 32 + unat d1 = mant d0 d1" by (simp add: mant_def z)
  note ws = d2b_words_value [OF _ run, unfolded m, OF d]
  define i where "i = (if length ws = 2 \<and> ws ! 1 \<noteq> 0 then 2 else 1 :: nat)"
  have i: "i \<le> length ws" "nat_of (take i ws) = nat_of ws" "1 < i \<longrightarrow> ws ! (i - 1) \<noteq> 0" "0 < i"
  proof -
    consider x where "ws = [x]" | x y where "ws = [x, y]" using ws by (cases ws; cases "tl ws") auto
    then show "i \<le> length ws" "nat_of (take i ws) = nat_of ws" "1 < i \<longrightarrow> ws ! (i - 1) \<noteq> 0" "0 < i"
      by (cases; simp add: i_def)+
  qed
  define bits where "bits = (if drop_bit 20 (d0 AND 0x7FFFFFFF) \<noteq> 0 then 53 - int k else 32 * int i - int (hi0bits (ws ! (i - 1))))"
  have odd_pos: "0 < nat_of ws" using ws odd_pos by blast
  have bits: "0 < bits \<and> 2 ^ (nat bits - 1) \<le> nat_of ws \<and> nat_of ws < 2 ^ nat bits"
  proof (cases "biased d0 = 0")
    case False
    then have b: "bits = 53 - int k" using d2b_fields(1) [of d0] by (auto simp: bits_def)
    have lo: "2 ^ 52 \<le> nat_of ws * 2 ^ k" using ws False by (simp add: mant_def)
    have "unat d0 mod 2 ^ 20 < 2 ^ 20" by simp
    then have hi: "nat_of ws * 2 ^ k < 2 ^ 53" using ws False u32_bound [of d1] by (simp add: mant_def)
    have "1 * 2 ^ k < (2 :: nat) ^ 53" by (rule le_less_trans [OF _ hi]) (use odd_pos in \<open>simp add: Suc_le_eq\<close>)
    then have k: "k < 53" using power_less_imp_less_exp [of 2 k 53] by simp
    have "(2 :: nat) ^ 52 = 2 ^ (52 - k) * 2 ^ k" "(2 :: nat) ^ 53 = 2 ^ (53 - k) * 2 ^ k" using k by (simp_all flip: power_add)
    then have "2 ^ (52 - k) * 2 ^ k \<le> nat_of ws * 2 ^ k" "nat_of ws * 2 ^ k < 2 ^ (53 - k) * 2 ^ k" using lo hi by argo+
    then have "2 ^ (52 - k) \<le> nat_of ws" "nat_of ws < 2 ^ (53 - k)" by simp_all
    then show ?thesis using b k by (simp add: nat_diff_distrib)
  next
    case True
    let ?t = "ws ! (i - 1)" and ?r = "take (i - 1) ws"
    have b: "bits = 32 * int i - int (hi0bits ?t)" using d2b_fields(1) [of d0] True by (auto simp: bits_def unat_eq_0)
    have "take i ws = ?r @ [?t]" using i(1,4) by (cases i) (simp_all add: take_Suc_conv_app_nth)
    then have v: "nat_of ws = nat_of ?r + 2 ^ (32 * (i - 1)) * unat ?t" using i by (simp add: nat_of_snoc flip: i(2))
    have "?t \<noteq> 0"
    proof (cases "1 < i")
      case False
      then have "nat_of ws = unat ?t" using v i(4) by simp
      then show ?thesis using odd_pos by auto
    qed (use i(3) in simp)
    note h = hi0bits_value [OF this]
    have r: "nat_of ?r < 2 ^ (32 * (i - 1))" using nat_of_less [of ?r] i(1) by simp
    have nb: "nat bits = 32 * (i - 1) + (32 - hi0bits ?t)" using b h i(4) by (cases i) auto
    have p: "(2 :: nat) ^ 31 = 2 ^ (31 - hi0bits ?t) * 2 ^ hi0bits ?t" "(2 :: nat) ^ 32 = 2 ^ (32 - hi0bits ?t) * 2 ^ hi0bits ?t"
      using h by (simp_all flip: power_add)
    have t: "2 ^ (31 - hi0bits ?t) \<le> unat ?t" "unat ?t < 2 ^ (32 - hi0bits ?t)" using h unfolding p by simp_all
    have "nat bits - 1 = 32 * (i - 1) + (31 - hi0bits ?t)" using nb h by linarith
    then have "2 ^ (nat bits - 1) = (2 :: nat) ^ (32 * (i - 1)) * 2 ^ (31 - hi0bits ?t)" by (simp only: power_add)
    also have "\<dots> \<le> 2 ^ (32 * (i - 1)) * unat ?t" using t(1) by (rule mult_left_mono) simp
    finally have lo: "2 ^ (nat bits - 1) \<le> nat_of ws" unfolding v by simp
    have "nat_of ws < 2 ^ (32 * (i - 1)) * (unat ?t + 1)" using r v by simp
    also have "\<dots> \<le> 2 ^ (32 * (i - 1)) * 2 ^ (32 - hi0bits ?t)" using t(2) by (intro mult_left_mono) simp_all
    finally have "nat_of ws < 2 ^ nat bits" unfolding nb power_add .
    moreover have "0 < nat bits" using nb h by linarith
    ultimately show ?thesis using lo by simp
  qed
  show ?thesis unfolding d2b_def
  proof (rule unless_null_gives [OF Balloc_gives [OF w]])
    fix b w' assume w': "dtoa_ok w'" "malloc_ok w' = malloc_ok w" and b: "shape b \<and> bk b = 1 \<and> wds b = 0 \<and> \<not> sign b \<and> p5s w' = p5s w"
    let ?b = "b\<lparr>words := ws @ drop (length ws) (words b), wds := i\<rparr>"
    have s: "shape ?b" "bval ?b = nat_of ws" using written [of b ws i ?b] b ws i by simp_all
    have nb: "normal ?b" using s(1) i by (auto simp: normal_def nth_append)
    have put: "put_words 0 ws (words b) = Some (ws @ drop (length ws) (words b))" using b ws by (simp add: put_front shape_def)
    have e: "uint (drop_bit 20 (d0 AND 0x7FFFFFFF)) = int (biased d0)" using d2b_fields(1) [of d0] by (metis uint_nat)
    have nt: "(ws @ drop (length ws) (words b)) ! (i - 1) = ws ! (i - 1)" using i by (auto simp: nth_append)
    have bz: "drop_bit 20 (d0 AND 0x7FFFFFFF) = 0 \<longleftrightarrow> biased d0 = 0" using d2b_fields(1) [of d0] by (metis unat_eq_0)
    show "gives w (let z = d0 AND 0xFFFFF; de = drop_bit 20 (d0 AND 0x7FFFFFFF); z = (if de \<noteq> 0 then z OR 0x100000 else z);
          (ws, k) = (if d1 \<noteq> 0 then (case lo0bits d1 of (k, y) \<Rightarrow> if k \<noteq> 0 then ([y OR push_bit (32 - k) z, drop_bit k z], k) else ([y, z], k))
            else case lo0bits z of (k, z) \<Rightarrow> ([z], k + 32));
          i = (if length ws = 2 \<and> ws ! 1 \<noteq> 0 then 2 else 1)
        in do { xs \<leftarrow> put_words 0 ws (words b);
                Some (Some (b\<lparr>words := xs, wds := i\<rparr>,
                  if de \<noteq> 0 then (uint de - 1023 - 52 + int k, 53 - int k)
                  else (uint de - 1023 - 52 + 1 + int k, 32 * int i - int (hi0bits (xs ! (i - 1))))), w') })
        (\<lambda>(b, e, bits) w'. normal b \<and> bk b = 1 \<and> odd (bval b) \<and> p5s w' = p5s w \<and>
          (\<exists>k. mant d0 d1 = bval b * 2 ^ k \<and> e = expo d0 + int k) \<and> 0 < bits \<and> 2 ^ (nat bits - 1) \<le> bval b \<and> bval b < 2 ^ nat bits)"
    proof (cases "biased d0 = 0")
      case True
      then have "bits = 32 * int i - int (hi0bits (ws ! (i - 1)))" unfolding bits_def bz by simp
      then show ?thesis using w' b nb s(2) ws bits True
        unfolding Let_def z_def [symmetric] d2b_words_def [symmetric] run prod.case i_def [symmetric]
        unfolding put e bind.simps nt bz
        by (auto simp: expo_def)
    next
      case False
      then have "bits = 53 - int k" unfolding bits_def bz by simp
      then show ?thesis using w' b nb s(2) ws bits False
        unfolding Let_def z_def [symmetric] d2b_words_def [symmetric] run prod.case i_def [symmetric]
        unfolding put e bind.simps nt bz
        by (auto simp: expo_def)
    qed
  qed simp_all
qed

end
