(* ===== verification/Dtobase.thy ===== *)
theory Dtobase
  imports Bignum_Powers
begin

text \<open>
  Printing a number in a base from 2 to 36, \<open>JS_dtobasestr\<close> of \<open>js/src/jsdtoa.c\<close>, on top of the multiple-precision
  integers.  A double is its two words.  The floor of a double and the difference of two, which the compiler and the
  mathematical library provide, are arguments; comparison with a constant, conversion to an integer and negation are
  written out on the words.  Characters are bytes.
\<close>

definition BASEDIGIT :: "u32 \<Rightarrow> u8" where
  "BASEDIGIT digit = ucast (if digit \<ge> 10 then 87 + digit else 48 + digit)"

subsection \<open>The integer part\<close>

text \<open>The digits of a word and of a number, least significant first.\<close>

partial_function (option) word_digits :: "u32 \<Rightarrow> u32 \<Rightarrow> u32 list option" where
  "word_digits base n =
     (if n div base = 0 then Some [n - n div base * base]
      else do { ds \<leftarrow> word_digits base (n div base); Some ((n - n div base * base) # ds) })"

partial_function (option) number_digits :: "u32 \<Rightarrow> Bigint \<Rightarrow> (u32 list \<times> Bigint) option" where
  "number_digits base b =
     do { (digit, b) \<leftarrow> divrem b base;
          if wds b = 0 then Some ([digit], b)
          else do { (ds, b) \<leftarrow> number_digits base b; Some (digit # ds, b) } }"

text \<open>Whether the value of a double without its sign is at most \<open>2 ^ 32 - 1\<close>, and that value without its fraction.\<close>

definition at_most_word :: "u32 \<Rightarrow> u32 \<Rightarrow> bool" where
  "at_most_word d0 d1 =
     (if expo d0 < 0 then mant d0 d1 \<le> (2 ^ 32 - 1) * 2 ^ nat (- expo d0) else mant d0 d1 * 2 ^ nat (expo d0) \<le> 2 ^ 32 - 1)"

definition to_word :: "u32 \<Rightarrow> u32 \<Rightarrow> u32" where
  "to_word d0 d1 = word_of_nat (if expo d0 < 0 then mant d0 d1 div 2 ^ nat (- expo d0) else mant d0 d1 * 2 ^ nat (expo d0))"

text \<open>The digits are written in reverse and then reversed in place.\<close>

definition integer_part :: "u32 \<Rightarrow> u32 \<Rightarrow> u32 \<Rightarrow> Dtoa \<Rightarrow> u8 list allocating" where
  "integer_part base d0 d1 w =
     (if at_most_word d0 d1 then
        let n = to_word d0 d1 in
        if n \<noteq> 0 then (case word_digits base n of None \<Rightarrow> None | Some ds \<Rightarrow> Some (Some (rev (map BASEDIGIT ds)), w))
        else Some (Some [48], w)
      else
        unless_null (d2b d0 d1 w) id (\<lambda>(b, e, bits) w.
          if e < 0 then None
          else
            unless_null (lshift b (nat e) w) id (\<lambda>b w.
              case number_digits base b of
                None \<Rightarrow> None
              | Some (ds, b) \<Rightarrow> Some (Some (rev (map BASEDIGIT ds)), Bfree (Some b) w))))"

subsection \<open>The fraction\<close>

text \<open>The two margins are one number, held twice, unless the margin below is half of the margin above.\<close>

datatype margins = Same Bigint | Both Bigint Bigint

fun mlo :: "margins \<Rightarrow> Bigint" where
  "mlo (Same m) = m"
| "mlo (Both lo hi) = lo"

fun mhi :: "margins \<Rightarrow> Bigint" where
  "mhi (Same m) = m"
| "mhi (Both lo hi) = hi"

fun free_margins :: "margins \<Rightarrow> Dtoa \<Rightarrow> Dtoa" where
  "free_margins (Same m) w = Bfree (Some m) w"
| "free_margins (Both lo hi) w = Bfree (Some hi) (Bfree (Some lo) w)"

text \<open>The label \<open>nomem2\<close>: \<open>b\<close> and \<open>s\<close> may be null.\<close>

definition nomem2 :: "Bigint option \<Rightarrow> Bigint option \<Rightarrow> margins \<Rightarrow> Dtoa \<Rightarrow> Dtoa" where
  "nomem2 b s ms w = free_margins ms (Bfree s (Bfree b w))"

fun scale_margins :: "u32 \<Rightarrow> (Dtoa \<Rightarrow> Dtoa) \<Rightarrow> margins \<Rightarrow> Dtoa \<Rightarrow> margins allocating" where
  "scale_margins base release (Same m) w = unless_null (multadd m (uint base) 0 w) release (\<lambda>m w. Some (Some (Same m), w))"
| "scale_margins base release (Both lo hi) w =
     unless_null (multadd lo (uint base) 0 w) (\<lambda>w. Bfree (Some hi) (release w)) (\<lambda>lo w.
       unless_null (multadd hi (uint base) 0 w) (\<lambda>w. Bfree (Some lo) (release w)) (\<lambda>hi w. Some (Some (Both lo hi), w)))"

text \<open>One round of the loop that writes the digits of the fraction: the digit, whether it is the last, and the numbers.
  \<open>even_mant\<close> is \<open>!(word1(d) & 1)\<close>.\<close>

definition last_digit :: "bool \<Rightarrow> Bigint \<Rightarrow> Bigint \<Rightarrow> margins \<Rightarrow> u32 \<Rightarrow> int \<Rightarrow> int \<Rightarrow> Dtoa \<Rightarrow> (u32 \<times> bool \<times> Bigint \<times> margins) allocating" where
  "last_digit even_mant b s ms digit j j1 w =
     (if j1 = 0 \<and> even_mant then Some (Some (if j > 0 then digit + 1 else digit, True, b, ms), w)
      else if j < 0 \<or> (j = 0 \<and> even_mant) then
        (if j1 > 0 then
           unless_null (lshift b 1 w) (nomem2 None (Some s) ms) (\<lambda>b w.
             do { j1 \<leftarrow> cmp b s; Some (Some (if j1 > 0 then digit + 1 else digit, True, b, ms), w) })
         else Some (Some (digit, True, b, ms), w))
      else if j1 > 0 then Some (Some (digit + 1, True, b, ms), w)
      else Some (Some (digit, False, b, ms), w))"

definition fraction_digit ::
  "u32 \<Rightarrow> nat \<Rightarrow> bool \<Rightarrow> Bigint \<Rightarrow> Bigint \<Rightarrow> margins \<Rightarrow> Dtoa \<Rightarrow> (u32 \<times> bool \<times> Bigint \<times> margins) allocating" where
  "fraction_digit base s2 even_mant b s ms w =
     unless_null (multadd b (uint base) 0 w) (nomem2 None (Some s) ms) (\<lambda>b w.
       do { (digit, b) \<leftarrow> quorem2 b s2;
            unless_null (scale_margins base (\<lambda>w. Bfree (Some s) (Bfree (Some b) w)) ms w) id (\<lambda>ms w.
              do { j \<leftarrow> cmp b (mlo ms);
                   unless_null (diff s (mhi ms) w) (nomem2 (Some b) (Some s) ms) (\<lambda>delta w.
                     do { j1 \<leftarrow> (if sign delta then Some 1 else cmp b delta);
                          last_digit even_mant b s ms digit j j1 (Bfree (Some delta) w) }) }) })"

partial_function (option) fraction_loop ::
  "u32 \<Rightarrow> nat \<Rightarrow> bool \<Rightarrow> Bigint \<Rightarrow> Bigint \<Rightarrow> margins \<Rightarrow> Dtoa \<Rightarrow> u32 list allocating" where
  "fraction_loop base s2 even_mant b s ms w =
     do { (r, w) \<leftarrow> fraction_digit base s2 even_mant b s ms w;
          (case r of
             None \<Rightarrow> Some (None, w)
           | Some (digit, finished, b, ms) \<Rightarrow>
               if finished then Some (Some [digit], nomem2 (Some b) (Some s) ms w)
               else do { (rest, w) \<leftarrow> fraction_loop base s2 even_mant b s ms w; Some (map_option (\<lambda>ds. digit # ds) rest, w) }) }"

text \<open>\<open>f0\<close> and \<open>f1\<close> are the words of the fraction of the double.\<close>

definition fraction_part :: "u32 \<Rightarrow> u32 \<Rightarrow> u32 \<Rightarrow> u32 \<Rightarrow> u32 \<Rightarrow> Dtoa \<Rightarrow> u8 list allocating" where
  "fraction_part base d0 d1 f0 f1 w =
     unless_null (d2b f0 f1 w) id (\<lambda>(b, e, bbits) w.
       let s2 = - uint (drop_bit 20 d0 AND 0x7FF);
           s2 = (if s2 = 0 then -1 else s2);
           s2 = s2 + 1023 + 53
       in unless_null (i2b 1 w) (Bfree (Some b)) (\<lambda>lo w.
            unless_null
              (if d1 = 0 \<and> d0 AND 0xFFFFF = 0 \<and> d0 AND 0x7FE00000 \<noteq> 0 then
                 unless_null (i2b 2 w) (\<lambda>w. Bfree (Some lo) (Bfree (Some b) w)) (\<lambda>hi w. Some (Some (Both lo hi, s2 + 1), w))
               else Some (Some (Same lo, s2), w))
              id
              (\<lambda>(ms, s2) w.
                 if e + s2 < 0 \<or> s2 < 0 then None
                 else
                   unless_null (lshift b (nat (e + s2)) w) (free_margins ms) (\<lambda>b w.
                     unless_null (i2b 1 w) (nomem2 (Some b) None ms) (\<lambda>s w.
                       unless_null (lshift s (nat s2) w) (nomem2 (Some b) None ms) (\<lambda>s w.
                         unless_null (fraction_loop base (nat s2) (d1 AND 1 = 0) b s ms w) id (\<lambda>ds w.
                           Some (Some (map BASEDIGIT ds), w))))))))"

subsection \<open>The string\<close>

definition is_nan :: "u32 \<Rightarrow> u32 \<Rightarrow> bool" where
  "is_nan d0 d1 \<longleftrightarrow> d0 AND 0x7FF00000 = 0x7FF00000 \<and> (d0 AND 0xFFFFF \<noteq> 0 \<or> d1 \<noteq> 0)"

text \<open>\<open>d < 0.0\<close>.\<close>

definition below_zero :: "u32 \<Rightarrow> u32 \<Rightarrow> bool" where
  "below_zero d0 d1 \<longleftrightarrow> d0 AND 0x80000000 \<noteq> 0 \<and> \<not> is_nan d0 d1 \<and> \<not> (d0 AND 0x7FFFFFFF = 0 \<and> d1 = 0)"

definition DTOBASESTR_BUFFER_SIZE :: nat where "DTOBASESTR_BUFFER_SIZE = 1078"

text \<open>Writing past the buffer has no result; the terminating null takes one byte.\<close>

definition in_buffer :: "u8 list \<Rightarrow> Dtoa \<Rightarrow> u8 list allocating" where
  "in_buffer s w = (if length s < DTOBASESTR_BUFFER_SIZE then Some (Some s, w) else None)"

definition JS_dtobasestr ::
  "(u32 \<times> u32 \<Rightarrow> u32 \<times> u32) \<Rightarrow> (u32 \<times> u32 \<Rightarrow> u32 \<times> u32 \<Rightarrow> u32 \<times> u32) \<Rightarrow> u32 \<Rightarrow> u32 \<times> u32 \<Rightarrow> Dtoa \<Rightarrow> u8 list allocating" where
  "JS_dtobasestr fd_floor minus_double base d w =
     (let n = mallocs w; w = w\<lparr>mallocs := n + 1\<rparr> in
      if \<not> malloc_ok w n then Some (None, w)
      else
        let (d0, d1) = d;
            minus_sign = (if below_zero d0 d1 then [45] else []);
            d0 = (if below_zero d0 d1 then d0 XOR 0x80000000 else d0)
        in
        if d0 AND 0x7FF00000 = 0x7FF00000 then
          in_buffer (minus_sign @ (if d1 = 0 \<and> d0 AND 0xFFFFF = 0 then [73, 110, 102, 105, 110, 105, 116, 121] else [78, 97, 78])) w
        else
          let (i0, i1) = fd_floor (d0, d1) in
          unless_null (integer_part base i0 i1 w) id (\<lambda>int_digits w.
            let (f0, f1) = minus_double (d0, d1) (i0, i1) in
            if mant f0 f1 = 0 then in_buffer (minus_sign @ int_digits) w
            else
              unless_null (fraction_part base d0 d1 f0 f1 w) id (\<lambda>frac_digits w.
                in_buffer (minus_sign @ int_digits @ [46] @ frac_digits) w)))"

end
