(* ===== verification/Dtobase_Correct.thy ===== *)
theory Dtobase_Correct
  imports Dtobase
begin

text \<open>
  The string of \<open>JS_dtobasestr\<close>: the integer part is exact, and the fraction is a prefix that rounds to the double, at
  most half of the way to its neighbours, in a buffer of 1078 bytes.
\<close>

subsection \<open>Digits\<close>

text \<open>The number that digits denote, the most significant first.\<close>

fun base_value :: "nat \<Rightarrow> u32 list \<Rightarrow> nat" where
  "base_value B [] = 0"
| "base_value B (d # ds) = unat d * B ^ length ds + base_value B ds"

lemma base_value_snoc: "base_value B (ds @ [d]) = base_value B ds * B + unat d"
  by (induction ds) (simp_all add: algebra_simps)

lemma base_value_less:
  assumes "\<forall>d \<in> set ds. unat d < B" shows "base_value B ds < B ^ length ds"
  using assms
proof (induction ds)
  case (Cons d ds)
  have "base_value B (d # ds) < (unat d + 1) * B ^ length ds" using Cons by simp
  also have "\<dots> \<le> B * B ^ length ds" using Cons.prems by (intro mult_right_mono) simp_all
  finally show ?case by simp
qed simp

text \<open>The digits of \<open>N\<close>, the least significant first and without zeros at the end.\<close>

definition digits_of :: "nat \<Rightarrow> nat \<Rightarrow> u32 list \<Rightarrow> bool" where
  "digits_of B N ds \<longleftrightarrow> ds \<noteq> [] \<and> (\<forall>d \<in> set ds. unat d < B) \<and> base_value B (rev ds) = N \<and>
     (N = 0 \<longrightarrow> length ds = 1) \<and> (0 < N \<longrightarrow> B ^ (length ds - 1) \<le> N)"

lemma digits_of_single: "unat d = N \<Longrightarrow> N < B \<Longrightarrow> digits_of B N [d]"
  by (simp add: digits_of_def)

lemma digits_of_Cons:
  assumes "digits_of B (N div B) ds" "unat d = N mod B" "0 < N div B" "0 < B"
  shows "digits_of B N (d # ds)"
proof -
  have l: "length ds \<noteq> 0" using assms(1) by (simp add: digits_of_def)
  have "B ^ (length ds - 1) * B \<le> N div B * B" using assms by (intro mult_right_mono) (simp_all add: digits_of_def)
  also have "\<dots> \<le> N" by simp
  also have "B ^ (length ds - 1) * B = B ^ length ds" using l by (metis Suc_pred mult.commute neq0_conv power_Suc One_nat_def)
  finally have "B ^ length ds \<le> N" .
  moreover have "N \<noteq> 0" using assms(3) by (cases N) simp_all
  ultimately show ?thesis using assms by (auto simp: digits_of_def base_value_snoc)
qed

lemma word_digits_value:
  assumes "2 \<le> unat base"
  shows "\<exists>ds. word_digits base n = Some ds \<and> digits_of (unat base) (unat n) ds"
proof (induction "unat n" arbitrary: n rule: less_induct)
  case less
  have d: "unat (n - n div base * base) = unat n mod unat base" by (simp add: minus_div_mult_eq_mod unat_mod)
  show ?case
  proof (cases "n div base = 0")
    case True
    then have "unat n div unat base = 0" by (metis unat_div unsigned_0)
    then have "unat n < unat base" using assms by (simp add: div_eq_0_iff)
    then show ?thesis using True d by (subst word_digits.simps) (auto intro!: digits_of_single)
  next
    case False
    have m: "unat (n div base) = unat n div unat base" by (rule unat_div)
    then have pos: "0 < unat n div unat base" using False by (metis gr0I unat_eq_0)
    then have "unat n div unat base < unat n" using assms by (intro div_less_dividend) (auto intro: gr0I)
    then obtain ds where "word_digits base (n div base) = Some ds" "digits_of (unat base) (unat n div unat base) ds"
      using less [of "n div base"] m by auto
    then show ?thesis using False d pos assms by (subst word_digits.simps) (auto intro!: digits_of_Cons)
  qed
qed

lemma number_digits_value:
  assumes "2 \<le> unat base" "unat base \<le> 2 ^ 16" "normal b"
  shows "\<exists>ds c. number_digits base b = Some (ds, c) \<and> digits_of (unat base) (bval b) ds \<and> shape c"
  using assms(3)
proof (induction "bval b" arbitrary: b rule: less_induct)
  case less
  obtain r c where c: "divrem b base = Some (r, c)" "unat r = bval b mod unat base" "bval c = bval b div unat base" "bk c = bk b" "shape c"
    "wds c = 0 \<and> bval c = 0 \<or> normal c \<and> 0 < bval c"
    using divrem_value [OF less.prems, of base] assms by auto
  show ?case
  proof (cases "wds c = 0")
    case True
    then have "bval c = 0" by (simp add: bval_def)
    then have "bval b < unat base" using c(3) assms(1) by (simp add: div_eq_0_iff)
    then show ?thesis using True c(1,2,5) by (subst number_digits.simps) (auto intro!: digits_of_single)
  next
    case False
    then have n: "normal c" "0 < bval c" using c(6) normalD(2) by auto
    then have "bval c < bval b" using c(3) assms(1) by (metis div_less_dividend gr0I less_le_trans div_0 numeral_2_eq_2 Suc_1 lessI not_less0)
    then obtain ds e where "number_digits base c = Some (ds, e)" "digits_of (unat base) (bval c) ds" "shape e"
      using less.hyps [of c] n(1) by auto
    then show ?thesis using False c(1-3) n(2) assms(1) by (subst number_digits.simps) (auto intro!: digits_of_Cons)
  qed
qed

subsection \<open>The integer part\<close>

text \<open>What the arguments denote: a double is a multiple of \<open>2 ^ -1074\<close>, and \<open>units\<close> is how many.\<close>

definition units :: "u32 \<Rightarrow> u32 \<Rightarrow> nat" where
  "units d0 d1 = mant d0 d1 * 2 ^ nat (expo d0 + 1074)"

lemma expo_ge: "- 1074 \<le> expo d0"
  by (simp add: expo_def)

lemma expo_le: "expo d0 \<le> 972"
proof -
  have "biased d0 < 2 ^ 11" unfolding biased_def by (rule mod_less_divisor) simp
  then show ?thesis by (simp add: expo_def)
qed

lemma integer_part_gives:
  assumes w: "dtoa_ok w" and base: "2 \<le> unat base" "unat base \<le> 36" and N: "units d0 d1 = N * 2 ^ 1074" "N < 2 ^ 1024"
  shows "gives w (integer_part base d0 d1 w) (\<lambda>s w'. \<exists>ds. s = map BASEDIGIT (rev ds) \<and> digits_of (unat base) N ds)"
proof -
  have val: "if expo d0 < 0 then mant d0 d1 = N * 2 ^ nat (- expo d0) else mant d0 d1 * 2 ^ nat (expo d0) = N"
  proof (cases "expo d0 < 0")
    case True
    then have "(2 :: nat) ^ 1074 = 2 ^ nat (- expo d0) * 2 ^ nat (expo d0 + 1074)" using expo_ge [of d0] by (simp flip: power_add nat_add_distrib)
    then have "mant d0 d1 * 2 ^ nat (expo d0 + 1074) = N * 2 ^ nat (- expo d0) * 2 ^ nat (expo d0 + 1074)"
      using N(1) by (simp only: units_def mult.assoc)
    then show ?thesis using True by simp
  next
    case False
    then have "nat (expo d0 + 1074) = nat (expo d0) + 1074" by simp
    then have "(2 :: nat) ^ nat (expo d0 + 1074) = 2 ^ nat (expo d0) * 2 ^ 1074" by (simp only: power_add)
    then have "mant d0 d1 * 2 ^ nat (expo d0) * 2 ^ 1074 = N * 2 ^ 1074"
      using N(1) by (simp only: units_def mult.assoc)
    then show ?thesis using False by (simp del: power_numeral)
  qed
  have small: "at_most_word d0 d1 \<longleftrightarrow> N < 2 ^ 32" using val by (auto simp: at_most_word_def split: if_splits)
  show ?thesis
  proof (cases "N < 2 ^ 32")
    case True
    have "to_word d0 d1 = word_of_nat N" using val by (auto simp: to_word_def split: if_splits)
    then have n: "unat (to_word d0 d1) = N" using True by (simp add: unat_of_nat_small)
    show ?thesis
    proof (cases "to_word d0 d1 = 0")
      case z: True
      then have "digits_of (unat base) N [0]" using n base by (intro digits_of_single) auto
      moreover have "BASEDIGIT 0 = 48" by (simp add: BASEDIGIT_def)
      ultimately have "\<exists>ds. [48] = map BASEDIGIT (rev ds) \<and> digits_of (unat base) N ds" by (intro exI [of _ "[0]"]) simp
      then show ?thesis using z w True small by (simp add: integer_part_def Let_def)
    next
      case False
      then show ?thesis using word_digits_value [OF base(1), of "to_word d0 d1"] n w True small
        by (auto simp: integer_part_def Let_def rev_map)
    qed
  next
    case False
    then have N0: "0 < N" by (cases N) simp_all
    then have m0: "mant d0 d1 \<noteq> 0" using val by (auto split: if_splits)
    have "gives w
        (unless_null (d2b d0 d1 w) id (\<lambda>(b, e, bits) w.
           if e < 0 then None
           else unless_null (lshift b (nat e) w) id (\<lambda>b w.
              case number_digits base b of None \<Rightarrow> None | Some (ds, b) \<Rightarrow> Some (Some (rev (map BASEDIGIT ds)), Bfree (Some b) w))))
        (\<lambda>s w'. \<exists>ds. s = map BASEDIGIT (rev ds) \<and> digits_of (unat base) N ds)"
    proof (rule unless_null_gives_triple [OF d2b_gives [OF w m0]])
      fix b e bits w' assume w': "dtoa_ok w'" "malloc_ok w' = malloc_ok w"
        and r: "(case (b, e, bits) of (b, e, bits) \<Rightarrow> \<lambda>w'. normal b \<and> bk b = 1 \<and> odd (bval b) \<and> p5s w' = p5s w \<and>
          (\<exists>k. mant d0 d1 = bval b * 2 ^ k \<and> e = expo d0 + int k) \<and> 0 < bits \<and> 2 ^ (nat bits - 1) \<le> bval b \<and> bval b < 2 ^ nat bits) w'"
      then obtain k where b: "normal b" "bk b = 1" "odd (bval b)" "mant d0 d1 = bval b * 2 ^ k" "e = expo d0 + int k" by auto
      have "nat (e + 1074) = k + nat (expo d0 + 1074)" using b(5) expo_ge [of d0] by simp
      then have u: "bval b * 2 ^ nat (e + 1074) = N * 2 ^ 1074" using N(1) b(4) by (simp only: units_def power_add mult.assoc)
      have ge: "0 \<le> e"
      proof (rule ccontr)
        assume neg: "\<not> 0 \<le> e"
        have "(2 :: nat) ^ 1074 = 2 ^ nat (- e) * 2 ^ nat (e + 1074)" using neg b(5) expo_ge [of d0] by (simp flip: power_add nat_add_distrib)
        then have "bval b = N * 2 ^ nat (- e)" using u by (simp only: mult.assoc [symmetric] mult_cancel2) simp
        then show False using b(3) neg by simp
      qed
      then have "nat (e + 1074) = nat e + 1074" by simp
      then have v: "bval b * 2 ^ nat e = N" using u by (simp only: power_add mult.assoc [symmetric] mult_cancel2) simp
      have "gives w' (unless_null (lshift b (nat e) w') id (\<lambda>b w.
            case number_digits base b of None \<Rightarrow> None | Some (ds, b) \<Rightarrow> Some (Some (rev (map BASEDIGIT ds)), Bfree (Some b) w)))
          (\<lambda>s w'. \<exists>ds. s = map BASEDIGIT (rev ds) \<and> digits_of (unat base) N ds)"
      proof (rule unless_null_gives [OF lshift_gives [OF w'(1), of 6]])
        show "sized 6 b" using b by (simp add: sized_def)
        show "0 < bval b \<or> nat e < 32" using b(3) odd_pos by blast
        show "bval b * 2 ^ nat e < 2 ^ (32 * 2 ^ 6)" unfolding v by (rule less_trans [OF N(2)]) (simp add: power_strict_increasing)
        fix c v assume v': "dtoa_ok v" "malloc_ok v = malloc_ok w'" and c: "sized 6 c \<and> bval c = bval b * 2 ^ nat e \<and> p5s v = p5s w'"
        obtain ds r where "number_digits base c = Some (ds, r)" "digits_of (unat base) N ds" "shape r"
          using number_digits_value [OF base(1) _ sizedD(1), of 6 c] base(2) c v by auto
        then show "gives w' (case number_digits base c of None \<Rightarrow> None | Some (ds, b) \<Rightarrow> Some (Some (rev (map BASEDIGIT ds)), Bfree (Some b) v))
            (\<lambda>s w'. \<exists>ds. s = map BASEDIGIT (rev ds) \<and> digits_of (unat base) N ds)"
          using v' Bfree_ok by (auto simp: rev_map)
      qed simp_all
      then show "gives w (if e < 0 then None
            else unless_null (lshift b (nat e) w') id (\<lambda>b w.
              case number_digits base b of None \<Rightarrow> None | Some (ds, b) \<Rightarrow> Some (Some (rev (map BASEDIGIT ds)), Bfree (Some b) w)))
          (\<lambda>s w'. \<exists>ds. s = map BASEDIGIT (rev ds) \<and> digits_of (unat base) N ds)"
        using ge w'(2) by (auto intro: gives_state)
    qed simp
    then show ?thesis using False small by (simp add: integer_part_def)
  qed
qed

subsection \<open>One digit of the fraction\<close>

text \<open>At most, and equal only for an even significand: rounding to nearest breaks ties to even.\<close>

definition near :: "bool \<Rightarrow> nat \<Rightarrow> nat \<Rightarrow> bool" where
  "near ev x y \<longleftrightarrow> x < y \<or> (x = y \<and> ev)"

definition margins_ok :: "margins \<Rightarrow> nat \<Rightarrow> nat \<Rightarrow> bool" where
  "margins_ok ms lo hi \<longleftrightarrow> sized 6 (mlo ms) \<and> sized 6 (mhi ms) \<and> bval (mlo ms) = lo \<and> bval (mhi ms) = hi"

lemma free_margins_ok: "dtoa_ok w \<Longrightarrow> margins_ok ms lo hi \<Longrightarrow> dtoa_ok (free_margins ms w) \<and> malloc_ok (free_margins ms w) = malloc_ok w"
  by (cases ms) (auto simp: margins_ok_def sizedD(3) Bfree_ok)

lemma nomem2_ok:
  "dtoa_ok w \<Longrightarrow> (\<forall>v. b = Some v \<longrightarrow> shape v) \<Longrightarrow> (\<forall>v. s = Some v \<longrightarrow> shape v) \<Longrightarrow> margins_ok ms lo hi \<Longrightarrow>
    dtoa_ok (nomem2 b s ms w) \<and> malloc_ok (nomem2 b s ms w) = malloc_ok w"
  using free_margins_ok by (cases b; cases s) (auto simp: nomem2_def Bfree_ok)

lemma uint_base:
  assumes "2 \<le> unat (base :: u32)" shows "0 < uint base" "uint base < 2 ^ 32" "nat (uint base) = unat base"
proof -
  show n: "nat (uint base) = unat base" by simp
  then show "0 < uint base" using assms by linarith
  show "uint base < 2 ^ 32" using unsigned_less [of base, where ?'a = int] by simp
qed

lemma sgn_signs: "sgn (a :: int) = sgn b \<Longrightarrow> (a = 0 \<longleftrightarrow> b = 0) \<and> (0 < a \<longleftrightarrow> 0 < b) \<and> (a < 0 \<longleftrightarrow> b < 0)"
  by (auto simp: sgn_if split: if_splits)

lemma scale_margins_gives:
  assumes w: "dtoa_ok w" and ms: "margins_ok ms lo hi" and base: "2 \<le> unat base" "unat base \<le> 36"
    and bound: "lo * unat base < 2 ^ 2048" "hi * unat base < 2 ^ 2048"
    and rel: "\<And>w. dtoa_ok w \<Longrightarrow> dtoa_ok (release w) \<and> malloc_ok (release w) = malloc_ok w"
  shows "gives w (scale_margins base release ms w) (\<lambda>ms w'. margins_ok ms (lo * unat base) (hi * unat base))"
proof -
  note b = uint_base [OF base(1)]
  have mul: "gives w (multadd m (uint base) 0 w) (\<lambda>c w'. sized 6 c \<and> bval c = bval m * unat base)"
    if "dtoa_ok w" "sized 6 m" "bval m * unat base < 2 ^ 2048" for m w
    by (rule gives_mono [OF multadd_gives [OF that(1,2)]]) (use b that(3) in simp_all)
  show ?thesis
  proof (cases ms)
    case (Same m)
    then have m: "sized 6 m" "bval m = lo" "lo = hi" using ms by (auto simp: margins_ok_def)
    show ?thesis unfolding Same scale_margins.simps
      by (rule unless_null_gives [OF mul [OF w m(1)]]) (use m bound rel in \<open>auto simp: margins_ok_def\<close>)
  next
    case (Both l h)
    then have m: "sized 6 l" "bval l = lo" "sized 6 h" "bval h = hi" using ms by (auto simp: margins_ok_def)
    show ?thesis unfolding Both scale_margins.simps
    proof (rule unless_null_gives [OF mul [OF w m(1)]])
      fix l' w' assume w': "dtoa_ok w'" "malloc_ok w' = malloc_ok w" and l': "sized 6 l' \<and> bval l' = bval l * unat base"
      have "gives w' (unless_null (multadd h (uint base) 0 w') (\<lambda>w. Bfree (Some l') (release w)) (\<lambda>hi w. Some (Some (Both l' hi), w)))
          (\<lambda>ms w'. margins_ok ms (lo * unat base) (hi * unat base))"
        by (rule unless_null_gives [OF mul [OF w'(1) m(3)]]) (use m l' bound rel Bfree_ok sizedD(3) in \<open>auto simp: margins_ok_def\<close>)
      then show "gives w (unless_null (multadd h (uint base) 0 w') (\<lambda>w. Bfree (Some l') (release w)) (\<lambda>hi w. Some (Some (Both l' hi), w)))
          (\<lambda>ms w'. margins_ok ms (lo * unat base) (hi * unat base))"
        by (rule gives_state) (rule w'(2))
    qed (use m bound rel Bfree_ok sizedD(3) in auto)
  qed
qed

text \<open>What a round promises of its result, where \<open>q\<close> and \<open>r\<close> are quotient and remainder.\<close>

definition digit_post :: "bool \<Rightarrow> nat \<Rightarrow> nat \<Rightarrow> nat \<Rightarrow> nat \<Rightarrow> nat \<Rightarrow> u32 \<times> bool \<times> Bigint \<times> margins \<Rightarrow> bool" where
  "digit_post ev S lo hi q r x = (case x of (digit, finished, b, ms) \<Rightarrow> sized 6 b \<and> margins_ok ms lo hi \<and>
     (if finished then unat digit = q \<and> near ev r lo \<or> unat digit = q + 1 \<and> near ev S (r + hi)
      else unat digit = q \<and> bval b = r \<and> \<not> near ev r lo \<and> \<not> near ev S (r + hi)))"

lemma last_digit_gives:
  assumes w: "dtoa_ok w" and b: "sized 6 b" "bval b = r" and s: "sized 6 s" and ms: "margins_ok ms lo hi"
    and j: "sgn j = sgn (int r - int lo)" and j1: "sgn j1 = sgn (int (r + hi) - int S)"
    and q: "unat digit = q" "q < 2 ^ 31" and r: "r < 2 ^ 2000"
  shows "gives w (last_digit ev b s ms digit j j1 w) (\<lambda>x w'. digit_post ev S lo hi q r x)"
proof -
  have q1: "unat (digit + 1) = q + 1" using q by (subst unat_inc) simp_all
  have signs: "(j1 = 0) = (r + hi = S)" "(0 < j1) = (S < r + hi)" "(j < 0) = (r < lo)" "(j = 0) = (r = lo)" "(0 < j) = (lo < r)"
    using sgn_signs [OF j] sgn_signs [OF j1] by linarith+
  have shift: "gives w (unless_null (lshift b 1 w) (nomem2 None (Some s) ms) (\<lambda>b w.
        do { j1 \<leftarrow> cmp b s; Some (Some (if j1 > 0 then digit + 1 else digit, True, b, ms), w) }))
      (\<lambda>x w'. digit_post ev S lo hi q r x)"
    if near1: "near ev r lo" "near ev S (r + hi)"
  proof (rule unless_null_gives [OF lshift_gives [OF w b(1)]])
    have "bval b * 2 ^ 1 < 2 ^ 2000 * 2 ^ 1" using r b(2) by (intro mult_strict_right_mono) simp_all
    also have "\<dots> = 2 ^ (2000 + 1)" by (rule power_add [symmetric])
    also have "\<dots> < 2 ^ (32 * 2 ^ 6)" by (rule power_strict_increasing) simp_all
    finally show "bval b * 2 ^ 1 < 2 ^ (32 * 2 ^ 6)" .
    fix c w' assume w': "dtoa_ok w'" "malloc_ok w' = malloc_ok w" and c: "sized 6 c \<and> bval c = bval b * 2 ^ 1 \<and> p5s w' = p5s w"
    obtain i where "cmp c s = Some i" using cmp_value [of c s] c s sizedD(1) by blast
    then show "gives w (do { j1 \<leftarrow> cmp c s; Some (Some (if j1 > 0 then digit + 1 else digit, True, c, ms), w') })
        (\<lambda>x w'. digit_post ev S lo hi q r x)"
      using w' c ms near1 q(1) q1 by (simp add: digit_post_def)
  qed (use nomem2_ok [OF _ _ _ ms] s sizedD(3) in auto)
  consider "r + hi = S" "ev" | "near ev r lo" "S < r + hi" | "near ev r lo" "\<not> near ev S (r + hi)" | "\<not> near ev r lo" "S < r + hi"
    | "\<not> near ev r lo" "\<not> near ev S (r + hi)" unfolding near_def by linarith
  then show ?thesis
  proof cases
    case 1
    then show ?thesis using w b ms q(1) q1 by (auto simp: last_digit_def digit_post_def signs near_def)
  next
    case 2
    then show ?thesis using shift by (auto simp: last_digit_def signs near_def)
  qed (use w b ms q(1) q1 in \<open>auto simp: last_digit_def digit_post_def signs near_def\<close>)
qed

lemma fraction_digit_gives:
  assumes w: "dtoa_ok w" and base: "2 \<le> unat base" "unat base \<le> 36"
    and b: "sized 6 b" "bval b < 2 ^ s2" and s: "sized 6 s" "bval s = 2 ^ s2" "s2 \<le> 1076"
    and ms: "margins_ok ms lo hi" "lo \<le> hi" "hi \<le> 2 ^ s2"
  shows "gives w (fraction_digit base s2 ev b s ms w)
    (\<lambda>x w'. digit_post ev (2 ^ s2) (lo * unat base) (hi * unat base) (bval b * unat base div 2 ^ s2) (bval b * unat base mod 2 ^ s2) x)"
proof -
  let ?B = "unat base" and ?S = "2 ^ s2 :: nat"
  note uB = uint_base [OF base(1)]
  have S1: "?S \<le> 2 ^ 1076" using s(3) by (rule power_increasing) simp
  have big: "x * ?B < 2 ^ 2048" if "x \<le> ?S" for x
  proof -
    have "x * ?B \<le> 2 ^ 1076 * 2 ^ 6" using that S1 base(2) by (intro mult_mono) simp_all
    also have "\<dots> < 2 ^ 2048" by (simp only: power_add [symmetric]) (rule power_strict_increasing, simp_all)
    finally show ?thesis .
  qed
  have step: "gives w (multadd b (uint base) 0 w) (\<lambda>c w'. sized 6 c \<and> bval c = bval b * ?B)"
    by (rule gives_mono [OF multadd_gives [OF w b(1)]]) (use uB big [OF less_imp_le [OF b(2)]] in simp_all)
  show ?thesis unfolding fraction_digit_def
  proof (rule unless_null_gives [OF step])
    fix b1 w1 assume w1: "dtoa_ok w1" "malloc_ok w1 = malloc_ok w" and b1: "sized 6 b1 \<and> bval b1 = bval b * ?B"
    have "bval b1 < 2 ^ 32 * ?S"
    proof -
      have "bval b * ?B < ?S * 2 ^ 32" by (rule mult_less_le_imp_less) (use b(2) base in simp_all)
      then show ?thesis using b1 by (simp only: mult.commute)
    qed
    then obtain qw c where c: "quorem2 b1 s2 = Some (qw, c)" "unat qw = bval b * ?B div ?S" "bval c = bval b * ?B mod ?S" "normal c" "bk c = bk b1"
      using quorem2_value [of b1 s2] b1 sizedD(1) by metis
    have c6: "sized 6 c" using c(4,5) b1 by (simp add: sized_def)
    have cS: "bval c < ?S" using c(3) by simp
    have q: "bval b * ?B div ?S < 2 ^ 31"
    proof -
      have "bval b * ?B < ?B * ?S" using b(2) base by (simp add: mult.commute)
      then have "bval b * ?B div ?S < ?B" by (rule less_mult_imp_div_less)
      then show ?thesis using base(2) by simp
    qed
    have "gives w1 (unless_null (scale_margins base (\<lambda>w. Bfree (Some s) (Bfree (Some c) w)) ms w1) id (\<lambda>ms w.
              do { j \<leftarrow> cmp c (mlo ms);
                   unless_null (diff s (mhi ms) w) (nomem2 (Some c) (Some s) ms) (\<lambda>delta w.
                     do { j1 \<leftarrow> (if sign delta then Some 1 else cmp c delta);
                          last_digit ev c s ms qw j j1 (Bfree (Some delta) w) }) }))
          (\<lambda>x w'. digit_post ev ?S (lo * ?B) (hi * ?B) (bval b * ?B div ?S) (bval b * ?B mod ?S) x)"
    proof (rule unless_null_gives [OF scale_margins_gives [OF w1(1) ms(1) base]])
      show "lo * ?B < 2 ^ 2048" "hi * ?B < 2 ^ 2048" using big ms(2,3) by (meson le_trans)+
      show "dtoa_ok (Bfree (Some s) (Bfree (Some c) w)) \<and> malloc_ok (Bfree (Some s) (Bfree (Some c) w)) = malloc_ok w" if "dtoa_ok w" for w
        using that s(1) c6 by (simp add: Bfree_ok sizedD(3))
      fix ms2 w2 assume w2: "dtoa_ok w2" "malloc_ok w2 = malloc_ok w1" and ms2: "margins_ok ms2 (lo * ?B) (hi * ?B)"
      then have m2: "sized 6 (mlo ms2)" "sized 6 (mhi ms2)" "bval (mlo ms2) = lo * ?B" "bval (mhi ms2) = hi * ?B" by (auto simp: margins_ok_def)
      obtain j where j: "cmp c (mlo ms2) = Some j" "sgn j = sgn (int (bval c) - int (lo * ?B))"
        using cmp_value [OF c(4) sizedD(1) [OF m2(1)]] m2(3) by auto
      have "gives w2 (unless_null (diff s (mhi ms2) w2) (nomem2 (Some c) (Some s) ms2) (\<lambda>delta w.
              do { j1 \<leftarrow> (if sign delta then Some 1 else cmp c delta); last_digit ev c s ms2 qw j j1 (Bfree (Some delta) w) }))
          (\<lambda>x w'. digit_post ev ?S (lo * ?B) (hi * ?B) (bval b * ?B div ?S) (bval b * ?B mod ?S) x)"
      proof (rule unless_null_gives [OF diff_gives [OF w2(1) s(1) m2(2)]])
        fix delta w3 assume w3: "dtoa_ok w3" "malloc_ok w3 = malloc_ok w2"
          and d: "sized 6 delta \<and> bval delta = (bval s - bval (mhi ms2)) + (bval (mhi ms2) - bval s) \<and> sign delta = (bval s < bval (mhi ms2)) \<and> p5s w3 = p5s w2"
        have w4: "dtoa_ok (Bfree (Some delta) w3)" by (rule Bfree_ok [OF w3(1) sizedD(3) [OF conjunct1 [OF d]]])
        obtain j1 where j1: "(if sign delta then Some 1 else cmp c delta) = Some j1" "sgn j1 = sgn (int (bval c + hi * ?B) - int ?S)"
        proof (cases "sign delta")
          case True
          then have "?S < bval c + hi * ?B" using d m2(4) s(2) by simp
          then have "0 < int (bval c + hi * ?B) - int ?S" by (simp only: diff_gt_0_iff_gt of_nat_less_iff)
          then have "sgn (1 :: int) = sgn (int (bval c + hi * ?B) - int ?S)" by (simp only: sgn_pos sgn_1)
          from that [OF _ this] True show ?thesis by simp
        next
          case False
          obtain i where i: "cmp c delta = Some i" "sgn i = sgn (int (bval c) - int (bval delta))"
            using cmp_value [OF c(4)] d sizedD(1) by blast
          have "int (bval c) - int (bval delta) = int (bval c + hi * ?B) - int ?S" using False d m2(4) s(2) by simp
          then have "sgn i = sgn (int (bval c + hi * ?B) - int ?S)" using i(2) by (simp only:)
          from that [OF _ this] i(1) False show ?thesis by simp
        qed
        have "gives (Bfree (Some delta) w3) (last_digit ev c s ms2 qw j j1 (Bfree (Some delta) w3))
            (\<lambda>x w'. digit_post ev ?S (lo * ?B) (hi * ?B) (bval b * ?B div ?S) (bval b * ?B mod ?S) x)"
          by (rule last_digit_gives [OF w4 c6 c(3) s(1) ms2 _ _ c(2) q])
            (use j(2) j1(2) c(3) cS S1 in \<open>simp_all add: less_le_trans [OF _ le_trans [OF S1]] del: of_nat_add\<close>)
        then show "gives w2 (do { j1 \<leftarrow> (if sign delta then Some 1 else cmp c delta); last_digit ev c s ms2 qw j j1 (Bfree (Some delta) w3) })
            (\<lambda>x w'. digit_post ev ?S (lo * ?B) (hi * ?B) (bval b * ?B div ?S) (bval b * ?B mod ?S) x)"
          using j1(1) w3(2) by (simp add: gives_state)
      qed (use nomem2_ok [OF _ _ _ ms2] s(1) c6 sizedD(3) in auto)
      then show "gives w1 (do { j \<leftarrow> cmp c (mlo ms2);
                   unless_null (diff s (mhi ms2) w2) (nomem2 (Some c) (Some s) ms2) (\<lambda>delta w.
                     do { j1 \<leftarrow> (if sign delta then Some 1 else cmp c delta); last_digit ev c s ms2 qw j j1 (Bfree (Some delta) w) }) })
          (\<lambda>x w'. digit_post ev ?S (lo * ?B) (hi * ?B) (bval b * ?B div ?S) (bval b * ?B mod ?S) x)"
        using j(1) w2(2) by (simp add: gives_state)
    qed simp
    then show "gives w (do { (digit, b) \<leftarrow> quorem2 b1 s2;
            unless_null (scale_margins base (\<lambda>w. Bfree (Some s) (Bfree (Some b) w)) ms w1) id (\<lambda>ms w.
              do { j \<leftarrow> cmp b (mlo ms);
                   unless_null (diff s (mhi ms) w) (nomem2 (Some b) (Some s) ms) (\<lambda>delta w.
                     do { j1 \<leftarrow> (if sign delta then Some 1 else cmp b delta);
                          last_digit ev b s ms digit j j1 (Bfree (Some delta) w) }) }) })
        (\<lambda>x w'. digit_post ev ?S (lo * ?B) (hi * ?B) (bval b * ?B div ?S) (bval b * ?B mod ?S) x)"
      using c(1) w1(2) by (simp add: gives_state)
  qed (use nomem2_ok [OF _ _ _ ms(1)] s(1) sizedD(3) in auto)
qed

subsection \<open>The digits of the fraction\<close>

text \<open>What the digits \<open>ds\<close> say of the fraction \<open>x / S\<close> with the margins \<open>lo / S\<close> below and \<open>hi / S\<close> above.\<close>

definition within :: "bool \<Rightarrow> nat \<Rightarrow> nat \<Rightarrow> nat \<Rightarrow> nat \<Rightarrow> nat \<Rightarrow> u32 list \<Rightarrow> bool" where
  "within ev B S lo hi x ds \<longleftrightarrow> (\<forall>d \<in> set ds. unat d < B) \<and>
     near ev (base_value B ds * S) ((x + hi) * B ^ length ds) \<and> near ev (x * B ^ length ds) (base_value B ds * S + lo * B ^ length ds)"

lemma within_single:
  fixes x B S lo hi :: nat
  defines "q \<equiv> x * B div S" and "r \<equiv> x * B mod S"
  assumes pos: "0 < S" "0 < B" "0 < lo" "lo \<le> hi" and guard: "x + hi \<le> S" "x + hi = S \<longrightarrow> \<not> ev"
    and d: "unat d = q \<and> near ev r (lo * B) \<or> unat d = q + 1 \<and> near ev S (r + hi * B)"
  shows "within ev B S lo hi x [d]"
proof -
  have e: "x * B = q * S + r" "r < S" using pos(1) by (simp_all add: q_def r_def)
  have hB: "0 < hi * B" "0 < lo * B" using pos by simp_all
  have xhi: "(x + hi) * B = q * S + r + hi * B" unfolding distrib_right e(1) ..
  from d show ?thesis
  proof (elim disjE conjE)
    assume d: "unat d = q" "near ev r (lo * B)"
    have "q < B"
    proof -
      have "x < S" using guard(1) pos by simp
      then have "x * B < B * S" using pos(2) by (simp add: mult.commute)
      then show ?thesis unfolding q_def by (rule less_mult_imp_div_less)
    qed
    then show ?thesis using d hB e unfolding within_def by (simp add: xhi near_def)
  next
    assume d: "unat d = q + 1" "near ev S (r + hi * B)"
    have le: "(q + 1) * S \<le> (x + hi) * B" and eq: "(q + 1) * S = (x + hi) * B \<longrightarrow> ev"
      using d(2) unfolding xhi near_def by auto
    have "q + 1 < B"
    proof (rule ccontr)
      assume "\<not> q + 1 < B"
      then have "B * S \<le> (q + 1) * S" by (intro mult_right_mono) simp_all
      then have "S * B \<le> (q + 1) * S" by (simp only: mult.commute)
      moreover have "(x + hi) * B \<le> S * B" using guard(1) by (rule mult_right_mono) simp
      ultimately have "(q + 1) * S = (x + hi) * B" "(x + hi) * B = S * B" using le by linarith+
      then show False using eq guard(2) pos(2) by simp
    qed
    then show ?thesis using d le eq hB e unfolding within_def xhi [symmetric] by (simp add: near_def) (simp add: xhi)
  qed
qed

lemma within_Cons:
  fixes x B S lo hi :: nat
  defines "q \<equiv> x * B div S" and "r \<equiv> x * B mod S"
  assumes "0 < S" "q < B" "unat d = q" "within ev B S (lo * B) (hi * B) r ds"
  shows "within ev B S lo hi x (d # ds)"
proof -
  let ?V = "base_value B ds * S" and ?P = "B ^ length ds"
  have e: "x * B = q * S + r" by (simp add: q_def r_def)
  have w: "near ev ?V (r * ?P + hi * B * ?P)" "near ev (r * ?P) (?V + lo * B * ?P)" using assms(6) by (simp_all add: within_def distrib_right)
  have v: "base_value B (d # ds) * S = q * S * ?P + ?V" by (simp add: assms(5) algebra_simps)
  have p: "x * B ^ length (d # ds) = q * S * ?P + r * ?P" "(x + hi) * B ^ length (d # ds) = q * S * ?P + (r * ?P + hi * B * ?P)"
    "lo * B ^ length (d # ds) = lo * B * ?P"
    by (simp_all only: list.size power_Suc power_add power_one_right distrib_right mult.assoc [symmetric] e add_0_right One_nat_def add_Suc_right add.assoc)
  show ?thesis unfolding within_def v p using w assms(4-6) by (simp add: within_def near_def)
qed

text \<open>The margins grow until the loop ends: \<open>t\<close> doublings of the lower one reach \<open>S\<close>.\<close>

lemma not_finished:
  fixes x B S lo hi :: nat
  defines "r \<equiv> x * B mod S"
  assumes B: "2 \<le> B" and t: "S \<le> 2 ^ t * lo" "B = 2 \<longrightarrow> S = 2 ^ t * lo \<and> (hi = lo \<longrightarrow> 2 * lo dvd x)" "2 \<le> t"
    and h: "hi = lo \<or> hi = 2 * lo" "0 < lo" and go: "\<not> near ev r (lo * B)" "\<not> near ev S (r + hi * B)"
  shows "3 \<le> t" "S \<le> 2 ^ (t - 1) * (lo * B)" "B = 2 \<longrightarrow> S = 2 ^ (t - 1) * (lo * B) \<and> (hi * B = lo * B \<longrightarrow> 2 * (lo * B) dvd r)"
proof -
  have p: "2 ^ t = 2 * (2 :: nat) ^ (t - 1)" using t(3) by (cases t) simp_all
  have "2 ^ (t - 1) * lo * 2 \<le> 2 ^ (t - 1) * lo * B" using B by (intro mult_left_mono) simp_all
  then have "2 ^ t * lo \<le> 2 ^ (t - 1) * lo * B" unfolding p by (simp only: ac_simps)
  then show "S \<le> 2 ^ (t - 1) * (lo * B)" using t(1) by (simp only: mult.assoc)
  have dvd: "2 * (lo * B) dvd r" if "B = 2" "hi * B = lo * B"
  proof -
    have "2 * lo dvd x" using t(2) that by simp
    then have "2 * (lo * B) dvd x * B" using that(1) by auto
    moreover have "2 * (lo * B) dvd S"
    proof -
      have "2 ^ t = 4 * (2 :: nat) ^ (t - 2)" using t(3) by (cases t; cases "t - 1") auto
      then show ?thesis using t(2) that(1) by simp
    qed
    ultimately show ?thesis unfolding r_def by (simp add: dvd_mod)
  qed
  then show "B = 2 \<longrightarrow> S = 2 ^ (t - 1) * (lo * B) \<and> (hi * B = lo * B \<longrightarrow> 2 * (lo * B) dvd r)" using t(2) p by simp
  have le: "lo * B \<le> r" "r + hi * B \<le> S" using go by (auto simp: near_def)
  show "3 \<le> t"
  proof (rule ccontr)
    assume "\<not> 3 \<le> t"
    then have t2: "t = 2" using t(3) by simp
    have "lo * B + hi * B \<le> 4 * lo" using le t(1) t2 by simp
    moreover have "lo * B \<le> hi * B" using h by auto
    ultimately have "2 * (lo * B) \<le> 4 * lo" by linarith
    then have B2: "B = 2" using B h(2) by simp
    then have hl: "hi = lo" using h \<open>lo * B + hi * B \<le> 4 * lo\<close> by auto
    then have "r = 2 * lo" using le t(1) t2 B2 by simp
    moreover have "4 * lo dvd r" using dvd B2 hl by (simp add: mult.commute)
    ultimately show False using h(2) by (auto dest: dvd_imp_le)
  qed
qed

lemma fraction_loop_gives:
  assumes "dtoa_ok w" "2 \<le> unat base" "unat base \<le> 36" "sized 6 b" "sized 6 s" "bval s = 2 ^ s2" "s2 \<le> 1076"
    and "margins_ok ms lo hi" "hi = lo \<or> hi = 2 * lo" "0 < lo" "bval b + hi \<le> 2 ^ s2" "bval b + hi = 2 ^ s2 \<longrightarrow> \<not> ev"
    and "2 ^ s2 \<le> 2 ^ t * lo" "unat base = 2 \<longrightarrow> 2 ^ s2 = 2 ^ t * lo \<and> (hi = lo \<longrightarrow> 2 * lo dvd bval b)" "2 \<le> t"
  shows "gives w (fraction_loop base s2 ev b s ms w)
    (\<lambda>ds w'. ds \<noteq> [] \<and> length ds \<le> t - 1 \<and> within ev (unat base) (2 ^ s2) lo hi (bval b) ds)"
  using assms(1,4,8-)
proof (induction t arbitrary: w b ms lo hi)
  case (Suc t)
  let ?B = "unat base" and ?S = "2 ^ s2 :: nat"
  let ?q = "bval b * ?B div ?S" and ?r = "bval b * ?B mod ?S"
  have S0: "0 < ?S" by simp
  have bS: "bval b < ?S" "hi \<le> ?S" "lo \<le> hi" using Suc.prems(4-6) by auto
  have qB: "?q < ?B" using bS(1) assms(2) by (intro less_mult_imp_div_less) (simp add: mult.commute)
  have step: "gives w (fraction_digit base s2 ev b s ms w) (\<lambda>x w'. digit_post ev ?S (lo * ?B) (hi * ?B) ?q ?r x)"
    by (rule fraction_digit_gives [OF Suc.prems(1) assms(2,3) Suc.prems(2) bS(1) assms(5,6,7) Suc.prems(3) bS(3,2)])
  then obtain res w1 where run: "fraction_digit base s2 ev b s ms w = Some (res, w1)" by (auto simp: gives_def split: option.splits)
  note g = step [unfolded run]
  show ?case
  proof (cases res)
    case None
    then show ?thesis using g run by (subst fraction_loop.simps) (simp add: gives_def)
  next
    case (Some x)
    obtain digit fin c ms1 where x: "x = (digit, fin, c, ms1)" by (cases x)
    have w1: "dtoa_ok w1" "malloc_ok w1 = malloc_ok w" and dp: "digit_post ev ?S (lo * ?B) (hi * ?B) ?q ?r x"
      using g Some by simp_all
    from dp [unfolded digit_post_def x prod.case] have post: "sized 6 c" "margins_ok ms1 (lo * ?B) (hi * ?B)"
      "if fin then unat digit = ?q \<and> near ev ?r (lo * ?B) \<or> unat digit = ?q + 1 \<and> near ev ?S (?r + hi * ?B)
       else unat digit = ?q \<and> bval c = ?r \<and> \<not> near ev ?r (lo * ?B) \<and> \<not> near ev ?S (?r + hi * ?B)"
      by blast+
    show ?thesis
    proof (cases fin)
      case True
      have "within ev ?B ?S lo hi (bval b) [digit]"
        by (rule within_single [OF S0 _ Suc.prems(5) bS(3) Suc.prems(6,7)]) (use assms(2) post(3) True in auto)
      moreover have "dtoa_ok (nomem2 (Some c) (Some s) ms1 w1) \<and> malloc_ok (nomem2 (Some c) (Some s) ms1 w1) = malloc_ok w1"
        by (rule nomem2_ok [OF w1(1) _ _ post(2)]) (use post(1) assms(5) sizedD(3) in auto)
      ultimately show ?thesis using run Some x True w1 Suc.prems(10) by (subst fraction_loop.simps) simp
    next
      case False
      then have go: "unat digit = ?q" "bval c = ?r" "\<not> near ev ?r (lo * ?B)" "\<not> near ev ?S (?r + hi * ?B)" using post(3) by auto
      note nf = not_finished [OF assms(2) Suc.prems(8,9,10,4,5) go(3,4), simplified diff_Suc_1]
      have guard: "bval c + hi * ?B \<le> ?S" "bval c + hi * ?B = ?S \<longrightarrow> \<not> ev" using go unfolding near_def by auto
      have "gives w1 (fraction_loop base s2 ev c s ms1 w1)
          (\<lambda>ds w'. ds \<noteq> [] \<and> length ds \<le> t - 1 \<and> within ev ?B ?S (lo * ?B) (hi * ?B) (bval c) ds)"
        by (rule Suc.IH [OF w1(1) post(1,2) _ _ guard]) (use nf Suc.prems(4,5) assms(2) go(2) in auto)
      then obtain rest w2 where r: "fraction_loop base s2 ev c s ms1 w1 = Some (rest, w2)" "dtoa_ok w2" "malloc_ok w2 = malloc_ok w1"
        "case rest of None \<Rightarrow> \<exists>i. \<not> malloc_ok w1 i
         | Some ds \<Rightarrow> ds \<noteq> [] \<and> length ds \<le> t - 1 \<and> within ev ?B ?S (lo * ?B) (hi * ?B) ?r ds"
        unfolding go(2) by (auto simp: gives_def split: option.splits)
      have loop: "fraction_loop base s2 ev b s ms w = Some (map_option (\<lambda>ds. digit # ds) rest, w2)"
        using run Some x False r(1) by (subst fraction_loop.simps) simp
      show ?thesis
      proof (cases rest)
        case None
        then show ?thesis using r w1(2) unfolding loop by (simp add: gives_def)
      next
        case ds: (Some ds)
        then have "within ev ?B ?S lo hi (bval b) (digit # ds)" using r(4) by (intro within_Cons [OF S0 qB go(1)]) simp
        then show ?thesis using r ds w1(2) nf(1) unfolding loop by auto
      qed
    qed
  qed
qed simp

end
