(* ===== verification/Dtobase_String.thy ===== *)
theory Dtobase_String
  imports Dtobase_Correct
begin

text \<open>
  The fraction and the whole string of \<open>JS_dtobasestr\<close> in terms of the value of the double, which is counted in units of
  \<open>2 ^ -1074\<close>; margins are counted in quarters of a unit.
\<close>

lemma near_scale: "0 < c \<Longrightarrow> near ev (c * x) (c * y) = near ev x y"
  by (simp add: near_def)

lemma within_scale:
  assumes "0 < c" shows "within ev B (c * S) (c * lo) (c * hi) (c * x) ds = within ev B S lo hi x ds"
proof -
  have "base_value B ds * (c * S) = c * (base_value B ds * S)" "(c * x + c * hi) * P = c * ((x + hi) * P)" "c * x * P = c * (x * P)"
    "base_value B ds * (c * S) + c * lo * P = c * (base_value B ds * S + lo * P)" for P
    by (simp_all add: algebra_simps)
  then show ?thesis unfolding within_def by (simp only: near_scale [OF assms])
qed

subsection \<open>The margins of a double\<close>

text \<open>Distances to the next double above and, for a power of 2 with a smaller exponent below it, to the one below.\<close>

definition gap :: "u32 \<Rightarrow> nat" where
  "gap d0 = 2 ^ nat (expo d0 + 1074)"

definition boundary :: "u32 \<Rightarrow> u32 \<Rightarrow> bool" where
  "boundary d0 d1 \<longleftrightarrow> d1 = 0 \<and> unat d0 mod 2 ^ 20 = 0 \<and> 2 \<le> biased d0"

definition margin_below :: "u32 \<Rightarrow> u32 \<Rightarrow> nat" where
  "margin_below d0 d1 = (if boundary d0 d1 then gap d0 else 2 * gap d0)"

definition margin_above :: "u32 \<Rightarrow> nat" where
  "margin_above d0 = 2 * gap d0"

lemma units_gap: "units d0 d1 = mant d0 d1 * gap d0"
  by (simp add: units_def gap_def)

lemma exponent_field: "uint (drop_bit 20 d0 AND 0x7FF) = int (biased d0)"
proof -
  have "(0x7FF :: u32) = mask 11" by (simp add: mask_eq_exp_minus_1)
  then have "unat (drop_bit 20 d0 AND 0x7FF) = unat d0 div 2 ^ 20 mod 2 ^ 11" by (simp only: unat_and_mask unat_drop_bit)
  then show ?thesis by (metis biased_def uint_nat)
qed

lemma boundary_test: "d1 = 0 \<and> d0 AND 0xFFFFF = 0 \<and> d0 AND 0x7FE00000 \<noteq> 0 \<longleftrightarrow> boundary d0 d1"
proof -
  have "d0 AND 0x7FE00000 = push_bit 21 (take_bit 10 (drop_bit 21 d0))"
  proof (rule bit_word_eqI)
    fix n assume n: "n < LENGTH(32)"
    have "(0x7FE00000 :: u32) = push_bit 21 (mask 10)" by (simp add: mask_eq_exp_minus_1)
    moreover have "bit (push_bit 21 (mask 10) :: u32) n \<longleftrightarrow> 21 \<le> n \<and> n < 31" using n by (auto simp: bit_push_bit_iff bit_mask_iff)
    ultimately have "bit (0x7FE00000 :: u32) n \<longleftrightarrow> 21 \<le> n \<and> n < 31" by (simp only:)
    then show "bit (d0 AND 0x7FE00000) n = bit (push_bit 21 (take_bit 10 (drop_bit 21 d0))) n"
      using n by (auto simp: bit_and_iff bit_push_bit_iff bit_take_bit_iff bit_drop_bit_eq)
  qed
  then have "unat (d0 AND 0x7FE00000) = unat d0 div 2 ^ 21 mod 2 ^ 10 * 2 ^ 21"
    by (simp only:) (subst unat_push_bit, simp_all only: unat_take_bit unat_drop_bit, simp)
  then have "d0 AND 0x7FE00000 = 0 \<longleftrightarrow> unat d0 div 2 ^ 21 mod 2 ^ 10 = 0" by (metis mult_is_0 power_not_zero unat_eq_0 zero_neq_numeral)
  moreover have "unat d0 div 2 ^ 21 mod 2 ^ 10 = biased d0 div 2"
  proof -
    have "unat d0 div 2 ^ 21 = unat d0 div 2 ^ 20 div 2" by (simp add: div_mult2_eq [symmetric])
    moreover have "n div 2 mod 2 ^ 10 = n mod 2 ^ 11 div 2" for n :: nat using mod_mult2_eq [of n 2 "2 ^ 10"] by simp
    ultimately show ?thesis by (simp only: biased_def)
  qed
  moreover have "d0 AND 0xFFFFF = 0 \<longleftrightarrow> unat d0 mod 2 ^ 20 = 0" using and_low [of d0 20] by simp
  ultimately show ?thesis by (auto simp: boundary_def)
qed

text \<open>A fraction is a multiple of the gap, and so at least a gap away from 1.\<close>

lemma fraction_gap:
  assumes "units d0 d1 mod 2 ^ 1074 \<noteq> 0"
  shows "expo d0 < 0" "\<exists>m. units d0 d1 mod 2 ^ 1074 = gap d0 * m" "units d0 d1 mod 2 ^ 1074 + gap d0 \<le> 2 ^ 1074"
proof -
  show neg: "expo d0 < 0"
  proof (rule ccontr)
    assume "\<not> expo d0 < 0"
    then have "nat (expo d0 + 1074) = nat (expo d0) + 1074" by simp
    then have "units d0 d1 = mant d0 d1 * 2 ^ nat (expo d0) * 2 ^ 1074" by (simp only: units_def power_add mult.assoc)
    then show False using assms by simp
  qed
  then have "1074 = nat (- expo d0) + nat (expo d0 + 1074)" using expo_ge [of d0] by simp
  then have e: "2 ^ 1074 = gap d0 * 2 ^ nat (- expo d0)" unfolding gap_def by (metis power_add mult.commute)
  then have v: "units d0 d1 mod 2 ^ 1074 = gap d0 * (mant d0 d1 mod 2 ^ nat (- expo d0))"
    unfolding units_gap by (simp only: mult.commute [of "mant d0 d1"] mod_mult_mult1)
  then show "\<exists>m. units d0 d1 mod 2 ^ 1074 = gap d0 * m" by blast
  have "mant d0 d1 mod 2 ^ nat (- expo d0) + 1 \<le> 2 ^ nat (- expo d0)" by (simp add: Suc_le_eq)
  then have "gap d0 * (mant d0 d1 mod 2 ^ nat (- expo d0) + 1) \<le> gap d0 * 2 ^ nat (- expo d0)" by (rule mult_left_mono) simp
  then show "units d0 d1 mod 2 ^ 1074 + gap d0 \<le> 2 ^ 1074"
    unfolding v unfolding e by (simp only: distrib_left mult_1_right)
qed

subsection \<open>The fraction\<close>

lemma start_numbers:
  assumes fr: "units d0 d1 mod 2 ^ 1074 \<noteq> 0" "n * 2 ^ nat (e + 1074) = units d0 d1 mod 2 ^ 1074" "odd n" "- 1074 \<le> e"
    and s2: "s2 = (if boundary d0 d1 then 2 - expo d0 else 1 - expo d0)"
  defines "c \<equiv> (if boundary d0 d1 then gap d0 else 2 * gap d0)"
  shows "0 \<le> e + s2" "2 \<le> nat s2" "nat s2 \<le> 1075" "c * 2 ^ nat s2 = 4 * 2 ^ 1074" "c * (n * 2 ^ nat (e + s2)) = 4 * (units d0 d1 mod 2 ^ 1074)"
    "c = margin_below d0 d1" "c * (if boundary d0 d1 then 2 else 1) = margin_above d0" "\<not> boundary d0 d1 \<Longrightarrow> even (n * 2 ^ nat (e + s2))"
    "n * 2 ^ nat (e + s2) + (if boundary d0 d1 then 2 else 1) < 2 ^ nat s2"
proof -
  note g = fraction_gap [OF fr(1)]
  have b2: "boundary d0 d1 \<Longrightarrow> - 1073 \<le> expo d0" by (auto simp: boundary_def expo_def)
  have ee: "expo d0 \<le> e"
  proof (rule ccontr)
    assume a: "\<not> expo d0 \<le> e"
    obtain m where "n * 2 ^ nat (e + 1074) = gap d0 * m" using g(2) fr(2) by auto
    moreover have "nat (expo d0 + 1074) = nat (expo d0 - e) + nat (e + 1074)" using a fr(4) by simp
    ultimately have "n * 2 ^ nat (e + 1074) = 2 ^ nat (expo d0 - e) * m * 2 ^ nat (e + 1074)"
      unfolding gap_def by (simp add: power_add)
    then have "n = 2 ^ nat (expo d0 - e) * m" by simp
    then show False using fr(3) a by simp
  qed
  show "0 \<le> e + s2" "2 \<le> nat s2" "nat s2 \<le> 1075" using ee g(1) expo_ge [of d0] b2 unfolding s2 by auto
  have cs: "c = 2 ^ nat (1076 - s2)"
  proof -
    have "nat (1076 - s2) = (if boundary d0 d1 then nat (expo d0 + 1074) else Suc (nat (expo d0 + 1074)))"
      using expo_ge [of d0] unfolding s2 by auto
    then show ?thesis by (auto simp: c_def gap_def)
  qed
  have q: "4 * 2 ^ 1074 = (2 :: nat) ^ (1074 + 2)" by (simp only: power_add mult.commute) simp
  have "nat (1076 - s2) + nat s2 = 1074 + 2" using \<open>nat s2 \<le> 1075\<close> \<open>2 \<le> nat s2\<close> by simp
  then show S: "c * 2 ^ nat s2 = 4 * 2 ^ 1074" unfolding cs q by (simp only: power_add [symmetric])
  have "nat (1076 - s2) + nat (e + s2) = nat (e + 1074) + 2" using \<open>0 \<le> e + s2\<close> \<open>nat s2 \<le> 1075\<close> \<open>2 \<le> nat s2\<close> fr(4) by simp
  then have "c * 2 ^ nat (e + s2) = 2 ^ nat (e + 1074) * 4" unfolding cs by (simp add: power_add [symmetric])
  then show x: "c * (n * 2 ^ nat (e + s2)) = 4 * (units d0 d1 mod 2 ^ 1074)" unfolding fr(2) [symmetric] by (simp add: mult.left_commute mult.assoc)
  show "c = margin_below d0 d1" "c * (if boundary d0 d1 then 2 else 1) = margin_above d0"
    by (auto simp: c_def margin_below_def margin_above_def)
  show "even (n * 2 ^ nat (e + s2))" if "\<not> boundary d0 d1" using that ee unfolding s2 by simp
  have "0 < gap d0" by (simp add: gap_def)
  moreover have m: "c * (if boundary d0 d1 then 2 else 1) = 2 * gap d0" by (simp add: c_def)
  ultimately have "c * (n * 2 ^ nat (e + s2)) + c * (if boundary d0 d1 then 2 else 1) < c * 2 ^ nat s2"
    unfolding S x m using g(3) by linarith
  then have "c * (n * 2 ^ nat (e + s2) + (if boundary d0 d1 then 2 else 1)) < c * 2 ^ nat s2" by (simp only: distrib_left)
  then show "n * 2 ^ nat (e + s2) + (if boundary d0 d1 then 2 else 1) < 2 ^ nat s2" by (simp only: mult_less_cancel1)
qed

lemma fraction_tail_gives:
  assumes w: "dtoa_ok w" and base: "2 \<le> unat base" "unat base \<le> 36" and b: "sized 6 b" "0 < bval b"
    and ms: "margins_ok ms 1 hi" "hi = 1 \<or> hi = 2" and s2: "0 \<le> e + s2" "2 \<le> nat s2" "nat s2 \<le> 1075"
    and x: "bval b * 2 ^ nat (e + s2) + hi < 2 ^ nat s2" "hi = 1 \<longrightarrow> even (bval b * 2 ^ nat (e + s2))"
  shows "gives w
    (if e + s2 < 0 \<or> s2 < 0 then None
     else
       unless_null (lshift b (nat (e + s2)) w) (free_margins ms) (\<lambda>b w.
         unless_null (i2b 1 w) (nomem2 (Some b) None ms) (\<lambda>s w.
           unless_null (lshift s (nat s2) w) (nomem2 (Some b) None ms) (\<lambda>s w.
             unless_null (fraction_loop base (nat s2) ev b s ms w) id (\<lambda>ds w. Some (Some (map BASEDIGIT ds), w))))))
    (\<lambda>str w'. \<exists>ds. str = map BASEDIGIT ds \<and> length ds \<le> nat s2 - 1 \<and>
       within ev (unat base) (2 ^ nat s2) 1 hi (bval b * 2 ^ nat (e + s2)) ds)" (is "gives w _ ?Q")
proof -
  let ?x = "bval b * 2 ^ nat (e + s2)"
  have two: "2 ^ nat s2 < (2 :: nat) ^ (32 * 2 ^ 6)" using s2(3) by (intro power_strict_increasing) simp_all
  have "gives w
       (unless_null (lshift b (nat (e + s2)) w) (free_margins ms) (\<lambda>b w.
         unless_null (i2b 1 w) (nomem2 (Some b) None ms) (\<lambda>s w.
           unless_null (lshift s (nat s2) w) (nomem2 (Some b) None ms) (\<lambda>s w.
             unless_null (fraction_loop base (nat s2) ev b s ms w) id (\<lambda>ds w. Some (Some (map BASEDIGIT ds), w)))))) ?Q"
  proof (rule unless_null_gives [OF lshift_gives [OF w b(1)]])
    show "?x < 2 ^ (32 * 2 ^ 6)" using x(1) two by linarith
    fix b1 w1 assume w1: "dtoa_ok w1" "malloc_ok w1 = malloc_ok w" and b1: "sized 6 b1 \<and> bval b1 = ?x \<and> p5s w1 = p5s w"
    have f1: "dtoa_ok (nomem2 (Some b1) None ms v) \<and> malloc_ok (nomem2 (Some b1) None ms v) = malloc_ok v" if "dtoa_ok v" for v
      by (rule nomem2_ok [OF that _ _ ms(1)]) (use b1 sizedD(3) in auto)
    have "gives w1 (unless_null (i2b 1 w1) (nomem2 (Some b1) None ms) (\<lambda>s w.
           unless_null (lshift s (nat s2) w) (nomem2 (Some b1) None ms) (\<lambda>s w.
             unless_null (fraction_loop base (nat s2) ev b1 s ms w) id (\<lambda>ds w. Some (Some (map BASEDIGIT ds), w))))) ?Q"
    proof (rule unless_null_gives [OF i2b_gives [OF w1(1)]])
      fix s w2 assume w2: "dtoa_ok w2" "malloc_ok w2 = malloc_ok w1"
        and s: "sized 6 s \<and> bk s = 1 \<and> \<not> sign s \<and> bval s = nat 1 \<and> wds s = 1 \<and> p5s w2 = p5s w1"
      have "gives w2 (unless_null (lshift s (nat s2) w2) (nomem2 (Some b1) None ms) (\<lambda>s w.
             unless_null (fraction_loop base (nat s2) ev b1 s ms w) id (\<lambda>ds w. Some (Some (map BASEDIGIT ds), w)))) ?Q"
      proof (rule unless_null_gives [OF lshift_gives [OF w2(1) conjunct1 [OF s]]])
        show "bval s * 2 ^ nat s2 < 2 ^ (32 * 2 ^ 6)" "0 < bval s \<or> nat s2 < 32" using s two by simp_all
        fix s1 w3 assume w3: "dtoa_ok w3" "malloc_ok w3 = malloc_ok w2" and s1: "sized 6 s1 \<and> bval s1 = bval s * 2 ^ nat s2 \<and> p5s w3 = p5s w2"
        have "gives w3 (fraction_loop base (nat s2) ev b1 s1 ms w3)
            (\<lambda>ds w'. ds \<noteq> [] \<and> length ds \<le> nat s2 - 1 \<and> within ev (unat base) (2 ^ nat s2) 1 hi (bval b1) ds)"
          by (rule fraction_loop_gives [OF w3(1) base _ _ _ _ ms(1)]) (use b1 s1 s ms(2) s2 x in auto)
        then have "gives w3 (unless_null (fraction_loop base (nat s2) ev b1 s1 ms w3) id (\<lambda>ds w. Some (Some (map BASEDIGIT ds), w))) ?Q"
          by (rule unless_null_gives) (use b1 in auto)
        then show "gives w2 (unless_null (fraction_loop base (nat s2) ev b1 s1 ms w3) id (\<lambda>ds w. Some (Some (map BASEDIGIT ds), w))) ?Q"
          by (rule gives_state) (rule w3(2))
      qed (use f1 in simp_all)
      then show "gives w1 (unless_null (lshift s (nat s2) w2) (nomem2 (Some b1) None ms) (\<lambda>s w.
             unless_null (fraction_loop base (nat s2) ev b1 s ms w) id (\<lambda>ds w. Some (Some (map BASEDIGIT ds), w)))) ?Q"
        by (rule gives_state) (rule w2(2))
    qed (use f1 in simp_all)
    then show "gives w (unless_null (i2b 1 w1) (nomem2 (Some b1) None ms) (\<lambda>s w.
           unless_null (lshift s (nat s2) w) (nomem2 (Some b1) None ms) (\<lambda>s w.
             unless_null (fraction_loop base (nat s2) ev b1 s ms w) id (\<lambda>ds w. Some (Some (map BASEDIGIT ds), w))))) ?Q"
      by (rule gives_state) (rule w1(2))
  qed (use b free_margins_ok [OF _ ms(1)] in simp_all)
  moreover have "\<not> (e + s2 < 0 \<or> s2 < 0)" using s2 by linarith
  ultimately show ?thesis by (simp only: if_False)
qed

lemma fraction_part_gives:
  assumes w: "dtoa_ok w" and base: "2 \<le> unat base" "unat base \<le> 36"
    and fr: "units d0 d1 mod 2 ^ 1074 \<noteq> 0" "units f0 f1 = units d0 d1 mod 2 ^ 1074"
  shows "gives w (fraction_part base d0 d1 f0 f1 w) (\<lambda>str w'. \<exists>ds. str = map BASEDIGIT ds \<and>
    length ds \<le> nat (1 - expo d0) \<and> length ds \<le> 1074 \<and>
    within (even (mant d0 d1)) (unat base) (4 * 2 ^ 1074) (margin_below d0 d1) (margin_above d0) (4 * (units d0 d1 mod 2 ^ 1074)) ds)"
    (is "gives w _ ?Q")
proof -
  have m0: "mant f0 f1 \<noteq> 0"
  proof
    assume "mant f0 f1 = 0"
    then have "units f0 f1 = 0" by (simp only: units_def mult_zero_left)
    then show False using fr by (simp only:)
  qed
  have ev: "d1 AND 1 = 0 \<longleftrightarrow> even (mant d0 d1)"
  proof -
    have "d1 AND 1 = 0 \<longleftrightarrow> even (unat d1)" using and_low [of d1 1] by (simp add: even_iff_mod_2_eq_zero del: even_unat)
    moreover have "even (mant d0 d1) \<longleftrightarrow> even (unat d1)" unfolding mant_def by (simp only: even_add even_mult_iff) simp
    ultimately show ?thesis by (simp only:)
  qed
  define s0 where "s0 = (let s2 = - int (biased d0); s2 = (if s2 = 0 then -1 else s2) in s2 + 1023 + 53)"
  have s0: "s0 = 1 - expo d0" by (simp add: s0_def expo_def Let_def)
  show ?thesis unfolding fraction_part_def exponent_field Let_def
  proof (rule unless_null_gives_triple [OF d2b_gives [OF w m0]])
    fix b e bits w1 assume w1: "dtoa_ok w1" "malloc_ok w1 = malloc_ok w"
      and r: "(case (b, e, bits) of (b, e, bits) \<Rightarrow> \<lambda>w'. normal b \<and> bk b = 1 \<and> odd (bval b) \<and> p5s w' = p5s w \<and>
          (\<exists>k. mant f0 f1 = bval b * 2 ^ k \<and> e = expo f0 + int k) \<and> 0 < bits \<and> 2 ^ (nat bits - 1) \<le> bval b \<and> bval b < 2 ^ nat bits) w1"
    then obtain k where b: "normal b" "bk b = 1" "odd (bval b)" "mant f0 f1 = bval b * 2 ^ k" "e = expo f0 + int k" by auto
    have b6: "sized 6 b" "0 < bval b" using b(1-3) odd_pos by (auto simp: sized_def)
    have "nat (e + 1074) = k + nat (expo f0 + 1074)" using b(5) expo_ge [of f0] by simp
    then have u: "bval b * 2 ^ nat (e + 1074) = units d0 d1 mod 2 ^ 1074" "- 1074 \<le> e"
      using b(4,5) fr(2) expo_ge [of f0] by (simp_all only: units_def power_add mult.assoc)
    define s2 where "s2 = (if boundary d0 d1 then 2 - expo d0 else 1 - expo d0)"
    define hi :: nat where "hi = (if boundary d0 d1 then 2 else 1)"
    note st = start_numbers [OF fr(1) u(1) b(3) u(2) s2_def, folded hi_def]
    define c where "c = (if boundary d0 d1 then gap d0 else 2 * gap d0)"
    have c0: "0 < c" by (simp add: c_def gap_def)
    have len: "nat s2 - 1 \<le> nat (1 - expo d0)" "nat s2 - 1 \<le> 1074" using st(3) by (auto simp: s2_def)
    let ?tail = "\<lambda>ms s2 w. if e + s2 < 0 \<or> s2 < 0 then None
       else
         unless_null (lshift b (nat (e + s2)) w) (free_margins ms) (\<lambda>b w.
           unless_null (i2b 1 w) (nomem2 (Some b) None ms) (\<lambda>s w.
             unless_null (lshift s (nat s2) w) (nomem2 (Some b) None ms) (\<lambda>s w.
               unless_null (fraction_loop base (nat s2) (d1 AND 1 = 0) b s ms w) id (\<lambda>ds w. Some (Some (map BASEDIGIT ds), w)))))"
    have tail: "gives v (?tail ms s2 v) ?Q" if "dtoa_ok v" "margins_ok ms 1 hi" for ms v
    proof (rule gives_mono [OF fraction_tail_gives [OF that(1) base b6 that(2) _ st(1-3) st(9)]])
      show "hi = 1 \<or> hi = 2" "hi = 1 \<longrightarrow> even (bval b * 2 ^ nat (e + s2))" using st(8) by (auto simp: hi_def)
      fix str w' assume "\<exists>ds. str = map BASEDIGIT ds \<and> length ds \<le> nat s2 - 1 \<and>
        within (d1 AND 1 = 0) (unat base) (2 ^ nat s2) 1 hi (bval b * 2 ^ nat (e + s2)) ds"
      then obtain ds where ds: "str = map BASEDIGIT ds" "length ds \<le> nat s2 - 1"
        "within (even (mant d0 d1)) (unat base) (2 ^ nat s2) 1 hi (bval b * 2 ^ nat (e + s2)) ds" unfolding ev by blast
      then have "within (even (mant d0 d1)) (unat base) (c * 2 ^ nat s2) (c * 1) (c * hi) (c * (bval b * 2 ^ nat (e + s2))) ds"
        using within_scale [OF c0] by blast
      then have "within (even (mant d0 d1)) (unat base) (4 * 2 ^ 1074) (margin_below d0 d1) (margin_above d0) (4 * (units d0 d1 mod 2 ^ 1074)) ds"
        using st(4-7) [folded c_def] by (simp only: mult_1_right)
      then show "?Q str w'" using ds(1,2) len by (blast intro: le_trans)
    qed
    have "gives w1 (unless_null (i2b 1 w1) (Bfree (Some b)) (\<lambda>lo w.
            unless_null
              (if boundary d0 d1 then unless_null (i2b 2 w) (\<lambda>w. Bfree (Some lo) (Bfree (Some b) w)) (\<lambda>hi w. Some (Some (Both lo hi, s0 + 1), w))
               else Some (Some (Same lo, s0), w))
              id (\<lambda>(ms, s2) w. ?tail ms s2 w))) ?Q"
    proof (rule unless_null_gives [OF i2b_gives [OF w1(1)]])
      fix lo w2 assume w2: "dtoa_ok w2" "malloc_ok w2 = malloc_ok w1"
        and lo: "sized 6 lo \<and> bk lo = 1 \<and> \<not> sign lo \<and> bval lo = nat 1 \<and> wds lo = 1 \<and> p5s w2 = p5s w1"
      have "gives w2 (if boundary d0 d1 then unless_null (i2b 2 w2) (\<lambda>w. Bfree (Some lo) (Bfree (Some b) w)) (\<lambda>hi w. Some (Some (Both lo hi, s0 + 1), w))
               else Some (Some (Same lo, s0), w2))
          (\<lambda>(ms, t) w'. margins_ok ms 1 hi \<and> t = s2)"
      proof (cases "boundary d0 d1")
        case True
        have "gives w2 (unless_null (i2b 2 w2) (\<lambda>w. Bfree (Some lo) (Bfree (Some b) w)) (\<lambda>hi w. Some (Some (Both lo hi, s0 + 1), w)))
            (\<lambda>(ms, t) w'. margins_ok ms 1 hi \<and> t = s2)"
          by (rule unless_null_gives [OF i2b_gives [OF w2(1), where m = 6]])
            (use True lo s0 b6(1) in \<open>auto simp: margins_ok_def hi_def s2_def Bfree_ok sizedD(3)\<close>)
        then show ?thesis using True by simp
      next
        case False
        then show ?thesis using w2 lo s0 by (simp add: margins_ok_def hi_def s2_def)
      qed
      then have "gives w2 (unless_null
              (if boundary d0 d1 then unless_null (i2b 2 w2) (\<lambda>w. Bfree (Some lo) (Bfree (Some b) w)) (\<lambda>hi w. Some (Some (Both lo hi, s0 + 1), w))
               else Some (Some (Same lo, s0), w2))
              id (\<lambda>(ms, s2) w. ?tail ms s2 w)) ?Q"
      proof (rule unless_null_gives_pair)
        fix ms t v assume v: "dtoa_ok v" "malloc_ok v = malloc_ok w2" "(case (ms, t) of (ms, t) \<Rightarrow> \<lambda>w'. margins_ok ms 1 hi \<and> t = s2) v"
        from v(3) have ms: "margins_ok ms 1 hi" "t = s2" by (simp_all del: One_nat_def)
        show "gives w2 (?tail ms t v) ?Q" unfolding ms(2) by (rule gives_state [OF tail [OF v(1) ms(1)] v(2)])
      qed simp
      then show "gives w1 (unless_null
              (if boundary d0 d1 then unless_null (i2b 2 w2) (\<lambda>w. Bfree (Some lo) (Bfree (Some b) w)) (\<lambda>hi w. Some (Some (Both lo hi, s0 + 1), w))
               else Some (Some (Same lo, s0), w2))
              id (\<lambda>(ms, s2) w. ?tail ms s2 w)) ?Q"
        by (rule gives_state) (rule w2(2))
    qed (use b6(1) in \<open>simp_all add: Bfree_ok sizedD(3)\<close>)
    then show "gives w (unless_null (i2b 1 w1) (Bfree (Some b)) (\<lambda>lo w.
            unless_null
              (if d1 = 0 \<and> d0 AND 0xFFFFF = 0 \<and> d0 AND 0x7FE00000 \<noteq> 0 then
                 unless_null (i2b 2 w) (\<lambda>w. Bfree (Some lo) (Bfree (Some b) w))
                   (\<lambda>hi w. Some (Some (Both lo hi, (if - int (biased d0) = 0 then -1 else - int (biased d0)) + 1023 + 53 + 1), w))
               else Some (Some (Same lo, (if - int (biased d0) = 0 then -1 else - int (biased d0)) + 1023 + 53), w))
              id (\<lambda>(ms, s2) w. ?tail ms s2 w))) ?Q"
      unfolding boundary_test s0_def Let_def by (rule gives_state) (rule w1(2))
  qed simp
qed

end
