(* ===== verification/Dtoa_Correct.thy ===== *)
theory Dtoa_Correct
  imports Dtobase_String
begin

text \<open>
  The properties of \<open>js/src/jsdtoa.c\<close>: the string that \<open>JS_dtobasestr\<close> makes of any double, and what the operations on
  multiple-precision integers compute.
\<close>

subsection \<open>The fields of a double\<close>

lemma flip_sign:
  "biased (d0 XOR 0x80000000) = biased d0" "unat (d0 XOR 0x80000000) mod 2 ^ 20 = unat d0 mod 2 ^ 20"
proof -
  have t: "take_bit 31 (d0 XOR 0x80000000) = take_bit 31 d0"
  proof -
    have "(0x80000000 :: u32) = push_bit 31 1" by simp
    then have "take_bit 31 (0x80000000 :: u32) = 0" by (simp only: take_bit_push_bit) simp
    then show ?thesis by (simp only: take_bit_xor xor.right_neutral)
  qed
  then have m: "unat (d0 XOR 0x80000000) mod 2 ^ 31 = unat d0 mod 2 ^ 31" by (metis unat_take_bit take_bit_eq_mod)
  have b: "n div 2 ^ 20 mod 2 ^ 11 = n mod 2 ^ 31 div 2 ^ 20" for n :: nat using mod_mult2_eq [of n "2 ^ 20" "2 ^ 11"] by simp
  show "biased (d0 XOR 0x80000000) = biased d0" unfolding biased_def b m ..
  have "n mod 2 ^ 20 = n mod 2 ^ 31 mod 2 ^ 20" for n :: nat by (simp add: mod_mod_cancel)
  then show "unat (d0 XOR 0x80000000) mod 2 ^ 20 = unat d0 mod 2 ^ 20" using m by metis
qed

text \<open>The high word of the double without its sign, as the code computes it.\<close>

definition magnitude :: "u32 \<Rightarrow> u32 \<Rightarrow> u32" where
  "magnitude d0 d1 = (if below_zero d0 d1 then d0 XOR 0x80000000 else d0)"

lemma magnitude_fields:
  "biased (magnitude d0 d1) = biased d0" "unat (magnitude d0 d1) mod 2 ^ 20 = unat d0 mod 2 ^ 20"
  by (cases "below_zero d0 d1"; simp only: magnitude_def flip_sign if_True if_False)+

lemma magnitude_value:
  "expo (magnitude d0 d1) = expo d0" "mant (magnitude d0 d1) d1 = mant d0 d1" "units (magnitude d0 d1) d1 = units d0 d1"
  "margin_below (magnitude d0 d1) d1 = margin_below d0 d1" "margin_above (magnitude d0 d1) = margin_above d0"
  by (simp_all only: units_def expo_def mant_def margin_below_def margin_above_def boundary_def gap_def magnitude_fields)

lemma exponent_all_ones: "d0 AND 0x7FF00000 = 0x7FF00000 \<longleftrightarrow> biased d0 = 2047"
proof -
  have "d0 AND 0x7FF00000 = push_bit 20 (take_bit 11 (drop_bit 20 d0))"
  proof (rule bit_word_eqI)
    fix n assume n: "n < LENGTH(32)"
    have "(0x7FF00000 :: u32) = push_bit 20 (mask 11)" by (simp add: mask_eq_exp_minus_1)
    moreover have "bit (push_bit 20 (mask 11) :: u32) n \<longleftrightarrow> 20 \<le> n \<and> n < 31" using n by (auto simp: bit_push_bit_iff bit_mask_iff)
    ultimately have "bit (0x7FF00000 :: u32) n \<longleftrightarrow> 20 \<le> n \<and> n < 31" by (simp only:)
    then show "bit (d0 AND 0x7FF00000) n = bit (push_bit 20 (take_bit 11 (drop_bit 20 d0))) n"
      using n by (auto simp: bit_and_iff bit_push_bit_iff bit_take_bit_iff bit_drop_bit_eq)
  qed
  then have u: "unat (d0 AND 0x7FF00000) = biased d0 * 2 ^ 20"
    unfolding biased_def by (simp only:) (subst unat_push_bit, simp_all only: unat_take_bit unat_drop_bit, simp)
  show ?thesis
  proof
    assume "d0 AND 0x7FF00000 = 0x7FF00000"
    then have "biased d0 * 2 ^ 20 = unat (0x7FF00000 :: u32)" using u by (simp only:)
    then show "biased d0 = 2047" by simp
  next
    assume "biased d0 = 2047"
    then have "unat (d0 AND 0x7FF00000) = unat (0x7FF00000 :: u32)" unfolding u by simp
    then show "d0 AND 0x7FF00000 = 0x7FF00000" by (simp only: word_unat_eq_iff)
  qed
qed

lemma magnitude_low: "magnitude d0 d1 AND 0xFFFFF = 0 \<longleftrightarrow> d0 AND 0xFFFFF = 0"
  using and_low [of "magnitude d0 d1" 20] and_low [of d0 20] magnitude_fields(2) [of d0 d1] by simp

subsection \<open>Lengths\<close>

lemma mant_less: "mant d0 d1 < 2 ^ 53"
proof -
  have "unat d0 mod 2 ^ 20 + 1 \<le> 2 ^ 20" by (simp add: Suc_le_eq)
  then have "(unat d0 mod 2 ^ 20 + 1) * 2 ^ 32 \<le> 2 ^ 20 * 2 ^ 32" by (rule mult_right_mono) simp
  then show ?thesis using u32_bound [of d1] by (simp add: mant_def)
qed

lemma whole_less:
  assumes "biased d0 < 2047" shows "units d0 d1 div 2 ^ 1074 < 2 ^ 1024"
proof (rule less_mult_imp_div_less)
  have "nat (expo d0 + 1074) \<le> 2045" using assms by (auto simp: expo_def nat_le_iff)
  then have "(2 :: nat) ^ nat (expo d0 + 1074) \<le> 2 ^ 2045" by (rule power_increasing) simp
  then have "units d0 d1 < 2 ^ 53 * 2 ^ 2045" unfolding units_def by (intro mult_less_le_imp_less) (simp_all only: mant_less, simp_all)
  also have "\<dots> = 2 ^ 1024 * (2 ^ 1074 :: nat)" by (simp only: power_add [symmetric]) simp
  finally show "units d0 d1 < 2 ^ 1024 * 2 ^ 1074" .
qed

lemma digits_length:
  assumes "digits_of B N ds" "2 \<le> B" "N < 2 ^ n" "0 < n" shows "length ds \<le> n"
proof (cases "N = 0")
  case False
  have "2 ^ (length ds - 1) \<le> B ^ (length ds - 1)" using assms(2) by (rule power_mono) simp
  also have "\<dots> \<le> N" using assms(1) False by (simp add: digits_of_def)
  also have "\<dots> < 2 ^ n" by (rule assms(3))
  finally have "length ds - 1 < n" by (rule power_less_imp_less_exp [rotated]) simp
  then show ?thesis by simp
qed (use assms in \<open>simp add: digits_of_def\<close>)

lemma string_length:
  assumes ds: "digits_of B (units d0 d1 div 2 ^ 1074) ds" "2 \<le> B" and fr: "units d0 d1 mod 2 ^ 1074 \<noteq> 0"
    and fs: "l \<le> nat (1 - expo d0)" "l \<le> 1074"
  shows "length ds + l \<le> 1075"
proof (cases "units d0 d1 div 2 ^ 1074 = 0")
  case True
  then have "length ds = 1" using ds(1) unfolding True by (simp only: digits_of_def)
  then show ?thesis using fs(2) by simp
next
  case False
  have neg: "expo d0 < 0" by (rule fraction_gap(1) [OF fr])
  have "(2 :: nat) ^ 1074 \<le> units d0 d1"
  proof (rule ccontr)
    assume "\<not> 2 ^ 1074 \<le> units d0 d1"
    then have "units d0 d1 < 2 ^ 1074" by (simp only: not_le)
    then show False using False by (simp only: div_less)
  qed
  also have "\<dots> < 2 ^ 53 * 2 ^ nat (expo d0 + 1074)" unfolding units_def by (rule mult_strict_right_mono [OF mant_less]) simp
  also have "\<dots> = 2 ^ (53 + nat (expo d0 + 1074))" by (simp only: power_add)
  finally have "1074 < 53 + nat (expo d0 + 1074)" by (rule power_less_imp_less_exp [rotated]) simp
  then have l: "l \<le> 53" using fs(1) neg by simp
  have "(2 :: nat) ^ nat (expo d0 + 1074) \<le> 2 ^ 1074" using neg by (intro power_increasing) simp_all
  then have "units d0 d1 < 2 ^ 53 * 2 ^ 1074" unfolding units_def by (intro mult_less_le_imp_less) (simp_all only: mant_less, simp_all)
  then have "units d0 d1 div 2 ^ 1074 < 2 ^ 53" by (rule less_mult_imp_div_less)
  then have "length ds \<le> 53" by (rule digits_length [OF ds]) simp
  then show ?thesis using l by simp
qed

subsection \<open>The string of a double\<close>

definition prints :: "nat \<Rightarrow> u32 \<Rightarrow> u32 \<Rightarrow> u8 list \<Rightarrow> bool" where
  "prints B d0 d1 s \<longleftrightarrow>
     (if biased d0 = 2047 then
        s = (if below_zero d0 d1 then [45] else []) @
          (if d1 = 0 \<and> d0 AND 0xFFFFF = 0 then [73, 110, 102, 105, 110, 105, 116, 121] else [78, 97, 78])
      else
        \<exists>ds fs. s = (if below_zero d0 d1 then [45] else []) @ map BASEDIGIT (rev ds) @
            (if units d0 d1 mod 2 ^ 1074 = 0 then [] else 46 # map BASEDIGIT fs) \<and>
          digits_of B (units d0 d1 div 2 ^ 1074) ds \<and>
          (units d0 d1 mod 2 ^ 1074 \<noteq> 0 \<longrightarrow>
             within (even (mant d0 d1)) B (4 * 2 ^ 1074) (margin_below d0 d1) (margin_above d0) (4 * (units d0 d1 mod 2 ^ 1074)) fs))"

lemma in_buffer_gives: "dtoa_ok w' \<Longrightarrow> malloc_ok w' = malloc_ok w \<Longrightarrow> length s < DTOBASESTR_BUFFER_SIZE \<Longrightarrow> P s w' \<Longrightarrow> gives w (in_buffer s w') P"
  by (simp add: in_buffer_def)

lemma prints_special:
  assumes "biased d0 = 2047"
    and "s = (if below_zero d0 d1 then [45] else []) @
      (if d1 = 0 \<and> magnitude d0 d1 AND 0xFFFFF = 0 then [73, 110, 102, 105, 110, 105, 116, 121] else [78, 97, 78])"
  shows "prints B d0 d1 s \<and> length s < DTOBASESTR_BUFFER_SIZE"
  using assms unfolding prints_def magnitude_low by (simp add: DTOBASESTR_BUFFER_SIZE_def)

lemma finite_gives:
  assumes w: "dtoa_ok w" and base: "2 \<le> unat base" "unat base \<le> 36" and fin: "biased d0 < 2047"
    and i: "units i0 i1 = units d0 d1 div 2 ^ 1074 * 2 ^ 1074"
    and f: "units f0 f1 = units d0 d1 mod 2 ^ 1074"
  shows "gives w
    (unless_null (integer_part base i0 i1 w) id (\<lambda>int_digits w.
       if mant f0 f1 = 0 then in_buffer ((if below_zero d0 d1 then [45] else []) @ int_digits) w
       else
         unless_null (fraction_part base (magnitude d0 d1) d1 f0 f1 w) id (\<lambda>frac_digits w.
           in_buffer ((if below_zero d0 d1 then [45] else []) @ int_digits @ [46] @ frac_digits) w)))
    (\<lambda>s w'. prints (unat base) d0 d1 s \<and> length s < DTOBASESTR_BUFFER_SIZE)" (is "gives w _ ?Q")
proof (rule unless_null_gives [OF integer_part_gives [OF w base i whole_less [OF fin]]])
  let ?sign = "if below_zero d0 d1 then [45] else [] :: u8 list"
  have sl: "length ?sign \<le> 1" by simp
  fix str w1 assume w1: "dtoa_ok w1" "malloc_ok w1 = malloc_ok w"
    and "\<exists>ds. str = map BASEDIGIT (rev ds) \<and> digits_of (unat base) (units d0 d1 div 2 ^ 1074) ds"
  then obtain ds where ds: "str = map BASEDIGIT (rev ds)" "digits_of (unat base) (units d0 d1 div 2 ^ 1074) ds" by blast
  have l: "length str \<le> 1024" using digits_length [OF ds(2) base(1) whole_less [OF fin]] ds(1) by simp
  have nb: "biased d0 \<noteq> 2047" using fin by simp
  show "gives w
       (if mant f0 f1 = 0 then in_buffer (?sign @ str) w1
       else
         unless_null (fraction_part base (magnitude d0 d1) d1 f0 f1 w1) id (\<lambda>frac_digits w.
           in_buffer (?sign @ str @ [46] @ frac_digits) w)) ?Q"
  proof (cases "mant f0 f1 = 0")
    case True
    then have "units f0 f1 = 0" by (simp only: units_def mult_zero_left)
    then have z: "units d0 d1 mod 2 ^ 1074 = 0" using f by (simp only:)
    have "prints (unat base) d0 d1 (?sign @ str)"
      unfolding prints_def z if_not_P [OF nb] by (rule exI [of _ ds]) (use ds in simp)
    moreover have "length (?sign @ str) < DTOBASESTR_BUFFER_SIZE" using l sl by (simp add: DTOBASESTR_BUFFER_SIZE_def)
    ultimately show ?thesis unfolding if_P [OF True] by (intro in_buffer_gives w1 conjI)
  next
    case False
    then have "units f0 f1 \<noteq> 0" by (simp only: units_def mult_eq_0_iff power_not_zero) simp
    then have nz: "units d0 d1 mod 2 ^ 1074 \<noteq> 0" using f by (simp only:) simp
    have "gives w1 (unless_null (fraction_part base (magnitude d0 d1) d1 f0 f1 w1) id (\<lambda>frac_digits w.
           in_buffer (?sign @ str @ [46] @ frac_digits) w)) ?Q"
    proof (rule unless_null_gives [OF fraction_part_gives [OF w1(1) base, of "magnitude d0 d1" d1, unfolded magnitude_value]])
      fix frac w2 assume w2: "dtoa_ok w2" "malloc_ok w2 = malloc_ok w1"
        and "\<exists>fs. frac = map BASEDIGIT fs \<and> length fs \<le> nat (1 - expo d0) \<and> length fs \<le> 1074 \<and>
          within (even (mant d0 d1)) (unat base) (4 * 2 ^ 1074) (margin_below d0 d1) (margin_above d0) (4 * (units d0 d1 mod 2 ^ 1074)) fs"
      then obtain fs where fs: "frac = map BASEDIGIT fs" "length fs \<le> nat (1 - expo d0)" "length fs \<le> 1074"
        "within (even (mant d0 d1)) (unat base) (4 * 2 ^ 1074) (margin_below d0 d1) (margin_above d0) (4 * (units d0 d1 mod 2 ^ 1074)) fs" by blast
      have "prints (unat base) d0 d1 (?sign @ str @ [46] @ frac)"
        unfolding prints_def if_not_P [OF nb] if_not_P [OF nz] by (rule exI [of _ ds], rule exI [of _ fs]) (use ds fs nz in \<open>simp only: append_Cons append_Nil simp_thms\<close>)
      moreover have "length ds + length fs \<le> 1075" by (rule string_length [OF ds(2) base(1) nz fs(2,3)])
      then have "length (?sign @ str @ [46] @ frac) < DTOBASESTR_BUFFER_SIZE" using ds(1) fs(1) sl by (simp add: DTOBASESTR_BUFFER_SIZE_def)
      ultimately show "gives w1 (in_buffer (?sign @ str @ [46] @ frac) w2) ?Q" by (intro in_buffer_gives w2 conjI)
    qed (use nz f in \<open>simp_all only: id_apply simp_thms not_False_eq_True\<close>)
    then show ?thesis unfolding if_not_P [OF False] by (rule gives_state) (rule w1(2))
  qed
qed simp

text \<open>
  C6. Printing any double in a base from 2 to 36 with \<open>JS_dtobasestr\<close> gives a string, or null when an allocation fails, and
  never leaves its buffer of 1078 bytes or an allocation of a number.  The string is NaN, Infinity or -Infinity, or else
  the exact digits of the integer part without leading zeros and, when the double is not an integer, a point and digits
  that end and denote a number at most half of the way to the next double on either side, so that they round back to it.
\<close>

theorem dtobasestr_correct:
  assumes "dtoa_ok w" "2 \<le> unat base" "unat base \<le> 36"
    and "biased d0 < 2047 \<longrightarrow>
      fd_floor (magnitude d0 d1, d1) = (i0, i1) \<and> units i0 i1 = units d0 d1 div 2 ^ 1074 * 2 ^ 1074 \<and>
      minus_double (magnitude d0 d1, d1) (i0, i1) = (f0, f1) \<and> units f0 f1 = units d0 d1 mod 2 ^ 1074"
  shows "gives w (JS_dtobasestr fd_floor minus_double base (d0, d1) w)
    (\<lambda>s w'. prints (unat base) d0 d1 s \<and> length s < DTOBASESTR_BUFFER_SIZE)"
proof -
  let ?w = "w\<lparr>mallocs := mallocs w + 1\<rparr>"
  have w: "dtoa_ok ?w" "malloc_ok ?w = malloc_ok w" using assms(1) by (simp_all add: dtoa_ok_def)
  have lt: "biased d0 < 2 ^ 11" unfolding biased_def by (rule mod_less_divisor) simp
  consider (null) "\<not> malloc_ok w (mallocs w)" | (special) "malloc_ok w (mallocs w)" "biased d0 = 2047"
    | (finite) "malloc_ok w (mallocs w)" "biased d0 < 2047" using lt by fastforce
  then show ?thesis
  proof cases
    case null
    then show ?thesis using w by (auto simp: JS_dtobasestr_def gives_def)
  next
    case special
    have "magnitude d0 d1 AND 0x7FF00000 = 0x7FF00000" using special(2) by (simp only: exponent_all_ones magnitude_fields)
    then have run: "JS_dtobasestr fd_floor minus_double base (d0, d1) w = in_buffer ((if below_zero d0 d1 then [45] else []) @
        (if d1 = 0 \<and> magnitude d0 d1 AND 0xFFFFF = 0 then [73, 110, 102, 105, 110, 105, 116, 121] else [78, 97, 78])) ?w"
      using special(1) by (simp only: JS_dtobasestr_def Let_def prod.case magnitude_def [symmetric] w(2) not_True_eq_False if_True if_False simp_thms)
    show ?thesis unfolding run using prints_special [OF special(2) refl, where ?d1.0 = d1 and B = "unat base"] by (intro in_buffer_gives w) simp_all
  next
    case finite
    then have h: "fd_floor (magnitude d0 d1, d1) = (i0, i1)" "minus_double (magnitude d0 d1, d1) (i0, i1) = (f0, f1)"
      "units i0 i1 = units d0 d1 div 2 ^ 1074 * 2 ^ 1074" "units f0 f1 = units d0 d1 mod 2 ^ 1074" using assms(4) by blast+
    have "magnitude d0 d1 AND 0x7FF00000 \<noteq> 0x7FF00000" using finite(2) by (simp only: exponent_all_ones magnitude_fields)
    then show ?thesis
      unfolding JS_dtobasestr_def Let_def prod.case magnitude_def [symmetric] w(2) using finite(1)
      by (simp only: not_True_eq_False if_False if_True h prod.case simp_thms)
        (rule gives_state [OF finite_gives [OF w(1) assms(2,3) finite(2) h(3,4)] w(2)])
  qed
qed

text \<open>The state at the start of the program, with an allocator that never fails.\<close>

definition initial_dtoa :: Dtoa where
  "initial_dtoa = \<lparr>freelist = (\<lambda>k. []), p5s = [], malloc_ok = (\<lambda>i. True), fresh = (\<lambda>i j. 0), mallocs = 0\<rparr>"

lemma initial_dtoa_ok: "dtoa_ok initial_dtoa"
  by (simp add: dtoa_ok_def initial_dtoa_def)

text \<open>The double 2.5, of which the integer part is 2 and the fraction is 0.5.\<close>

lemma dtobasestr_correct_witness:
  "gives initial_dtoa (JS_dtobasestr (\<lambda>x. (0x40000000, 0)) (\<lambda>x y. (0x3FE00000, 0)) 10 (0x40040000, 0) initial_dtoa)
    (\<lambda>s w'. prints 10 0x40040000 0 s \<and> length s < DTOBASESTR_BUFFER_SIZE)"
proof -
  have u: "units 0x40040000 0 = 5 * 2 ^ 1073" "units 0x40000000 0 = 2 ^ 1075" "units 0x3FE00000 0 = 2 ^ 1073"
    by (simp_all add: units_def mant_def expo_def biased_def)
  show ?thesis
    using dtobasestr_correct [OF initial_dtoa_ok, of 10 "0x40040000" "\<lambda>x. (0x40000000, 0)" 0 "0x40000000" 0 "\<lambda>x y. (0x3FE00000, 0)" "0x3FE00000" 0]
    unfolding u by simp
qed

subsection \<open>Arithmetic\<close>

text \<open>
  C20. Multiplication by a word with an added word, multiplication, shift, signed difference and comparison are exact on
  numbers without zero words at the top, whatever the free lists hold and however the allocation of the operands is
  larger than it needs to be; a result is null only when an allocation fails.
\<close>

theorem bigint_arithmetic_exact:
  assumes "dtoa_ok w" "sized m a" "sized m b" "m \<le> 28"
  shows "(0 < p \<and> p < 2 ^ 32 \<and> c < 2 ^ 32 \<and> bval a * p + c < 2 ^ (32 * 2 ^ m) \<longrightarrow>
      gives w (multadd a (int p) (int c) w) (\<lambda>r w'. sized m r \<and> bval r = bval a * p + c)) \<and>
    (0 < bval a \<and> 0 < bval b \<and> bval a * bval b < 2 ^ (32 * 2 ^ m) \<longrightarrow>
      gives w (mult a b w) (\<lambda>r w'. sized m r \<and> bval r = bval a * bval b)) \<and>
    (0 < bval a \<and> bval a * 2 ^ k < 2 ^ (32 * 2 ^ m) \<longrightarrow>
      gives w (lshift a k w) (\<lambda>r w'. sized m r \<and> bval r = bval a * 2 ^ k)) \<and>
    gives w (diff a b w) (\<lambda>r w'. sized m r \<and> (if sign r then - int (bval r) else int (bval r)) = int (bval a) - int (bval b)) \<and>
    (\<exists>i. cmp a b = Some i \<and> sgn i = sgn (int (bval a) - int (bval b)))"
proof (intro conjI impI)
  show "gives w (multadd a (int p) (int c) w) (\<lambda>r w'. sized m r \<and> bval r = bval a * p + c)"
    if "0 < p \<and> p < 2 ^ 32 \<and> c < 2 ^ 32 \<and> bval a * p + c < 2 ^ (32 * 2 ^ m)"
    by (rule gives_mono [OF multadd_gives [OF assms(1,2,4), of "int p" "int c"]]) (use that in simp_all)
  show "gives w (mult a b w) (\<lambda>r w'. sized m r \<and> bval r = bval a * bval b)"
    if "0 < bval a \<and> 0 < bval b \<and> bval a * bval b < 2 ^ (32 * 2 ^ m)"
    by (rule gives_mono [OF mult_gives [OF assms(1-3) _ _ assms(4)]]) (use that in auto)
  show "gives w (lshift a k w) (\<lambda>r w'. sized m r \<and> bval r = bval a * 2 ^ k)"
    if "0 < bval a \<and> bval a * 2 ^ k < 2 ^ (32 * 2 ^ m)"
    by (rule gives_mono [OF lshift_gives [OF assms(1,2) _ assms(4)]]) (use that in auto)
  show "gives w (diff a b w) (\<lambda>r w'. sized m r \<and> (if sign r then - int (bval r) else int (bval r)) = int (bval a) - int (bval b))"
    by (rule gives_mono [OF diff_gives [OF assms]]) auto
  show "\<exists>i. cmp a b = Some i \<and> sgn i = sgn (int (bval a) - int (bval b))"
    by (rule cmp_value) (use assms sizedD(1) in blast)+
qed

definition bigint_of_word :: "u32 \<Rightarrow> Bigint" where
  "bigint_of_word x = \<lparr>bk = 0, maxwds = 1, sign = False, wds = 1, words = [x]\<rparr>"

lemma bigint_of_word_value: "sized m (bigint_of_word x)" "normal (bigint_of_word x)" "bval (bigint_of_word x) = unat x"
  by (simp_all add: sized_def normal_def shape_def bval_def bigint_of_word_def)

lemma bigint_arithmetic_exact_witness:
  "gives initial_dtoa (multadd (bigint_of_word 7) (int 10) (int 3) initial_dtoa) (\<lambda>r w'. sized 3 r \<and> bval r = 73) \<and>
   gives initial_dtoa (mult (bigint_of_word 7) (bigint_of_word 10) initial_dtoa) (\<lambda>r w'. sized 3 r \<and> bval r = 70) \<and>
   gives initial_dtoa (lshift (bigint_of_word 7) 40 initial_dtoa) (\<lambda>r w'. sized 3 r \<and> bval r = 7 * 2 ^ 40)"
  using bigint_arithmetic_exact [OF initial_dtoa_ok bigint_of_word_value(1) [of 3 7] bigint_of_word_value(1) [of 3 10], where p = 10 and c = 3 and k = 40]
  by (simp add: bigint_of_word_value)

text \<open>
  C21. Quotients and remainders are exact: by a power of 2 for a quotient of a word, by a small number, and by a number whose
  top word has at least 17 and at most 31 bits; the remainder of the last may have no words when it is zero.
\<close>

theorem bigint_quotients_exact:
  assumes "normal b"
  shows "(bval b < 2 ^ 32 * 2 ^ k \<longrightarrow>
      (\<exists>q c. quorem2 b k = Some (q, c) \<and> unat q = bval b div 2 ^ k \<and> bval c = bval b mod 2 ^ k \<and> normal c)) \<and>
    (0 < d \<and> d \<le> 2 ^ 16 \<longrightarrow>
      (\<exists>r c. divrem b d = Some (r, c) \<and> unat r = bval b mod unat d \<and> bval c = bval b div unat d \<and>
         (wds c = 0 \<and> bval c = 0 \<or> normal c \<and> 0 < bval c))) \<and>
    (normal S \<and> wds b \<le> wds S \<and> 2 ^ 16 \<le> words S ! (wds S - 1) \<and> words S ! (wds S - 1) < 2 ^ 31 \<longrightarrow>
      (\<exists>q c. quorem b S = Some (q, c) \<and> unat q = bval b div bval S \<and> bval c = bval b mod bval S \<and> weak c))"
proof (intro conjI impI)
  show "\<exists>q c. quorem2 b k = Some (q, c) \<and> unat q = bval b div 2 ^ k \<and> bval c = bval b mod 2 ^ k \<and> normal c" if "bval b < 2 ^ 32 * 2 ^ k"
    using quorem2_value [OF assms that] by blast
  show "\<exists>r c. divrem b d = Some (r, c) \<and> unat r = bval b mod unat d \<and> bval c = bval b div unat d \<and>
      (wds c = 0 \<and> bval c = 0 \<or> normal c \<and> 0 < bval c)" if "0 < d \<and> d \<le> 2 ^ 16"
  proof -
    have "0 < unat d" "unat d \<le> 2 ^ 16" using that by (simp_all add: word_less_nat_alt word_le_nat_alt)
    from divrem_value [OF assms this] show ?thesis by blast
  qed
  show "\<exists>q c. quorem b S = Some (q, c) \<and> unat q = bval b div bval S \<and> bval c = bval b mod bval S \<and> weak c"
    if "normal S \<and> wds b \<le> wds S \<and> 2 ^ 16 \<le> words S ! (wds S - 1) \<and> words S ! (wds S - 1) < 2 ^ 31"
  proof -
    have "2 ^ 16 \<le> unat (words S ! (wds S - 1))" "unat (words S ! (wds S - 1)) < 2 ^ 31"
      using that by (simp_all add: word_less_nat_alt word_le_nat_alt)
    from quorem_value [OF assms _ _ this] that show ?thesis by blast
  qed
qed

lemma bigint_quotients_exact_witness:
  "(\<exists>q c. quorem2 (bigint_of_word 1000003) 10 = Some (q, c) \<and> unat q = 976 \<and> bval c = 579) \<and>
   (\<exists>r c. divrem (bigint_of_word 1000003) 36 = Some (r, c) \<and> unat r = 31 \<and> bval c = 27777) \<and>
   (\<exists>q c. quorem (bigint_of_word 1000003) (bigint_of_word 100000) = Some (q, c) \<and> unat q = 10 \<and> bval c = 3)"
proof -
  have n: "normal (bigint_of_word 100000)" by (rule bigint_of_word_value(2))
  have d: "(2 :: u32) ^ 16 = 65536" "(2 :: u32) ^ 31 = 2147483648" by simp_all
  have "wds (bigint_of_word x) = 1" "words (bigint_of_word x) ! 0 = x" for x by (simp_all add: bigint_of_word_def)
  with n bigint_quotients_exact [OF bigint_of_word_value(2) [of 1000003], where k = 10 and d = 36 and S = "bigint_of_word 100000"]
  show ?thesis unfolding d by (simp add: bigint_of_word_value) blast
qed

text \<open>What the comment of \<open>quorem\<close> asks for, a divisor whose top word does not start with a 1 bit, at least as many words in
  it as in the number and a quotient below 36, is not enough.\<close>

lemma quorem_comment_insufficient: "map_option fst (quorem (bigint_of_word 10) (bigint_of_word 1)) = Some 6"
  by code_simp

subsection \<open>Powers of 5 and decimal digits\<close>

text \<open>
  C22. Multiplication by a power of 5 is exact whichever powers the earlier calls have cached, and what it adds to the cache is
  the next powers \<open>5 ^ (4 * 2 ^ i)\<close>: the invariant of the free lists and of the cache holds again after it, also when an
  allocation fails on the way.
\<close>

theorem pow5mult_exact:
  assumes "dtoa_ok w" "sized m b" "0 < bval b" "m \<le> 28" "bval b * 5 ^ k < 2 ^ (32 * 2 ^ m)"
  shows "\<exists>r w'. pow5mult b k w = Some (r, w') \<and> dtoa_ok w' \<and>
    (case r of None \<Rightarrow> \<exists>i. \<not> malloc_ok w i | Some c \<Rightarrow> sized m c \<and> bval c = bval b * 5 ^ k)"
proof -
  have "gives w (pow5mult b k w) (\<lambda>c w'. sized m c \<and> bval c = bval b * 5 ^ k)" by (rule pow5mult_gives [OF assms])
  then show ?thesis by (auto simp: gives_def split: option.splits)
qed

lemma pow5mult_exact_witness:
  "\<exists>r w'. pow5mult (bigint_of_word 7) 23 initial_dtoa = Some (r, w') \<and> dtoa_ok w' \<and>
    (case r of None \<Rightarrow> \<exists>i. \<not> malloc_ok initial_dtoa i | Some c \<Rightarrow> sized 3 c \<and> bval c = 7 * 5 ^ 23)"
proof -
  have v: "bval (bigint_of_word 7) = 7" by (simp add: bigint_of_word_value)
  show ?thesis using pow5mult_exact [OF initial_dtoa_ok bigint_of_word_value(1) [of 3 7], of 23] unfolding v by simp
qed

lemma dec_append: "dec v (xs @ ys) = dec (dec v xs) ys"
  by (induction v xs rule: dec.induct) simp_all

text \<open>
  C23. The number of a string of digits with a point in it, of which the caller has computed the first nine digits in a word,
  is the decimal value of all the digits, \<open>nd0\<close> before the point and the rest after it.
\<close>

theorem s2b_decimal:
  fixes s :: "int list" and nd nd0 :: nat
  defines "ds \<equiv> map ((!) s) ([0..<nd0] @ [nd0 + 1..<nd + 1])"
  assumes "dtoa_ok w" "m \<le> 28" "0 < nd" "nd \<le> 9 * 2 ^ m" "nd0 \<le> nd" "nd < length s"
    and "\<forall>c \<in> set ds. 48 \<le> c \<and> c \<le> 57" "unat y9 = dec 0 (take 9 ds)" "dec 0 ds < 2 ^ (32 * 2 ^ m)"
  shows "gives w (s2b s nd0 nd y9 w) (\<lambda>b w'. sized m b \<and> bval b = dec 0 ds)"
proof -
  define cs where "cs = (if 9 < nd0 then map ((!) s) ([9..<nd0] @ [nd0 + 1..<nd + 1]) else map ((!) s) [10..<nd + 1])"
  have cs: "cs = drop 9 ds"
  proof (cases "9 < nd0")
    case True
    then show ?thesis by (simp add: cs_def ds_def drop_map)
  next
    case False
    then have "drop (9 - nd0) [nd0 + 1..<nd + 1] = [10..<nd + 1]" by (simp del: upt_Suc)
    then show ?thesis using False by (simp add: cs_def ds_def drop_map del: upt_Suc)
  qed
  have v: "dec (unat y9) cs = dec 0 ds" unfolding assms(9) cs by (simp only: dec_append [symmetric] append_take_drop_id)
  have "\<forall>c \<in> set cs. 48 \<le> c \<and> c \<le> 57" using assms(8) unfolding cs by (auto dest: in_set_dropD)
  moreover have "dec (unat y9) cs < 2 ^ (32 * 2 ^ m)" unfolding v by (rule assms(10))
  ultimately show ?thesis using s2b_gives [OF assms(2-7) _ cs_def, of y9] unfolding v by blast
qed

text \<open>The digits of 12345678901.5.\<close>

lemma s2b_decimal_witness:
  "gives initial_dtoa (s2b [49, 50, 51, 52, 53, 54, 55, 56, 57, 48, 49, 46, 53] 11 12 123456789 initial_dtoa)
    (\<lambda>b w'. sized 3 b \<and> bval b = 123456789015)"
proof -
  have ix: "[0..<11] @ [11 + 1..<12 + 1] = [0, 1, 2, 3, 4, 5, 6, 7, 8, 9, 10, 12 :: nat]" by (simp add: upt_rec)
  show ?thesis
    using s2b_decimal [OF initial_dtoa_ok, of 3 12 11 "[49, 50, 51, 52, 53, 54, 55, 56, 57, 48, 49, 46, 53]" 123456789, unfolded ix]
    by simp
qed

subsection \<open>Doubles\<close>

text \<open>
  C24. A double that is not zero, taken apart into an odd number, an exponent and a count of bits, is put together again from
  the number and the exponent, and the count is that of the bits of the number.
\<close>

theorem d2b_roundtrip:
  assumes "dtoa_ok w" "mant d0 d1 \<noteq> 0"
  shows "gives w (d2b d0 d1 w) (\<lambda>(b, e, bits) w'. normal b \<and> odd (bval b) \<and> - 1074 \<le> e \<and>
    bval b * 2 ^ nat (e + 1074) = units d0 d1 \<and> 0 < bits \<and> 2 ^ (nat bits - 1) \<le> bval b \<and> bval b < 2 ^ nat bits)"
proof (rule gives_mono [OF d2b_gives [OF assms]])
  fix x w'
  assume "(case x of (b, e, bits) \<Rightarrow> \<lambda>w'. normal b \<and> bk b = 1 \<and> odd (bval b) \<and> p5s w' = p5s w \<and>
    (\<exists>k. mant d0 d1 = bval b * 2 ^ k \<and> e = expo d0 + int k) \<and> 0 < bits \<and> 2 ^ (nat bits - 1) \<le> bval b \<and> bval b < 2 ^ nat bits) w'"
  moreover obtain b e bits where x: "x = (b, e, bits)" by (cases x)
  ultimately obtain k where b: "normal b" "odd (bval b)" "mant d0 d1 = bval b * 2 ^ k" "e = expo d0 + int k"
    "0 < bits" "2 ^ (nat bits - 1) \<le> bval b" "bval b < 2 ^ nat bits" by auto
  have e: "nat (e + 1074) = k + nat (expo d0 + 1074)" "- 1074 \<le> e" using b(4) expo_ge [of d0] by simp_all
  have "bval b * 2 ^ nat (e + 1074) = units d0 d1" unfolding e(1) units_def b(3) by (simp only: power_add mult.assoc)
  then show "(case x of (b, e, bits) \<Rightarrow> \<lambda>w'. normal b \<and> odd (bval b) \<and> - 1074 \<le> e \<and> bval b * 2 ^ nat (e + 1074) = units d0 d1 \<and>
    0 < bits \<and> 2 ^ (nat bits - 1) \<le> bval b \<and> bval b < 2 ^ nat bits) w'"
    unfolding x using b e(2) by simp
qed

lemma d2b_roundtrip_witness:
  "gives initial_dtoa (d2b 0x40040000 0 initial_dtoa) (\<lambda>(b, e, bits) w'. normal b \<and> odd (bval b) \<and> - 1074 \<le> e \<and>
    bval b * 2 ^ nat (e + 1074) = units 0x40040000 0 \<and> 0 < bits \<and> 2 ^ (nat bits - 1) \<le> bval b \<and> bval b < 2 ^ nat bits)"
  by (rule d2b_roundtrip [OF initial_dtoa_ok]) (simp add: mant_def biased_def)

end
