(* ===== verification/Spec2Isabelle.thy ===== *)
theory Spec2Isabelle
  imports Bits DHash_Table Collection_Correct LongLong_Div Uri_Correct Normalization_Correct Hash_Correct HeapSort_Array Promise_Order Jobs_Correct
    Module_Samples Module_Records Dtoa_Correct
begin

text \<open>
  A verification development for the C core of ZoolRunner's ECMAScript engine, \<open>js/src\<close>.

  The engine is the part of the repository with logic of its own in C: the containers every other part uses, the
  arithmetic and string routines under the standard library, and the ES2015 additions (collections, promises, jobs, modules).
  The definitions translate the C functions one by one, keep their names, and are executable; records are the structs,
  machine integers keep their width (\<^typ>\<open>32 word\<close> for \<open>uint32\<close>), a pointer into an array is an index, and an object
  with reserved slots is a record in a store.  What has no result in C (an access outside an array, an endless
  probe) is \<open>None\<close>; what the code reports as a failure is a value.  Whether an allocation succeeds is an argument of
  the operation or a field of its state, so every theorem holds for every behaviour of the allocator.

  \<^bold>\<open>The theories\<close>

  \<^item> Prelude: word types, \<open>JS_BIT\<close> and \<open>JS_BITMASK\<close> (\<open>jstypes.h\<close>), lemmas on words and lists.
  \<^item> Bits: the logarithms of \<open>jsbit.h\<close> and \<open>jslog2.c\<close> and the leading zeros of \<open>jslong.c\<close>; they are exact.
  \<^item> DHash, DHash\_Correct, DHash\_Table: the double-hashing table \<open>jsdhash.c\<close>.  Probe sequences visit every entry,
    the store invariant, and the table as a finite map.  The hooks of a client obey the locale \<open>dhash_keys\<close>,
    interpreted on the stub and the string hooks here and on the hooks of the collections in Collection\_Correct.
  \<^item> Jsval, Collection, Collection\_Correct: tagged values and the insertion-ordered storage of \<open>Map\<close> and \<open>Set\<close>
    (\<open>jscollectiontable.c\<close>), a client of the double-hashing table: an ordered list of entries up to SameValueZero, with
    cursors that survive compaction, and the weak passes of the collector.
  \<^item> Hash, Hash\_Correct: the chained table \<open>jshash.c\<close>, a finite map through move to front and resizing; the locale
    \<open>keyed_store\<close> states the contract of a keyed store and any sequence of calls on the table is answered by a map.
  \<^item> LongLong, LongLong\_Correct, LongLong\_Div: 64-bit integers as pairs of words (\<open>jslong.h\<close>, \<open>jslong.c\<close>); every
    operation is that of a 64-bit word, and division is exact where the code is.
  \<^item> Utf8, Utf8\_Correct: UTF-8 and UTF-16 transcoding in \<open>jsstr.c\<close>: round trips, bounds, errors.
  \<^item> Uri, Uri\_Correct: \<open>Encode\<close> and \<open>Decode\<close> of \<open>jsstr.c\<close>, clients of the transcoding: \<open>decodeURI\<close> undoes \<open>encodeURI\<close>.
  \<^item> Normalization, Normalization\_Correct: Unicode normalization, \<open>jsnormalization.c\<close>, over arbitrary tables: stable
    canonical ordering, unblocked composition, Hangul, the bounds of the buffers.
  \<^item> HeapSort, HeapSort\_Correct, HeapSort\_Array: \<open>Array.prototype.sort\<close> in \<open>jsarray.c\<close>.  The locale \<open>total_comparator\<close> is
    the contract of a comparator, met by the default string comparator, and \<open>quiet_comparator\<close> says that comparing leaves
    a view of the state alone.  The object lives in the state; reading, writing and deleting its elements may fail at any
    time, and the property on arrays says what is then written.
  \<^item> Jobs, Jobs\_Correct: the job queue \<open>jsjobs.c\<close>, linked objects that form a first-in first-out list, and its drain, which the
    branch callback or an exception can stop.
  \<^item> Promise, Promise\_Correct, Promise\_Order: \<open>jspromise.c\<close> on top of the job queue.  What runs between the native
    steps is a script, an arbitrary sequence of the calls a script can make, so the calls are a mutually inductive
    relation; the invariant counts who holds the right to settle a promise, and gives that a promise settles once and that
    the assertion of the code holds; settling queues the reactions in order, the first few of them when a step fails.
  \<^item> Module, Module\_Link: ES2015 modules, \<open>jsmodule.c\<close>, and the lexical bindings of their environments (\<open>jsrealm.c\<close>):
    what the parser and the host add to a record, \<open>ResolveExport\<close>, namespaces, linking and evaluation.  Module objects
    are addresses into a store of records, so graphs may share modules and be cyclic.
  \<^item> Module\_Records: the parser keeps specifiers and export names distinct and indices in range.
  \<^item> Module\_Correct: \<open>targets\<close>, the bindings the re-exports of a name reach in the graph, is the specification of
    \<open>ResolveExport\<close>, which prunes what is on its path and stops early.
  \<^item> Module\_Names: the entries of a namespace are the sorted names with exactly one target.
  \<^item> Module\_Linked: the relation \<open>links\<close> says which records linking keeps (but for a namespace object made for a module
    without one), and \<open>linked_well\<close> what a linked module has, its environment included; \<open>links\<close> is kept by every step and composes, which carries the mutual recursion of linking and namespaces.
  \<^item> Module\_Evaluation: bodies run once and after their dependencies.  Module\_Samples: a cyclic graph of two modules,
    at which these properties are evaluated.
  \<^item> Bignum: the multiple-precision integers of \<open>jsdtoa.c\<close> with the free lists and the cached powers of 5, and the
    conversion of doubles to them.  A number is its allocation, and ownership of it passes by value, as the code hands it on.
  \<^item> Bignum\_Words, Bignum\_Correct, Bignum\_Ops, Bignum\_Powers: what the loops over words compute, and each operation as
    one on natural numbers.  \<open>gives\<close> is the contract of an operation that allocates: it has a result, null only if an
    allocation fails, and keeps the invariant \<open>dtoa_ok\<close> of the state.
  \<^item> Dtobase, Dtobase\_Correct, Dtobase\_String, Dtoa\_Correct: \<open>JS_dtobasestr\<close>, which prints a double in a base: the value
    of a double in units of \<open>2 ^ -1074\<close>, the loop that generates the shortest fraction, and the properties of the file.

  \<^bold>\<open>Fuel and bounds\<close>

  Loops that always end are total functions with a termination proof.  The probe loop of the double-hashing table has as
  fuel the capacity of the table, after which a probe sequence repeats; the walk over the reactions of a promise has the
  number of reactions, since they are linked from older to newer.  The native stack that the recursions over modules
  check is the number of frames left; running out is the error the code reports, and resolving needs one frame more
  than there are pairs of a module and a name to visit.  The drain loop of the job queue may not end and is a
  partial function, with a theorem that it ends when jobs enqueue less than they are.  The digit loops of \<open>JS_dtobasestr\<close>
  are partial functions too, with theorems that they end: the margins of the fraction grow with every digit until one of
  them decides, after at most 1074 digits.  Values of multiple-precision integers are below \<open>2 ^ (32 * 2 ^ m)\<close>
  with \<open>m \<le> 28\<close>, as far as the exponents of allocations stay below 31; printing a double needs \<open>m = 6\<close>.

  \<^bold>\<open>Not modelled\<close>

  Of the engine: parser, scanner, emitter, interpreter, collector, scopes and objects, regular expressions, XML, dates,
  decimal number conversion (\<open>JS_strtod\<close> and \<open>js_dtoa\<close> calculate in doubles; of \<open>jsdtoa.c\<close> also the locks, the private
  memory pool and the testing of allocation failures), and the natives that only move arguments.  \<open>Promise.all\<close>, \<open>Promise.race\<close>, realms and the set-up of
  classes; the compilation of modules, their marking and finalization, and the descriptors and iterator of a namespace
  (the body of a module runs as an argument, \<open>js_Execute\<close>); the metering and debugging code of the tables; floating-point configuration of \<open>jsdhash.c\<close> and the
  floating-point conversions of \<open>jslong.h\<close>.  Outside the engine, the repository is third-party libraries (SQLite, NSS,
  zlib, image and font libraries, expat), the C++ browser, and generated data.
\<close>

end
